(* ===== verification/Prelude.thy ===== *)
theory Prelude
  imports Main "HOL-Library.Word"
begin

text \<open>
  Shared vocabulary of the development: the machine integer types of the C sources, the
  status codes of the platform layer, the collections of rewrite rules the component
  theories extend, and generic lemmas on words, lists and sums that several components use.

  Conventions:
  \<^item> a \<open>uintN\<close> of the source is an \<open>N word\<close>, or a \<open>nat\<close> where the value is an in-memory
    index or size; a store of a \<open>nat\<close> into a narrow field goes through \<open>u16\<close>, which
    writes the truncation out;
  \<^item> a function that can hit a \<open>platform_assert\<close> returns an \<open>option\<close>: \<open>None\<close> is the
    aborted process;
  \<^item> \<open>debug_assert\<close> is compiled out of release builds, so it is no branch of the model; where
    it matters, that it holds is a theorem.
\<close>

unbundle bit_operations_syntax

type_synonym byte = "8 word"
type_synonym uint8 = "8 word"
type_synonym uint16 = "16 word"
type_synonym uint32 = "32 word"
type_synonym uint64 = "64 word"
type_synonym bytes = "byte list"

text \<open>The status codes the modelled functions return (\<open>platform_status\<close>).\<close>

datatype platform_status =
    STATUS_OK
  | STATUS_NO_MEMORY
  | STATUS_BAD_PARAM
  | STATUS_NO_SPACE
  | STATUS_BUSY
  | STATUS_NOT_FOUND

definition SUCCESS :: "platform_status \<Rightarrow> bool" where
  "SUCCESS rc \<longleftrightarrow> rc = STATUS_OK"

lemma SUCCESS_simps [simp]:
  "SUCCESS STATUS_OK"
  "\<not> SUCCESS STATUS_NO_MEMORY"
  "\<not> SUCCESS STATUS_BAD_PARAM"
  "\<not> SUCCESS STATUS_NO_SPACE"
  "\<not> SUCCESS STATUS_BUSY"
  "\<not> SUCCESS STATUS_NOT_FOUND"
  by (simp_all add: SUCCESS_def)

text \<open>The types of pages the components allocate and cache.\<close>

datatype page_type =
    PAGE_TYPE_INVALID
  | PAGE_TYPE_TRUNK
  | PAGE_TYPE_BRANCH
  | PAGE_TYPE_MEMTABLE
  | PAGE_TYPE_FILTER
  | PAGE_TYPE_LOG
  | PAGE_TYPE_SUPERBLOCK
  | PAGE_TYPE_MISC

text \<open>The eviction interval before the cache has measured one (\<open>cache.h\<close>).\<close>

definition EI_NOT_READY :: uint64 where
  "EI_NOT_READY = 0"

text \<open>Assignment of a \<open>nat\<close> quantity to a \<open>uint16\<close> field.\<close>

definition u16 :: "nat \<Rightarrow> nat" where
  "u16 n = n mod 65536"

lemma u16_small [simp]: "n < 65536 \<Longrightarrow> u16 n = n"
  by (simp add: u16_def)

lemma u16_less: "u16 n < 65536"
  by (simp add: u16_def)

text \<open>
  Collections: \<open>bit_simps\<close> holds the facts that read single bits of status words,
  \<open>inv_defs\<close> the definitions of the components' invariants, \<open>frame_simps\<close> the facts that
  an operation leaves a field alone.
\<close>

named_theorems word_bits "single bits of the masks and status words"
named_theorems inv_defs "definitions of the component invariants"
named_theorems frame_simps "fields an operation leaves unchanged"

subsection \<open>Words\<close>

lemma unat_le_max64: "unat (w :: uint64) \<le> 18446744073709551615"
  using unsigned_less [of w, where ?'a = nat] by simp

lemma unat_minus_one_word64 [simp]: "unat (- 1 :: uint64) = 18446744073709551615"
  by (simp add: unsigned_minus_1_eq_mask mask_eq_exp_minus_1)

lemma unat_plus_le64:
  fixes a b :: uint64
  assumes "unat a + unat b < 18446744073709551616"
  shows "unat (a + b) = unat a + unat b"
  using assms by (simp add: unat_word_ariths)

subsection \<open>Lists and sums\<close>

lemma sum_list_map_nth:
  "sum_list (map f xs) = (\<Sum>i<length xs. f (xs ! i))"
  by (simp add: sum_list_sum_nth lessThan_atLeast0)

text \<open>
  \<open>memcpy dst off src\<close>: the memory \<open>dst\<close> after \<open>length src\<close> bytes were written at offset
  \<open>off\<close>. The C function writes through a pointer; that the destination is long enough is
  a hypothesis of the lemmas, never a consequence of this definition.
\<close>

definition memcpy :: "'a list \<Rightarrow> nat \<Rightarrow> 'a list \<Rightarrow> 'a list" where
  "memcpy dst off src = take off dst @ src @ drop (off + length src) dst"

lemma length_memcpy [simp]:
  "off + length src \<le> length dst \<Longrightarrow> length (memcpy dst off src) = length dst"
  by (simp add: memcpy_def)

lemma take_memcpy_0 [simp]: "n = length src \<Longrightarrow> take n (memcpy dst 0 src) = src"
  by (simp add: memcpy_def)

lemma take_memcpy_off:
  "off \<le> length dst \<Longrightarrow> n = off + length src \<Longrightarrow> take n (memcpy dst off src) = take off dst @ src"
  by (simp add: memcpy_def)

subsection \<open>Interface: a three-way comparison\<close>

text \<open>
  What every client of a \<open>key_compare\<close> callback relies on, for the keys in \<open>dom\<close>: the result
  is zero exactly on equal keys, it changes sign when the arguments are swapped, and "less"
  is transitive.
\<close>

locale total_compare =
  fixes dom :: "'a \<Rightarrow> bool" and cmp :: "'a \<Rightarrow> 'a \<Rightarrow> int"
  assumes cmp_eq: "dom a \<Longrightarrow> dom b \<Longrightarrow> cmp a b = 0 \<longleftrightarrow> a = b"
    and cmp_sym: "dom a \<Longrightarrow> dom b \<Longrightarrow> 0 < cmp b a \<longleftrightarrow> cmp a b < 0"
    and cmp_trans: "dom a \<Longrightarrow> dom b \<Longrightarrow> dom c \<Longrightarrow> cmp a b < 0 \<Longrightarrow> cmp b c < 0 \<Longrightarrow> cmp a c < 0"
begin

lemma cmp_refl: "dom a \<Longrightarrow> cmp a a = 0"
  by (simp add: cmp_eq)

lemma cmp_le_less_trans:
  "dom a \<Longrightarrow> dom b \<Longrightarrow> dom c \<Longrightarrow> cmp a b \<le> 0 \<Longrightarrow> cmp b c < 0 \<Longrightarrow> cmp a c < 0"
  by (metis cmp_eq cmp_trans order_le_less)

lemma cmp_not_less: "dom a \<Longrightarrow> dom b \<Longrightarrow> \<not> cmp a b < 0 \<Longrightarrow> \<not> cmp b a < 0 \<Longrightarrow> a = b"
  by (metis cmp_eq cmp_sym linorder_neqE_linordered_idom)

end

end
