(* ===== verification/Util.thy ===== *)
theory Util
  imports Prelude
begin

text \<open>
  Model of \<open>util.h\<close>, \<open>util.c\<close> and \<open>public_util.h\<close>: slices and their lexicographic
  comparison, growable (writable) buffers, the string-to-integer parsers and the
  hexadecimal debug encoder.

  A slice is a pointer and a length; its contents are what the rest of the program uses, so
  it is modelled by them, with the null and the invalid slice apart. The memory of a
  writable buffer is the list of its bytes. The heap (\<open>platform_malloc\<close>, \<open>realloc\<close>) is a
  parameter \<open>malloc\<close> of the operations that allocate: for a size it yields memory with
  arbitrary contents, or \<open>None\<close>.
\<close>

section \<open>Definitions\<close>

subsection \<open>Slices\<close>

datatype slice = NULL_SLICE | INVALID_SLICE | Slice bytes

fun slice_length :: "slice \<Rightarrow> nat" where
  "slice_length NULL_SLICE = 0"
| "slice_length INVALID_SLICE = 2 ^ 64 - 1"
| "slice_length (Slice bs) = length bs"

fun slice_data :: "slice \<Rightarrow> bytes option" where
  "slice_data NULL_SLICE = None"
| "slice_data INVALID_SLICE = None"
| "slice_data (Slice bs) = Some bs"

definition slice_is_null :: "slice \<Rightarrow> bool" where
  "slice_is_null b \<longleftrightarrow> slice_length b = 0 \<and> slice_data b = None"

definition slice_bytes :: "slice \<Rightarrow> bytes" where
  "slice_bytes s = (case slice_data s of None \<Rightarrow> [] | Some bs \<Rightarrow> bs)"

text \<open>\<open>memcmp\<close> on two blocks of the same length; the C standard fixes the sign of its result.\<close>

fun memcmp :: "bytes \<Rightarrow> bytes \<Rightarrow> int" where
  "memcmp (x # xs) (y # ys) = (if x < y then - 1 else if y < x then 1 else memcmp xs ys)"
| "memcmp _ _ = 0"

text \<open>
  The last branch returns \<open>len1 - len2\<close>, a \<open>uint64\<close>, through the return type \<open>int\<close>: the low
  32 bits, read as signed.
\<close>

definition slice_lex_cmp :: "slice \<Rightarrow> slice \<Rightarrow> int" where
  "slice_lex_cmp a b =
     (let len1 = slice_length a;
          len2 = slice_length b;
          minlen = (if len1 < len2 then len1 else len2);
          cmp = memcmp (take minlen (slice_bytes a)) (take minlen (slice_bytes b))
      in if cmp \<noteq> 0 then cmp
         else if len1 < len2 then - 1
         else sint (word_of_nat (len1 - len2) :: uint32))"

subsection \<open>Integers and fractions\<close>

text \<open>\<open>int64abs\<close>: the cast, the negation and the additions are those of the source, on 64 bits.\<close>

definition int64abs :: "uint64 \<Rightarrow> uint64" where
  "int64abs j = (if 0 \<le> sint j then j else (- (j + 1)) + 1)"

record fraction =
  numerator :: uint64
  denominator :: uint64

definition init_fraction :: "uint64 \<Rightarrow> uint64 \<Rightarrow> fraction" where
  "init_fraction n d = \<lparr>numerator = n, denominator = d\<rparr>"

definition zero_fraction :: fraction where
  "zero_fraction = \<lparr>numerator = 0, denominator = 1\<rparr>"

definition fraction_init_or_zero :: "uint64 \<Rightarrow> uint64 \<Rightarrow> fraction" where
  "fraction_init_or_zero num den = (if den \<noteq> 0 then init_fraction num den else zero_fraction)"

definition array_sum :: "uint64 list \<Rightarrow> uint64" where
  "array_sum arr = fold (\<lambda>x sum. sum + x) arr 0"

definition array_accumulate_add :: "uint64 list \<Rightarrow> uint64 list \<Rightarrow> uint64 list" where
  "array_accumulate_add dst src = map2 (+) dst src"

definition array_accumulate_max :: "uint64 list \<Rightarrow> uint64 list \<Rightarrow> uint64 list" where
  "array_accumulate_max dst src = map2 max dst src"

definition arrays_fraction :: "uint64 list \<Rightarrow> uint64 list \<Rightarrow> fraction list" where
  "arrays_fraction num den = map2 fraction_init_or_zero num den"

definition arrays_subtract :: "uint64 list \<Rightarrow> uint64 list \<Rightarrow> uint64 list" where
  "arrays_subtract a b = map2 (-) a b"

subsection \<open>Writable buffers\<close>

type_synonym malloc_fn = "nat \<Rightarrow> bytes option"

record writable_buffer =
  wb_buffer :: "bytes option"
  wb_capacity :: uint64
  wb_length :: uint64
  wb_can_free :: bool

definition WRITABLE_BUFFER_NULL_LENGTH :: uint64 where
  "WRITABLE_BUFFER_NULL_LENGTH = - 1"

definition writable_buffer_length :: "writable_buffer \<Rightarrow> uint64" where
  "writable_buffer_length wb =
     (if wb_length wb = WRITABLE_BUFFER_NULL_LENGTH then 0 else wb_length wb)"

definition writable_buffer_capacity :: "writable_buffer \<Rightarrow> uint64" where
  "writable_buffer_capacity wb = wb_capacity wb"

definition writable_buffer_data :: "writable_buffer \<Rightarrow> bytes option" where
  "writable_buffer_data wb =
     (if wb_length wb = WRITABLE_BUFFER_NULL_LENGTH then None else wb_buffer wb)"

definition writable_buffer_is_null :: "writable_buffer \<Rightarrow> bool" where
  "writable_buffer_is_null wb \<longleftrightarrow> wb_length wb = WRITABLE_BUFFER_NULL_LENGTH"

definition writable_buffer_init_with_buffer :: "uint64 \<Rightarrow> bytes option \<Rightarrow> uint64 \<Rightarrow> writable_buffer" where
  "writable_buffer_init_with_buffer allocation_size data logical_size =
     \<lparr>wb_buffer = data, wb_capacity = allocation_size, wb_length = logical_size,
      wb_can_free = False\<rparr>"

definition writable_buffer_init :: writable_buffer where
  "writable_buffer_init = writable_buffer_init_with_buffer 0 None WRITABLE_BUFFER_NULL_LENGTH"

definition writable_buffer_set_to_null :: "writable_buffer \<Rightarrow> writable_buffer" where
  "writable_buffer_set_to_null wb = wb\<lparr>wb_length := WRITABLE_BUFFER_NULL_LENGTH\<rparr>"

definition writable_buffer_deinit :: "writable_buffer \<Rightarrow> writable_buffer" where
  "writable_buffer_deinit wb = wb\<lparr>wb_buffer := None, wb_can_free := False\<rparr>"

text \<open>\<open>realloc\<close>: the new block keeps the old contents and is arbitrary beyond them.\<close>

definition platform_realloc :: "malloc_fn \<Rightarrow> bytes \<Rightarrow> nat \<Rightarrow> bytes option" where
  "platform_realloc malloc old newsize =
     (case malloc newsize of
        None \<Rightarrow> None
      | Some junk \<Rightarrow> Some (take newsize old @ drop (length old) junk))"

definition writable_buffer_ensure_space ::
  "malloc_fn \<Rightarrow> writable_buffer \<Rightarrow> uint64 \<Rightarrow> platform_status \<times> writable_buffer" where
  "writable_buffer_ensure_space malloc wb minspace0 =
     (if minspace0 \<le> wb_capacity wb then (STATUS_OK, wb)
      else
        let minspace = (if minspace0 < 2 * wb_capacity wb then 2 * wb_capacity wb else minspace0);
            newdata =
              (if wb_can_free wb
               then platform_realloc malloc
                      (case wb_buffer wb of None \<Rightarrow> [] | Some b \<Rightarrow> b) (unat minspace)
               else (case malloc (unat minspace) of
                       None \<Rightarrow> None
                     | Some newbuf \<Rightarrow>
                         (case writable_buffer_data wb of
                            None \<Rightarrow> Some newbuf
                          | Some buffer \<Rightarrow>
                              Some (memcpy newbuf 0 (take (unat (wb_length wb)) buffer)))))
        in (case newdata of
              None \<Rightarrow> (STATUS_NO_MEMORY, wb)
            | Some d \<Rightarrow>
                (STATUS_OK,
                 wb\<lparr>wb_capacity := minspace, wb_buffer := Some d, wb_can_free := True\<rparr>)))"

definition writable_buffer_resize ::
  "malloc_fn \<Rightarrow> writable_buffer \<Rightarrow> uint64 \<Rightarrow> (platform_status \<times> writable_buffer) option" where
  "writable_buffer_resize malloc wb newlength =
     (if newlength = WRITABLE_BUFFER_NULL_LENGTH then None
      else
        let (rc, wb') = writable_buffer_ensure_space malloc wb newlength
        in if \<not> SUCCESS rc then Some (rc, wb') else Some (rc, wb'\<lparr>wb_length := newlength\<rparr>))"

definition wb_write :: "writable_buffer \<Rightarrow> nat \<Rightarrow> bytes \<Rightarrow> writable_buffer" where
  "wb_write wb off src =
     (case wb_buffer wb of
        None \<Rightarrow> wb
      | Some b \<Rightarrow> wb\<lparr>wb_buffer := Some (memcpy b off src)\<rparr>)"

text \<open>The second argument of \<open>writable_buffer_memset\<close> is ignored by the source: it writes zeros.\<close>

definition writable_buffer_memset :: "writable_buffer \<Rightarrow> byte \<Rightarrow> writable_buffer" where
  "writable_buffer_memset wb c =
     (if wb_length wb = WRITABLE_BUFFER_NULL_LENGTH then wb
      else wb_write wb 0 (replicate (unat (wb_length wb)) 0))"

definition writable_buffer_copy_slice ::
  "malloc_fn \<Rightarrow> writable_buffer \<Rightarrow> slice \<Rightarrow> (platform_status \<times> writable_buffer) option" where
  "writable_buffer_copy_slice malloc wb src =
     (case writable_buffer_resize malloc wb (word_of_nat (slice_length src)) of
        None \<Rightarrow> None
      | Some (rc, wb') \<Rightarrow>
          if \<not> SUCCESS rc then Some (rc, wb')
          else Some (rc, wb_write wb' 0 (slice_bytes src)))"

definition writable_buffer_init_from_slice ::
  "malloc_fn \<Rightarrow> slice \<Rightarrow> (platform_status \<times> writable_buffer) option" where
  "writable_buffer_init_from_slice malloc contents =
     writable_buffer_copy_slice malloc writable_buffer_init contents"

definition writable_buffer_to_slice :: "writable_buffer \<Rightarrow> slice" where
  "writable_buffer_to_slice wb =
     (if wb_length wb = WRITABLE_BUFFER_NULL_LENGTH then NULL_SLICE
      else (case wb_buffer wb of
              None \<Rightarrow> NULL_SLICE
            | Some b \<Rightarrow> Slice (take (unat (wb_length wb)) b)))"

definition writable_buffer_append ::
  "malloc_fn \<Rightarrow> writable_buffer \<Rightarrow> bytes \<Rightarrow> (platform_status \<times> writable_buffer) option" where
  "writable_buffer_append malloc wb newdata =
     (let oldsize = writable_buffer_length wb
      in case writable_buffer_resize malloc wb (oldsize + word_of_nat (length newdata)) of
           None \<Rightarrow> None
         | Some (rc, wb') \<Rightarrow>
             if SUCCESS rc then Some (rc, wb_write wb' (unat oldsize) newdata)
             else Some (rc, wb'))"

subsection \<open>Parsing integers\<close>

text \<open>
  Strings are lists of character codes; reading at or past the end gives the terminating
  NUL. The classification functions are those of the C locale.
\<close>

type_synonym cstring = "nat list"

definition cstr :: "string \<Rightarrow> cstring" where
  "cstr s = map of_char s"

definition c_isspace :: "nat \<Rightarrow> bool" where
  "c_isspace c \<longleftrightarrow> c = 32 \<or> (9 \<le> c \<and> c \<le> 13)"

definition c_isascii :: "nat \<Rightarrow> bool" where
  "c_isascii c \<longleftrightarrow> c < 128"

definition c_isdigit :: "nat \<Rightarrow> bool" where
  "c_isdigit c \<longleftrightarrow> 48 \<le> c \<and> c \<le> 57"

definition c_isupper :: "nat \<Rightarrow> bool" where
  "c_isupper c \<longleftrightarrow> 65 \<le> c \<and> c \<le> 90"

definition c_isalpha :: "nat \<Rightarrow> bool" where
  "c_isalpha c \<longleftrightarrow> c_isupper c \<or> (97 \<le> c \<and> c \<le> 122)"

fun next_char :: "cstring \<Rightarrow> nat \<times> cstring" where
  "next_char [] = (0, [])"
| "next_char (c # s) = (c, s)"

text \<open>\<open>do { c = *s++; } while (isspace(c));\<close>\<close>

fun skip_spaces :: "cstring \<Rightarrow> nat \<times> cstring" where
  "skip_spaces [] = (0, [])"
| "skip_spaces (c # s) = (if c_isspace c then skip_spaces s else (c, s))"

definition digit_value :: "nat \<Rightarrow> nat option" where
  "digit_value c =
     (if c_isdigit c then Some (c - 48)
      else if c_isalpha c then Some (c - (if c_isupper c then 65 - 10 else 97 - 10))
      else None)"

text \<open>
  The conversion loop from the character \<open>c\<close> with \<open>s\<close> left to read: \<open>None\<close> is a jump to one
  of the failure labels, \<open>Some (value, converted_any, c, s)\<close> the state at the loop's end.
\<close>

fun convert_loop ::
  "nat \<Rightarrow> nat \<Rightarrow> nat \<Rightarrow> nat \<Rightarrow> cstring \<Rightarrow> nat \<Rightarrow> bool \<Rightarrow> (nat \<times> bool \<times> nat \<times> cstring) option" where
  "convert_loop base cutoff cutlim c s value any =
     (if c = 0 then Some (value, any, c, s)
      else if c_isspace c then Some (value, any, c, s)
      else if \<not> c_isascii c then None
      else (case digit_value c of
              None \<Rightarrow> None
            | Some d \<Rightarrow>
                if base \<le> d then None
                else if cutoff < value \<or> (value = cutoff \<and> cutlim < d) then None
                else
                  let value' = (value * base mod 2 ^ 64 + d) mod 2 ^ 64
                  in (case s of
                        [] \<Rightarrow> Some (value', True, 0, [])
                      | c' # s' \<Rightarrow> convert_loop base cutoff cutlim c' s' value' True)))"

text \<open>
  What follows the sign: base detection at the character \<open>c1\<close> with \<open>s1\<close> left, conversion
  below the limit, trailing spaces and the end of the string.
\<close>

definition parse_number :: "nat \<Rightarrow> cstring \<Rightarrow> nat \<Rightarrow> nat option" where
  "parse_number c1 s1 limit =
     (let hex = (c1 = 48 \<and> (fst (next_char s1) = 120 \<or> fst (next_char s1) = 88));
          base = (if hex then 16 else if c1 = 48 then 8 else 10 :: nat);
          (c2, s2) = (if hex then next_char (drop 1 s1) else (c1, s1));
          cutoff = limit div base;
          cutlim = limit mod base
      in case convert_loop base cutoff cutlim c2 s2 0 False of
           None \<Rightarrow> None
         | Some (value, any, c3, s3) \<Rightarrow>
             let (c4, s4) = (if c_isspace c3 then skip_spaces s3 else (c3, s3))
             in if c4 \<noteq> 0 then None
                else if \<not> any then None
                else Some value)"

definition try_string_to_uint64_limit :: "cstring \<Rightarrow> nat \<Rightarrow> nat \<Rightarrow> uint64 option" where
  "try_string_to_uint64_limit nptr negative_limit positive_limit =
     (let (c0, s0) = skip_spaces nptr in
      if c0 = 45 \<and> negative_limit = 0 then None
      else
        let negative = (c0 = 45);
            (c1, s1) = (if c0 = 45 \<or> c0 = 43 then next_char s0 else (c0, s0));
            limit = (if negative then negative_limit else positive_limit)
        in case parse_number c1 s1 limit of
             None \<Rightarrow> None
           | Some value \<Rightarrow> Some (if negative then - word_of_nat value else word_of_nat value))"

definition try_string_to_uint64 :: "cstring \<Rightarrow> uint64 option" where
  "try_string_to_uint64 nptr = try_string_to_uint64_limit nptr 0 (2 ^ 64 - 1)"

text \<open>The \<open>int64\<close> result is the same 64 bits, read as signed.\<close>

definition try_string_to_int64 :: "cstring \<Rightarrow> int option" where
  "try_string_to_int64 nptr =
     map_option sint (try_string_to_uint64_limit nptr (2 ^ 63 - 1 + 1) (2 ^ 63 - 1))"

definition try_string_to_uint_max :: "nat \<Rightarrow> cstring \<Rightarrow> nat option" where
  "try_string_to_uint_max limit nptr =
     (case try_string_to_uint64 nptr of
        None \<Rightarrow> None
      | Some tmp \<Rightarrow> if limit < unat tmp then None else Some (unat tmp))"

definition try_string_to_uint32 :: "cstring \<Rightarrow> nat option" where
  "try_string_to_uint32 = try_string_to_uint_max (2 ^ 32 - 1)"

definition try_string_to_uint16 :: "cstring \<Rightarrow> nat option" where
  "try_string_to_uint16 = try_string_to_uint_max (2 ^ 16 - 1)"

definition try_string_to_uint8 :: "cstring \<Rightarrow> nat option" where
  "try_string_to_uint8 = try_string_to_uint_max (2 ^ 8 - 1)"

definition try_string_to_int_range :: "int \<Rightarrow> int \<Rightarrow> cstring \<Rightarrow> int option" where
  "try_string_to_int_range lo hi nptr =
     (case try_string_to_int64 nptr of
        None \<Rightarrow> None
      | Some tmp \<Rightarrow> if hi < tmp \<or> tmp < lo then None else Some tmp)"

definition try_string_to_int32 :: "cstring \<Rightarrow> int option" where
  "try_string_to_int32 = try_string_to_int_range (- (2 ^ 31)) (2 ^ 31 - 1)"

definition try_string_to_int16 :: "cstring \<Rightarrow> int option" where
  "try_string_to_int16 = try_string_to_int_range (- (2 ^ 15)) (2 ^ 15 - 1)"

definition try_string_to_int8 :: "cstring \<Rightarrow> int option" where
  "try_string_to_int8 = try_string_to_int_range (- (2 ^ 7)) (2 ^ 7 - 1)"

subsection \<open>Hexadecimal encoding\<close>

text \<open>A store through \<open>dst\<close>: \<open>None\<close> if it is outside the destination buffer.\<close>

definition poke :: "'a list \<Rightarrow> nat \<Rightarrow> 'a \<Rightarrow> 'a list option" where
  "poke dst i v = (if i < length dst then Some (dst[i := v]) else None)"

definition hex_table :: "nat list" where
  "hex_table = [48, 49, 50, 51, 52, 53, 54, 55, 56, 57, 97, 98, 99, 100, 101, 102]"

fun hex_loop :: "nat \<Rightarrow> nat \<Rightarrow> bytes \<Rightarrow> nat list \<Rightarrow> nat list option" where
  "hex_loop max_len dp [] dst = Some dst"
| "hex_loop max_len dp (x # data) dst =
     (if max_len - 1 \<le> dp then Some dst
      else Option.bind (poke dst dp (hex_table ! unat (drop_bit 4 (x AND 0xF0))))
             (\<lambda>dst1. Option.bind (poke dst1 (dp + 1) (hex_table ! unat (x AND 0x0F)))
             (\<lambda>dst2. hex_loop max_len (dp + 2) data dst2)))"

definition debug_hex_encode :: "nat list \<Rightarrow> bytes \<Rightarrow> nat list option" where
  "debug_hex_encode dst data =
     (let dst_len = length dst in
      if dst_len = 0 then Some dst
      else
        let max_len0 = 2 + 2 * length data + 1;
            max_len = (if dst_len < max_len0 then dst_len else max_len0)
        in if max_len = 1 then poke dst (max_len - 1) 0
           else Option.bind (poke dst 0 48)
                  (\<lambda>d0. Option.bind (poke d0 1 120)
                  (\<lambda>d1. Option.bind (hex_loop max_len 2 data d1)
                  (\<lambda>d2. poke d2 (max_len - 1) 0))))"

declare convert_loop.simps [simp del]

section \<open>Lexicographic comparison is a total order\<close>

text \<open>The specification: the order on byte strings in which a proper prefix is smaller.\<close>

fun lex_order :: "bytes \<Rightarrow> bytes \<Rightarrow> int" where
  "lex_order [] [] = 0"
| "lex_order [] (_ # _) = - 1"
| "lex_order (_ # _) [] = 1"
| "lex_order (x # xs) (y # ys) = (if x < y then - 1 else if y < x then 1 else lex_order xs ys)"

lemma lex_order_eq: "lex_order a b = 0 \<longleftrightarrow> a = b"
  by (induction a b rule: lex_order.induct) auto

lemma lex_order_sym: "lex_order b a = - lex_order a b"
  by (induction a b rule: lex_order.induct) auto

lemma lex_order_trans: "lex_order a b < 0 \<Longrightarrow> lex_order b c < 0 \<Longrightarrow> lex_order a c < 0"
proof (induction a b arbitrary: c rule: lex_order.induct)
  case (2 y ys)
  then show ?case by (cases c) (auto split: if_splits)
next
  case (4 x xs y ys)
  then show ?case by (cases c) (auto split: if_splits)
qed auto

lemma sint_small_nat: "n < 2 ^ 31 \<Longrightarrow> sint (word_of_nat n :: uint32) = int n"
  by (simp add: sint_uint signed_take_bit_int_eq_self unsigned_of_nat take_bit_nat_eq_self)

lemma memcmp_lex_order:
  "(let m = min (length a) (length b); c = memcmp (take m a) (take m b)
    in if c \<noteq> 0 then c else if length a < length b then - 1 else if length b < length a then 1 else 0)
   = lex_order a b"
  by (induction a b rule: lex_order.induct) (auto simp: Let_def)

lemma slice_lex_cmp_sgn:
  assumes "length a < 2 ^ 31" "length b < 2 ^ 31"
  shows "sgn (slice_lex_cmp (Slice a) (Slice b)) = lex_order a b"
proof -
  have m: "(if length a < length b then length a else length b) = min (length a) (length b)"
    by simp
  have s: "sint (word_of_nat (length a - length b) :: uint32) = int (length a - length b)"
    using assms by (intro sint_small_nat) simp
  have mem: "sgn (memcmp xs ys) = memcmp xs ys" for xs ys
    by (induction xs ys rule: memcmp.induct) auto
  show ?thesis
    unfolding slice_lex_cmp_def slice_length.simps m
    using s memcmp_lex_order [of a b, symmetric]
    by (auto simp: Let_def slice_bytes_def mem)
qed

lemma slice_lex_cmp_signs:
  assumes "length a < 2 ^ 31" "length b < 2 ^ 31"
  shows "slice_lex_cmp (Slice a) (Slice b) = 0 \<longleftrightarrow> lex_order a b = 0"
    and "slice_lex_cmp (Slice a) (Slice b) < 0 \<longleftrightarrow> lex_order a b < 0"
    and "0 < slice_lex_cmp (Slice a) (Slice b) \<longleftrightarrow> 0 < lex_order a b"
  unfolding slice_lex_cmp_sgn [OF assms, symmetric] by (auto simp: sgn_if)

interpretation lex: total_compare "\<lambda>a. length a < 2 ^ 31" "\<lambda>a b. slice_lex_cmp (Slice a) (Slice b)"
proof
  fix a b c :: bytes
  assume a: "length a < 2 ^ 31" and b: "length b < 2 ^ 31"
  show "slice_lex_cmp (Slice a) (Slice b) = 0 \<longleftrightarrow> a = b"
    using a b by (simp only: slice_lex_cmp_signs lex_order_eq)
  show "0 < slice_lex_cmp (Slice b) (Slice a) \<longleftrightarrow> slice_lex_cmp (Slice a) (Slice b) < 0"
    using a b by (simp only: slice_lex_cmp_signs) (simp add: lex_order_sym [of b a])
  assume c: "length c < 2 ^ 31"
  assume "slice_lex_cmp (Slice a) (Slice b) < 0" "slice_lex_cmp (Slice b) (Slice c) < 0"
  then show "slice_lex_cmp (Slice a) (Slice c) < 0"
    using a b c by (simp only: slice_lex_cmp_signs) (blast intro: lex_order_trans)
qed

lemma lex_cmp_truncates: "slice_lex_cmp (Slice (replicate (2 ^ 32) 0)) (Slice []) = 0"
  by (simp add: slice_lex_cmp_def slice_bytes_def)


lemma uint_mod_sint: "uint (j :: uint64) = sint j mod 2 ^ 64"
  using uint_sint [of j] by (simp add: take_bit_eq_mod)

lemma sint_range64: "- (2 ^ 63) \<le> sint (j :: uint64) \<and> sint j < 2 ^ 63"
  using sint_greater_eq [of j] sint_less [of j] by simp

lemma int64abs_correct: "uint (int64abs j) = \<bar>sint j\<bar>"
proof (cases "0 \<le> sint j")
  case True
  then show ?thesis
    using sint_range64 [of j] by (simp add: int64abs_def uint_mod_sint)
next
  case False
  have "uint (- j) = (- uint j) mod 2 ^ 64"
    by (simp add: uint_word_ariths)
  also have "\<dots> = (- sint j) mod 2 ^ 64"
    by (simp only: uint_mod_sint mod_minus_eq)
  finally have "uint (- j) = (- sint j) mod 2 ^ 64" .
  with False show ?thesis
    using sint_range64 [of j] by (simp add: int64abs_def)
qed

section \<open>Writable buffers\<close>

text \<open>
  The heap's contract: memory of the requested size. The invariant of a buffer in use: it
  is null or its length is within the capacity, and the capacity is the size of the memory.
\<close>

definition malloc_ok :: "malloc_fn \<Rightarrow> bool" where
  "malloc_ok malloc \<longleftrightarrow> (\<forall>n b. malloc n = Some b \<longrightarrow> length b = n)"

definition wb_inv :: "writable_buffer \<Rightarrow> bool" where
  "wb_inv wb \<longleftrightarrow>
     (wb_length wb = WRITABLE_BUFFER_NULL_LENGTH \<or> wb_length wb \<le> wb_capacity wb) \<and>
     (case wb_buffer wb of None \<Rightarrow> wb_capacity wb = 0 \<and> \<not> wb_can_free wb
      | Some b \<Rightarrow> length b = unat (wb_capacity wb))"

definition wb_contents :: "writable_buffer \<Rightarrow> bytes" where
  "wb_contents wb = slice_bytes (writable_buffer_to_slice wb)"

lemma wb_inv_init: "wb_inv writable_buffer_init"
  by (simp add: wb_inv_def writable_buffer_init_def writable_buffer_init_with_buffer_def)

lemma wb_contents_alt:
  "wb_contents wb = (case writable_buffer_data wb of None \<Rightarrow> [] | Some b \<Rightarrow> take (unat (wb_length wb)) b)"
  by (simp add: wb_contents_def writable_buffer_to_slice_def writable_buffer_data_def slice_bytes_def
        split: option.splits)

lemma wb_contents_length:
  assumes "wb_inv wb"
  shows "length (wb_contents wb) = unat (writable_buffer_length wb)"
  using assms
  by (auto simp: wb_inv_def wb_contents_alt writable_buffer_data_def writable_buffer_length_def
        word_le_nat_alt split: option.splits)

lemma ensure_space_ok:
  assumes inv: "wb_inv wb" and m: "malloc_ok malloc"
    and e: "writable_buffer_ensure_space malloc wb n = (rc, wb')"
  shows "wb_inv wb' \<and> wb_length wb' = wb_length wb \<and> wb_capacity wb \<le> wb_capacity wb'
    \<and> wb_contents wb' = wb_contents wb
    \<and> (rc = STATUS_OK \<and> n \<le> wb_capacity wb' \<or> rc = STATUS_NO_MEMORY \<and> wb' = wb)"
proof (cases "n \<le> wb_capacity wb")
  case True
  with e inv show ?thesis by (auto simp: writable_buffer_ensure_space_def)
next
  case False
  define ms where "ms = (if n < 2 * wb_capacity wb then 2 * wb_capacity wb else n)"
  have n: "n \<le> ms" "wb_capacity wb \<le> ms"
    using False by (auto simp: ms_def)
  then have u: "unat (wb_capacity wb) \<le> unat ms" by (simp add: word_le_nat_alt)
  show ?thesis
  proof (cases "malloc (unat ms)")
    case None
    then show ?thesis
      using e inv False unfolding writable_buffer_ensure_space_def
      by (auto simp: Let_def platform_realloc_def ms_def [symmetric] split: if_splits)
  next
    case (Some junk)
    then have lj: "length junk = unat ms" using m by (simp add: malloc_ok_def)
    have "wb_length wb \<noteq> WRITABLE_BUFFER_NULL_LENGTH \<Longrightarrow> unat (wb_length wb) \<le> unat (wb_capacity wb)"
      using inv by (simp add: wb_inv_def word_le_nat_alt)
    with Some lj u n e inv False show ?thesis
      unfolding writable_buffer_ensure_space_def
      by (auto simp: Let_def platform_realloc_def ms_def [symmetric] wb_inv_def wb_contents_alt
           writable_buffer_data_def word_le_nat_alt split: if_splits option.splits)
  qed
qed

lemma resize_ok:
  assumes inv: "wb_inv wb" and m: "malloc_ok malloc" and n: "n \<noteq> WRITABLE_BUFFER_NULL_LENGTH"
  obtains rc wb' where "writable_buffer_resize malloc wb n = Some (rc, wb')" "wb_inv wb'"
    "wb_capacity wb \<le> wb_capacity wb'"
    "rc = STATUS_OK \<and> wb_length wb' = n \<and> n \<le> wb_capacity wb'
       \<and> take (unat n) (wb_contents wb) = take (length (wb_contents wb)) (wb_contents wb')
     \<or> rc = STATUS_NO_MEMORY \<and> wb' = wb"
proof -
  obtain rc wb1 where e: "writable_buffer_ensure_space malloc wb n = (rc, wb1)"
    by (cases "writable_buffer_ensure_space malloc wb n")
  note E = ensure_space_ok [OF inv m e]
  show ?thesis
  proof (cases "rc = STATUS_OK")
    case False
    with E e n that show ?thesis by (auto simp: writable_buffer_resize_def)
  next
    case True
    let ?wb' = "wb1\<lparr>wb_length := n\<rparr>"
    have "take (unat n) (wb_contents wb1) = take (length (wb_contents wb1)) (wb_contents ?wb')"
      using E n True
      by (auto simp: wb_contents_alt writable_buffer_data_def wb_inv_def min_def split: option.splits)
    with True E e n show ?thesis
      by (intro that [of rc ?wb']) (auto simp: writable_buffer_resize_def wb_inv_def split: option.splits)
  qed
qed


lemma resize_length:
  assumes "wb_inv wb" "wb_length wb \<noteq> WRITABLE_BUFFER_NULL_LENGTH"
  shows "length (wb_contents wb) = unat (wb_length wb)"
  using wb_contents_length [OF assms(1)] assms(2) by (simp add: writable_buffer_length_def)

lemma wb_write_frame [simp]:
  "wb_length (wb_write wb off src) = wb_length wb"
  "wb_capacity (wb_write wb off src) = wb_capacity wb"
  "wb_can_free (wb_write wb off src) = wb_can_free wb"
  by (simp_all add: wb_write_def split: option.splits)

lemma take_memcpy_inside:
  assumes "off + length src \<le> n" "n \<le> length b"
  shows "take n (memcpy b off src) = memcpy (take n b) off src"
proof -
  have "off \<le> n" using assms by simp
  then show ?thesis using assms by (simp add: memcpy_def drop_take min_absorb1)
qed

lemma wb_write_ok:
  assumes inv: "wb_inv wb" and nn: "wb_length wb \<noteq> WRITABLE_BUFFER_NULL_LENGTH"
    and fits: "off + length src \<le> unat (wb_length wb)"
  shows "wb_inv (wb_write wb off src)"
    and "wb_contents (wb_write wb off src) = memcpy (wb_contents wb) off src"
proof -
  have le: "unat (wb_length wb) \<le> unat (wb_capacity wb)"
    using inv nn by (simp add: wb_inv_def word_le_nat_alt)
  show "wb_inv (wb_write wb off src)"
    using inv le fits by (auto simp: wb_inv_def wb_write_def split: option.splits)
  show "wb_contents (wb_write wb off src) = memcpy (wb_contents wb) off src"
    using inv nn le fits
    by (auto simp: wb_inv_def wb_write_def wb_contents_alt writable_buffer_data_def
          take_memcpy_inside memcpy_def drop_take split: option.splits)
qed

lemma unat_of_nat64: "n < 2 ^ 64 \<Longrightarrow> unat (word_of_nat n :: uint64) = n"
  by (simp add: unsigned_of_nat take_bit_nat_eq_self)

lemma copy_slice_ok:
  assumes inv: "wb_inv wb" and m: "malloc_ok malloc" and n: "slice_length src < 2 ^ 64 - 1"
  obtains rc wb' where "writable_buffer_copy_slice malloc wb src = Some (rc, wb')" "wb_inv wb'"
    "wb_capacity wb \<le> wb_capacity wb'"
    "rc = STATUS_OK \<and> wb_length wb' = word_of_nat (slice_length src) \<and> wb_contents wb' = slice_bytes src
     \<or> rc = STATUS_NO_MEMORY \<and> wb' = wb"
proof -
  let ?n = "word_of_nat (slice_length src) :: uint64"
  have un: "unat ?n = slice_length src" using n by (simp add: unat_of_nat64)
  then have nn: "?n \<noteq> WRITABLE_BUFFER_NULL_LENGTH"
    using n by (auto simp: WRITABLE_BUFFER_NULL_LENGTH_def)
  have ls: "length (slice_bytes src) = slice_length src"
    using n by (cases src) (simp_all add: slice_bytes_def)
  obtain rc wb1 where r: "writable_buffer_resize malloc wb ?n = Some (rc, wb1)" "wb_inv wb1"
    "wb_capacity wb \<le> wb_capacity wb1"
    "rc = STATUS_OK \<and> wb_length wb1 = ?n \<or> rc = STATUS_NO_MEMORY \<and> wb1 = wb"
    by (rule resize_ok [OF inv m nn]) blast
  show ?thesis
  proof (cases "rc = STATUS_OK")
    case True
    with r have l: "wb_length wb1 = ?n" by auto
    note W = wb_write_ok [OF r(2), of 0 "slice_bytes src"]
    have "length (wb_contents wb1) = slice_length src"
      using resize_length [OF r(2)] l nn un by simp
    with W True r l nn un ls show ?thesis
      by (intro that [of rc "wb_write wb1 0 (slice_bytes src)"])
        (simp_all add: writable_buffer_copy_slice_def memcpy_def)
  next
    case False
    with r show ?thesis
      by (intro that [of rc wb1]) (auto simp: writable_buffer_copy_slice_def)
  qed
qed

lemma append_ok:
  assumes inv: "wb_inv wb" and m: "malloc_ok malloc"
    and n: "length (wb_contents wb) + length newdata < 2 ^ 64 - 1"
  obtains rc wb' where "writable_buffer_append malloc wb newdata = Some (rc, wb')" "wb_inv wb'"
    "wb_capacity wb \<le> wb_capacity wb'"
    "rc = STATUS_OK \<and> wb_length wb' \<noteq> WRITABLE_BUFFER_NULL_LENGTH
        \<and> wb_contents wb' = wb_contents wb @ newdata
     \<or> rc = STATUS_NO_MEMORY \<and> wb' = wb"
proof -
  let ?old = "writable_buffer_length wb"
  let ?n = "?old + word_of_nat (length newdata) :: uint64"
  have lo: "unat ?old = length (wb_contents wb)" using wb_contents_length [OF inv] by simp
  have un: "unat ?n = length (wb_contents wb) + length newdata"
    using n lo by (simp add: unat_plus_le64 unat_of_nat64)
  then have nn: "?n \<noteq> WRITABLE_BUFFER_NULL_LENGTH"
    using n by (auto simp: WRITABLE_BUFFER_NULL_LENGTH_def)
  obtain rc wb1 where r: "writable_buffer_resize malloc wb ?n = Some (rc, wb1)" "wb_inv wb1"
    "wb_capacity wb \<le> wb_capacity wb1"
    "rc = STATUS_OK \<and> wb_length wb1 = ?n
       \<and> take (unat ?n) (wb_contents wb) = take (length (wb_contents wb)) (wb_contents wb1)
     \<or> rc = STATUS_NO_MEMORY \<and> wb1 = wb"
    by (rule resize_ok [OF inv m nn]) blast
  show ?thesis
  proof (cases "rc = STATUS_OK")
    case True
    with r have l: "wb_length wb1 = ?n"
      and t: "take (length (wb_contents wb)) (wb_contents wb1) = wb_contents wb"
      using un by auto
    have "length (wb_contents wb1) = unat ?n"
      using resize_length [OF r(2)] l nn by simp
    with wb_write_ok [OF r(2), of "unat ?old" newdata] True r l nn un lo t show ?thesis
      by (intro that [of rc "wb_write wb1 (unat ?old) newdata"])
        (simp_all add: writable_buffer_append_def memcpy_def)
  next
    case False
    with r show ?thesis
      by (intro that [of rc wb1]) (auto simp: writable_buffer_append_def)
  qed
qed

section \<open>Parsing and printing\<close>


text \<open>The value of a digit string in a base, and the numerals the parser is meant to accept.\<close>

definition digits_value :: "nat \<Rightarrow> cstring \<Rightarrow> nat" where
  "digits_value base ds = foldl (\<lambda>v c. v * base + the (digit_value c)) 0 ds"

definition is_digit_of :: "nat \<Rightarrow> nat \<Rightarrow> bool" where
  "is_digit_of base c \<longleftrightarrow> (\<exists>d. digit_value c = Some d \<and> d < base)"

lemma is_digit_of_ascii:
  assumes "is_digit_of base c"
  shows "c \<noteq> 0" "\<not> c_isspace c" "c_isascii c" "c \<noteq> 43" "c \<noteq> 45"
  using assms
  by (auto simp: is_digit_of_def digit_value_def c_isdigit_def c_isalpha_def c_isupper_def
        c_isspace_def c_isascii_def split: if_splits)

lemma cutoff_iff:
  fixes base limit :: nat
  assumes "0 < base" "d < base"
  shows "(limit div base < v \<or> v = limit div base \<and> limit mod base < d) \<longleftrightarrow> limit < v * base + d"
proof -
  have l: "limit = limit div base * base + limit mod base"
    by (rule div_mult_mod_eq [symmetric])
  consider "limit div base < v" | "v = limit div base" | "v < limit div base" by linarith
  then show ?thesis
  proof cases
    case 1
    then have "limit < v * base"
      using assms(1) by (simp add: div_less_iff_less_mult)
    with 1 show ?thesis by simp
  next
    case 2
    then show ?thesis using l by (metis less_irrefl nat_add_left_cancel_less)
  next
    case 3
    then have "Suc v \<le> limit div base" by simp
    then have "Suc v * base \<le> limit"
      using assms(1) by (simp only: less_eq_div_iff_mult_less_eq)
    with 3 assms(2) show ?thesis by simp
  qed
qed

lemma foldl_digits_mono: "(v :: nat) \<le> foldl (\<lambda>v c. v * base + f c) v ds" if "0 < base"
proof (induction ds arbitrary: v)
  case (Cons c ds)
  have "v \<le> v * base + f c" using that by (simp add: trans_le_add1)
  also have "\<dots> \<le> foldl (\<lambda>v c. v * base + f c) (v * base + f c) ds" by (rule Cons)
  finally show ?case by simp
qed simp

text \<open>
  The loop started at the first of the digits \<open>c # ds\<close>, with \<open>rest\<close> empty or starting with
  NUL or a space behind them.
\<close>

definition at_end :: "cstring \<Rightarrow> bool" where
  "at_end s \<longleftrightarrow> (case s of [] \<Rightarrow> True | c # _ \<Rightarrow> c = 0 \<or> c_isspace c)"

lemma convert_loop_digits:
  assumes b: "0 < base" and lim: "limit < 2 ^ 64"
    and ds: "\<forall>x\<in>set (c # ds). is_digit_of base x" and rest: "at_end rest"
  shows "convert_loop base (limit div base) (limit mod base) c (ds @ rest) v any =
    (let r = foldl (\<lambda>v c. v * base + the (digit_value c)) v (c # ds)
     in if r \<le> limit then Some (r, True, next_char rest) else None)"
  using ds
proof (induction ds arbitrary: c v any)
  case Nil
  then obtain d where d: "digit_value c = Some d" "d < base"
    by (auto simp: is_digit_of_def)
  note A = is_digit_of_ascii [of base c]
  have stop: "convert_loop base (limit div base) (limit mod base) x xs w True
     = Some (w, True, x, xs)" if "rest = x # xs" for x xs w
    using rest that by (subst convert_loop.simps) (auto simp: at_end_def)
  show ?case
    using Nil A d cutoff_iff [OF b d(2), of limit v] lim
    by (subst convert_loop.simps) (auto simp: Let_def stop split: list.splits)
next
  case (Cons c' ds)
  then obtain d where d: "digit_value c = Some d" "d < base"
    by (auto simp: is_digit_of_def)
  note A = is_digit_of_ascii [of base c]
  have mono: "v * base + d \<le> foldl (\<lambda>v c. v * base + the (digit_value c)) (v * base + d) (c' # ds)"
    using b by (rule foldl_digits_mono)
  show ?case
    using Cons.prems A d cutoff_iff [OF b d(2), of limit v] lim mono
      Cons.IH [of c' "v * base + d" True]
    by (subst convert_loop.simps) (auto simp: Let_def)
qed

lemma skip_spaces_append:
  "\<forall>c\<in>set ws. c_isspace c \<Longrightarrow> skip_spaces (ws @ s) = skip_spaces s"
  by (induction ws) auto

lemma skip_spaces_all: "\<forall>c\<in>set ws. c_isspace c \<Longrightarrow> skip_spaces ws = (0, [])"
  by (induction ws) auto


lemma skip_spaces_split:
  "\<exists>ws rest. l = ws @ rest \<and> (\<forall>c\<in>set ws. c_isspace c) \<and> skip_spaces l = next_char rest
     \<and> (rest \<noteq> [] \<longrightarrow> \<not> c_isspace (hd rest))"
proof (induction l)
  case (Cons c l)
  show ?case
  proof (cases "c_isspace c")
    case True
    with Cons obtain ws rest where "l = ws @ rest" "\<forall>c\<in>set ws. c_isspace c"
      "skip_spaces l = next_char rest" "rest \<noteq> [] \<longrightarrow> \<not> c_isspace (hd rest)" by blast
    with True show ?thesis by (intro exI [of _ "c # ws"] exI [of _ rest]) simp
  next
    case False
    then show ?thesis by (intro exI [of _ "[]"] exI [of _ "c # l"]) simp
  qed
qed simp

lemma convert_loop_split:
  assumes "convert_loop base cutoff cutlim (fst (next_char l)) (snd (next_char l)) v any
     = Some (v', any', c', s')" and "0 \<notin> set l"
  shows "\<exists>ds rest. l = ds @ rest \<and> at_end rest \<and> (\<forall>x\<in>set ds. is_digit_of base x)
     \<and> (c', s') = next_char rest \<and> any' = (any \<or> ds \<noteq> [])"
  using assms
proof (induction l arbitrary: v any)
  case Nil
  then show ?case by (subst (asm) convert_loop.simps) (simp add: at_end_def)
next
  case (Cons c l)
  show ?case
  proof (cases "c_isspace c")
    case True
    with Cons.prems have "v' = v" "any' = any" "c' = c" "s' = l"
      by (auto simp: convert_loop.simps [of _ _ _ c])
    with True show ?thesis
      by (intro exI [of _ "[]"] exI [of _ "c # l"]) (simp add: at_end_def)
  next
    case False
    from Cons.prems(1) have eq: "convert_loop base cutoff cutlim c l v any = Some (v', any', c', s')"
      by simp
    from eq [unfolded convert_loop.simps [of base cutoff cutlim c l v any]] False Cons.prems(2)
    obtain d v1 where d: "digit_value c = Some d" "d < base"
      and rec: "(case l of [] \<Rightarrow> Some (v1, True, 0, [])
        | c1 # s1 \<Rightarrow> convert_loop base cutoff cutlim c1 s1 v1 True)
        = Some (v', any', c', s')"
      by (auto simp: Let_def split: if_splits option.splits)
    have "\<exists>ds rest. l = ds @ rest \<and> at_end rest \<and> (\<forall>x\<in>set ds. is_digit_of base x)
       \<and> (c', s') = next_char rest \<and> any'"
    proof (cases l)
      case Nil
      with rec show ?thesis by (simp add: at_end_def)
    next
      case (Cons c1 s1)
      with rec Cons.prems Cons.IH [of v1 True]
      show ?thesis by auto
    qed
    then obtain ds rest where "l = ds @ rest" "at_end rest" "\<forall>x\<in>set ds. is_digit_of base x"
      "(c', s') = next_char rest" "any'" by blast
    with d show ?thesis
      by (intro exI [of _ "c # ds"] exI [of _ rest]) (auto simp: is_digit_of_def)
  qed
qed

text \<open>The spelling of the digits \<open>ds\<close> in one of the three bases.\<close>

definition spells :: "nat \<Rightarrow> cstring \<Rightarrow> cstring \<Rightarrow> bool" where
  "spells base num ds \<longleftrightarrow> ds \<noteq> [] \<and> (\<forall>x\<in>set ds. is_digit_of base x) \<and>
     (base = 10 \<and> num = ds \<and> hd ds \<noteq> 48 \<or> base = 8 \<and> num = ds \<and> hd ds = 48
      \<or> base = 16 \<and> (\<exists>x. (x = 120 \<or> x = 88) \<and> num = 48 # x # ds))"


lemma spells_head:
  assumes "spells base num ds"
  shows "num \<noteq> [] \<and> is_digit_of 16 (hd num)"
proof -
  have "is_digit_of 16 x" if "is_digit_of base x" for x
    using that assms by (auto simp: spells_def is_digit_of_def)
  moreover have "is_digit_of 16 48" by (simp add: is_digit_of_def digit_value_def c_isdigit_def)
  ultimately show ?thesis using assms by (cases ds) (auto simp: spells_def)
qed

definition sign_of :: "bool \<Rightarrow> cstring \<Rightarrow> bool" where
  "sign_of neg sg \<longleftrightarrow> (if neg then sg = [45] else sg = [] \<or> sg = [43])"

lemma skip_spaces_head: "\<not> c_isspace c \<Longrightarrow> skip_spaces (c # s) = (c, s)"
  by simp

definition parse_unsigned :: "cstring \<Rightarrow> nat \<Rightarrow> nat option" where
  "parse_unsigned l limit = parse_number (fst (next_char l)) (snd (next_char l)) limit"

lemma limit_parse_unsigned:
  assumes "skip_spaces nptr = next_char rest"
  shows "try_string_to_uint64_limit nptr nl pl =
     (case rest of
        [] \<Rightarrow> map_option word_of_nat (parse_unsigned [] pl)
      | c # r \<Rightarrow>
          if c = 45 then
            (if nl = 0 then None else map_option (\<lambda>v. - word_of_nat v) (parse_unsigned r nl))
          else map_option word_of_nat (parse_unsigned (if c = 43 then r else rest) pl))"
  unfolding try_string_to_uint64_limit_def parse_unsigned_def assms
  by (cases rest) (auto simp: Let_def case_prod_beta split: option.splits)

lemma parse_unsigned_number:
  assumes sp: "spells base num ds" and ts: "\<forall>c\<in>set ts. c_isspace c" and lim: "limit < 2 ^ 64"
  shows "parse_unsigned (num @ ts) limit =
    (if digits_value base ds \<le> limit then Some (digits_value base ds) else None)"
proof -
  have b: "0 < base" and dd: "\<forall>x\<in>set ds. is_digit_of base x" using sp by (auto simp: spells_def)
  obtain c ds' where ds: "ds = c # ds'" using sp by (cases ds) (auto simp: spells_def)
  have e: "at_end ts" using ts by (cases ts) (auto simp: at_end_def)
  have loop: "convert_loop base (limit div base) (limit mod base) c (ds' @ ts) 0 False =
     (if digits_value base ds \<le> limit then Some (digits_value base ds, True, next_char ts) else None)"
    using convert_loop_digits [OF b lim, of c ds' ts 0 False] dd e
    by (simp add: ds digits_value_def Let_def)
  have tail: "fst (if c_isspace (fst (next_char ts)) then skip_spaces (snd (next_char ts))
     else next_char ts) = 0"
    using ts skip_spaces_all [of "tl ts"] by (cases ts) auto
  have "parse_unsigned (num @ ts) limit =
    (case convert_loop base (limit div base) (limit mod base) c (ds' @ ts) 0 False of
       None \<Rightarrow> None
     | Some (value, any, c3, s3) \<Rightarrow>
         let (c4, s4) = (if c_isspace c3 then skip_spaces s3 else (c3, s3))
         in if c4 \<noteq> 0 then None else if \<not> any then None else Some value)"
  proof -
    consider (dec) "base = 10" "num = ds" "c \<noteq> 48" | (oct) "base = 8" "num = ds" "c = 48"
      | (hex) x where "base = 16" "num = 48 # x # ds" "x = 120 \<or> x = 88"
      using sp ds by (auto simp: spells_def)
    then show ?thesis
    proof cases
      case oct
      have "fst (next_char (ds' @ ts)) \<noteq> 120 \<and> fst (next_char (ds' @ ts)) \<noteq> 88"
        using dd ts oct(1) ds
        by (cases ds'; cases ts)
          (auto simp: is_digit_of_def digit_value_def c_isdigit_def c_isalpha_def c_isupper_def
            c_isspace_def split: if_splits)
      with oct ds show ?thesis by (simp add: parse_unsigned_def parse_number_def Let_def)
    qed (auto simp: parse_unsigned_def parse_number_def Let_def ds)
  qed
  with loop tail show ?thesis by (cases ts) (auto simp: Let_def split: prod.splits if_splits)
qed

lemma parse_unsigned_Some:
  assumes p: "parse_unsigned l limit = Some v" and nz: "0 \<notin> set l"
  obtains base num ds ts where "l = num @ ts" "spells base num ds" "\<forall>c\<in>set ts. c_isspace c"
proof -
  define hex where "hex \<longleftrightarrow> (\<exists>x r. l = 48 # x # r \<and> (x = 120 \<or> x = 88))"
  define base where "base = (if hex then 16 else if fst (next_char l) = 48 then 8 else 10 :: nat)"
  define l2 where "l2 = (if hex then drop 2 l else l)"
  have h: "hex \<longleftrightarrow> fst (next_char l) = 48
      \<and> (fst (next_char (snd (next_char l))) = 120 \<or> fst (next_char (snd (next_char l))) = 88)"
    unfolding hex_def by (cases l rule: list.exhaust; cases "tl l") auto
  have nz2: "0 \<notin> set l2" using nz by (auto simp: l2_def dest: in_set_dropD)
  obtain val any c3 s3 where
    loop: "convert_loop base (limit div base) (limit mod base) (fst (next_char l2)) (snd (next_char l2))
       0 False = Some (val, any, c3, s3)"
    and fin: "fst (if c_isspace c3 then skip_spaces s3 else (c3, s3)) = 0" and any: "any"
    using p unfolding parse_unsigned_def parse_number_def base_def l2_def h
    by (cases l rule: list.exhaust; cases "tl l")
      (auto simp: Let_def split: prod.splits if_splits option.splits)
  obtain ds rest where r: "l2 = ds @ rest" "at_end rest" "\<forall>x\<in>set ds. is_digit_of base x"
    "(c3, s3) = next_char rest" "ds \<noteq> []"
    using convert_loop_split [OF loop nz2] any by blast
  have ts: "\<forall>c\<in>set rest. c_isspace c"
  proof (cases rest)
    case (Cons a as)
    with r nz2 have sp: "c_isspace a" "0 \<notin> set as" by (auto simp: at_end_def)
    obtain ws rs where "as = ws @ rs" "\<forall>c\<in>set ws. c_isspace c" "skip_spaces as = next_char rs"
      using skip_spaces_split [of as] by blast
    with fin r(4) Cons sp show ?thesis by (cases rs) auto
  qed simp
  show ?thesis
  proof (cases hex)
    case True
    then obtain x rr where "l = 48 # x # rr" "x = 120 \<or> x = 88" by (auto simp: hex_def)
    with True r ts show ?thesis
      by (intro that [of "48 # x # ds" rest 16 ds]) (auto simp: spells_def base_def l2_def)
  next
    case False
    have "hd ds = fst (next_char l)" using r False by (cases ds) (auto simp: l2_def)
    with False r ts show ?thesis
      by (intro that [of ds rest base ds]) (auto simp: spells_def base_def l2_def)
  qed
qed

text \<open>The numerals of the parsers: spaces, a sign, the number and spaces.\<close>

definition numeral_string :: "cstring \<Rightarrow> bool \<Rightarrow> nat \<Rightarrow> cstring \<Rightarrow> bool" where
  "numeral_string s neg base ds \<longleftrightarrow> (\<exists>ws sg num ts. s = ws @ sg @ num @ ts
     \<and> (\<forall>c\<in>set ws. c_isspace c) \<and> (\<forall>c\<in>set ts. c_isspace c) \<and> sign_of neg sg \<and> spells base num ds)"

lemma limit_number:
  assumes n: "numeral_string s neg base ds" and lim: "nl < 2 ^ 64" "pl < 2 ^ 64"
    and neg: "neg \<Longrightarrow> nl \<noteq> 0"
  shows "try_string_to_uint64_limit s nl pl =
    (let v = digits_value base ds in
     if v \<le> (if neg then nl else pl)
     then Some (if neg then - word_of_nat v else word_of_nat v) else None)"
proof -
  obtain ws sg num ts where s: "s = ws @ sg @ num @ ts" "\<forall>c\<in>set ws. c_isspace c"
    "\<forall>c\<in>set ts. c_isspace c" "sign_of neg sg" "spells base num ds"
    using n by (auto simp: numeral_string_def)
  obtain d r where num: "num = d # r" "is_digit_of 16 d"
    using spells_head [OF s(5)] by (cases num) auto
  note D = is_digit_of_ascii [OF num(2)]
  let ?rest = "sg @ num @ ts"
  have "skip_spaces s = next_char ?rest"
    using s(1,2,4) num(1) D by (auto simp: skip_spaces_append sign_of_def c_isspace_def split: if_splits)
  from limit_parse_unsigned [OF this, of nl pl]
    parse_unsigned_number [OF s(5,3) lim(1)] parse_unsigned_number [OF s(5,3) lim(2)]
  show ?thesis
    using s(4) num(1) D neg by (auto simp: sign_of_def Let_def split: if_splits)
qed

lemma limit_Some:
  assumes p: "try_string_to_uint64_limit s nl pl = Some w" and nz: "0 \<notin> set s"
  obtains neg base ds where "numeral_string s neg base ds" "neg \<longrightarrow> nl \<noteq> 0"
proof -
  obtain ws rest where r: "s = ws @ rest" "\<forall>c\<in>set ws. c_isspace c" "skip_spaces s = next_char rest"
    using skip_spaces_split [of s] by blast
  obtain neg sg l lim v where l: "rest = sg @ l" "sign_of neg sg" "parse_unsigned l lim = Some v"
    "neg \<longrightarrow> nl \<noteq> 0"
  proof (cases "rest = [] \<or> hd rest \<noteq> 45 \<and> hd rest \<noteq> 43")
    case True
    with p limit_parse_unsigned [OF r(3), of nl pl] show ?thesis
      by (cases rest) (auto simp: sign_of_def intro: that [of "[]" rest False])
  next
    case False
    then obtain c r' where "rest = c # r'" "c = 45 \<or> c = 43" by (cases rest) auto
    with p limit_parse_unsigned [OF r(3), of nl pl] show ?thesis
      by (auto simp: sign_of_def split: if_splits intro: that [of "[c]" r' "c = 45"])
  qed
  have "0 \<notin> set l" using nz r(1) l(1) by simp
  from parse_unsigned_Some [OF l(3) this]
  obtain base num ds ts where "l = num @ ts" "spells base num ds" "\<forall>c\<in>set ts. c_isspace c" .
  with r l have "numeral_string s neg base ds"
    unfolding numeral_string_def
    by (intro exI [of _ ws] exI [of _ sg] exI [of _ num] exI [of _ ts]) simp
  then show ?thesis using l(4) by (rule that)
qed


lemma limit_iff:
  assumes nz: "0 \<notin> set s" and lim: "nl < 2 ^ 64" "pl < 2 ^ 64"
  shows "try_string_to_uint64_limit s nl pl = Some w \<longleftrightarrow>
    (\<exists>neg base ds. numeral_string s neg base ds \<and> (neg \<longrightarrow> nl \<noteq> 0)
       \<and> digits_value base ds \<le> (if neg then nl else pl)
       \<and> w = (if neg then - word_of_nat (digits_value base ds) else word_of_nat (digits_value base ds)))"
  (is "?l \<longleftrightarrow> ?r")
proof
  assume l: ?l
  obtain neg base ds where n: "numeral_string s neg base ds" "neg \<longrightarrow> nl \<noteq> 0"
    using limit_Some [OF l nz] by blast
  with l limit_number [OF n(1) lim] show ?r
    by (auto simp: Let_def split: if_splits)
next
  assume ?r
  then obtain neg base ds where "numeral_string s neg base ds" "neg \<longrightarrow> nl \<noteq> 0"
    "digits_value base ds \<le> (if neg then nl else pl)"
    "w = (if neg then - word_of_nat (digits_value base ds) else word_of_nat (digits_value base ds))"
    by blast
  then show ?l using limit_number [OF _ lim, of s neg base ds] by (simp add: Let_def)
qed

text \<open>
  C20: \<open>try_string_to_uint64\<close> accepts exactly the strings that spell a number: white space, an optional
  plus, digits of the base the prefix selects, white space, with a value below 2^64, and it returns that
  value.
\<close>

theorem try_string_to_uint64_exact:
  assumes "0 \<notin> set s"
  shows "try_string_to_uint64 s = Some w \<longleftrightarrow>
    (\<exists>base ds. numeral_string s False base ds \<and> digits_value base ds \<le> 2 ^ 64 - 1
       \<and> w = word_of_nat (digits_value base ds))"
  unfolding try_string_to_uint64_def
  by (subst limit_iff [OF assms]) (simp_all add: ex_bool_eq)

theorem try_string_to_uint64_exact_witness:
  "try_string_to_uint64 (cstr '' +0x1F '') = Some 31 \<and>
   (\<exists>base ds. numeral_string (cstr '' +0x1F '') False base ds \<and> digits_value base ds \<le> 2 ^ 64 - 1
       \<and> (31 :: uint64) = word_of_nat (digits_value base ds))"
proof -
  have e: "try_string_to_uint64 (cstr '' +0x1F '') = Some 31"
    by (simp add: try_string_to_uint64_def try_string_to_uint64_limit_def parse_number_def
          convert_loop.simps cstr_def c_isspace_def c_isascii_def digit_value_def c_isdigit_def
          c_isalpha_def c_isupper_def Let_def)
  have z: "0 \<notin> set (cstr '' +0x1F '')" by (simp add: cstr_def)
  show ?thesis using e try_string_to_uint64_exact [OF z, of 31] by simp
qed

lemma hex_high_nibble: "drop_bit 4 (x AND 0xF0) = drop_bit 4 (x :: byte)"
proof -
  have "drop_bit 4 (x AND 0xF0) = drop_bit 4 x AND mask 4"
    by (simp add: mask_eq_exp_minus_1)
  also have "\<dots> = drop_bit 4 (take_bit 8 x)"
    by (simp add: take_bit_eq_mask [symmetric] take_bit_drop_bit)
  finally show ?thesis by (simp add: take_bit_word_eq_self)
qed

lemma hex_loop_ok:
  assumes "max_len \<le> length dst" "2 \<le> max_len"
  shows "\<exists>d. hex_loop max_len dp data dst = Some d \<and> length d = length dst
     \<and> (\<forall>i. i < dp \<or> dp + 2 * length data \<le> i \<or> max_len \<le> i \<longrightarrow> d ! i = dst ! i)
     \<and> (\<forall>j < length data. dp + 2 * length data < max_len \<longrightarrow>
          d ! (dp + 2 * j) = hex_table ! unat (drop_bit 4 (data ! j))
        \<and> d ! (dp + 2 * j + 1) = hex_table ! unat (data ! j AND 0x0F))"
  using assms
proof (induction data arbitrary: dp dst)
  case Nil
  then show ?case by simp
next
  case (Cons x data)
  show ?case
  proof (cases "max_len - 1 \<le> dp")
    case True
    with Cons.prems show ?thesis by auto
  next
    case False
    let ?d = "dst[dp := hex_table ! unat (drop_bit 4 (x AND 0xF0)), dp + 1 := hex_table ! unat (x AND 0x0F)]"
    have lt: "dp + 1 < length dst" using False Cons.prems by simp
    have hi: "drop_bit 4 (x AND 0xF0) = drop_bit 4 x"
      by (rule hex_high_nibble)
    obtain d where d: "hex_loop max_len (dp + 2) data ?d = Some d" "length d = length ?d"
      "\<forall>i. i < dp + 2 \<or> dp + 2 + 2 * length data \<le> i \<or> max_len \<le> i \<longrightarrow> d ! i = ?d ! i"
      "\<forall>j < length data. dp + 2 + 2 * length data < max_len \<longrightarrow>
          d ! (dp + 2 + 2 * j) = hex_table ! unat (drop_bit 4 (data ! j))
        \<and> d ! (dp + 2 + 2 * j + 1) = hex_table ! unat (data ! j AND 0x0F)"
      using Cons.IH [of ?d "dp + 2"] Cons.prems by auto
    have "hex_loop max_len dp (x # data) dst = Some d"
      using False lt d(1) by (simp add: poke_def)
    moreover have "d ! i = dst ! i" if "i < dp \<or> dp + 2 * length (x # data) \<le> i \<or> max_len \<le> i" for i
      using d(3) that False by (auto simp: nth_list_update)
    moreover have "d ! (dp + 2 * j) = hex_table ! unat (drop_bit 4 ((x # data) ! j))
        \<and> d ! (dp + 2 * j + 1) = hex_table ! unat ((x # data) ! j AND 0x0F)"
      if "j < length (x # data)" "dp + 2 * length (x # data) < max_len" for j
    proof (cases j)
      case 0
      with d(3) lt hi show ?thesis by (simp add: nth_list_update)
    next
      case (Suc k)
      with d(4) that show ?thesis by (auto simp: algebra_simps)
    qed
    ultimately show ?thesis using d(2) by (intro exI [of _ d]) simp
  qed
qed

text \<open>
  C21: \<open>try_string_to_int64\<close> accepts exactly the strings that spell a number with an optional sign whose
  value is in the range of an int64, and returns that value.
\<close>

theorem try_string_to_int64_exact:
  assumes "0 \<notin> set s"
  shows "try_string_to_int64 s = Some i \<longleftrightarrow>
    (\<exists>neg base ds. numeral_string s neg base ds
       \<and> i = (if neg then - int (digits_value base ds) else int (digits_value base ds))
       \<and> - (2 ^ 63) \<le> i \<and> i < 2 ^ 63)"
proof -
  have sint_of: "sint (word_of_nat v :: uint64) = int v" if "v < 2 ^ 63" for v
    using that by (simp add: sint_uint signed_take_bit_int_eq_self unsigned_of_nat take_bit_nat_eq_self)
  have sint_neg: "sint (- word_of_nat v :: uint64) = - int v" if "v \<le> 2 ^ 63" for v
  proof -
    have "sint (word_of_int (- int v) :: uint64) = signed_take_bit 63 (- int v)"
      by (subst signed_of_int) simp
    then have "sint (- word_of_nat v :: uint64) = signed_take_bit 63 (- int v)" by simp
    also have "\<dots> = - int v" using that by (intro signed_take_bit_int_eq_self) auto
    finally show ?thesis .
  qed
  show ?thesis
  proof
    assume "try_string_to_int64 s = Some i"
    then obtain w where w: "try_string_to_uint64_limit s (2 ^ 63) (2 ^ 63 - 1) = Some w" "i = sint w"
      by (auto simp: try_string_to_int64_def)
    from w(1) obtain neg base ds where n: "numeral_string s neg base ds"
      "digits_value base ds \<le> (if neg then 2 ^ 63 else 2 ^ 63 - 1)"
      "w = (if neg then - word_of_nat (digits_value base ds) else word_of_nat (digits_value base ds))"
      by (subst (asm) limit_iff [OF assms]) auto
    then show "\<exists>neg base ds. numeral_string s neg base ds
       \<and> i = (if neg then - int (digits_value base ds) else int (digits_value base ds))
       \<and> - (2 ^ 63) \<le> i \<and> i < 2 ^ 63"
      using w(2) sint_of [of "digits_value base ds"] sint_neg [of "digits_value base ds"]
      by (intro exI [of _ neg] exI [of _ base] exI [of _ ds]) (auto split: if_splits)
  next
    assume "\<exists>neg base ds. numeral_string s neg base ds
       \<and> i = (if neg then - int (digits_value base ds) else int (digits_value base ds))
       \<and> - (2 ^ 63) \<le> i \<and> i < 2 ^ 63"
    then obtain neg base ds where n: "numeral_string s neg base ds"
      "i = (if neg then - int (digits_value base ds) else int (digits_value base ds))"
      "- (2 ^ 63) \<le> i" "i < 2 ^ 63" by blast
    then show "try_string_to_int64 s = Some i"
      using limit_number [OF n(1), of "2 ^ 63" "2 ^ 63 - 1"] sint_of [of "digits_value base ds"]
        sint_neg [of "digits_value base ds"]
      by (auto simp: try_string_to_int64_def Let_def split: if_splits)
  qed
qed

lemma hex_byte: "unat (drop_bit 4 (x :: byte)) = unat x div 16" "unat (x AND 0x0F) = unat x mod 16"
proof -
  show "unat (drop_bit 4 x) = unat x div 16" by (simp add: drop_bit_eq_div unat_div)
  have "x AND 0x0F = take_bit 4 x" by (simp add: take_bit_eq_mask mask_eq_exp_minus_1)
  then show "unat (x AND 0x0F) = unat x mod 16"
    by (simp add: take_bit_eq_mod unat_mod)
qed



end
