(* ===== verification/Data.thy ===== *)
theory Data
  imports Util
begin

text \<open>
  Model of \<open>data.h\<close>, \<open>data_internal.h\<close>, \<open>data_internal.c\<close> and \<open>default_data_config.c\<close>: keys
  with the two infinities, key buffers, messages, the on-disk representation of keys and
  tuples, merge accumulators, and the wrappers around the application's callbacks.

  The callbacks of a \<open>data_config\<close> belong to the application: they are fields of the record
  \<open>data_config\<close>, so every function that calls one takes it as an argument. A callback
  pointer may be NULL (\<open>None\<close>); a call through it is the result \<open>None\<close>.
\<close>

section \<open>Definitions\<close>

subsection \<open>Keys\<close>

datatype key_type = NEGATIVE_INFINITY | USER_KEY | POSITIVE_INFINITY

fun key_type_code :: "key_type \<Rightarrow> int" where
  "key_type_code NEGATIVE_INFINITY = 1"
| "key_type_code USER_KEY = 2"
| "key_type_code POSITIVE_INFINITY = 3"

record key =
  kind :: key_type
  user_slice :: slice

definition NEGATIVE_INFINITY_KEY :: key where
  "NEGATIVE_INFINITY_KEY = \<lparr>kind = NEGATIVE_INFINITY, user_slice = INVALID_SLICE\<rparr>"

definition POSITIVE_INFINITY_KEY :: key where
  "POSITIVE_INFINITY_KEY = \<lparr>kind = POSITIVE_INFINITY, user_slice = INVALID_SLICE\<rparr>"

definition NULL_KEY :: key where
  "NULL_KEY = \<lparr>kind = USER_KEY, user_slice = NULL_SLICE\<rparr>"

definition key_is_negative_infinity :: "key \<Rightarrow> bool" where
  "key_is_negative_infinity k \<longleftrightarrow> kind k = NEGATIVE_INFINITY"

definition key_is_positive_infinity :: "key \<Rightarrow> bool" where
  "key_is_positive_infinity k \<longleftrightarrow> kind k = POSITIVE_INFINITY"

definition key_is_user_key :: "key \<Rightarrow> bool" where
  "key_is_user_key k \<longleftrightarrow> kind k = USER_KEY"

definition key_create_from_slice :: "slice \<Rightarrow> key" where
  "key_create_from_slice s = \<lparr>kind = USER_KEY, user_slice = s\<rparr>"

definition key_create :: "bytes \<Rightarrow> key" where
  "key_create data = \<lparr>kind = USER_KEY, user_slice = Slice data\<rparr>"

definition key_is_null :: "key \<Rightarrow> bool" where
  "key_is_null k \<longleftrightarrow> kind k = USER_KEY \<and> slice_is_null (user_slice k)"

definition key_length :: "key \<Rightarrow> nat" where
  "key_length k = (if kind k = USER_KEY then slice_length (user_slice k) else 0)"

definition key_data :: "key \<Rightarrow> bytes" where
  "key_data k = slice_bytes (user_slice k)"

subsection \<open>Key buffers\<close>

record key_buffer =
  kb_kind :: key_type
  kb_wb :: writable_buffer

definition DEFAULT_KEY_BUFFER_SIZE :: nat where
  "DEFAULT_KEY_BUFFER_SIZE = 128"

definition key_buffer_key :: "key_buffer \<Rightarrow> key" where
  "key_buffer_key kb =
     (if kb_kind kb = NEGATIVE_INFINITY then NEGATIVE_INFINITY_KEY
      else if kb_kind kb = POSITIVE_INFINITY then POSITIVE_INFINITY_KEY
      else key_create_from_slice (writable_buffer_to_slice (kb_wb kb)))"

text \<open>\<open>default_buffer\<close> is the inline array of the structure, with its indeterminate contents.\<close>

definition key_buffer_init :: "bytes \<Rightarrow> key_buffer" where
  "key_buffer_init default_buffer =
     \<lparr>kb_kind = USER_KEY,
      kb_wb = writable_buffer_init_with_buffer (word_of_nat (length default_buffer))
                (Some default_buffer) 0\<rparr>"

definition key_buffer_copy_slice ::
  "malloc_fn \<Rightarrow> key_buffer \<Rightarrow> slice \<Rightarrow> (platform_status \<times> key_buffer) option" where
  "key_buffer_copy_slice malloc kb src =
     map_option (\<lambda>(rc, wb). (rc, \<lparr>kb_kind = USER_KEY, kb_wb = wb\<rparr>))
       (writable_buffer_copy_slice malloc (kb_wb kb) src)"

definition key_buffer_copy_key ::
  "malloc_fn \<Rightarrow> key_buffer \<Rightarrow> key \<Rightarrow> (platform_status \<times> key_buffer) option" where
  "key_buffer_copy_key malloc kb src =
     (if key_is_negative_infinity src then Some (STATUS_OK, kb\<lparr>kb_kind := NEGATIVE_INFINITY\<rparr>)
      else if key_is_positive_infinity src then Some (STATUS_OK, kb\<lparr>kb_kind := POSITIVE_INFINITY\<rparr>)
      else key_buffer_copy_slice malloc kb (user_slice src))"

definition key_buffer_init_from_key ::
  "malloc_fn \<Rightarrow> bytes \<Rightarrow> key \<Rightarrow> (platform_status \<times> key_buffer) option" where
  "key_buffer_init_from_key malloc default_buffer src =
     key_buffer_copy_key malloc (key_buffer_init default_buffer) src"

definition key_buffer_length :: "key_buffer \<Rightarrow> uint64" where
  "key_buffer_length kb = writable_buffer_length (kb_wb kb)"

definition key_buffer_resize ::
  "malloc_fn \<Rightarrow> key_buffer \<Rightarrow> uint64 \<Rightarrow> (platform_status \<times> key_buffer) option" where
  "key_buffer_resize malloc kb len =
     map_option (\<lambda>(rc, wb). (rc, \<lparr>kb_kind = USER_KEY, kb_wb = wb\<rparr>))
       (writable_buffer_resize malloc (kb_wb kb) len)"

definition key_buffer_deinit :: "key_buffer \<Rightarrow> key_buffer" where
  "key_buffer_deinit kb = kb\<lparr>kb_wb := writable_buffer_deinit (kb_wb kb)\<rparr>"

subsection \<open>On-disk keys\<close>

record ondisk_key =
  odk_length :: uint16
  odk_flags :: uint8
  odk_bytes :: bytes

text \<open>\<open>(1 << 16) - 1\<close> and \<open>(1 << 16) - 2\<close>, computed as \<open>int\<close> in the source.\<close>

definition ONDISK_KEY_NEGATIVE_INFINITY :: uint16 where
  "ONDISK_KEY_NEGATIVE_INFINITY = 65535"

definition ONDISK_KEY_POSITIVE_INFINITY :: uint16 where
  "ONDISK_KEY_POSITIVE_INFINITY = 65534"

definition sizeof_ondisk_key_data :: "ondisk_key \<Rightarrow> nat" where
  "sizeof_ondisk_key_data odk =
     (if odk_length odk = ONDISK_KEY_NEGATIVE_INFINITY \<or> odk_length odk = ONDISK_KEY_POSITIVE_INFINITY
      then 0 else unat (odk_length odk))"

definition ondisk_key_required_data_capacity :: "key \<Rightarrow> nat" where
  "ondisk_key_required_data_capacity k = key_length k"

definition ondisk_key_to_key :: "ondisk_key \<Rightarrow> key" where
  "ondisk_key_to_key odk =
     (if odk_length odk = ONDISK_KEY_NEGATIVE_INFINITY then NEGATIVE_INFINITY_KEY
      else if odk_length odk = ONDISK_KEY_POSITIVE_INFINITY then POSITIVE_INFINITY_KEY
      else key_create (take (unat (odk_length odk)) (odk_bytes odk)))"

definition copy_key_to_ondisk_key :: "ondisk_key \<Rightarrow> key \<Rightarrow> ondisk_key" where
  "copy_key_to_ondisk_key odk k =
     (let odk1 = odk\<lparr>odk_flags := 0\<rparr>
      in if key_is_user_key k
         then odk1\<lparr>odk_length := word_of_nat (key_length k),
                   odk_bytes := memcpy (odk_bytes odk1) 0 (key_data k)\<rparr>
         else if key_is_negative_infinity k then odk1\<lparr>odk_length := ONDISK_KEY_NEGATIVE_INFINITY\<rparr>
         else if key_is_positive_infinity k then odk1\<lparr>odk_length := ONDISK_KEY_POSITIVE_INFINITY\<rparr>
         else odk1)"

subsection \<open>Messages\<close>

datatype message_type =
    MESSAGE_TYPE_INVALID
  | MESSAGE_TYPE_INSERT
  | MESSAGE_TYPE_UPDATE
  | MESSAGE_TYPE_DELETE
  | MESSAGE_TYPE_PIVOT_DATA

fun message_type_code :: "message_type \<Rightarrow> nat" where
  "message_type_code MESSAGE_TYPE_INVALID = 0"
| "message_type_code MESSAGE_TYPE_INSERT = 1"
| "message_type_code MESSAGE_TYPE_UPDATE = 2"
| "message_type_code MESSAGE_TYPE_DELETE = 3"
| "message_type_code MESSAGE_TYPE_PIVOT_DATA = 1000"

text \<open>The value of the enumeration for a code the two type bits of an on-disk tuple can hold.\<close>

definition message_type_of :: "nat \<Rightarrow> message_type" where
  "message_type_of n =
     (if n = 1 then MESSAGE_TYPE_INSERT else if n = 2 then MESSAGE_TYPE_UPDATE
      else if n = 3 then MESSAGE_TYPE_DELETE else MESSAGE_TYPE_INVALID)"

record message =
  msg_type :: message_type
  msg_data :: slice

definition NULL_MESSAGE :: message where
  "NULL_MESSAGE = \<lparr>msg_type = MESSAGE_TYPE_INVALID, msg_data = NULL_SLICE\<rparr>"

definition DELETE_MESSAGE :: message where
  "DELETE_MESSAGE = \<lparr>msg_type = MESSAGE_TYPE_DELETE, msg_data = NULL_SLICE\<rparr>"

definition message_create :: "message_type \<Rightarrow> slice \<Rightarrow> message" where
  "message_create ty data = \<lparr>msg_type = ty, msg_data = data\<rparr>"

definition message_class :: "message \<Rightarrow> message_type" where
  "message_class msg = msg_type msg"

definition message_length :: "message \<Rightarrow> nat" where
  "message_length msg = slice_length (msg_data msg)"

definition message_data :: "message \<Rightarrow> bytes" where
  "message_data msg = slice_bytes (msg_data msg)"

definition message_is_null :: "message \<Rightarrow> bool" where
  "message_is_null msg \<longleftrightarrow> slice_is_null (msg_data msg)"

definition message_is_definitive :: "message \<Rightarrow> bool" where
  "message_is_definitive msg \<longleftrightarrow>
     msg_type msg = MESSAGE_TYPE_INSERT \<or> msg_type msg = MESSAGE_TYPE_DELETE"

definition message_is_invalid_user_type :: "message \<Rightarrow> bool" where
  "message_is_invalid_user_type msg \<longleftrightarrow>
     msg_type msg = MESSAGE_TYPE_INVALID
     \<or> message_type_code (msg_type msg) > message_type_code MESSAGE_TYPE_DELETE"

definition message_lex_cmp :: "message \<Rightarrow> message \<Rightarrow> int" where
  "message_lex_cmp a b =
     (if message_type_code (msg_type a) < message_type_code (msg_type b) then - 1
      else if message_type_code (msg_type b) < message_type_code (msg_type a) then 1
      else slice_lex_cmp (msg_data a) (msg_data b))"

subsection \<open>On-disk tuples\<close>

record ondisk_tuple =
  odt_key_length :: uint16
  odt_key_flags :: uint8
  odt_message_length :: uint16
  odt_flags :: uint8
  odt_key_and_message :: bytes

definition ONDISK_MESSAGE_TYPE_MASK :: uint8 where
  "ONDISK_MESSAGE_TYPE_MASK = 3"

definition sizeof_ondisk_tuple_data :: "ondisk_tuple \<Rightarrow> nat" where
  "sizeof_ondisk_tuple_data odt = unat (odt_key_length odt) + unat (odt_message_length odt)"

definition ondisk_tuple_required_data_capacity :: "key \<Rightarrow> message \<Rightarrow> nat" where
  "ondisk_tuple_required_data_capacity k msg = key_length k + message_length msg"

definition ondisk_tuple_key :: "ondisk_tuple \<Rightarrow> key" where
  "ondisk_tuple_key odt = key_create (take (unat (odt_key_length odt)) (odt_key_and_message odt))"

definition ondisk_tuple_message_class :: "ondisk_tuple \<Rightarrow> message_type" where
  "ondisk_tuple_message_class odt =
     message_type_of (unat (odt_flags odt AND ONDISK_MESSAGE_TYPE_MASK))"

definition ondisk_tuple_message :: "ondisk_tuple \<Rightarrow> message" where
  "ondisk_tuple_message odt =
     message_create (ondisk_tuple_message_class odt)
       (Slice (take (unat (odt_message_length odt))
                 (drop (unat (odt_key_length odt)) (odt_key_and_message odt))))"

definition copy_message_to_ondisk_tuple :: "ondisk_tuple \<Rightarrow> message \<Rightarrow> ondisk_tuple" where
  "copy_message_to_ondisk_tuple odt msg =
     odt\<lparr>odt_message_length := word_of_nat (message_length msg),
         odt_flags := word_of_nat (message_type_code (message_class msg)),
         odt_key_and_message :=
           memcpy (odt_key_and_message odt) (unat (odt_key_length odt)) (message_data msg)\<rparr>"

text \<open>
  The source stores \<open>ONDISK_KEY_DEFAULT_FLAGS\<close> into \<open>flags\<close>, not into \<open>key_flags\<close>; the message
  class then overwrites it.
\<close>

definition copy_tuple_to_ondisk_tuple :: "ondisk_tuple \<Rightarrow> key \<Rightarrow> message \<Rightarrow> ondisk_tuple" where
  "copy_tuple_to_ondisk_tuple odt k msg =
     copy_message_to_ondisk_tuple
       (odt\<lparr>odt_key_length := word_of_nat (key_length k),
            odt_flags := 0,
            odt_key_and_message := memcpy (odt_key_and_message odt) 0 (key_data k)\<rparr>)
       msg"

subsection \<open>Merge accumulators\<close>

record merge_accumulator =
  ma_type :: message_type
  ma_data :: writable_buffer

definition merge_accumulator_init :: merge_accumulator where
  "merge_accumulator_init = \<lparr>ma_type = MESSAGE_TYPE_INVALID, ma_data = writable_buffer_init\<rparr>"

definition merge_accumulator_init_with_buffer ::
  "uint64 \<Rightarrow> bytes option \<Rightarrow> uint64 \<Rightarrow> message_type \<Rightarrow> merge_accumulator" where
  "merge_accumulator_init_with_buffer allocation_size data logical_size ty =
     \<lparr>ma_type = ty, ma_data = writable_buffer_init_with_buffer allocation_size data logical_size\<rparr>"

definition merge_accumulator_deinit :: "merge_accumulator \<Rightarrow> merge_accumulator" where
  "merge_accumulator_deinit ma =
     \<lparr>ma_type = MESSAGE_TYPE_INVALID, ma_data = writable_buffer_deinit (ma_data ma)\<rparr>"

definition merge_accumulator_message_class :: "merge_accumulator \<Rightarrow> message_type" where
  "merge_accumulator_message_class ma = ma_type ma"

definition merge_accumulator_is_definitive :: "merge_accumulator \<Rightarrow> bool" where
  "merge_accumulator_is_definitive ma \<longleftrightarrow>
     ma_type ma = MESSAGE_TYPE_INSERT \<or> ma_type ma = MESSAGE_TYPE_DELETE"

definition merge_accumulator_to_slice :: "merge_accumulator \<Rightarrow> slice" where
  "merge_accumulator_to_slice ma = writable_buffer_to_slice (ma_data ma)"

definition merge_accumulator_length :: "merge_accumulator \<Rightarrow> uint64" where
  "merge_accumulator_length ma = writable_buffer_length (ma_data ma)"

definition merge_accumulator_to_message :: "merge_accumulator \<Rightarrow> message" where
  "merge_accumulator_to_message ma =
     message_create (ma_type ma) (writable_buffer_to_slice (ma_data ma))"

definition merge_accumulator_copy_message ::
  "malloc_fn \<Rightarrow> merge_accumulator \<Rightarrow> message \<Rightarrow> (bool \<times> merge_accumulator) option" where
  "merge_accumulator_copy_message malloc ma msg =
     (case writable_buffer_copy_slice malloc (ma_data ma) (msg_data msg) of
        None \<Rightarrow> None
      | Some (rc, wb) \<Rightarrow>
          if \<not> SUCCESS rc then Some (False, ma\<lparr>ma_data := wb\<rparr>)
          else Some (True, \<lparr>ma_type = message_class msg, ma_data = wb\<rparr>))"

definition merge_accumulator_init_from_message ::
  "malloc_fn \<Rightarrow> message \<Rightarrow> (bool \<times> merge_accumulator) option" where
  "merge_accumulator_init_from_message malloc msg =
     merge_accumulator_copy_message malloc merge_accumulator_init msg"

definition merge_accumulator_resize ::
  "malloc_fn \<Rightarrow> merge_accumulator \<Rightarrow> uint64 \<Rightarrow> (bool \<times> merge_accumulator) option" where
  "merge_accumulator_resize malloc ma newsize =
     map_option (\<lambda>(rc, wb). (SUCCESS rc, ma\<lparr>ma_data := wb\<rparr>))
       (writable_buffer_resize malloc (ma_data ma) newsize)"

definition merge_accumulator_set_class :: "merge_accumulator \<Rightarrow> message_type \<Rightarrow> merge_accumulator" where
  "merge_accumulator_set_class ma ty = ma\<lparr>ma_type := ty\<rparr>"

definition merge_accumulator_set_to_null :: "merge_accumulator \<Rightarrow> merge_accumulator" where
  "merge_accumulator_set_to_null ma =
     \<lparr>ma_type = MESSAGE_TYPE_INVALID, ma_data = writable_buffer_set_to_null (ma_data ma)\<rparr>"

definition merge_accumulator_is_null :: "merge_accumulator \<Rightarrow> bool" where
  "merge_accumulator_is_null ma \<longleftrightarrow> writable_buffer_is_null (ma_data ma)"

subsection \<open>The application's callbacks\<close>

record data_config =
  max_key_size :: nat
  cfg_key_compare :: "slice \<Rightarrow> slice \<Rightarrow> int"
  cfg_key_hash :: "bytes \<Rightarrow> uint32 \<Rightarrow> uint32"
  cfg_merge_tuples :: "(slice \<Rightarrow> message \<Rightarrow> merge_accumulator \<Rightarrow> int \<times> merge_accumulator) option"
  cfg_merge_tuples_final :: "(slice \<Rightarrow> merge_accumulator \<Rightarrow> int \<times> merge_accumulator) option"

definition data_key_compare :: "data_config \<Rightarrow> key \<Rightarrow> key \<Rightarrow> int" where
  "data_key_compare cfg key1 key2 =
     (if key_is_user_key key1 \<and> key_is_user_key key2
      then cfg_key_compare cfg (user_slice key1) (user_slice key2)
      else key_type_code (kind key1) - key_type_code (kind key2))"

definition data_key_hash :: "data_config \<Rightarrow> key \<Rightarrow> uint32 \<Rightarrow> uint32" where
  "data_key_hash cfg k seed =
     (if key_is_user_key k then cfg_key_hash cfg (key_data k) seed
      else seed * word_of_int (key_type_code (kind k)))"

definition clear_deleted ::
  "malloc_fn \<Rightarrow> int \<times> merge_accumulator \<Rightarrow> (int \<times> merge_accumulator) option" where
  "clear_deleted malloc r =
     (let (result, ma) = r
      in if result \<noteq> 0 \<and> merge_accumulator_message_class ma = MESSAGE_TYPE_DELETE
         then map_option (\<lambda>(_, ma'). (result, ma')) (merge_accumulator_resize malloc ma 0)
         else Some (result, ma))"

definition data_merge_tuples ::
  "malloc_fn \<Rightarrow> data_config \<Rightarrow> key \<Rightarrow> message \<Rightarrow> merge_accumulator \<Rightarrow> (int \<times> merge_accumulator) option" where
  "data_merge_tuples malloc cfg tuple_key old_raw_message new_message =
     (if merge_accumulator_is_definitive new_message then Some (0, new_message)
      else if message_class old_raw_message = MESSAGE_TYPE_DELETE
      then map_option (\<lambda>f. f (user_slice tuple_key) new_message) (cfg_merge_tuples_final cfg)
      else Option.bind (cfg_merge_tuples cfg)
             (\<lambda>f. clear_deleted malloc (f (user_slice tuple_key) old_raw_message new_message)))"

definition data_merge_tuples_final ::
  "malloc_fn \<Rightarrow> data_config \<Rightarrow> key \<Rightarrow> merge_accumulator \<Rightarrow> (int \<times> merge_accumulator) option" where
  "data_merge_tuples_final malloc cfg tuple_key oldest_message =
     (if merge_accumulator_is_definitive oldest_message then Some (0, oldest_message)
      else Option.bind (cfg_merge_tuples_final cfg)
             (\<lambda>f. clear_deleted malloc (f (user_slice tuple_key) oldest_message)))"

text \<open>
  The default configuration. \<open>key_compare\<close> asserts that neither slice is null (\<open>None\<close>);
  the hash function \<open>platform_hash32\<close> comes from a third-party library and is an argument.
\<close>

definition key_compare :: "slice \<Rightarrow> slice \<Rightarrow> int option" where
  "key_compare key1 key2 =
     (if slice_data key1 = None then None
      else if slice_data key2 = None then None
      else Some (slice_lex_cmp key1 key2))"

definition default_data_config_init :: "(bytes \<Rightarrow> uint32 \<Rightarrow> uint32) \<Rightarrow> nat \<Rightarrow> data_config" where
  "default_data_config_init platform_hash32 max_size =
     \<lparr>max_key_size = max_size,
      cfg_key_compare = (\<lambda>a b. case key_compare a b of None \<Rightarrow> 0 | Some c \<Rightarrow> c),
      cfg_key_hash = platform_hash32,
      cfg_merge_tuples = None,
      cfg_merge_tuples_final = None\<rparr>"

section \<open>Keys with infinities are totally ordered\<close>

text \<open>
  The contract of an application's key comparison, on the user keys in \<open>udom\<close>, and what the
  wrapper \<open>data_key_compare\<close> makes of it: a total order on all keys, with the infinities at
  its ends.
\<close>

definition key_dom :: "(slice \<Rightarrow> bool) \<Rightarrow> key \<Rightarrow> bool" where
  "key_dom udom k \<longleftrightarrow> (if kind k = USER_KEY then udom (user_slice k) else user_slice k = INVALID_SLICE)"

locale user_key_order =
  fixes cfg :: data_config and udom :: "slice \<Rightarrow> bool"
  assumes user_total: "total_compare udom (cfg_key_compare cfg)"
begin

lemma key_total: "total_compare (key_dom udom) (data_key_compare cfg)"
proof
  fix a b c :: key
  assume a: "key_dom udom a" and b: "key_dom udom b"
  note T = total_compare.cmp_eq [OF user_total] total_compare.cmp_sym [OF user_total]
    total_compare.cmp_trans [OF user_total]
  show "data_key_compare cfg a b = 0 \<longleftrightarrow> a = b"
    using a b T(1) [of "user_slice a" "user_slice b"]
    by (cases a; cases b; cases "kind a"; cases "kind b")
      (auto simp: data_key_compare_def key_is_user_key_def key_dom_def)
  show "0 < data_key_compare cfg b a \<longleftrightarrow> data_key_compare cfg a b < 0"
    using a b T(2) [of "user_slice a" "user_slice b"]
    by (cases "kind a"; cases "kind b")
      (auto simp: data_key_compare_def key_is_user_key_def key_dom_def)
  assume c: "key_dom udom c"
  assume "data_key_compare cfg a b < 0" "data_key_compare cfg b c < 0"
  then show "data_key_compare cfg a c < 0"
    using a b c T(3) [of "user_slice a" "user_slice b" "user_slice c"]
    by (cases "kind a"; cases "kind b"; cases "kind c")
      (auto simp: data_key_compare_def key_is_user_key_def key_dom_def)
qed

lemma infinities_bound:
  assumes "key_dom udom k"
  shows "data_key_compare cfg NEGATIVE_INFINITY_KEY k \<le> 0"
    and "data_key_compare cfg k POSITIVE_INFINITY_KEY \<le> 0"
  by (cases "kind k"; simp add: data_key_compare_def key_is_user_key_def NEGATIVE_INFINITY_KEY_def
        POSITIVE_INFINITY_KEY_def)+

end

sublocale user_key_order \<subseteq> total_compare "key_dom udom" "data_key_compare cfg"
  by (rule key_total)

definition slice_dom :: "slice \<Rightarrow> bool" where
  "slice_dom s \<longleftrightarrow> (case s of Slice bs \<Rightarrow> length bs < 2 ^ 31 | _ \<Rightarrow> False)"

lemma default_compare_Slice:
  "cfg_key_compare (default_data_config_init h n) (Slice a) (Slice b) = slice_lex_cmp (Slice a) (Slice b)"
  by (simp add: default_data_config_init_def key_compare_def)

lemma default_user_total: "total_compare slice_dom (cfg_key_compare (default_data_config_init h n))"
proof
  fix a b c :: slice
  assume "slice_dom a" "slice_dom b"
  then obtain x y where ab: "a = Slice x" "b = Slice y" "length x < 2 ^ 31" "length y < 2 ^ 31"
    by (auto simp: slice_dom_def split: slice.splits)
  show "cfg_key_compare (default_data_config_init h n) a b = 0 \<longleftrightarrow> a = b"
    using lex.cmp_eq [OF ab(3,4)] by (simp add: ab(1,2) default_compare_Slice)
  show "0 < cfg_key_compare (default_data_config_init h n) b a
     \<longleftrightarrow> cfg_key_compare (default_data_config_init h n) a b < 0"
    using lex.cmp_sym [OF ab(3,4)] by (simp add: ab(1,2) default_compare_Slice)
  assume "slice_dom c"
  then obtain z where c: "c = Slice z" "length z < 2 ^ 31"
    by (auto simp: slice_dom_def split: slice.splits)
  assume "cfg_key_compare (default_data_config_init h n) a b < 0"
    "cfg_key_compare (default_data_config_init h n) b c < 0"
  then show "cfg_key_compare (default_data_config_init h n) a c < 0"
    using lex.cmp_trans [OF ab(3,4) c(2)] by (simp add: ab(1,2) c(1) default_compare_Slice)
qed

interpretation dflt: user_key_order "default_data_config_init h n" slice_dom for h n
  by (rule user_key_order.intro) (rule default_user_total)

section \<open>On-disk representation\<close>

lemma unat_of_nat16: "n < 65536 \<Longrightarrow> unat (word_of_nat n :: uint16) = n"
  by (simp add: unsigned_of_nat take_bit_nat_eq_self)

lemma key_disk_roundtrip:
  assumes "kind k = USER_KEY \<and> user_slice k = Slice bs \<or> kind k \<noteq> USER_KEY \<and> user_slice k = INVALID_SLICE"
    and "key_length k < 65534" and "key_length k \<le> length (odk_bytes odk)"
  shows "ondisk_key_to_key (copy_key_to_ondisk_key odk k) = k
    \<and> sizeof_ondisk_key_data (copy_key_to_ondisk_key odk k) = ondisk_key_required_data_capacity k"
proof (cases "kind k")
  case USER_KEY
  with assms have k: "k = key_create bs" "length bs < 65534"
    by (auto simp: key_create_def key_length_def)
  have u: "unat (word_of_nat (length bs) :: uint16) = length bs"
    using k(2) by (simp add: unat_of_nat16)
  with k(2) have "word_of_nat (length bs) \<noteq> (65535 :: uint16)" "word_of_nat (length bs) \<noteq> (65534 :: uint16)"
    by auto
  with u show ?thesis
    by (simp add: k(1) copy_key_to_ondisk_key_def ondisk_key_to_key_def key_is_user_key_def
          key_length_def key_data_def key_create_def slice_bytes_def sizeof_ondisk_key_data_def
          ondisk_key_required_data_capacity_def ONDISK_KEY_NEGATIVE_INFINITY_def
          ONDISK_KEY_POSITIVE_INFINITY_def)
next
  case NEGATIVE_INFINITY
  with assms show ?thesis
    by (cases k) (auto simp: copy_key_to_ondisk_key_def ondisk_key_to_key_def key_is_user_key_def
          key_is_negative_infinity_def NEGATIVE_INFINITY_KEY_def sizeof_ondisk_key_data_def
          ondisk_key_required_data_capacity_def key_length_def)
next
  case POSITIVE_INFINITY
  with assms show ?thesis
    by (cases k) (auto simp: copy_key_to_ondisk_key_def ondisk_key_to_key_def key_is_user_key_def
          key_is_negative_infinity_def key_is_positive_infinity_def POSITIVE_INFINITY_KEY_def
          sizeof_ondisk_key_data_def ondisk_key_required_data_capacity_def key_length_def
          ONDISK_KEY_NEGATIVE_INFINITY_def ONDISK_KEY_POSITIVE_INFINITY_def)
qed

lemma message_type_flag_roundtrip:
  assumes "ty \<noteq> MESSAGE_TYPE_PIVOT_DATA"
  shows "message_type_of (unat ((word_of_nat (message_type_code ty) :: uint8) AND ONDISK_MESSAGE_TYPE_MASK)) = ty"
  using assms by (cases ty) (simp_all add: ONDISK_MESSAGE_TYPE_MASK_def message_type_of_def)

lemma tuple_disk_roundtrip:
  assumes "length bs < 65536" "message_length msg < 65536"
    and "msg_type msg \<noteq> MESSAGE_TYPE_PIVOT_DATA"
    and "length bs + message_length msg \<le> length (odt_key_and_message odt)"
  shows "ondisk_tuple_key (copy_tuple_to_ondisk_tuple odt (key_create bs) msg) = key_create bs"
    and "ondisk_tuple_message (copy_tuple_to_ondisk_tuple odt (key_create bs) msg)
           = message_create (msg_type msg) (Slice (message_data msg))"
    and "sizeof_ondisk_tuple_data (copy_tuple_to_ondisk_tuple odt (key_create bs) msg)
           = ondisk_tuple_required_data_capacity (key_create bs) msg"
    and "odt_key_flags (copy_tuple_to_ondisk_tuple odt (key_create bs) msg) = odt_key_flags odt"
proof -
  have kl: "unat (word_of_nat (length bs) :: uint16) = length bs"
    and ml: "unat (word_of_nat (message_length msg) :: uint16) = message_length msg"
    using assms by (simp_all add: unat_of_nat16)
  have md: "length (message_data msg) = message_length msg"
    using assms(2) by (cases "msg_data msg") (simp_all add: message_data_def message_length_def slice_bytes_def)
  note defs = copy_tuple_to_ondisk_tuple_def copy_message_to_ondisk_tuple_def ondisk_tuple_key_def
    ondisk_tuple_message_def ondisk_tuple_message_class_def key_create_def key_length_def key_data_def
    slice_bytes_def message_class_def
  show "ondisk_tuple_key (copy_tuple_to_ondisk_tuple odt (key_create bs) msg) = key_create bs"
    using kl assms by (simp add: defs memcpy_def)
  show "ondisk_tuple_message (copy_tuple_to_ondisk_tuple odt (key_create bs) msg)
           = message_create (msg_type msg) (Slice (message_data msg))"
    using kl ml md assms message_type_flag_roundtrip [OF assms(3)]
    by (simp add: defs memcpy_def)
  show "sizeof_ondisk_tuple_data (copy_tuple_to_ondisk_tuple odt (key_create bs) msg)
           = ondisk_tuple_required_data_capacity (key_create bs) msg"
    using kl ml by (simp add: defs sizeof_ondisk_tuple_data_def ondisk_tuple_required_data_capacity_def)
  show "odt_key_flags (copy_tuple_to_ondisk_tuple odt (key_create bs) msg) = odt_key_flags odt"
    by (simp add: defs)
qed


section \<open>Copies into buffers and accumulators\<close>

definition ma_inv :: "merge_accumulator \<Rightarrow> bool" where
  "ma_inv ma \<longleftrightarrow> wb_inv (ma_data ma)"

lemma ma_inv_init: "ma_inv merge_accumulator_init"
  by (simp add: ma_inv_def merge_accumulator_init_def wb_inv_init)

text \<open>What an accumulator holds, apart from where its bytes live.\<close>

definition ma_view :: "merge_accumulator \<Rightarrow> message_type \<times> bytes" where
  "ma_view ma = (ma_type ma, wb_contents (ma_data ma))"

definition msg_view :: "message \<Rightarrow> message_type \<times> bytes" where
  "msg_view msg = (msg_type msg, message_data msg)"

lemma msg_view_ma: "msg_view (merge_accumulator_to_message ma) = ma_view ma"
  by (simp add: msg_view_def ma_view_def merge_accumulator_to_message_def message_create_def
        message_data_def wb_contents_def)

lemma ma_copy_ok:
  assumes "ma_inv ma" "malloc_ok malloc" "message_length msg < 2 ^ 64 - 1"
  obtains ok ma' where "merge_accumulator_copy_message malloc ma msg = Some (ok, ma')" "ma_inv ma'"
    "ok \<and> ma_view ma' = msg_view msg \<and> \<not> merge_accumulator_is_null ma' \<or> \<not> ok \<and> ma' = ma"
proof -
  obtain rc wb where r: "writable_buffer_copy_slice malloc (ma_data ma) (msg_data msg) = Some (rc, wb)"
    "wb_inv wb"
    "rc = STATUS_OK \<and> wb_length wb = word_of_nat (message_length msg) \<and> wb_contents wb = message_data msg
     \<or> rc = STATUS_NO_MEMORY \<and> wb = ma_data ma"
    using copy_slice_ok [of "ma_data ma" malloc "msg_data msg"] assms
    unfolding ma_inv_def message_length_def message_data_def by metis
  have nn: "(word_of_nat (message_length msg) :: uint64) \<noteq> WRITABLE_BUFFER_NULL_LENGTH"
    using assms(3) unat_of_nat64 [of "message_length msg"] by (auto simp: WRITABLE_BUFFER_NULL_LENGTH_def)
  show ?thesis
  proof (cases "rc = STATUS_OK")
    case True
    with r nn show ?thesis
      by (intro that [of True "\<lparr>ma_type = msg_type msg, ma_data = wb\<rparr>"])
        (auto simp: merge_accumulator_copy_message_def message_class_def ma_inv_def ma_view_def
          msg_view_def merge_accumulator_is_null_def writable_buffer_is_null_def)
  next
    case False
    with r assms(1) show ?thesis
      by (intro that [of False ma]) (auto simp: merge_accumulator_copy_message_def)
  qed
qed

text \<open>
  C26: A key buffer initialised from a key holds that key, infinities included, or reports that memory ran
  out.
\<close>

theorem key_buffer_copy_key_roundtrip:
  assumes "malloc_ok malloc" "length junk = DEFAULT_KEY_BUFFER_SIZE"
    and "kind k = USER_KEY \<and> user_slice k = Slice bs \<and> length bs < 2 ^ 64 - 1
         \<or> kind k \<noteq> USER_KEY \<and> user_slice k = INVALID_SLICE"
  shows "\<exists>rc kb. key_buffer_init_from_key malloc junk k = Some (rc, kb)
     \<and> (rc = STATUS_OK \<and> key_buffer_key kb = k \<or> rc = STATUS_NO_MEMORY)"
proof (cases "kind k")
  case USER_KEY
  with assms have k: "user_slice k = Slice bs" "length bs < 2 ^ 64 - 1" by auto
  let ?wb = "kb_wb (key_buffer_init junk)"
  have inv: "wb_inv ?wb"
    using assms(2) by (simp add: key_buffer_init_def wb_inv_def writable_buffer_init_with_buffer_def
          DEFAULT_KEY_BUFFER_SIZE_def)
  obtain rc wb where r: "writable_buffer_copy_slice malloc ?wb (Slice bs) = Some (rc, wb)"
    "wb_capacity ?wb \<le> wb_capacity wb" "wb_inv wb"
    "rc = STATUS_OK \<and> wb_length wb = word_of_nat (length bs) \<and> wb_contents wb = bs \<or> rc = STATUS_NO_MEMORY"
    using copy_slice_ok [OF inv assms(1), of "Slice bs"] k(2)
    by (metis slice_bytes_def slice_data.simps(3) slice_length.simps(3) option.simps(5))
  have "wb_buffer wb \<noteq> None"
    using r(2,3) assms(2) by (auto simp: wb_inv_def key_buffer_init_def
          writable_buffer_init_with_buffer_def DEFAULT_KEY_BUFFER_SIZE_def split: option.splits)
  moreover have "(word_of_nat (length bs) :: uint64) \<noteq> WRITABLE_BUFFER_NULL_LENGTH"
    using k(2) unat_of_nat64 [of "length bs"] by (auto simp: WRITABLE_BUFFER_NULL_LENGTH_def)
  ultimately have "rc = STATUS_OK \<Longrightarrow> writable_buffer_to_slice wb = Slice bs"
    using r(4) by (auto simp: wb_contents_def writable_buffer_to_slice_def slice_bytes_def)
  with r k(1) USER_KEY show ?thesis
    by (cases k) (auto simp: key_buffer_init_from_key_def key_buffer_copy_key_def key_is_negative_infinity_def
          key_is_positive_infinity_def key_buffer_copy_slice_def key_buffer_key_def
          key_create_from_slice_def)
next
  case NEGATIVE_INFINITY
  with assms(3) show ?thesis
    by (cases k) (auto simp: key_buffer_init_from_key_def key_buffer_copy_key_def
          key_is_negative_infinity_def key_buffer_key_def NEGATIVE_INFINITY_KEY_def)
next
  case POSITIVE_INFINITY
  with assms(3) show ?thesis
    by (cases k) (auto simp: key_buffer_init_from_key_def key_buffer_copy_key_def
          key_is_negative_infinity_def key_is_positive_infinity_def key_buffer_key_def POSITIVE_INFINITY_KEY_def)
qed

section \<open>Merging\<close>

lemma data_merge_definitive:
  "merge_accumulator_is_definitive ma \<Longrightarrow> data_merge_tuples malloc cfg k old ma = Some (0, ma)"
  "merge_accumulator_is_definitive ma \<Longrightarrow> data_merge_tuples_final malloc cfg k ma = Some (0, ma)"
  by (simp_all add: data_merge_tuples_def data_merge_tuples_final_def)

text \<open>
  The payload of a merged delete: it is emptied when the callback reports an error, and kept
  when the callback reports success.
\<close>

lemma merge_delete_payload:
  assumes "\<not> merge_accumulator_is_definitive new" "msg_type old \<noteq> MESSAGE_TYPE_DELETE"
    and "cfg_merge_tuples cfg = Some f" "f (user_slice k) old new = (rc, ma)"
    and "ma_type ma = MESSAGE_TYPE_DELETE" "ma_inv ma" "malloc_ok malloc"
  shows "rc = 0 \<Longrightarrow> data_merge_tuples malloc cfg k old new = Some (0, ma)"
    and "rc \<noteq> 0 \<Longrightarrow> \<exists>ma'. data_merge_tuples malloc cfg k old new = Some (rc, ma') \<and> ma_view ma' = (MESSAGE_TYPE_DELETE, [])"
proof -
  show "rc = 0 \<Longrightarrow> data_merge_tuples malloc cfg k old new = Some (0, ma)"
    using assms by (simp add: data_merge_tuples_def clear_deleted_def message_class_def)
  have "writable_buffer_ensure_space malloc (ma_data ma) 0 = (STATUS_OK, ma_data ma)"
    by (simp add: writable_buffer_ensure_space_def)
  then show "rc \<noteq> 0 \<Longrightarrow> \<exists>ma'. data_merge_tuples malloc cfg k old new = Some (rc, ma') \<and> ma_view ma' = (MESSAGE_TYPE_DELETE, [])"
    using assms
    by (auto simp: data_merge_tuples_def clear_deleted_def message_class_def merge_accumulator_message_class_def
          merge_accumulator_resize_def writable_buffer_resize_def WRITABLE_BUFFER_NULL_LENGTH_def ma_view_def
          wb_contents_alt writable_buffer_data_def split: option.splits)
qed

section \<open>Round trips and merges\<close>

text \<open>
  C24: A key written to an ondisk_key and read back is the key, for user keys and both infinities, and its
  size on disk is the capacity that was asked for.
\<close>

theorem ondisk_key_roundtrip:
  assumes "kind k = USER_KEY \<and> user_slice k = Slice bs \<or> kind k \<noteq> USER_KEY \<and> user_slice k = INVALID_SLICE"
    and "key_length k < 65534" and "key_length k \<le> length (odk_bytes odk)"
  shows "ondisk_key_to_key (copy_key_to_ondisk_key odk k) = k
    \<and> sizeof_ondisk_key_data (copy_key_to_ondisk_key odk k) = ondisk_key_required_data_capacity k"
  by (rule key_disk_roundtrip [OF assms])

text \<open>
  C25: A tuple written to an ondisk_tuple and read back gives the key and the message, in the size that was
  asked for; the key flags of the memory are never written.
\<close>

theorem ondisk_tuple_roundtrip:
  assumes "length bs < 65536" "message_length msg < 65536"
    and "msg_type msg \<noteq> MESSAGE_TYPE_PIVOT_DATA"
    and "length bs + message_length msg \<le> length (odt_key_and_message odt)"
  shows "let odt' = copy_tuple_to_ondisk_tuple odt (key_create bs) msg
    in ondisk_tuple_key odt' = key_create bs
     \<and> ondisk_tuple_message odt' = message_create (msg_type msg) (Slice (message_data msg))
     \<and> sizeof_ondisk_tuple_data odt' = ondisk_tuple_required_data_capacity (key_create bs) msg
     \<and> odt_key_flags odt' = odt_key_flags odt"
  using tuple_disk_roundtrip [OF assms] by (simp add: Let_def)

text \<open>
  C27: When the merge callback turns the result into a delete, its payload is emptied only if the callback
  reports an error; on success the payload stays.
\<close>

theorem data_merge_tuples_delete_payload:
  assumes "\<not> merge_accumulator_is_definitive new" "msg_type old \<noteq> MESSAGE_TYPE_DELETE"
    and "cfg_merge_tuples cfg = Some f" "f (user_slice k) old new = (rc, ma)"
    and "ma_type ma = MESSAGE_TYPE_DELETE" "ma_inv ma" "malloc_ok malloc"
  shows "if rc = 0 then data_merge_tuples malloc cfg k old new = Some (0, ma)
    else \<exists>ma'. data_merge_tuples malloc cfg k old new = Some (rc, ma') \<and> ma_view ma' = (MESSAGE_TYPE_DELETE, [])"
  using merge_delete_payload [OF assms] by simp

end
