(* ===== verification/BTree_Node.thy ===== *)
theory BTree_Node
  imports Data
begin

text \<open>
  Model of the node level of \<open>btree.c\<close> and \<open>btree_private.h\<close>: the page layout (header, offset
  table growing up, entries growing down), the get/set operations on leaf and index nodes,
  the binary searches, the incorporation of a tuple into a leaf, defragmentation,
  truncation, and the planning and execution of splits.

  A page is a header and a typed memory: \<open>entries\<close> maps the byte offsets that hold an entry to
  it, \<open>offsets\<close> is the used part of the offset table, so \<open>num_entries\<close> is its length. Sizes and
  offsets are in bytes and computed as in the source; stores into the \<open>uint16\<close> fields are
  truncated by \<open>u16\<close>. That entries never overlap each other or the table, which justifies the
  typed memory, is the invariant \<open>layout_ok\<close>, proved for every operation. \<open>None\<close> stands for a
  failed \<open>platform_assert\<close> or a read of memory that holds no entry.
\<close>

section \<open>Definitions\<close>

subsection \<open>Headers and entries\<close>

record 'e btree_hdr =
  prev_addr :: uint64
  next_addr :: uint64
  next_extent_addr :: uint64
  generation :: uint64
  height :: uint8
  next_entry :: nat
  offsets :: "nat list"
  entries :: "nat \<Rightarrow> 'e option"

record btree_pivot_stats =
  num_kvs :: uint32
  key_bytes :: uint32
  message_bytes :: uint32

record index_entry =
  ie_child_addr :: uint64
  ie_stats :: btree_pivot_stats
  ie_pivot :: ondisk_key

type_synonym leaf_entry = ondisk_tuple
type_synonym leaf_hdr = "ondisk_tuple btree_hdr"
type_synonym index_hdr = "index_entry btree_hdr"

record btree_config =
  bc_page_size :: nat
  bc_data_cfg :: data_config

text \<open>\<open>sizeof(btree_hdr)\<close> is 37 and a table entry has 2 bytes: \<open>diff_ptr(hdr, &hdr->offsets[n])\<close>.\<close>

definition table_end :: "nat \<Rightarrow> nat" where
  "table_end n = 37 + 2 * n"

definition btree_init_hdr :: "btree_config \<Rightarrow> 'e btree_hdr" where
  "btree_init_hdr cfg =
     \<lparr>prev_addr = 0, next_addr = 0, next_extent_addr = 0, generation = 0, height = 0,
      next_entry = u16 (bc_page_size cfg), offsets = [], entries = (\<lambda>_. None)\<rparr>"

definition btree_num_entries :: "'e btree_hdr \<Rightarrow> nat" where
  "btree_num_entries hdr = length (offsets hdr)"

definition btree_height :: "'e btree_hdr \<Rightarrow> uint8" where
  "btree_height hdr = height hdr"

definition btree_increment_height :: "'e btree_hdr \<Rightarrow> 'e btree_hdr" where
  "btree_increment_height hdr = hdr\<lparr>height := height hdr + 1\<rparr>"

definition btree_reset_node_entries :: "btree_config \<Rightarrow> 'e btree_hdr \<Rightarrow> 'e btree_hdr" where
  "btree_reset_node_entries cfg hdr = hdr\<lparr>offsets := [], next_entry := u16 (bc_page_size cfg)\<rparr>"

definition MAX_INLINE_KEY_SIZE :: "nat \<Rightarrow> nat" where
  "MAX_INLINE_KEY_SIZE page_size = page_size div 8"

definition MAX_INLINE_MESSAGE_SIZE :: "nat \<Rightarrow> nat" where
  "MAX_INLINE_MESSAGE_SIZE page_size = 35 * page_size div 100"

definition get_entry :: "'e btree_hdr \<Rightarrow> nat \<Rightarrow> 'e option" where
  "get_entry hdr k = (if k < btree_num_entries hdr then entries hdr (offsets hdr ! k) else None)"

text \<open>\<open>memmove\<close> of the table tail and the store that puts the last entry at position \<open>k\<close>.\<close>

definition rotate_last_offset :: "'e btree_hdr \<Rightarrow> nat \<Rightarrow> 'e btree_hdr" where
  "rotate_last_offset hdr k =
     (let n = btree_num_entries hdr;
          offs = offsets hdr;
          this_entry_offset = offs ! (n - 1);
          moved = memcpy offs (k + 1) (take (n - k - 1) (drop k offs))
      in hdr\<lparr>offsets := moved[k := this_entry_offset]\<rparr>)"

subsection \<open>Index nodes\<close>

text \<open>\<open>sizeof(index_entry)\<close> is 23: an address, three counters and the header of the key.\<close>

definition sizeof_index_entry :: "index_entry \<Rightarrow> nat" where
  "sizeof_index_entry e = 23 + sizeof_ondisk_key_data (ie_pivot e)"

definition index_entry_required_capacity :: "key \<Rightarrow> nat" where
  "index_entry_required_capacity pivot = 23 + key_length pivot"

definition index_entry_key :: "index_entry \<Rightarrow> key" where
  "index_entry_key e = ondisk_key_to_key (ie_pivot e)"

definition index_entry_child_addr :: "index_entry \<Rightarrow> uint64" where
  "index_entry_child_addr e = ie_child_addr e AND NOT 0xFFF"

definition btree_get_index_entry :: "index_hdr \<Rightarrow> nat \<Rightarrow> index_entry option" where
  "btree_get_index_entry hdr k = get_entry hdr k"

definition btree_get_pivot :: "index_hdr \<Rightarrow> nat \<Rightarrow> key option" where
  "btree_get_pivot hdr k = map_option index_entry_key (btree_get_index_entry hdr k)"

definition btree_get_child_addr :: "index_hdr \<Rightarrow> nat \<Rightarrow> uint64 option" where
  "btree_get_child_addr hdr k = map_option index_entry_child_addr (btree_get_index_entry hdr k)"

definition BTREE_UNKNOWN_COUNTER :: uint32 where
  "BTREE_UNKNOWN_COUNTER = 0x7fffffff"

definition BTREE_PIVOT_STATS_UNKNOWN :: btree_pivot_stats where
  "BTREE_PIVOT_STATS_UNKNOWN =
     \<lparr>num_kvs = BTREE_UNKNOWN_COUNTER, key_bytes = BTREE_UNKNOWN_COUNTER,
      message_bytes = BTREE_UNKNOWN_COUNTER\<rparr>"

text \<open>The memory a new index entry is written into.\<close>

definition blank_index_entry :: "nat \<Rightarrow> index_entry" where
  "blank_index_entry n =
     \<lparr>ie_child_addr = 0, ie_stats = \<lparr>num_kvs = 0, key_bytes = 0, message_bytes = 0\<rparr>,
      ie_pivot = \<lparr>odk_length = 0, odk_flags = 0, odk_bytes = replicate n 0\<rparr>\<rparr>"

definition btree_fill_index_entry ::
  "index_entry \<Rightarrow> key \<Rightarrow> uint64 \<Rightarrow> btree_pivot_stats \<Rightarrow> index_entry" where
  "btree_fill_index_entry e new_pivot_key new_addr stats =
     e\<lparr>ie_pivot := copy_key_to_ondisk_key (ie_pivot e) new_pivot_key,
       ie_child_addr := new_addr,
       ie_stats := stats\<rparr>"

text \<open>The part of \<open>btree_set_index_entry\<close> behind the in-place cases.\<close>

definition btree_place_index_entry ::
  "index_hdr \<Rightarrow> nat \<Rightarrow> key \<Rightarrow> uint64 \<Rightarrow> btree_pivot_stats \<Rightarrow> bool \<times> index_hdr" where
  "btree_place_index_entry hdr k new_pivot_key new_addr stats =
     (let num = btree_num_entries hdr;
          new_num_entries = (if k < num then num else k + 1);
          req = index_entry_required_capacity new_pivot_key
      in if next_entry hdr < table_end new_num_entries + req then (False, hdr)
         else
           let new_off = next_entry hdr - req;
               new_entry = btree_fill_index_entry (blank_index_entry (key_length new_pivot_key))
                             new_pivot_key new_addr stats
           in (True,
               hdr\<lparr>entries := (entries hdr)(new_off \<mapsto> new_entry),
                   offsets := (if k < num then (offsets hdr)[k := u16 new_off]
                               else offsets hdr @ [u16 new_off]),
                   next_entry := u16 new_off\<rparr>))"

definition btree_set_index_entry ::
  "index_hdr \<Rightarrow> nat \<Rightarrow> key \<Rightarrow> uint64 \<Rightarrow> btree_pivot_stats \<Rightarrow> (bool \<times> index_hdr) option" where
  "btree_set_index_entry hdr k new_pivot_key new_addr stats =
     (let num = btree_num_entries hdr;
          req = index_entry_required_capacity new_pivot_key
      in if \<not> k \<le> num then None
         else if k < num then
           Option.bind (btree_get_index_entry hdr k) (\<lambda>old_entry.
             if next_entry hdr = offsets hdr ! k
                \<and> table_end num + req \<le> next_entry hdr + sizeof_index_entry old_entry
             then Some (btree_place_index_entry
                          (hdr\<lparr>next_entry := u16 (next_entry hdr + sizeof_index_entry old_entry)\<rparr>)
                          k new_pivot_key new_addr stats)
             else if req \<le> sizeof_index_entry old_entry
             then Some (True,
                    hdr\<lparr>entries := (entries hdr)(offsets hdr ! k \<mapsto>
                       btree_fill_index_entry old_entry new_pivot_key new_addr stats)\<rparr>)
             else Some (btree_place_index_entry hdr k new_pivot_key new_addr stats))
         else Some (btree_place_index_entry hdr k new_pivot_key new_addr stats))"

definition btree_insert_index_entry ::
  "index_hdr \<Rightarrow> nat \<Rightarrow> key \<Rightarrow> uint64 \<Rightarrow> btree_pivot_stats \<Rightarrow> (bool \<times> index_hdr) option" where
  "btree_insert_index_entry hdr k new_pivot_key new_addr stats =
     map_option (\<lambda>(succeeded, hdr').
         (succeeded, if succeeded then rotate_last_offset hdr' k else hdr'))
       (btree_set_index_entry hdr (btree_num_entries hdr) new_pivot_key new_addr stats)"

subsection \<open>Leaf nodes\<close>

text \<open>\<open>sizeof(leaf_entry)\<close> is 6.\<close>

definition sizeof_leaf_entry :: "leaf_entry \<Rightarrow> nat" where
  "sizeof_leaf_entry e = 6 + sizeof_ondisk_tuple_data e"

definition leaf_entry_required_capacity :: "key \<Rightarrow> message \<Rightarrow> nat" where
  "leaf_entry_required_capacity tuple_key msg = 6 + key_length tuple_key + message_length msg"

definition leaf_entry_key :: "leaf_entry \<Rightarrow> key" where
  "leaf_entry_key e = ondisk_tuple_key e"

definition leaf_entry_message :: "leaf_entry \<Rightarrow> message" where
  "leaf_entry_message e = ondisk_tuple_message e"

definition leaf_entry_message_type :: "leaf_entry \<Rightarrow> message_type" where
  "leaf_entry_message_type e = message_type_of (unat (odt_flags e AND ONDISK_MESSAGE_TYPE_MASK))"

definition leaf_entry_key_size :: "leaf_entry \<Rightarrow> nat" where
  "leaf_entry_key_size e = unat (odt_key_length e)"

definition leaf_entry_message_size :: "leaf_entry \<Rightarrow> nat" where
  "leaf_entry_message_size e = unat (odt_message_length e)"

definition btree_get_leaf_entry :: "leaf_hdr \<Rightarrow> nat \<Rightarrow> leaf_entry option" where
  "btree_get_leaf_entry hdr k = get_entry hdr k"

definition btree_get_tuple_key :: "leaf_hdr \<Rightarrow> nat \<Rightarrow> key option" where
  "btree_get_tuple_key hdr k = map_option leaf_entry_key (btree_get_leaf_entry hdr k)"

definition btree_get_tuple_message :: "leaf_hdr \<Rightarrow> nat \<Rightarrow> message option" where
  "btree_get_tuple_message hdr k = map_option leaf_entry_message (btree_get_leaf_entry hdr k)"

definition blank_leaf_entry :: "nat \<Rightarrow> leaf_entry" where
  "blank_leaf_entry n =
     \<lparr>odt_key_length = 0, odt_key_flags = 0, odt_message_length = 0, odt_flags = 0,
      odt_key_and_message = replicate n 0\<rparr>"

definition btree_fill_leaf_entry :: "leaf_entry \<Rightarrow> key \<Rightarrow> message \<Rightarrow> leaf_entry" where
  "btree_fill_leaf_entry e tuple_key msg = copy_tuple_to_ondisk_tuple e tuple_key msg"

definition btree_can_set_leaf_entry :: "leaf_hdr \<Rightarrow> nat \<Rightarrow> key \<Rightarrow> message \<Rightarrow> bool option" where
  "btree_can_set_leaf_entry hdr k new_key new_message =
     (let num = btree_num_entries hdr;
          req = leaf_entry_required_capacity new_key new_message;
          new_num_entries = (if k < num then num else k + 1);
          has_space = (\<not> next_entry hdr < table_end new_num_entries + req)
      in if num < k then Some False
         else if k < num then
           Option.bind (btree_get_leaf_entry hdr k) (\<lambda>old_entry.
             if req \<le> sizeof_leaf_entry old_entry then Some True else Some has_space)
         else Some has_space)"

definition btree_place_leaf_entry ::
  "leaf_hdr \<Rightarrow> nat \<Rightarrow> key \<Rightarrow> message \<Rightarrow> (bool \<times> leaf_hdr) option" where
  "btree_place_leaf_entry hdr k new_key new_message =
     (let num = btree_num_entries hdr;
          new_num_entries = (if k < num then num else k + 1);
          req = leaf_entry_required_capacity new_key new_message
      in if \<not> k \<le> num then None
         else if next_entry hdr < table_end new_num_entries + req then Some (False, hdr)
         else
           let new_off = next_entry hdr - req;
               new_entry = btree_fill_leaf_entry (blank_leaf_entry (req - 6)) new_key new_message;
               hdr' = hdr\<lparr>entries := (entries hdr)(new_off \<mapsto> new_entry),
                          offsets := (if k < num then (offsets hdr)[k := u16 new_off]
                                      else offsets hdr @ [u16 new_off]),
                          next_entry := u16 new_off\<rparr>
           in if \<not> table_end new_num_entries \<le> new_off then None
              else if \<not> 0 < btree_num_entries hdr' then None
              else Some (True, hdr'))"

definition btree_set_leaf_entry ::
  "leaf_hdr \<Rightarrow> nat \<Rightarrow> key \<Rightarrow> message \<Rightarrow> (bool \<times> leaf_hdr) option" where
  "btree_set_leaf_entry hdr k new_key new_message =
     (if k < btree_num_entries hdr then
        Option.bind (btree_get_leaf_entry hdr k) (\<lambda>old_entry.
          if leaf_entry_required_capacity new_key new_message \<le> sizeof_leaf_entry old_entry
          then Some (True,
                 hdr\<lparr>entries := (entries hdr)(offsets hdr ! k \<mapsto>
                    btree_fill_leaf_entry old_entry new_key new_message)\<rparr>)
          else btree_place_leaf_entry hdr k new_key new_message)
      else btree_place_leaf_entry hdr k new_key new_message)"

definition btree_insert_leaf_entry ::
  "leaf_hdr \<Rightarrow> nat \<Rightarrow> key \<Rightarrow> message \<Rightarrow> (bool \<times> leaf_hdr) option" where
  "btree_insert_leaf_entry hdr k new_key new_message =
     map_option (\<lambda>(succeeded, hdr').
         (succeeded, if succeeded then rotate_last_offset hdr' k else hdr'))
       (btree_set_leaf_entry hdr (btree_num_entries hdr) new_key new_message)"

subsection \<open>Searching a node\<close>

text \<open>
  The loop shared by \<open>btree_find_pivot\<close> and \<open>btree_find_tuple\<close>: \<open>cmp mid\<close> is the comparison of
  the key at \<open>mid\<close> with the target; the result is the index and the flag \<open>*found\<close>.
\<close>

function bsearch :: "(nat \<Rightarrow> int option) \<Rightarrow> nat \<Rightarrow> nat \<Rightarrow> (int \<times> bool) option" where
  "bsearch cmp lo hi =
     (if lo < hi then
        let mid = (lo + hi) div 2 in
        Option.bind (cmp mid) (\<lambda>c.
          if c = 0 then Some (int mid, True)
          else if c < 0 then bsearch cmp (mid + 1) hi
          else bsearch cmp lo mid)
      else Some (int lo - 1, False))"
  by pat_completeness auto
termination
  by (relation "measure (\<lambda>(_, lo, hi). hi - lo)") auto

definition btree_key_compare :: "btree_config \<Rightarrow> key \<Rightarrow> key \<Rightarrow> int" where
  "btree_key_compare cfg key1 key2 = data_key_compare (bc_data_cfg cfg) key1 key2"

definition btree_find_pivot :: "btree_config \<Rightarrow> index_hdr \<Rightarrow> key \<Rightarrow> (int \<times> bool) option" where
  "btree_find_pivot cfg hdr target =
     bsearch (\<lambda>mid. map_option (\<lambda>k. btree_key_compare cfg k target) (btree_get_pivot hdr mid))
       0 (btree_num_entries hdr)"

definition btree_find_tuple :: "btree_config \<Rightarrow> leaf_hdr \<Rightarrow> key \<Rightarrow> (int \<times> bool) option" where
  "btree_find_tuple cfg hdr target =
     bsearch (\<lambda>mid. map_option (\<lambda>k. btree_key_compare cfg k target) (btree_get_tuple_key hdr mid))
       0 (btree_num_entries hdr)"

subsection \<open>Incorporating a tuple into a leaf\<close>

datatype entry_state = ENTRY_DID_NOT_EXIST | ENTRY_STILL_EXISTS | ENTRY_HAS_BEEN_REMOVED

text \<open>The union of the source, with the constructor as its tag.\<close>

datatype spec_msg = new_message message | merged_message merge_accumulator

record leaf_incorporate_spec =
  tuple_key :: key
  idx :: int
  old_entry_state :: entry_state
  spec_msg :: spec_msg

fun spec_msg_message :: "spec_msg \<Rightarrow> message" where
  "spec_msg_message (new_message m) = m"
| "spec_msg_message (merged_message ma) = merge_accumulator_to_message ma"

definition spec_message :: "leaf_incorporate_spec \<Rightarrow> message" where
  "spec_message spec = spec_msg_message (spec_msg spec)"

definition btree_merge_tuples ::
  "malloc_fn \<Rightarrow> btree_config \<Rightarrow> key \<Rightarrow> message \<Rightarrow> merge_accumulator \<Rightarrow> (int \<times> merge_accumulator) option" where
  "btree_merge_tuples malloc cfg k old_data new_data =
     data_merge_tuples malloc (bc_data_cfg cfg) k old_data new_data"

definition btree_create_leaf_incorporate_spec ::
  "malloc_fn \<Rightarrow> btree_config \<Rightarrow> leaf_hdr \<Rightarrow> key \<Rightarrow> message
   \<Rightarrow> (platform_status \<times> leaf_incorporate_spec) option" where
  "btree_create_leaf_incorporate_spec malloc cfg hdr key msg =
     Option.bind (btree_find_tuple cfg hdr key) (\<lambda>(i, found).
       if \<not> found then
         Some (STATUS_OK, \<lparr>tuple_key = key, idx = i + 1, old_entry_state = ENTRY_DID_NOT_EXIST,
                           spec_msg = new_message msg\<rparr>)
       else
         Option.bind (btree_get_leaf_entry hdr (nat i)) (\<lambda>entry.
         Option.bind (merge_accumulator_init_from_message malloc msg) (\<lambda>(success, ma).
           let spec = (\<lambda>m. \<lparr>tuple_key = key, idx = i, old_entry_state = ENTRY_STILL_EXISTS,
                            spec_msg = merged_message m\<rparr>)
           in if \<not> success then Some (STATUS_NO_MEMORY, spec ma)
              else
                Option.bind (btree_merge_tuples malloc cfg key (leaf_entry_message entry) ma)
                  (\<lambda>(result, ma').
                    if result \<noteq> 0
                    then Some (STATUS_NO_MEMORY, spec (merge_accumulator_deinit ma'))
                    else Some (STATUS_OK, spec ma')))))"

definition btree_can_perform_leaf_incorporate_spec ::
  "leaf_hdr \<Rightarrow> leaf_incorporate_spec \<Rightarrow> bool option" where
  "btree_can_perform_leaf_incorporate_spec hdr spec =
     (case old_entry_state spec of
        ENTRY_DID_NOT_EXIST \<Rightarrow>
          btree_can_set_leaf_entry hdr (btree_num_entries hdr) (tuple_key spec) (spec_message spec)
      | ENTRY_STILL_EXISTS \<Rightarrow>
          btree_can_set_leaf_entry hdr (nat (idx spec)) (tuple_key spec) (spec_message spec)
      | ENTRY_HAS_BEEN_REMOVED \<Rightarrow>
          btree_can_set_leaf_entry hdr (btree_num_entries hdr) (tuple_key spec) (spec_message spec))"

text \<open>On success the result carries the generation stored in \<open>*generation\<close>.\<close>

definition btree_try_perform_leaf_incorporate_spec ::
  "leaf_hdr \<Rightarrow> leaf_incorporate_spec \<Rightarrow> (uint64 option \<times> leaf_hdr) option" where
  "btree_try_perform_leaf_incorporate_spec hdr spec =
     Option.bind
       (case old_entry_state spec of
          ENTRY_DID_NOT_EXIST \<Rightarrow>
            btree_insert_leaf_entry hdr (nat (idx spec)) (tuple_key spec) (spec_message spec)
        | ENTRY_STILL_EXISTS \<Rightarrow>
            btree_set_leaf_entry hdr (nat (idx spec)) (tuple_key spec) (spec_message spec)
        | ENTRY_HAS_BEEN_REMOVED \<Rightarrow>
            btree_insert_leaf_entry hdr (nat (idx spec)) (tuple_key spec) (spec_message spec))
       (\<lambda>(success, hdr').
          if success then Some (Some (generation hdr'), hdr'\<lparr>generation := generation hdr' + 1\<rparr>)
          else Some (None, hdr'))"

subsection \<open>Defragmenting and truncating a leaf\<close>

text \<open>
  The copying loop of \<open>btree_defragment_leaf\<close> and \<open>btree_split_leaf_build_right_node\<close>, over the
  positions \<open>i\<close> of the source node: the old entry of the spec is skipped and marked as removed,
  every other entry is set at \<open>dst_idx\<close>. The result of the set is not looked at.
\<close>

fun btree_copy_leaf_entries ::
  "leaf_hdr \<Rightarrow> nat list \<Rightarrow> leaf_incorporate_spec option \<Rightarrow> nat \<Rightarrow> leaf_hdr
   \<Rightarrow> (leaf_incorporate_spec option \<times> leaf_hdr) option" where
  "btree_copy_leaf_entries src [] spec dst_idx dst = Some (spec, dst)"
| "btree_copy_leaf_entries src (i # is) spec dst_idx dst =
     (case spec of
        Some sp \<Rightarrow>
          if old_entry_state sp = ENTRY_STILL_EXISTS \<and> idx sp = int i
          then btree_copy_leaf_entries src is
                 (Some (sp\<lparr>old_entry_state := ENTRY_HAS_BEEN_REMOVED\<rparr>)) dst_idx dst
          else
            Option.bind (btree_get_leaf_entry src i) (\<lambda>e.
            Option.bind (btree_set_leaf_entry dst dst_idx (leaf_entry_key e) (leaf_entry_message e))
              (\<lambda>(_, dst'). btree_copy_leaf_entries src is spec (dst_idx + 1) dst'))
      | None \<Rightarrow>
          Option.bind (btree_get_leaf_entry src i) (\<lambda>e.
          Option.bind (btree_set_leaf_entry dst dst_idx (leaf_entry_key e) (leaf_entry_message e))
            (\<lambda>(_, dst'). btree_copy_leaf_entries src is spec (dst_idx + 1) dst')))"

definition btree_defragment_leaf ::
  "btree_config \<Rightarrow> leaf_hdr \<Rightarrow> leaf_incorporate_spec option
   \<Rightarrow> (leaf_incorporate_spec option \<times> leaf_hdr) option" where
  "btree_defragment_leaf cfg hdr spec =
     btree_copy_leaf_entries hdr [0..<btree_num_entries hdr] spec 0 (btree_reset_node_entries cfg hdr)"

definition least_offset :: "nat \<Rightarrow> nat list \<Rightarrow> nat" where
  "least_offset start offs = fold (\<lambda>off acc. if off < acc then off else acc) offs start"

definition btree_truncate_leaf :: "btree_config \<Rightarrow> leaf_hdr \<Rightarrow> nat \<Rightarrow> leaf_hdr" where
  "btree_truncate_leaf cfg hdr target_entries =
     hdr\<lparr>offsets := take target_entries (offsets hdr),
         next_entry := u16 (least_offset (bc_page_size cfg) (take target_entries (offsets hdr)))\<rparr>"

subsection \<open>Splitting a leaf\<close>

record leaf_splitting_plan =
  split_idx :: nat
  insertion_goes_left :: bool

definition initial_plan :: leaf_splitting_plan where
  "initial_plan = \<lparr>split_idx = 0, insertion_goes_left = False\<rparr>"

definition most_of_entry_is_on_left_side :: "nat \<Rightarrow> nat \<Rightarrow> nat \<Rightarrow> bool" where
  "most_of_entry_is_on_left_side total_bytes left_bytes entry_size \<longleftrightarrow>
     left_bytes + 2 + entry_size < (total_bytes + 2 + entry_size) div 2"

function plan_move_more_entries_to_left ::
  "leaf_hdr \<Rightarrow> nat \<Rightarrow> nat \<Rightarrow> nat \<Rightarrow> leaf_splitting_plan \<Rightarrow> (nat \<times> leaf_splitting_plan) option" where
  "plan_move_more_entries_to_left hdr max_entries total_bytes left_bytes plan =
     (if split_idx plan < max_entries then
        Option.bind (btree_get_leaf_entry hdr (split_idx plan)) (\<lambda>entry.
          if most_of_entry_is_on_left_side total_bytes left_bytes (sizeof_leaf_entry entry)
          then plan_move_more_entries_to_left hdr max_entries total_bytes
                 (left_bytes + (2 + sizeof_leaf_entry entry)) (plan\<lparr>split_idx := split_idx plan + 1\<rparr>)
          else Some (left_bytes, plan))
      else Some (left_bytes, plan))"
  by pat_completeness auto
termination
  by (relation "measure (\<lambda>(_, m, _, _, plan). m - split_idx plan)") auto

text \<open>The byte count of the first loop of \<open>btree_build_leaf_splitting_plan\<close>.\<close>

fun live_entry_bytes :: "leaf_hdr \<Rightarrow> leaf_incorporate_spec \<Rightarrow> nat list \<Rightarrow> nat option" where
  "live_entry_bytes hdr spec [] = Some 0"
| "live_entry_bytes hdr spec (i # is) =
     (if int i \<noteq> idx spec \<or> old_entry_state spec \<noteq> ENTRY_STILL_EXISTS
      then Option.bind (btree_get_leaf_entry hdr i) (\<lambda>e.
             map_option (\<lambda>n. sizeof_leaf_entry e + n) (live_entry_bytes hdr spec is))
      else live_entry_bytes hdr spec is)"

definition btree_build_leaf_splitting_plan ::
  "leaf_hdr \<Rightarrow> leaf_incorporate_spec \<Rightarrow> leaf_splitting_plan option" where
  "btree_build_leaf_splitting_plan hdr spec =
     (let num_entries = btree_num_entries hdr;
          entry_size = leaf_entry_required_capacity (tuple_key spec) (spec_message spec)
      in Option.bind (live_entry_bytes hdr spec [0..<num_entries]) (\<lambda>live.
           let new_num_entries =
                 num_entries + (if old_entry_state spec = ENTRY_STILL_EXISTS then 0 else 1);
               total_bytes = entry_size + live + new_num_entries * 2
           in Option.bind
                (plan_move_more_entries_to_left hdr (nat (idx spec)) total_bytes 0 initial_plan)
                (\<lambda>(left_bytes, plan).
                   if int (split_idx plan) = idx spec
                      \<and> most_of_entry_is_on_left_side total_bytes left_bytes entry_size
                   then
                     let left_bytes' = left_bytes + (2 + entry_size);
                         plan1 = plan\<lparr>insertion_goes_left := True\<rparr>;
                         plan2 = (if old_entry_state spec = ENTRY_STILL_EXISTS
                                  then plan1\<lparr>split_idx := split_idx plan1 + 1\<rparr> else plan1)
                     in map_option snd
                          (plan_move_more_entries_to_left hdr num_entries total_bytes left_bytes' plan2)
                   else Some plan)))"

definition btree_splitting_pivot ::
  "leaf_hdr \<Rightarrow> leaf_incorporate_spec \<Rightarrow> leaf_splitting_plan \<Rightarrow> key option" where
  "btree_splitting_pivot hdr spec plan =
     (if int (split_idx plan) = idx spec \<and> old_entry_state spec \<noteq> ENTRY_STILL_EXISTS
         \<and> \<not> insertion_goes_left plan
      then Some (tuple_key spec)
      else btree_get_tuple_key hdr (split_idx plan))"

text \<open>
  The right node starts as a copy of the left header. The result carries the changed spec,
  the right node and, where the tuple goes right, its generation; \<open>None\<close> also where the
  source asserts that the tuple was incorporated.
\<close>

definition btree_split_leaf_build_right_node ::
  "btree_config \<Rightarrow> leaf_hdr \<Rightarrow> uint64 \<Rightarrow> leaf_incorporate_spec \<Rightarrow> leaf_splitting_plan \<Rightarrow> leaf_hdr
   \<Rightarrow> (leaf_incorporate_spec \<times> leaf_hdr \<times> uint64 option) option" where
  "btree_split_leaf_build_right_node cfg left_hdr left_addr spec plan right_mem =
     (let right0 = btree_reset_node_entries cfg
            (left_hdr\<lparr>entries := entries right_mem, generation := generation left_hdr + 1,
                      prev_addr := left_addr\<rparr>)
      in Option.bind
           (btree_copy_leaf_entries left_hdr [split_idx plan..<btree_num_entries left_hdr]
              (Some spec) 0 right0)
           (\<lambda>(spec', right1).
              Option.bind spec' (\<lambda>sp.
                if \<not> insertion_goes_left plan then
                  let sp1 = sp\<lparr>idx := idx sp - int (split_idx plan)\<rparr>
                  in Option.bind (btree_try_perform_leaf_incorporate_spec right1 sp1)
                       (\<lambda>(incorporated, right2).
                          case incorporated of None \<Rightarrow> None | Some g \<Rightarrow> Some (sp1, right2, Some g))
                else Some (sp, right1, None))))"

definition btree_split_leaf_cleanup_left_node ::
  "btree_config \<Rightarrow> leaf_hdr \<Rightarrow> leaf_incorporate_spec \<Rightarrow> leaf_splitting_plan \<Rightarrow> uint64
   \<Rightarrow> (leaf_incorporate_spec \<times> leaf_hdr) option" where
  "btree_split_leaf_cleanup_left_node cfg left_hdr spec plan right_addr =
     (let left1 = btree_truncate_leaf cfg (left_hdr\<lparr>next_addr := right_addr\<rparr>) (split_idx plan);
          left2 = left1\<lparr>generation := generation left1 + 1\<rparr>
      in if \<not> insertion_goes_left plan then Some (spec, left2)
         else Option.bind (btree_can_perform_leaf_incorporate_spec left2 spec) (\<lambda>can.
                if can then Some (spec, left2)
                else Option.bind (btree_defragment_leaf cfg left2 (Some spec)) (\<lambda>(spec', left3).
                       map_option (\<lambda>sp. (sp, left3)) spec')))"

text \<open>
  The leaf part of \<open>btree_split_child_leaf\<close>: right node, left node, and the insertion into the
  left node where the plan says so.
\<close>

definition btree_split_leaf ::
  "btree_config \<Rightarrow> leaf_hdr \<Rightarrow> uint64 \<Rightarrow> leaf_incorporate_spec \<Rightarrow> leaf_splitting_plan
   \<Rightarrow> uint64 \<Rightarrow> leaf_hdr \<Rightarrow> (leaf_hdr \<times> leaf_hdr \<times> uint64) option" where
  "btree_split_leaf cfg child child_addr spec plan right_addr right_mem =
     Option.bind (btree_split_leaf_build_right_node cfg child child_addr spec plan right_mem)
       (\<lambda>(spec1, right, g).
          Option.bind (btree_split_leaf_cleanup_left_node cfg child spec1 plan right_addr)
            (\<lambda>(spec2, left).
               if insertion_goes_left plan then
                 Option.bind (btree_try_perform_leaf_incorporate_spec left spec2)
                   (\<lambda>(incorporated, left').
                      case incorporated of None \<Rightarrow> None | Some g' \<Rightarrow> Some (left', right, g'))
               else map_option (\<lambda>g'. (left, right, g')) g))"

text \<open>
  The decision of \<open>btree_defragment_or_split_child_leaf\<close>. In
  \<open>(nentries + spec->old_entry_state == ENTRY_STILL_EXISTS ? 0 : 1) * sizeof(index_entry)\<close>
  the comparison binds weaker than \<open>+\<close> and stronger than the conditional; the enumeration
  constants are 0, 1 and 2.
\<close>

fun entry_state_code :: "entry_state \<Rightarrow> nat" where
  "entry_state_code ENTRY_DID_NOT_EXIST = 0"
| "entry_state_code ENTRY_STILL_EXISTS = 1"
| "entry_state_code ENTRY_HAS_BEEN_REMOVED = 2"

definition BTREE_SPLIT_THRESHOLD :: "nat \<Rightarrow> nat" where
  "BTREE_SPLIT_THRESHOLD page_size = page_size div 2"

definition defragment_suffices :: "btree_config \<Rightarrow> leaf_hdr \<Rightarrow> leaf_incorporate_spec \<Rightarrow> bool option" where
  "defragment_suffices cfg child spec =
     (let nentries = btree_num_entries child
      in map_option
           (\<lambda>live_bytes.
              live_bytes + leaf_entry_required_capacity (tuple_key spec) (spec_message spec)
                + (if nentries + entry_state_code (old_entry_state spec)
                      = entry_state_code ENTRY_STILL_EXISTS then 0 else 1) * 23
              < BTREE_SPLIT_THRESHOLD (bc_page_size cfg))
           (live_entry_bytes child spec [0..<nentries]))"

definition btree_defragment_and_incorporate ::
  "btree_config \<Rightarrow> leaf_hdr \<Rightarrow> leaf_incorporate_spec \<Rightarrow> (leaf_hdr \<times> uint64) option" where
  "btree_defragment_and_incorporate cfg child spec =
     Option.bind (btree_defragment_leaf cfg child (Some spec)) (\<lambda>(spec', child').
     Option.bind spec' (\<lambda>sp.
     Option.bind (btree_try_perform_leaf_incorporate_spec child' sp) (\<lambda>(incorporated, child'').
       case incorporated of None \<Rightarrow> None | Some g \<Rightarrow> Some (child'', g))))"

subsection \<open>Splitting and defragmenting an index node\<close>

definition BTREE_DEFRAGMENT_THRESHOLD :: "nat \<Rightarrow> nat" where
  "BTREE_DEFRAGMENT_THRESHOLD page_size = page_size div 4"

definition btree_index_is_full :: "btree_config \<Rightarrow> index_hdr \<Rightarrow> bool" where
  "btree_index_is_full cfg hdr \<longleftrightarrow>
     next_entry hdr < table_end (btree_num_entries hdr + 2) + 23 + MAX_INLINE_KEY_SIZE (bc_page_size cfg)"

fun index_entry_bytes :: "index_hdr \<Rightarrow> nat list \<Rightarrow> nat option" where
  "index_entry_bytes hdr [] = Some 0"
| "index_entry_bytes hdr (i # is) =
     Option.bind (btree_get_index_entry hdr i) (\<lambda>e.
       map_option (\<lambda>n. sizeof_index_entry e + n) (index_entry_bytes hdr is))"

text \<open>
  \<open>while (new_left_entry_bytes < total_entry_bytes / 2)\<close>; the loop reads past the last entry
  (\<open>None\<close>) if it is still short then. The fuel is the number of entries.
\<close>

fun choose_split_loop :: "index_hdr \<Rightarrow> nat \<Rightarrow> nat \<Rightarrow> nat \<Rightarrow> nat \<Rightarrow> nat option" where
  "choose_split_loop hdr half fuel target bytes =
     (if bytes < half then
        (case fuel of
           0 \<Rightarrow> None
         | Suc f \<Rightarrow> Option.bind (btree_get_index_entry hdr target) (\<lambda>e.
                     choose_split_loop hdr half f (target + 1) (bytes + sizeof_index_entry e)))
      else Some target)"

definition btree_choose_index_split :: "index_hdr \<Rightarrow> nat option" where
  "btree_choose_index_split hdr =
     (let n = btree_num_entries hdr
      in Option.bind (index_entry_bytes hdr [0..<n]) (\<lambda>total.
           choose_split_loop hdr (total div 2) n 0 0))"

fun btree_copy_index_entries :: "index_hdr \<Rightarrow> nat list \<Rightarrow> nat \<Rightarrow> index_hdr \<Rightarrow> index_hdr option" where
  "btree_copy_index_entries src [] i dst = Some dst"
| "btree_copy_index_entries src (j # js) i dst =
     Option.bind (btree_get_index_entry src j) (\<lambda>e.
     Option.bind (btree_set_index_entry dst i (index_entry_key e) (index_entry_child_addr e) (ie_stats e))
       (\<lambda>(succeeded, dst').
          if succeeded then btree_copy_index_entries src js (i + 1) dst' else None))"

definition btree_split_index_build_right_node ::
  "btree_config \<Rightarrow> index_hdr \<Rightarrow> nat \<Rightarrow> index_hdr \<Rightarrow> index_hdr option" where
  "btree_split_index_build_right_node cfg left_hdr target_left_entries right_mem =
     btree_copy_index_entries left_hdr [target_left_entries..<btree_num_entries left_hdr] 0
       (btree_reset_node_entries cfg
          (left_hdr\<lparr>entries := entries right_mem, generation := generation left_hdr + 1\<rparr>))"

definition btree_defragment_index :: "btree_config \<Rightarrow> index_hdr \<Rightarrow> index_hdr option" where
  "btree_defragment_index cfg hdr =
     btree_copy_index_entries hdr [0..<btree_num_entries hdr] 0 (btree_reset_node_entries cfg hdr)"

definition btree_truncate_index :: "btree_config \<Rightarrow> index_hdr \<Rightarrow> nat \<Rightarrow> index_hdr option" where
  "btree_truncate_index cfg hdr target_entries =
     (let new_next_entry = least_offset (bc_page_size cfg) (take target_entries (offsets hdr));
          hdr1 = hdr\<lparr>offsets := take target_entries (offsets hdr),
                     next_entry := u16 new_next_entry,
                     generation := generation hdr + 1\<rparr>
      in if new_next_entry < BTREE_DEFRAGMENT_THRESHOLD (bc_page_size cfg)
         then btree_defragment_index cfg hdr1
         else Some hdr1)"

subsection \<open>Ranks\<close>

text \<open>\<open>add_unknown(uint32 a, int32 b)\<close> returns the \<open>uint64\<close> of the 32-bit sum.\<close>

definition add_unknown :: "uint32 \<Rightarrow> uint32 \<Rightarrow> uint32" where
  "add_unknown a b =
     (if a \<noteq> BTREE_UNKNOWN_COUNTER \<and> b \<noteq> BTREE_UNKNOWN_COUNTER then a + b else BTREE_UNKNOWN_COUNTER)"

definition btree_accumulate_pivot_stats ::
  "btree_pivot_stats \<Rightarrow> btree_pivot_stats \<Rightarrow> btree_pivot_stats" where
  "btree_accumulate_pivot_stats dest src =
     \<lparr>num_kvs = add_unknown (num_kvs dest) (num_kvs src),
      key_bytes = add_unknown (key_bytes dest) (key_bytes src),
      message_bytes = add_unknown (message_bytes dest) (message_bytes src)\<rparr>"

section \<open>The layout of a page\<close>

text \<open>
  \<open>region_ok\<close>: the entries at the offsets in \<open>S\<close> lie between \<open>lo\<close> and the end of the page and do
  not overlap. \<open>layout_ok\<close>: so do the entries of a node, above its offset table.
\<close>

definition region_ok ::
  "('e \<Rightarrow> nat) \<Rightarrow> ('e \<Rightarrow> bool) \<Rightarrow> nat \<Rightarrow> nat \<Rightarrow> (nat \<Rightarrow> 'e option) \<Rightarrow> nat set \<Rightarrow> bool" where
  "region_ok esize eok psize lo mem S \<longleftrightarrow>
     (\<forall>off\<in>S. \<exists>e. mem off = Some e \<and> eok e \<and> lo \<le> off \<and> off + esize e \<le> psize)
     \<and> (\<forall>off\<in>S. \<forall>off'\<in>S. off < off' \<longrightarrow> off + esize (the (mem off)) \<le> off')"

definition layout_ok :: "('e \<Rightarrow> nat) \<Rightarrow> ('e \<Rightarrow> bool) \<Rightarrow> nat \<Rightarrow> 'e btree_hdr \<Rightarrow> bool" where
  "layout_ok esize eok psize hdr \<longleftrightarrow>
     psize < 65536 \<and> table_end (length (offsets hdr)) \<le> next_entry hdr \<and> next_entry hdr \<le> psize
     \<and> distinct (offsets hdr)
     \<and> region_ok esize eok psize (next_entry hdr) (entries hdr) (set (offsets hdr))"

definition node_entries :: "'e btree_hdr \<Rightarrow> 'e list" where
  "node_entries hdr = map (\<lambda>off. the (entries hdr off)) (offsets hdr)"

definition place_entry :: "'e btree_hdr \<Rightarrow> nat \<Rightarrow> nat \<Rightarrow> 'e \<Rightarrow> 'e btree_hdr" where
  "place_entry hdr k off e =
     hdr\<lparr>entries := (entries hdr)(off \<mapsto> e),
         offsets := (if k < length (offsets hdr) then (offsets hdr)[k := off] else offsets hdr @ [off]),
         next_entry := off\<rparr>"

lemma length_node_entries [simp]: "length (node_entries hdr) = length (offsets hdr)"
  by (simp add: node_entries_def)

lemma node_entries_frame [frame_simps]:
  "node_entries (hdr\<lparr>generation := g\<rparr>) = node_entries hdr"
  "node_entries (hdr\<lparr>next_addr := a\<rparr>) = node_entries hdr"
  "node_entries (hdr\<lparr>prev_addr := a\<rparr>) = node_entries hdr"
  "node_entries (hdr\<lparr>next_entry := n\<rparr>) = node_entries hdr"
  by (simp_all add: node_entries_def)

lemma layout_ok_frame [frame_simps]:
  "layout_ok s c p (hdr\<lparr>generation := g\<rparr>) = layout_ok s c p hdr"
  "layout_ok s c p (hdr\<lparr>next_addr := a\<rparr>) = layout_ok s c p hdr"
  "layout_ok s c p (hdr\<lparr>prev_addr := a\<rparr>) = layout_ok s c p hdr"
  by (simp_all add: layout_ok_def)

lemma set_update_distinct:
  assumes "distinct xs" "k < length xs"
  shows "set (xs[k := x]) = insert x (set xs - {xs ! k})"
  using assms by (metis set_update_distinct)

lemma region_ok_subset: "region_ok s c p lo mem S \<Longrightarrow> S' \<subseteq> S \<Longrightarrow> lo' \<le> lo \<Longrightarrow> region_ok s c p lo' mem S'"
  unfolding region_ok_def by (meson in_mono le_trans)

lemma region_ok_insert:
  assumes r: "region_ok s c p lo mem S" and e: "c e" "off + s e \<le> lo" "0 < s e" "lo \<le> p"
  shows "region_ok s c p off (mem(off \<mapsto> e)) (insert off S)"
proof -
  have "off \<notin> S"
    using r e by (fastforce simp: region_ok_def)
  moreover have "off < o'" "off + s e \<le> o'" if "o' \<in> S" for o'
    using r e that by (fastforce simp: region_ok_def)+
  ultimately show ?thesis
    using r e unfolding region_ok_def by (fastforce simp: not_less_iff_gr_or_eq)
qed

lemma region_ok_replace:
  assumes r: "region_ok s c p lo mem S" and o: "off \<in> S" "c e" "s e \<le> s (the (mem off))"
  shows "region_ok s c p lo (mem(off \<mapsto> e)) S"
proof -
  obtain old where old: "mem off = Some old" "lo \<le> off" "off + s old \<le> p" and
    gap: "\<And>i j. i \<in> S \<Longrightarrow> j \<in> S \<Longrightarrow> i < j \<Longrightarrow> i + s (the (mem i)) \<le> j" and
    all: "\<And>i. i \<in> S \<Longrightarrow> \<exists>e. mem i = Some e \<and> c e \<and> lo \<le> i \<and> i + s e \<le> p"
    using r o(1) unfolding region_ok_def by blast
  have "i + s (the ((mem(off \<mapsto> e)) i)) \<le> j" if "i \<in> S" "j \<in> S" "i < j" for i j
    using gap [OF that] o old by (cases "i = off") auto
  moreover have "\<exists>e'. (mem(off \<mapsto> e)) i = Some e' \<and> c e' \<and> lo \<le> i \<and> i + s e' \<le> p" if "i \<in> S" for i
    using all [OF that] o old by (cases "i = off") auto
  ultimately show ?thesis unfolding region_ok_def by blast
qed

lemma region_ok_size:
  assumes r: "region_ok s c p lo mem S" and f: "finite S" and "lo \<le> p"
  shows "lo + (\<Sum>off\<in>S. s (the (mem off))) \<le> p"
proof -
  let ?I = "\<lambda>off. {off..<off + s (the (mem off))}"
  have "(\<Sum>off\<in>S. s (the (mem off))) = (\<Sum>off\<in>S. card (?I off))"
    by simp
  also have "\<dots> = card (\<Union>off\<in>S. ?I off)"
  proof (intro card_UN_disjoint [symmetric] f ballI impI)
    fix i j assume "i \<in> S" "j \<in> S" "i \<noteq> j"
    then have "i + s (the (mem i)) \<le> j \<or> j + s (the (mem j)) \<le> i"
      using r unfolding region_ok_def by (cases "i < j") auto
    then show "?I i \<inter> ?I j = {}" by auto
  qed simp
  also have "\<dots> \<le> card {lo..<p}"
  proof (intro card_mono UN_least subsetI)
    fix i x assume "i \<in> S" "x \<in> ?I i"
    moreover obtain e where "mem i = Some e" "lo \<le> i" "i + s e \<le> p"
      using r \<open>i \<in> S\<close> unfolding region_ok_def by blast
    ultimately show "x \<in> {lo..<p}" by auto
  qed simp
  finally show ?thesis
    using assms(3) by simp
qed

text \<open>The operations of a node need only sizes that are positive.\<close>

locale node_layout =
  fixes esize :: "'e \<Rightarrow> nat" and eok :: "'e \<Rightarrow> bool"
  assumes esize_pos: "0 < esize e"
begin

lemma place_layout:
  assumes l: "psize < 65536" "distinct (offsets hdr)" "k \<le> length (offsets hdr)" "lo \<le> psize"
    and r: "region_ok esize eok psize lo (entries hdr)
              (if k < length (offsets hdr) then set (offsets hdr) - {offsets hdr ! k} else set (offsets hdr))"
    and e: "eok e" "table_end (max (length (offsets hdr)) (k + 1)) + esize e \<le> lo"
  defines "hdr' \<equiv> place_entry hdr k (lo - esize e) e"
  shows "layout_ok esize eok psize hdr'
    \<and> node_entries hdr' = (if k < length (offsets hdr) then (node_entries hdr)[k := e] else node_entries hdr @ [e])"
proof -
  let ?S = "if k < length (offsets hdr) then set (offsets hdr) - {offsets hdr ! k} else set (offsets hdr)"
  let ?off = "lo - esize e"
  have le: "esize e \<le> lo" "lo - esize e \<le> psize" using e(2) l(4) by simp_all
  have new: "?off \<notin> ?S"
    using r esize_pos [of e] le unfolding region_ok_def by fastforce
  have reg: "region_ok esize eok psize ?off ((entries hdr)(?off \<mapsto> e)) (insert ?off ?S)"
    using region_ok_insert [OF r e(1) _ esize_pos] l(4) le(1) by simp
  have s': "set (offsets hdr') = insert ?off ?S"
    using l(2) by (auto simp: hdr'_def place_entry_def set_update_distinct)
  have d': "distinct (offsets hdr')"
    using l(2) new by (auto simp: hdr'_def place_entry_def distinct_list_update)
  have "length (offsets hdr') = max (length (offsets hdr)) (k + 1)"
    using l(3) by (auto simp: hdr'_def place_entry_def)
  moreover have "next_entry hdr' = ?off" "entries hdr' = (entries hdr)(?off \<mapsto> e)"
    by (simp_all add: hdr'_def place_entry_def)
  ultimately have "layout_ok esize eok psize hdr'"
    unfolding layout_ok_def using reg s' d' l(1) le e(2) by (simp add: le_diff_conv2)
  moreover have "node_entries hdr' = (if k < length (offsets hdr) then (node_entries hdr)[k := e] else node_entries hdr @ [e])"
  proof (cases "k < length (offsets hdr)")
    case True
    then have "offsets hdr ! i \<noteq> ?off" if "i < length (offsets hdr)" "i \<noteq> k" for i
      using new that l(2) by (auto simp: nth_eq_iff_index_eq) (metis nth_mem)
    then show ?thesis
      using True by (auto simp: hdr'_def place_entry_def node_entries_def nth_list_update intro!: nth_equalityI)
  next
    case False
    then show ?thesis
      using new by (auto simp: hdr'_def place_entry_def node_entries_def)
  qed
  ultimately show ?thesis by simp
qed

lemma replace_layout:
  assumes l: "layout_ok esize eok psize hdr" "k < length (offsets hdr)"
    and e: "eok e" "esize e \<le> esize (node_entries hdr ! k)"
  defines "hdr' \<equiv> hdr\<lparr>entries := (entries hdr)(offsets hdr ! k \<mapsto> e)\<rparr>"
  shows "layout_ok esize eok psize hdr' \<and> node_entries hdr' = (node_entries hdr)[k := e]"
proof
  have "esize e \<le> esize (the (entries hdr (offsets hdr ! k)))"
    using e(2) l(2) by (simp add: node_entries_def)
  then show "layout_ok esize eok psize hdr'"
    using l e(1) by (auto simp: layout_ok_def hdr'_def intro!: region_ok_replace)
  show "node_entries hdr' = (node_entries hdr)[k := e]"
    using l by (auto simp: hdr'_def node_entries_def layout_ok_def nth_list_update nth_eq_iff_index_eq
        intro!: nth_equalityI)
qed

lemma layout_size:
  assumes "layout_ok esize eok psize hdr"
  shows "next_entry hdr + sum_list (map esize (node_entries hdr)) \<le> psize"
  using assms region_ok_size [of esize eok psize "next_entry hdr" "entries hdr" "set (offsets hdr)"]
  by (simp add: layout_ok_def node_entries_def comp_def sum_list_distinct_conv_sum_set)

lemma layout_get:
  assumes "layout_ok esize eok psize hdr" "k < length (offsets hdr)"
  shows "get_entry hdr k = Some (node_entries hdr ! k) \<and> eok (node_entries hdr ! k)"
proof -
  obtain e where "entries hdr (offsets hdr ! k) = Some e" "eok e"
    using assms nth_mem [OF assms(2)] unfolding layout_ok_def region_ok_def by blast
  then show ?thesis
    using assms(2) by (simp add: get_entry_def btree_num_entries_def node_entries_def)
qed

lemma layout_eok: "layout_ok esize eok psize hdr \<Longrightarrow> e \<in> set (node_entries hdr) \<Longrightarrow> eok e"
  by (fastforce simp: layout_ok_def region_ok_def node_entries_def)

end

lemma rotate_offsets:
  assumes "offsets hdr = xs @ [x]" "k \<le> length xs"
  shows "offsets (rotate_last_offset hdr k) = take k xs @ x # drop k xs"
proof -
  have "memcpy (xs @ [x]) (k + 1) (take (length xs - k) (drop k (xs @ [x])))
      = take (k + 1) (xs @ [x]) @ drop k xs"
    using assms(2) by (simp add: memcpy_def)
  moreover have "(take (k + 1) (xs @ [x]) @ drop k xs)[k := x] = take k xs @ x # drop k xs"
    using assms(2) by (simp add: list_update_append take_Suc_conv_app_nth nth_append not_less)
  ultimately show ?thesis
    using assms by (simp add: rotate_last_offset_def btree_num_entries_def Let_def)
qed

lemma rotate_frame [frame_simps]:
  "next_entry (rotate_last_offset hdr k) = next_entry hdr"
  "entries (rotate_last_offset hdr k) = entries hdr"
  "generation (rotate_last_offset hdr k) = generation hdr"
  by (simp_all add: rotate_last_offset_def Let_def)

lemma least_offset_le: "off \<in> set offs \<Longrightarrow> least_offset start offs \<le> off"
  and least_offset_start: "least_offset start offs \<le> start"
  and least_offset_ge: "lo \<le> start \<Longrightarrow> \<forall>off\<in>set offs. lo \<le> off \<Longrightarrow> lo \<le> least_offset start offs"
  unfolding least_offset_def
proof (induction offs arbitrary: start)
  case (Cons a offs)
  {
    case 1 then show ?case
      using Cons.IH(1,2) [of "if a < start then a else start"] by (auto intro: order.trans split: if_splits)
  next
    case 2 then show ?case
      using Cons.IH(2) [of "if a < start then a else start"] by (auto split: if_splits)
  next
    case 3 then show ?case
      using Cons.IH(3) [of "if a < start then a else start"] by auto
  }
qed auto

context node_layout
begin

lemma rotate_layout:
  assumes l: "layout_ok esize eok psize hdr" and es: "node_entries hdr = es @ [e]" and k: "k \<le> length es"
  shows "layout_ok esize eok psize (rotate_last_offset hdr k)
    \<and> node_entries (rotate_last_offset hdr k) = take k es @ e # drop k es"
proof -
  obtain xs x where xs: "offsets hdr = xs @ [x]"
    using es by (cases "offsets hdr" rule: rev_cases) (auto simp: node_entries_def)
  then have es': "es = map (\<lambda>off. the (entries hdr off)) xs" "e = the (entries hdr x)"
    using es by (auto simp: node_entries_def)
  then have o: "offsets (rotate_last_offset hdr k) = take k xs @ x # drop k xs"
    using rotate_offsets xs k by simp
  have app: "take k xs @ drop k xs = xs" by simp
  have "set (take k xs) \<union> set (drop k xs) = set xs" by (metis append_take_drop_id set_append)
  moreover have "distinct xs" "x \<notin> set xs"
    using l by (simp_all add: xs layout_ok_def)
  moreover from this have "set (take k xs) \<inter> set (drop k xs) = {}"
    by (metis app distinct_append)
  ultimately have "set (take k xs @ x # drop k xs) = set (offsets hdr)" "distinct (take k xs @ x # drop k xs)"
    by (auto simp: xs)
  moreover have "length (take k xs @ x # drop k xs) = length (offsets hdr)"
    using k by (simp add: xs es')
  ultimately have "layout_ok esize eok psize (rotate_last_offset hdr k)"
    using l unfolding layout_ok_def o frame_simps by simp
  then show ?thesis
    by (simp add: node_entries_def o frame_simps es' take_map drop_map)
qed

lemma reset_layout:
  assumes "bc_page_size cfg < 65536" "37 \<le> bc_page_size cfg"
  shows "layout_ok esize eok (bc_page_size cfg) (btree_reset_node_entries cfg hdr)
    \<and> node_entries (btree_reset_node_entries cfg hdr) = []"
  using assms by (simp add: layout_ok_def btree_reset_node_entries_def node_entries_def region_ok_def table_end_def)

lemma truncate_layout:
  assumes l: "layout_ok esize eok (bc_page_size cfg) hdr" and n: "n \<le> length (offsets hdr)"
  defines "hdr' \<equiv> hdr\<lparr>offsets := take n (offsets hdr),
                        next_entry := u16 (least_offset (bc_page_size cfg) (take n (offsets hdr)))\<rparr>"
  shows "layout_ok esize eok (bc_page_size cfg) hdr' \<and> node_entries hdr' = take n (node_entries hdr)"
proof -
  let ?l = "least_offset (bc_page_size cfg) (take n (offsets hdr))"
  have bounds: "?l \<le> bc_page_size cfg" "bc_page_size cfg < 65536"
    using l least_offset_start by (auto simp: layout_ok_def)
  then have "u16 ?l = ?l" by simp
  moreover have "next_entry hdr \<le> ?l"
    using l set_take_subset [of n "offsets hdr"]
    by (intro least_offset_ge) (fastforce simp: layout_ok_def region_ok_def)+
  moreover have "table_end (min (length (offsets hdr)) n) \<le> next_entry hdr"
    using l by (auto simp: layout_ok_def table_end_def)
  moreover have "region_ok esize eok (bc_page_size cfg) ?l (entries hdr) (set (take n (offsets hdr)))"
    using l set_take_subset [of n "offsets hdr"] least_offset_le
    unfolding layout_ok_def region_ok_def by (metis subsetD)
  ultimately show ?thesis
    using l bounds by (auto simp: hdr'_def layout_ok_def node_entries_def take_map)
qed

end

section \<open>Searching a node\<close>

declare bsearch.simps [simp del]

text \<open>
  The contract the comments above \<open>btree_find_pivot\<close> and \<open>btree_find_tuple\<close> state: the index of
  the last key that is at most the target, -1 if there is none, and whether it is the target.
\<close>

definition search_result :: "(nat \<Rightarrow> int) \<Rightarrow> nat \<Rightarrow> int \<times> bool \<Rightarrow> bool" where
  "search_result c n r \<longleftrightarrow> - 1 \<le> fst r \<and> fst r < int n
     \<and> (\<forall>j<n. int j \<le> fst r \<longleftrightarrow> c j \<le> 0)
     \<and> (snd r \<longleftrightarrow> 0 \<le> fst r \<and> c (nat (fst r)) = 0)"

text \<open>\<open>c j\<close> compares the key at \<open>j\<close> with the target; it increases through zero at most once.\<close>

lemma bsearch_range:
  assumes get: "\<And>m. m < n \<Longrightarrow> get m = Some (c m)"
    and mono: "\<And>i j. i < j \<Longrightarrow> j < n \<Longrightarrow> c j \<le> 0 \<Longrightarrow> c i < 0"
  shows "lo \<le> hi \<Longrightarrow> hi \<le> n \<Longrightarrow> (\<forall>j<lo. c j < 0) \<Longrightarrow> (\<forall>j<n. hi \<le> j \<longrightarrow> 0 < c j)
    \<Longrightarrow> \<exists>r. bsearch get lo hi = Some r \<and> search_result c n r"
proof (induction "hi - lo" arbitrary: lo hi rule: less_induct)
  case less
  show ?case
  proof (cases "lo < hi")
    case False
    with less.prems have eq: "lo = hi" by simp
    have "(int j \<le> int lo - 1) = (c j \<le> 0)" if "j < n" for j
      using less.prems(3,4) that by (cases "j < lo") (auto simp: eq not_less not_le)
    moreover have "\<not> (0 \<le> int lo - 1 \<and> c (nat (int lo - 1)) = 0)"
    proof
      assume a: "0 \<le> int lo - 1 \<and> c (nat (int lo - 1)) = 0"
      then have "nat (int lo - 1) < lo" by linarith
      with less.prems(3) a show False by force
    qed
    ultimately have "search_result c n (int lo - 1, False)"
      using less.prems(2) by (simp add: search_result_def eq)
    then show ?thesis
      using False by (simp add: bsearch.simps [of get lo hi])
  next
    case True
    let ?mid = "(lo + hi) div 2"
    have m: "lo \<le> ?mid" "?mid < hi" "?mid < n" using True less.prems(2) by auto
    have g: "get ?mid = Some (c ?mid)" using get m(3) .
    have below: "c j < 0" if "c ?mid \<le> 0" "j < ?mid" for j
      using mono that m(3) by blast
    have above: "0 < c j" if "0 \<le> c ?mid" "?mid < j" "j < n" for j
      using mono [of ?mid j] that by linarith
    consider "c ?mid = 0" | "c ?mid < 0" | "0 < c ?mid" by linarith
    then show ?thesis
    proof cases
      case 1
      have "search_result c n (int ?mid, True)"
        using 1 m(3) below above unfolding search_result_def
        by (auto simp: not_le) (metis linorder_neqE_nat not_le order.refl less_imp_le)+
      with g True 1 show ?thesis by (subst bsearch.simps) (simp add: Let_def)
    next
      case 2
      have "\<exists>r. bsearch get (?mid + 1) hi = Some r \<and> search_result c n r"
        using m True less.prems 2 below by (intro less.hyps) (auto simp: less_Suc_eq)
      with g True 2 show ?thesis by (subst bsearch.simps) (simp add: Let_def)
    next
      case 3
      have "\<exists>r. bsearch get lo ?mid = Some r \<and> search_result c n r"
        using m True less.prems 3 above by (intro less.hyps) (auto simp: le_eq_less_or_eq)
      with g True 3 show ?thesis by (subst bsearch.simps) (simp add: Let_def)
    qed
  qed
qed

lemma bsearch_ok:
  assumes "\<And>m. m < n \<Longrightarrow> get m = Some (c m)" "\<And>i j. i < j \<Longrightarrow> j < n \<Longrightarrow> c j \<le> 0 \<Longrightarrow> c i < 0"
  shows "\<exists>r. bsearch get 0 n = Some r \<and> search_result c n r"
  by (rule bsearch_range [OF assms]) simp_all

definition increasing :: "('a \<Rightarrow> bool) \<Rightarrow> ('a \<Rightarrow> 'a \<Rightarrow> int) \<Rightarrow> 'a list \<Rightarrow> bool" where
  "increasing D compare ks \<longleftrightarrow> (\<forall>k\<in>set ks. D k) \<and> sorted_wrt (\<lambda>a b. compare a b < 0) ks"

context total_compare
begin

lemma increasing_crosses_once:
  assumes "increasing dom cmp ks" "dom t" "i < j" "j < length ks" "cmp (ks ! j) t \<le> 0"
  shows "cmp (ks ! i) t < 0"
proof -
  have "cmp (ks ! i) (ks ! j) < 0" "dom (ks ! i)" "dom (ks ! j)"
    using assms by (auto simp: increasing_def sorted_wrt_iff_nth_less)
  with assms(2,5) show ?thesis
    by (metis cmp_eq cmp_trans order_le_less)
qed

lemma search_increasing:
  assumes "increasing dom cmp ks" "dom t" "\<And>m. m < length ks \<Longrightarrow> get m = Some (cmp (ks ! m) t)"
  shows "\<exists>r. bsearch get 0 (length ks) = Some r \<and> search_result (\<lambda>j. cmp (ks ! j) t) (length ks) r"
  using assms increasing_crosses_once by (intro bsearch_ok) auto

lemma search_found:
  assumes "increasing dom cmp ks" "dom t" "search_result (\<lambda>j. cmp (ks ! j) t) (length ks) (i, found)"
  shows "found \<longleftrightarrow> t \<in> set ks"
    and "found \<Longrightarrow> ks ! nat i = t \<and> nat i < length ks"
    and "k \<in> set (take (nat (i + 1)) ks) \<Longrightarrow> cmp k t \<le> 0"
    and "k \<in> set (drop (nat (i + 1)) ks) \<Longrightarrow> 0 < cmp k t"
proof -
  have r: "- 1 \<le> i" "i < int (length ks)" "\<And>j. j < length ks \<Longrightarrow> int j \<le> i \<longleftrightarrow> cmp (ks ! j) t \<le> 0"
    "found \<longleftrightarrow> 0 \<le> i \<and> cmp (ks ! nat i) t = 0"
    using assms(3) by (auto simp: search_result_def)
  have d: "\<And>j. j < length ks \<Longrightarrow> dom (ks ! j)"
    using assms(1) by (simp add: increasing_def)
  show f: "found \<Longrightarrow> ks ! nat i = t \<and> nat i < length ks"
    using r d cmp_eq [OF _ assms(2)] by (metis nat_less_iff)
  show "found \<longleftrightarrow> t \<in> set ks"
  proof
    assume "t \<in> set ks"
    then obtain j where j: "j < length ks" "ks ! j = t" by (metis in_set_conv_nth)
    then have "int j \<le> i" using r(3) cmp_refl assms(2) by simp
    then have i: "0 \<le> i" "nat i < length ks" using r(2) by auto
    have "cmp (ks ! nat i) t \<le> 0" using r(3) [of "nat i"] i by simp
    moreover have "\<not> j < nat i"
      using increasing_crosses_once [OF assms(1,2) _ i(2) calculation, of j] j cmp_refl assms(2) by auto
    ultimately show found using r(4) i j \<open>int j \<le> i\<close> cmp_refl [OF assms(2)] by (metis nat_int linorder_neqE_nat nat_le_eq_zle not_le)
  qed (use f in auto)
  have b: "j < nat (i + 1) \<longleftrightarrow> int j \<le> i" for j using r(1) by auto
  show "k \<in> set (take (nat (i + 1)) ks) \<Longrightarrow> cmp k t \<le> 0"
    using b r(3) by (auto simp: in_set_conv_nth)
  show "k \<in> set (drop (nat (i + 1)) ks) \<Longrightarrow> 0 < cmp k t"
  proof -
    assume "k \<in> set (drop (nat (i + 1)) ks)"
    then obtain j where j: "j < length ks - nat (i + 1)" "k = ks ! (nat (i + 1) + j)"
      by (auto simp: in_set_conv_nth)
    then show "0 < cmp k t"
      using r(1) r(3) [of "nat (i + 1) + j"] by (simp add: less_diff_conv add.commute not_le)
  qed
qed

end

end
