(* ===== verification/BTree_Leaf.thy ===== *)
theory BTree_Leaf
  imports BTree_Node
begin

text \<open>
  Correctness of the leaf operations of \<open>btree.c\<close>. A leaf node abstracts to the list of its
  tuples (\<open>leaf_contents\<close>); setting and inserting an entry are list update and list
  insertion, the incorporation of a tuple is a map update on a sorted leaf, and
  defragmenting, truncating and splitting keep the tuples. Every operation keeps the page
  layout invariant \<open>leaf_layout\<close>.
\<close>

section \<open>Leaf nodes\<close>

definition leaf_ok :: "leaf_entry \<Rightarrow> bool" where
  "leaf_ok e \<longleftrightarrow> sizeof_ondisk_tuple_data e \<le> length (odt_key_and_message e)"

interpretation leaf: node_layout sizeof_leaf_entry leaf_ok
  by unfold_locales (simp add: sizeof_leaf_entry_def)

abbreviation leaf_layout :: "btree_config \<Rightarrow> leaf_hdr \<Rightarrow> bool" where
  "leaf_layout cfg hdr \<equiv> layout_ok sizeof_leaf_entry leaf_ok (bc_page_size cfg) hdr"

text \<open>What a leaf stores: the list of its tuples, each a key with the class and bytes of its message.\<close>

type_synonym tuple = "key \<times> message_type \<times> bytes"

definition tuple_view :: "leaf_entry \<Rightarrow> tuple" where
  "tuple_view e = (leaf_entry_key e, msg_view (leaf_entry_message e))"

definition leaf_contents :: "leaf_hdr \<Rightarrow> tuple list" where
  "leaf_contents hdr = map tuple_view (node_entries hdr)"

definition storable :: "key \<Rightarrow> message \<Rightarrow> bool" where
  "storable k msg \<longleftrightarrow> kind k = USER_KEY \<and> (\<exists>bs. user_slice k = Slice bs \<and> length bs < 65536)
     \<and> message_length msg < 65536 \<and> msg_type msg \<noteq> MESSAGE_TYPE_PIVOT_DATA"

lemma length_leaf_contents [simp]: "length (leaf_contents hdr) = btree_num_entries hdr"
  by (simp add: leaf_contents_def btree_num_entries_def)

lemma fill_leaf_entry:
  assumes s: "storable k msg" and "leaf_entry_required_capacity k msg \<le> 6 + length (odt_key_and_message e)"
  shows "tuple_view (btree_fill_leaf_entry e k msg) = (k, msg_view msg)
    \<and> sizeof_leaf_entry (btree_fill_leaf_entry e k msg) = leaf_entry_required_capacity k msg
    \<and> leaf_ok (btree_fill_leaf_entry e k msg)"
proof -
  obtain bs where k: "k = key_create bs" "length bs < 65536"
    using s by (cases k) (auto simp: storable_def key_create_def)
  have kl: "key_length k = length bs"
    by (simp add: k key_length_def key_create_def)
  have sl: "slice_length (msg_data msg) < 65536" 
    using s by (simp add: storable_def message_length_def)
  then have md: "length (message_data msg) = message_length msg"
    by (cases "msg_data msg") (simp_all add: message_data_def message_length_def slice_bytes_def)
  have room: "length bs + message_length msg \<le> length (odt_key_and_message e)"
    using assms(2) kl by (simp add: leaf_entry_required_capacity_def)
  note rt = tuple_disk_roundtrip [of bs msg e, folded k(1)]
  have "length (odt_key_and_message (btree_fill_leaf_entry e k msg)) = length (odt_key_and_message e)"
    using room md k by (simp add: btree_fill_leaf_entry_def copy_tuple_to_ondisk_tuple_def
        copy_message_to_ondisk_tuple_def key_data_def key_create_def slice_bytes_def key_length_def unat_of_nat16)
  moreover have "slice_bytes (Slice (message_data msg)) = message_data msg"
    by (simp add: slice_bytes_def)
  ultimately show ?thesis
    using s k(2) room rt kl
    by (simp add: storable_def tuple_view_def leaf_entry_key_def leaf_entry_message_def btree_fill_leaf_entry_def
        sizeof_leaf_entry_def leaf_ok_def leaf_entry_required_capacity_def ondisk_tuple_required_data_capacity_def
        msg_view_def message_create_def message_data_def)
qed

text \<open>The fields no operation on entries changes.\<close>

definition links :: "'e btree_hdr \<Rightarrow> uint64 \<times> uint64 \<times> uint64 \<times> uint64 \<times> uint8" where
  "links hdr = (prev_addr hdr, next_addr hdr, next_extent_addr hdr, generation hdr, height hdr)"

definition fits :: "'e btree_hdr \<Rightarrow> nat \<Rightarrow> nat \<Rightarrow> bool" where
  "fits hdr k req \<longleftrightarrow> table_end (max (btree_num_entries hdr) (k + 1)) + req \<le> next_entry hdr"

text \<open>List update that may extend the list by one.\<close>

definition put :: "'a list \<Rightarrow> nat \<Rightarrow> 'a \<Rightarrow> 'a list" where
  "put xs k x = (if k < length xs then xs[k := x] else xs @ [x])"

lemma map_put: "map f (put xs k x) = put (map f xs) k (f x)"
  by (simp add: put_def map_update)

lemma place_leaf_entry_ok:
  assumes l: "leaf_layout cfg hdr" and s: "storable key msg" and k: "k \<le> btree_num_entries hdr"
  defines "req \<equiv> leaf_entry_required_capacity key msg"
  shows "\<not> fits hdr k req \<Longrightarrow> btree_place_leaf_entry hdr k key msg = Some (False, hdr)"
    and "fits hdr k req \<Longrightarrow> \<exists>hdr' e. btree_place_leaf_entry hdr k key msg = Some (True, hdr')
           \<and> leaf_layout cfg hdr' \<and> node_entries hdr' = put (node_entries hdr) k e
           \<and> tuple_view e = (key, msg_view msg) \<and> sizeof_leaf_entry e = req
           \<and> next_entry hdr' = next_entry hdr - req \<and> links hdr' = links hdr"
proof -
  have num: "(if k < btree_num_entries hdr then btree_num_entries hdr else k + 1) = max (btree_num_entries hdr) (k + 1)"
    using k by auto
  show "\<not> fits hdr k req \<Longrightarrow> btree_place_leaf_entry hdr k key msg = Some (False, hdr)"
    using k unfolding btree_place_leaf_entry_def fits_def Let_def num req_def by simp
  assume f: "fits hdr k req"
  define e where "e = btree_fill_leaf_entry (blank_leaf_entry (req - 6)) key msg"
  have e: "tuple_view e = (key, msg_view msg)" "sizeof_leaf_entry e = req" "leaf_ok e"
    using fill_leaf_entry [OF s, of "blank_leaf_entry (req - 6)"]
    by (simp_all add: e_def req_def blank_leaf_entry_def leaf_entry_required_capacity_def)
  define hdr' where "hdr' = place_entry hdr k (next_entry hdr - sizeof_leaf_entry e) e"
  have "region_ok sizeof_leaf_entry leaf_ok (bc_page_size cfg) (next_entry hdr) (entries hdr)
      (if k < length (offsets hdr) then set (offsets hdr) - {offsets hdr ! k} else set (offsets hdr))"
    by (rule region_ok_subset [OF l [unfolded layout_ok_def, THEN conjunct2, THEN conjunct2, THEN conjunct2, THEN conjunct2]])
      auto
  from leaf.place_layout [OF _ _ _ _ this e(3)]
  have pl: "leaf_layout cfg hdr' \<and> node_entries hdr' = put (node_entries hdr) k e"
    using l f k e(2) by (simp add: hdr'_def layout_ok_def fits_def btree_num_entries_def put_def)
  have small: "next_entry hdr - req < 65536" using l by (auto simp: layout_ok_def)
  have "btree_place_leaf_entry hdr k key msg = Some (True, hdr')"
    using f k small unfolding btree_place_leaf_entry_def Let_def num fits_def hdr'_def place_entry_def e_def [symmetric]
    by (auto simp: e(2) e_def [symmetric] req_def [symmetric] btree_num_entries_def)
  with pl e show "\<exists>hdr' e. btree_place_leaf_entry hdr k key msg = Some (True, hdr')
           \<and> leaf_layout cfg hdr' \<and> node_entries hdr' = put (node_entries hdr) k e
           \<and> tuple_view e = (key, msg_view msg) \<and> sizeof_leaf_entry e = req
           \<and> next_entry hdr' = next_entry hdr - req \<and> links hdr' = links hdr"
    by (intro exI [of _ hdr'] exI [of _ e]) (simp add: hdr'_def place_entry_def links_def)
qed

definition leaf_room :: "leaf_hdr \<Rightarrow> nat \<Rightarrow> key \<Rightarrow> message \<Rightarrow> bool" where
  "leaf_room hdr k key msg \<longleftrightarrow>
     k < btree_num_entries hdr
       \<and> leaf_entry_required_capacity key msg \<le> sizeof_leaf_entry (node_entries hdr ! k)
     \<or> fits hdr k (leaf_entry_required_capacity key msg)"

lemma can_set_leaf_entry_ok:
  assumes l: "leaf_layout cfg hdr" and k: "k \<le> btree_num_entries hdr"
  shows "btree_can_set_leaf_entry hdr k key msg = Some (leaf_room hdr k key msg)"
proof -
  have num: "(if k < btree_num_entries hdr then btree_num_entries hdr else k + 1) = max (btree_num_entries hdr) (k + 1)"
    using k by auto
  show ?thesis
    using k leaf.layout_get [OF l] unfolding btree_can_set_leaf_entry_def Let_def num
    by (auto simp: leaf_room_def fits_def btree_get_leaf_entry_def btree_num_entries_def not_less)
qed

lemma set_leaf_entry_ok:
  assumes l: "leaf_layout cfg hdr" and s: "storable key msg" and k: "k \<le> btree_num_entries hdr"
  obtains hdr' e where
    "btree_set_leaf_entry hdr k key msg = Some (leaf_room hdr k key msg, hdr')" "leaf_layout cfg hdr'"
    "links hdr' = links hdr"
    "if leaf_room hdr k key msg then node_entries hdr' = put (node_entries hdr) k e else hdr' = hdr"
    "tuple_view e = (key, msg_view msg)" "sizeof_leaf_entry e = leaf_entry_required_capacity key msg"
    "k = btree_num_entries hdr \<Longrightarrow> leaf_room hdr k key msg
       \<Longrightarrow> next_entry hdr' = next_entry hdr - leaf_entry_required_capacity key msg"
proof (cases "k < btree_num_entries hdr
       \<and> leaf_entry_required_capacity key msg \<le> sizeof_leaf_entry (node_entries hdr ! k)")
  case True
  then have kn: "k < length (offsets hdr)" by (simp add: btree_num_entries_def)
  note g = leaf.layout_get [OF l kn]
  let ?e = "btree_fill_leaf_entry (node_entries hdr ! k) key msg"
  have f: "tuple_view ?e = (key, msg_view msg)" "sizeof_leaf_entry ?e = leaf_entry_required_capacity key msg"
    "leaf_ok ?e"
    using fill_leaf_entry [OF s, of "node_entries hdr ! k"] True g
    by (simp_all add: sizeof_leaf_entry_def leaf_ok_def)
  then show ?thesis
    using leaf.replace_layout [OF l kn, of ?e] True g
    by (intro that [of "hdr\<lparr>entries := (entries hdr)(offsets hdr ! k \<mapsto> ?e)\<rparr>" ?e])
      (simp_all add: btree_set_leaf_entry_def btree_get_leaf_entry_def leaf_room_def links_def put_def
        btree_num_entries_def)
next
  case False
  have p: "btree_set_leaf_entry hdr k key msg = btree_place_leaf_entry hdr k key msg"
    using False leaf.layout_get [OF l, of k]
    by (auto simp: btree_set_leaf_entry_def btree_get_leaf_entry_def btree_num_entries_def)
  have r: "leaf_room hdr k key msg = fits hdr k (leaf_entry_required_capacity key msg)"
    using False by (auto simp: leaf_room_def)
  show ?thesis
  proof (cases "fits hdr k (leaf_entry_required_capacity key msg)")
    case True
    with place_leaf_entry_ok(2) [OF l s k] p r that show ?thesis by (auto simp: r)
  next
    case nf: False
    have f: "tuple_view (btree_fill_leaf_entry (blank_leaf_entry (leaf_entry_required_capacity key msg)) key msg) = (key, msg_view msg)"
       "sizeof_leaf_entry (btree_fill_leaf_entry (blank_leaf_entry (leaf_entry_required_capacity key msg)) key msg) = leaf_entry_required_capacity key msg"
      using fill_leaf_entry [OF s] by (simp_all add: blank_leaf_entry_def)
    show ?thesis
      by (rule that [OF _ l _ _ f]) (use place_leaf_entry_ok(1) [OF l s k nf] p r nf in auto)
  qed
qed

lemma insert_leaf_entry_ok:
  assumes l: "leaf_layout cfg hdr" and s: "storable key msg" and k: "k \<le> btree_num_entries hdr"
  defines "fit \<equiv> fits hdr (btree_num_entries hdr) (leaf_entry_required_capacity key msg)"
  obtains hdr' e where
    "btree_insert_leaf_entry hdr k key msg = Some (fit, hdr')" "leaf_layout cfg hdr'" "links hdr' = links hdr"
    "if fit then node_entries hdr' = take k (node_entries hdr) @ e # drop k (node_entries hdr) else hdr' = hdr"
    "tuple_view e = (key, msg_view msg)" "sizeof_leaf_entry e = leaf_entry_required_capacity key msg"
proof -
  have r: "leaf_room hdr (btree_num_entries hdr) key msg = fit"
    by (simp add: fit_def leaf_room_def)
  have p: "put (node_entries hdr) (btree_num_entries hdr) x = node_entries hdr @ [x]" for x
    by (simp add: put_def btree_num_entries_def)
  obtain hdr1 e where h: "btree_set_leaf_entry hdr (btree_num_entries hdr) key msg = Some (fit, hdr1)"
    "leaf_layout cfg hdr1" "links hdr1 = links hdr"
    "if fit then node_entries hdr1 = node_entries hdr @ [e] else hdr1 = hdr"
    "tuple_view e = (key, msg_view msg)" "sizeof_leaf_entry e = leaf_entry_required_capacity key msg"
    using set_leaf_entry_ok [OF l s order.refl, unfolded r p] by blast
  let ?h = "if fit then rotate_last_offset hdr1 k else hdr1"
  have "btree_insert_leaf_entry hdr k key msg = Some (fit, ?h)"
    using h(1) by (simp add: btree_insert_leaf_entry_def)
  moreover have "leaf_layout cfg ?h" "if fit then node_entries ?h = take k (node_entries hdr) @ e # drop k (node_entries hdr) else ?h = hdr"
    using h(2,4) leaf.rotate_layout [OF h(2), of "node_entries hdr" e k] k
    by (auto simp: btree_num_entries_def)
  moreover have "links ?h = links hdr"
    using h(3) by (simp add: links_def rotate_last_offset_def Let_def)
  ultimately show ?thesis
    using that h(5,6) by blast
qed

section \<open>Incorporating a tuple into a leaf\<close>

definition leaf_keys :: "leaf_hdr \<Rightarrow> key list" where
  "leaf_keys hdr = map fst (leaf_contents hdr)"

definition leaf_sorted :: "btree_config \<Rightarrow> (slice \<Rightarrow> bool) \<Rightarrow> leaf_hdr \<Rightarrow> bool" where
  "leaf_sorted cfg udom hdr \<longleftrightarrow> increasing (key_dom udom) (btree_key_compare cfg) (leaf_keys hdr)"

definition leaf_map :: "leaf_hdr \<Rightarrow> key \<rightharpoonup> message_type \<times> bytes" where
  "leaf_map hdr = map_of (leaf_contents hdr)"

lemma btree_key_compare_eq: "btree_key_compare cfg = data_key_compare (bc_data_cfg cfg)"
  by (intro ext) (simp add: btree_key_compare_def)

lemma length_leaf_keys [simp]: "length (leaf_keys hdr) = btree_num_entries hdr"
  by (simp add: leaf_keys_def)

lemma get_tuple_ok:
  assumes "leaf_layout cfg hdr" "k < btree_num_entries hdr"
  shows "btree_get_leaf_entry hdr k = Some (node_entries hdr ! k)"
    and "btree_get_tuple_key hdr k = Some (leaf_keys hdr ! k)"
    and "btree_get_tuple_message hdr k = Some (leaf_entry_message (node_entries hdr ! k))"
    and "leaf_contents hdr ! k = tuple_view (node_entries hdr ! k)"
  using assms leaf.layout_get [OF assms(1), of k]
  by (simp_all add: btree_get_leaf_entry_def btree_get_tuple_key_def btree_get_tuple_message_def
      leaf_keys_def leaf_contents_def tuple_view_def btree_num_entries_def)

lemma find_tuple_search:
  assumes "user_key_order (bc_data_cfg cfg) udom" "leaf_layout cfg hdr" "leaf_sorted cfg udom hdr"
    and "key_dom udom target"
  shows "\<exists>r. btree_find_tuple cfg hdr target = Some r
    \<and> search_result (\<lambda>j. btree_key_compare cfg (leaf_keys hdr ! j) target) (btree_num_entries hdr) r"
proof -
  note tc = user_key_order.key_total [OF assms(1), folded btree_key_compare_eq]
  show ?thesis
    using total_compare.search_increasing [OF tc assms(3) [unfolded leaf_sorted_def] assms(4),
        of "\<lambda>mid. map_option (\<lambda>k. btree_key_compare cfg k target) (btree_get_tuple_key hdr mid)"]
      get_tuple_ok(2) [OF assms(2)]
    by (simp add: btree_find_tuple_def)
qed

definition incorporate :: "leaf_incorporate_spec \<Rightarrow> tuple list \<Rightarrow> tuple list" where
  "incorporate spec cs =
     (let x = (tuple_key spec, msg_view (spec_message spec)); k = nat (idx spec)
      in case old_entry_state spec of
           ENTRY_STILL_EXISTS \<Rightarrow> cs[k := x]
         | _ \<Rightarrow> take k cs @ x # drop k cs)"

definition spec_bounds :: "leaf_incorporate_spec \<Rightarrow> nat \<Rightarrow> bool" where
  "spec_bounds spec n \<longleftrightarrow> 0 \<le> idx spec \<and> storable (tuple_key spec) (spec_message spec)
     \<and> (if old_entry_state spec = ENTRY_STILL_EXISTS then nat (idx spec) < n else nat (idx spec) \<le> n)"

definition spec_room :: "leaf_hdr \<Rightarrow> leaf_incorporate_spec \<Rightarrow> bool" where
  "spec_room hdr spec =
     leaf_room hdr (if old_entry_state spec = ENTRY_STILL_EXISTS then nat (idx spec) else btree_num_entries hdr)
       (tuple_key spec) (spec_message spec)"

lemma can_perform_ok:
  assumes "leaf_layout cfg hdr" "spec_bounds spec (btree_num_entries hdr)"
  shows "btree_can_perform_leaf_incorporate_spec hdr spec = Some (spec_room hdr spec)"
  using assms by (cases "old_entry_state spec")
    (simp_all add: btree_can_perform_leaf_incorporate_spec_def spec_room_def spec_bounds_def can_set_leaf_entry_ok)

lemma try_perform_ok:
  assumes l: "leaf_layout cfg hdr" and b: "spec_bounds spec (btree_num_entries hdr)"
  obtains hdr' where
    "btree_try_perform_leaf_incorporate_spec hdr spec
       = Some (if spec_room hdr spec then Some (generation hdr) else None, hdr')"
    "leaf_layout cfg hdr'"
    "if spec_room hdr spec then leaf_contents hdr' = incorporate spec (leaf_contents hdr)
       \<and> links hdr' = links (hdr\<lparr>generation := generation hdr + 1\<rparr>) else hdr' = hdr"
proof (cases "old_entry_state spec = ENTRY_STILL_EXISTS")
  case True
  let ?k = "nat (idx spec)"
  let ?room = "leaf_room hdr ?k (tuple_key spec) (spec_message spec)"
  have k: "?k < btree_num_entries hdr" "storable (tuple_key spec) (spec_message spec)" "?room = spec_room hdr spec"
    using b True by (simp_all add: spec_bounds_def spec_room_def)
  obtain h e where h: "btree_set_leaf_entry hdr ?k (tuple_key spec) (spec_message spec) = Some (?room, h)"
    "leaf_layout cfg h" "links h = links hdr"
    "if ?room then node_entries h = put (node_entries hdr) ?k e else h = hdr"
    "tuple_view e = (tuple_key spec, msg_view (spec_message spec))"
    using set_leaf_entry_ok [OF l k(2) less_imp_le [OF k(1)]] by metis
  have "generation h = generation hdr" using h(3) by (simp add: links_def)
  moreover have "leaf_contents h = incorporate spec (leaf_contents hdr)" if ?room
    using h(4,5) that k(1) by (simp add: leaf_contents_def incorporate_def Let_def True put_def btree_num_entries_def map_update)
  ultimately show ?thesis
    using h(1-4) k(3)
    by (intro that [of "if ?room then h\<lparr>generation := generation h + 1\<rparr> else h"])
      (auto simp: btree_try_perform_leaf_incorporate_spec_def True frame_simps leaf_contents_def links_def)
next
  case False
  let ?k = "nat (idx spec)"
  let ?fit = "fits hdr (btree_num_entries hdr) (leaf_entry_required_capacity (tuple_key spec) (spec_message spec))"
  have k: "?k \<le> btree_num_entries hdr" "storable (tuple_key spec) (spec_message spec)" "?fit = spec_room hdr spec"
    using b False by (simp_all add: spec_bounds_def spec_room_def leaf_room_def)
  obtain h e where h: "btree_insert_leaf_entry hdr ?k (tuple_key spec) (spec_message spec) = Some (?fit, h)"
    "leaf_layout cfg h" "links h = links hdr"
    "if ?fit then node_entries h = take ?k (node_entries hdr) @ e # drop ?k (node_entries hdr) else h = hdr"
    "tuple_view e = (tuple_key spec, msg_view (spec_message spec))"
    using insert_leaf_entry_ok [OF l k(2,1)] by metis
  have "btree_try_perform_leaf_incorporate_spec hdr spec
      = Some (if ?fit then Some (generation h) else None, if ?fit then h\<lparr>generation := generation h + 1\<rparr> else h)"
    using False h(1) by (cases "old_entry_state spec") (simp_all add: btree_try_perform_leaf_incorporate_spec_def)
  moreover have "generation h = generation hdr" using h(3) by (simp add: links_def)
  moreover have "leaf_contents h = incorporate spec (leaf_contents hdr)" if ?fit
    using h(4,5) that False
    by (cases "old_entry_state spec") (simp_all add: leaf_contents_def incorporate_def Let_def take_map drop_map)
  ultimately show ?thesis
    using h(2-4) k(3)
    by (intro that [of "if ?fit then h\<lparr>generation := generation h + 1\<rparr> else h"])
      (auto simp: frame_simps leaf_contents_def links_def)
qed

text \<open>\<open>positioned\<close>: the index of the spec is where its key is or belongs.\<close>

definition positioned :: "btree_config \<Rightarrow> leaf_incorporate_spec \<Rightarrow> key list \<Rightarrow> bool" where
  "positioned cfg spec ks \<longleftrightarrow>
     (let k = nat (idx spec); key = tuple_key spec
      in 0 \<le> idx spec \<and>
         (if old_entry_state spec = ENTRY_STILL_EXISTS then k < length ks \<and> ks ! k = key
          else k \<le> length ks \<and> (\<forall>x\<in>set (take k ks). btree_key_compare cfg x key < 0)
               \<and> (\<forall>x\<in>set (drop k ks). btree_key_compare cfg key x < 0)))"

lemma sorted_wrt_insert:
  "sorted_wrt P (xs @ ys) \<Longrightarrow> \<forall>x\<in>set xs. P x k \<Longrightarrow> \<forall>y\<in>set ys. P k y \<Longrightarrow> sorted_wrt P (xs @ k # ys)"
  by (auto simp: sorted_wrt_append)

lemma map_of_middle:
  "k \<notin> fst ` set xs \<Longrightarrow> map_of (xs @ (k, v) # ys) = (map_of (xs @ ys))(k \<mapsto> v)"
  by (induction xs) (auto simp: fun_eq_iff)

lemma incorporate_sorted:
  assumes "positioned cfg spec (map fst cs)" "key_dom udom (tuple_key spec)"
    and "increasing (key_dom udom) (btree_key_compare cfg) (map fst cs)"
  shows "increasing (key_dom udom) (btree_key_compare cfg) (map fst (incorporate spec cs))"
proof (cases "old_entry_state spec = ENTRY_STILL_EXISTS")
  case True
  with assms(1) have "map fst (incorporate spec cs) = map fst cs"
    by (simp add: incorporate_def positioned_def Let_def map_update list_update_same_conv)
  with assms(3) show ?thesis by simp
next
  case False
  let ?k = "nat (idx spec)"
  have "map fst (incorporate spec cs) = take ?k (map fst cs) @ tuple_key spec # drop ?k (map fst cs)"
    using False by (cases "old_entry_state spec") (simp_all add: incorporate_def Let_def take_map drop_map)
  moreover have "sorted_wrt (\<lambda>a b. btree_key_compare cfg a b < 0)
      (take ?k (map fst cs) @ tuple_key spec # drop ?k (map fst cs))"
    using assms(1,3) False by (intro sorted_wrt_insert) (simp_all add: increasing_def positioned_def Let_def)
  moreover have "set (take ?k (map fst cs) @ tuple_key spec # drop ?k (map fst cs)) = insert (tuple_key spec) (set (map fst cs))"
    by (metis append_take_drop_id list.simps(15) set_append Un_insert_right)
  ultimately show ?thesis
    using assms(2,3) by (simp add: increasing_def)
qed

lemma incorporate_map:
  assumes "positioned cfg spec (map fst cs)" "distinct (map fst cs)"
    and "old_entry_state spec \<noteq> ENTRY_STILL_EXISTS \<Longrightarrow> tuple_key spec \<notin> set (map fst cs)"
  shows "map_of (incorporate spec cs) = (map_of cs)(tuple_key spec \<mapsto> msg_view (spec_message spec))"
proof (cases "old_entry_state spec = ENTRY_STILL_EXISTS")
  case True
  let ?k = "nat (idx spec)"
  obtain m where k: "?k < length cs" "cs ! ?k = (tuple_key spec, m)"
    using assms(1) True by (cases "cs ! ?k") (auto simp: positioned_def Let_def)
  define a b where "a = take ?k cs" and "b = drop (Suc ?k) cs"
  have cs: "cs = a @ (tuple_key spec, m) # b" "length a = ?k"
    using k id_take_nth_drop [OF k(1)] by (simp_all add: a_def b_def)
  then have "incorporate spec cs = a @ (tuple_key spec, msg_view (spec_message spec)) # b"
    using True cs(2) [symmetric] by (simp add: incorporate_def Let_def)
  moreover have "tuple_key spec \<notin> fst ` set a"
    using assms(2) by (simp add: cs(1))
  ultimately show ?thesis
    by (simp add: cs(1) map_of_middle del: map_of_append)
next
  case False
  let ?k = "nat (idx spec)" and ?x = "(tuple_key spec, msg_view (spec_message spec))"
  have "incorporate spec cs = take ?k cs @ ?x # drop ?k cs"
    using False by (cases "old_entry_state spec") (simp_all add: incorporate_def Let_def)
  moreover have "tuple_key spec \<notin> fst ` set (take ?k cs)"
    using assms(3) [OF False] set_take_subset [of ?k cs] by auto
  ultimately show ?thesis
    by (simp add: map_of_middle del: map_of_append)
qed

lemma message_length_data: "message_length msg < 65536 \<Longrightarrow> message_length msg = length (message_data msg)"
  by (cases "msg_data msg") (simp_all add: message_length_def message_data_def slice_bytes_def)

lemma accumulator_length:
  "message_length (merge_accumulator_to_message ma) = length (message_data (merge_accumulator_to_message ma))"
  by (simp add: message_length_def message_data_def merge_accumulator_to_message_def message_create_def
      writable_buffer_to_slice_def slice_bytes_def split: option.splits)

lemma storable_accumulator:
  "storable k msg \<Longrightarrow> ma_view ma = msg_view msg \<Longrightarrow> storable k (merge_accumulator_to_message ma)"
  using message_length_data [of msg] accumulator_length [of ma] msg_view_ma [of ma]
  by (auto simp: storable_def msg_view_def)

lemma definitive_init_merge:
  assumes "malloc_ok malloc" "message_length msg < 2 ^ 64 - 1" "message_is_definitive msg"
  obtains ok ma where "merge_accumulator_init_from_message malloc msg = Some (ok, ma)"
    "ok \<Longrightarrow> ma_view ma = msg_view msg \<and> (\<forall>cfg k old. data_merge_tuples malloc cfg k old ma = Some (0, ma))"
proof -
  obtain ok ma where r: "merge_accumulator_copy_message malloc merge_accumulator_init msg = Some (ok, ma)"
    "ok \<and> ma_view ma = msg_view msg \<or> \<not> ok"
    using ma_copy_ok [OF ma_inv_init assms(1,2)] by metis
  have "ok \<Longrightarrow> merge_accumulator_is_definitive ma"
    using r(2) assms(3) by (auto simp: ma_view_def msg_view_def merge_accumulator_is_definitive_def message_is_definitive_def)
  then show ?thesis
    using that r by (auto simp: merge_accumulator_init_from_message_def data_merge_definitive)
qed

lemma find_tuple_cases:
  assumes o: "user_key_order (bc_data_cfg cfg) udom" and l: "leaf_layout cfg hdr" and s: "leaf_sorted cfg udom hdr"
    and d: "key_dom udom key"
  obtains (found) i where "btree_find_tuple cfg hdr key = Some (int i, True)" "i < btree_num_entries hdr"
      "leaf_keys hdr ! i = key"
  | (absent) i where "btree_find_tuple cfg hdr key = Some (i, False)" "- 1 \<le> i" "i < int (btree_num_entries hdr)"
      "key \<notin> set (leaf_keys hdr)"
      "\<forall>x\<in>set (take (nat (i + 1)) (leaf_keys hdr)). btree_key_compare cfg x key < 0"
      "\<forall>x\<in>set (drop (nat (i + 1)) (leaf_keys hdr)). btree_key_compare cfg key x < 0"
proof -
  note tc = user_key_order.key_total [OF o, folded btree_key_compare_eq]
  note inc = s [unfolded leaf_sorted_def]
  obtain i f where r: "btree_find_tuple cfg hdr key = Some (i, f)"
    "search_result (\<lambda>j. btree_key_compare cfg (leaf_keys hdr ! j) key) (length (leaf_keys hdr)) (i, f)"
    using find_tuple_search [OF o l s d] by auto
  note sf = total_compare.search_found [OF tc inc d r(2)]
  show ?thesis
  proof (cases f)
    case True
    then show ?thesis
      using found [of "nat i"] sf(2) r by (simp add: search_result_def)
  next
    case False
    have dk: "\<And>x. x \<in> set (leaf_keys hdr) \<Longrightarrow> key_dom udom x"
      using inc by (simp add: increasing_def)
    have key: "key \<notin> set (leaf_keys hdr)" using sf(1) False by simp
    have "btree_key_compare cfg x key < 0" if x: "x \<in> set (take (nat (i + 1)) (leaf_keys hdr))" for x
      using sf(3) [OF x] key in_set_takeD [OF x] dk d total_compare.cmp_eq [OF tc, of x key] by force
    moreover have "btree_key_compare cfg key x < 0" if x: "x \<in> set (drop (nat (i + 1)) (leaf_keys hdr))" for x
      using sf(4) [OF x] in_set_dropD [OF x] dk d total_compare.cmp_sym [OF tc, of key x] by simp
    ultimately show ?thesis
      using absent [of i] key r False by (simp add: search_result_def)
  qed
qed

text \<open>The spec of a tuple: where it goes, and the message it carries.\<close>

lemma create_spec_ok:
  assumes o: "user_key_order (bc_data_cfg cfg) udom" and l: "leaf_layout cfg hdr" and s: "leaf_sorted cfg udom hdr"
    and d: "key_dom udom key"
    and c: "btree_create_leaf_incorporate_spec malloc cfg hdr key msg = Some (STATUS_OK, spec)"
  shows "tuple_key spec = key \<and> positioned cfg spec (leaf_keys hdr)
    \<and> (old_entry_state spec = (if key \<in> set (leaf_keys hdr) then ENTRY_STILL_EXISTS else ENTRY_DID_NOT_EXIST))
    \<and> (key \<notin> set (leaf_keys hdr) \<longrightarrow> spec_message spec = msg)"
proof (cases rule: find_tuple_cases [OF o l s d])
  case (1 i)
  then have "key \<in> set (leaf_keys hdr)" by (metis length_leaf_keys nth_mem)
  with 1 c show ?thesis
    by (auto simp: btree_create_leaf_incorporate_spec_def positioned_def Let_def get_tuple_ok [OF l]
        split: bind_splits if_splits prod.splits)
next
  case (2 i)
  with c show ?thesis
    by (auto simp: btree_create_leaf_incorporate_spec_def positioned_def spec_message_def Let_def)
qed

lemma create_spec_definitive:
  assumes o: "user_key_order (bc_data_cfg cfg) udom" and l: "leaf_layout cfg hdr" and s: "leaf_sorted cfg udom hdr"
    and d: "key_dom udom key" and st: "storable key msg" and def: "message_is_definitive msg" and m: "malloc_ok malloc"
  shows "\<exists>rc spec. btree_create_leaf_incorporate_spec malloc cfg hdr key msg = Some (rc, spec)
    \<and> (rc = STATUS_OK \<and> msg_view (spec_message spec) = msg_view msg \<and> storable key (spec_message spec)
       \<or> rc = STATUS_NO_MEMORY)"
proof (cases rule: find_tuple_cases [OF o l s d])
  case (1 i)
  have "message_length msg < 2 ^ 64 - 1" using st by (simp add: storable_def)
  from definitive_init_merge [OF m this def]
  obtain ok ma where ma: "merge_accumulator_init_from_message malloc msg = Some (ok, ma)"
    "ok \<Longrightarrow> ma_view ma = msg_view msg \<and> (\<forall>cfg k old. data_merge_tuples malloc cfg k old ma = Some (0, ma))"
    by metis
  with 1 show ?thesis
    by (cases ok) (auto simp: btree_create_leaf_incorporate_spec_def Let_def get_tuple_ok [OF l] btree_merge_tuples_def
        spec_message_def msg_view_ma storable_accumulator [OF st])
next
  case (2 i)
  with st show ?thesis
    by (auto simp: btree_create_leaf_incorporate_spec_def spec_message_def)
qed

lemma leaf_sorted_distinct:
  assumes "user_key_order (bc_data_cfg cfg) udom" "leaf_sorted cfg udom hdr"
  shows "distinct (leaf_keys hdr)"
proof -
  note tc = user_key_order.key_total [OF assms(1), folded btree_key_compare_eq]
  have "leaf_keys hdr ! i \<noteq> leaf_keys hdr ! j" if "i < j" "j < length (leaf_keys hdr)" for i j
    using assms(2) that total_compare.cmp_refl [OF tc]
    by (auto simp: leaf_sorted_def increasing_def sorted_wrt_iff_nth_less)
      (metis nth_mem length_leaf_keys less_irrefl order.strict_trans)
  then show ?thesis
    unfolding distinct_conv_nth by (metis nat_neq_iff)
qed

lemma perform_spec_refines:
  assumes o: "user_key_order (bc_data_cfg cfg) udom" and l: "leaf_layout cfg hdr" and s: "leaf_sorted cfg udom hdr"
    and d: "key_dom udom key" and st: "storable key (spec_message spec)"
    and c: "btree_create_leaf_incorporate_spec malloc cfg hdr key msg = Some (STATUS_OK, spec)"
  shows "\<exists>g hdr'. btree_try_perform_leaf_incorporate_spec hdr spec = Some (g, hdr')
    \<and> leaf_layout cfg hdr' \<and> leaf_sorted cfg udom hdr'
    \<and> (if g = None then hdr' = hdr
       else g = Some (generation hdr) \<and> generation hdr' = generation hdr + 1
          \<and> leaf_map hdr' = (leaf_map hdr)(key \<mapsto> msg_view (spec_message spec)))"
proof -
  note sp = create_spec_ok [OF o l s d c]
  have b: "spec_bounds spec (btree_num_entries hdr)"
    using sp st by (auto simp: spec_bounds_def positioned_def Let_def split: if_splits)
  obtain hdr' where h: "btree_try_perform_leaf_incorporate_spec hdr spec
       = Some (if spec_room hdr spec then Some (generation hdr) else None, hdr')" "leaf_layout cfg hdr'"
    "if spec_room hdr spec then leaf_contents hdr' = incorporate spec (leaf_contents hdr)
       \<and> links hdr' = links (hdr\<lparr>generation := generation hdr + 1\<rparr>) else hdr' = hdr"
    using try_perform_ok [OF l b] by metis
  have "leaf_sorted cfg udom hdr'"
    using h(3) s sp d incorporate_sorted [of cfg spec "leaf_contents hdr" udom]
    by (auto simp: leaf_sorted_def leaf_keys_def split: if_splits)
  moreover have "leaf_map hdr' = (leaf_map hdr)(key \<mapsto> msg_view (spec_message spec))" if "spec_room hdr spec"
    using h(3) that sp incorporate_map [of cfg spec "leaf_contents hdr"] leaf_sorted_distinct [OF o s]
    by (auto simp: leaf_map_def leaf_keys_def split: if_splits)
  ultimately show ?thesis
    using h by (auto simp: links_def)
qed

section \<open>Defragmenting, truncating and splitting a leaf\<close>

lemma entry_storable:
  assumes "leaf_ok e"
  shows "storable (leaf_entry_key e) (leaf_entry_message e)"
    and "leaf_entry_required_capacity (leaf_entry_key e) (leaf_entry_message e) = sizeof_leaf_entry e"
proof -
  have "unat (odt_key_length e) < 65536" "unat (odt_message_length e) < 65536"
    using unsigned_less [of "odt_key_length e"] unsigned_less [of "odt_message_length e"] by simp_all
  with assms show "storable (leaf_entry_key e) (leaf_entry_message e)"
    "leaf_entry_required_capacity (leaf_entry_key e) (leaf_entry_message e) = sizeof_leaf_entry e"
    by (auto simp: storable_def leaf_ok_def leaf_entry_key_def leaf_entry_message_def ondisk_tuple_key_def
        ondisk_tuple_message_def ondisk_tuple_message_class_def key_create_def message_create_def message_length_def
        message_type_of_def sizeof_ondisk_tuple_data_def leaf_entry_required_capacity_def sizeof_leaf_entry_def key_length_def)
qed

definition kept :: "leaf_incorporate_spec option \<Rightarrow> nat list \<Rightarrow> nat list" where
  "kept spec is = filter (\<lambda>i. \<not> (\<exists>sp. spec = Some sp \<and> old_entry_state sp = ENTRY_STILL_EXISTS \<and> idx sp = int i)) is"

definition spec_after :: "leaf_incorporate_spec option \<Rightarrow> nat list \<Rightarrow> leaf_incorporate_spec option" where
  "spec_after spec is =
     map_option (\<lambda>sp. if old_entry_state sp = ENTRY_STILL_EXISTS \<and> idx sp \<in> int ` set is
                      then sp\<lparr>old_entry_state := ENTRY_HAS_BEEN_REMOVED\<rparr> else sp) spec"

lemma kept_Nil [simp]: "kept spec [] = []"
  by (simp add: kept_def)

lemma kept_not_existing: "old_entry_state sp \<noteq> ENTRY_STILL_EXISTS \<Longrightarrow> kept (Some sp) is = is"
  by (simp add: kept_def)

lemma kept_outside: "idx sp \<notin> int ` set is \<Longrightarrow> kept (Some sp) is = is"
  by (auto simp: kept_def intro!: filter_True)

definition sizes :: "leaf_hdr \<Rightarrow> nat list" where
  "sizes hdr = map sizeof_leaf_entry (node_entries hdr)"

lemma length_sizes [simp]: "length (sizes hdr) = btree_num_entries hdr"
  by (simp add: sizes_def btree_num_entries_def)

lemma append_copy_ok:
  assumes l: "leaf_layout cfg src" "leaf_layout cfg dst" and i: "i < btree_num_entries src"
    and room: "table_end (btree_num_entries dst + 1) + sizes src ! i \<le> next_entry dst"
  obtains dst' where
    "btree_set_leaf_entry dst (btree_num_entries dst) (leaf_entry_key (node_entries src ! i))
       (leaf_entry_message (node_entries src ! i)) = Some (True, dst')"
    "leaf_layout cfg dst'" "links dst' = links dst" "leaf_contents dst' = leaf_contents dst @ [leaf_contents src ! i]"
    "sizes dst' = sizes dst @ [sizes src ! i]" "next_entry dst' = next_entry dst - sizes src ! i"
proof -
  let ?e = "node_entries src ! i"
  have ok: "leaf_ok ?e"
    using leaf.layout_get [OF l(1)] i by (simp add: btree_num_entries_def)
  have sz: "sizes src ! i = sizeof_leaf_entry ?e"
    using i by (simp add: sizes_def btree_num_entries_def)
  have r: "leaf_room dst (btree_num_entries dst) (leaf_entry_key ?e) (leaf_entry_message ?e)"
    using room by (simp add: leaf_room_def fits_def entry_storable [OF ok] sz)
  have p: "put (node_entries dst) (btree_num_entries dst) x = node_entries dst @ [x]" for x
    by (simp add: put_def btree_num_entries_def)
  obtain dst' e where h: "btree_set_leaf_entry dst (btree_num_entries dst) (leaf_entry_key ?e) (leaf_entry_message ?e) = Some (True, dst')"
    "leaf_layout cfg dst'" "links dst' = links dst" "node_entries dst' = node_entries dst @ [e]"
    "tuple_view e = tuple_view ?e" "sizeof_leaf_entry e = sizeof_leaf_entry ?e" "next_entry dst' = next_entry dst - sizeof_leaf_entry ?e"
    using set_leaf_entry_ok [OF l(2) entry_storable(1) [OF ok] order.refl, unfolded p] r
    by (simp add: entry_storable(2) [OF ok] tuple_view_def) metis
  then show ?thesis
    using that [OF h(1-3)] i
    by (simp add: leaf_contents_def sizes_def btree_num_entries_def)
qed

lemma copy_leaf_ok:
  assumes src: "leaf_layout cfg src"
  shows "\<lbrakk>leaf_layout cfg dst; dst_idx = btree_num_entries dst; distinct is; \<forall>i\<in>set is. i < btree_num_entries src;
     table_end (btree_num_entries dst + length (kept spec is)) + sum_list (map ((!) (sizes src)) (kept spec is)) \<le> next_entry dst\<rbrakk>
   \<Longrightarrow> \<exists>dst'. btree_copy_leaf_entries src is spec dst_idx dst = Some (spec_after spec is, dst')
     \<and> leaf_layout cfg dst' \<and> links dst' = links dst
     \<and> leaf_contents dst' = leaf_contents dst @ map ((!) (leaf_contents src)) (kept spec is)
     \<and> sizes dst' = sizes dst @ map ((!) (sizes src)) (kept spec is)
     \<and> next_entry dst' = next_entry dst - sum_list (map ((!) (sizes src)) (kept spec is))"
proof (induction "is" arbitrary: spec dst_idx dst)
  case Nil
  then show ?case by (cases spec) (auto simp: spec_after_def)
next
  case (Cons i js)
  have i: "i < btree_num_entries src" "i \<notin> set js" using Cons.prems by auto
  show ?case
  proof (cases "\<exists>sp. spec = Some sp \<and> old_entry_state sp = ENTRY_STILL_EXISTS \<and> idx sp = int i")
    case True
    then obtain sp where sp: "spec = Some sp" "old_entry_state sp = ENTRY_STILL_EXISTS" "idx sp = int i" by auto
    let ?sp = "sp\<lparr>old_entry_state := ENTRY_HAS_BEEN_REMOVED\<rparr>"
    have "kept spec (i # js) = kept (Some ?sp) js" "spec_after spec (i # js) = spec_after (Some ?sp) js"
      using sp i(2) by (auto simp: kept_not_existing spec_after_def) (auto simp: kept_def intro!: filter_True)
    with Cons.IH [of dst dst_idx "Some ?sp"] Cons.prems sp show ?thesis by simp
  next
    case False
    then have k: "kept spec (i # js) = i # kept spec js" "spec_after spec (i # js) = spec_after spec js"
      by (auto simp: kept_def spec_after_def) (cases spec; auto)+
    have copy: "btree_copy_leaf_entries src (i # js) spec dst_idx dst =
        Option.bind (btree_get_leaf_entry src i) (\<lambda>e.
          Option.bind (btree_set_leaf_entry dst dst_idx (leaf_entry_key e) (leaf_entry_message e))
            (\<lambda>(_, dst'). btree_copy_leaf_entries src js spec (dst_idx + 1) dst'))"
      using False by (auto split: option.splits)
    have room: "table_end (btree_num_entries dst + 1) + sizes src ! i \<le> next_entry dst"
      using Cons.prems(5) by (simp add: k table_end_def)
    obtain d where d: "btree_set_leaf_entry dst (btree_num_entries dst) (leaf_entry_key (node_entries src ! i))
       (leaf_entry_message (node_entries src ! i)) = Some (True, d)"
      "leaf_layout cfg d" "links d = links dst" "leaf_contents d = leaf_contents dst @ [leaf_contents src ! i]"
      "sizes d = sizes dst @ [sizes src ! i]" "next_entry d = next_entry dst - sizes src ! i"
      using append_copy_ok [OF src Cons.prems(1) i(1) room] by metis
    have n: "btree_num_entries d = btree_num_entries dst + 1"
      using arg_cong [OF d(5), of length] by simp
    have "table_end (btree_num_entries d + length (kept spec js)) + sum_list (map ((!) (sizes src)) (kept spec js)) \<le> next_entry d"
      using Cons.prems(5) by (simp add: k n d(6) table_end_def)
    then show ?thesis
      using Cons.IH [OF d(2), of "dst_idx + 1" spec] Cons.prems(2-4) n d
      unfolding copy get_tuple_ok(1) [OF src i(1)] by (simp add: k)
  qed
qed

lemma map_nth_upt: "b \<le> length xs \<Longrightarrow> map ((!) xs) [a..<b] = take (b - a) (drop a xs)"
  by (rule nth_equalityI) auto

lemma kept_existing:
  assumes "old_entry_state sp = ENTRY_STILL_EXISTS" "idx sp = int k" "a \<le> k" "k < n"
  shows "kept (Some sp) [a..<n] = [a..<k] @ [Suc k..<n]"
proof -
  have "[a..<n] = [a..<k] @ k # [Suc k..<n]"
    using assms(3,4) by (metis le_less_trans less_or_eq_imp_le upt_add_eq_append upt_conv_Cons le_Suc_ex)
  then show ?thesis
    using assms(1,2) by (auto simp: kept_def filter_True)
qed

lemma leaf_capacity:
  assumes "leaf_layout cfg hdr"
  shows "table_end (btree_num_entries hdr) + sum_list (sizes hdr) \<le> bc_page_size cfg"
  using assms leaf.layout_size [OF assms] by (auto simp: layout_ok_def sizes_def btree_num_entries_def)

lemma kept_size_le: "sum_list (map f (kept spec is)) \<le> sum_list (map f is)" for f :: "nat \<Rightarrow> nat"
  by (simp add: kept_def sum_list_filter_le_nat)

lemma defragment_leaf_ok:
  fixes spec :: "leaf_incorporate_spec option"
  assumes l: "leaf_layout cfg hdr"
  defines "js \<equiv> kept spec [0..<btree_num_entries hdr]"
  shows "\<exists>hdr'. btree_defragment_leaf cfg hdr spec = Some (spec_after spec [0..<btree_num_entries hdr], hdr')
     \<and> leaf_layout cfg hdr' \<and> links hdr' = links hdr \<and> leaf_contents hdr' = map ((!) (leaf_contents hdr)) js
     \<and> next_entry hdr' + sum_list (map ((!) (sizes hdr)) js) = bc_page_size cfg"
proof -
  let ?n = "btree_num_entries hdr"
  have p: "bc_page_size cfg < 65536" "37 \<le> bc_page_size cfg"
    using l by (auto simp: layout_ok_def table_end_def)
  note r = leaf.reset_layout [OF p, of hdr]
  have c: "leaf_contents (btree_reset_node_entries cfg hdr) = []" "sizes (btree_reset_node_entries cfg hdr) = []"
    "btree_num_entries (btree_reset_node_entries cfg hdr) = 0" "next_entry (btree_reset_node_entries cfg hdr) = bc_page_size cfg"
    "links (btree_reset_node_entries cfg hdr) = links hdr"
    using r p by (simp_all add: leaf_contents_def sizes_def btree_num_entries_def btree_reset_node_entries_def links_def node_entries_def)
  have "sum_list (map ((!) (sizes hdr)) js) \<le> sum_list (map ((!) (sizes hdr)) [0..<?n])"
    unfolding js_def by (rule kept_size_le)
  moreover have len: "length js \<le> ?n"
    unfolding js_def kept_def using length_filter_le [of _ "[0..<?n]"] by simp
  moreover have "map ((!) (sizes hdr)) [0..<?n] = sizes hdr"
    by (simp add: map_nth_upt)
  ultimately have "table_end (length js) + sum_list (map ((!) (sizes hdr)) js) \<le> bc_page_size cfg"
    using leaf_capacity [OF l] len by (simp add: table_end_def)
  then show ?thesis
    using copy_leaf_ok [OF l conjunct1 [OF r], of 0 "[0..<?n]" spec] c
    by (fastforce simp: btree_defragment_leaf_def js_def [symmetric])
qed

lemma defragment_leaf_None:
  assumes "leaf_layout cfg hdr"
  shows "\<exists>hdr'. btree_defragment_leaf cfg hdr None = Some (None, hdr') \<and> leaf_layout cfg hdr'
    \<and> links hdr' = links hdr \<and> leaf_contents hdr' = leaf_contents hdr
    \<and> next_entry hdr' + sum_list (sizes hdr) = bc_page_size cfg"
  using defragment_leaf_ok [OF assms, of None]
  by (simp add: kept_def spec_after_def map_nth_upt)

lemma incorporate_removed:
  assumes "old_entry_state sp = ENTRY_STILL_EXISTS" "idx sp = int k" "k < length cs"
  shows "incorporate (sp\<lparr>old_entry_state := ENTRY_HAS_BEEN_REMOVED\<rparr>) (take k cs @ drop (Suc k) cs) = incorporate sp cs"
  using assms by (simp add: incorporate_def Let_def spec_message_def upd_conv_take_nth_drop)

definition spec_size :: "leaf_incorporate_spec \<Rightarrow> nat" where
  "spec_size spec = leaf_entry_required_capacity (tuple_key spec) (spec_message spec)"

text \<open>A compacted leaf with its spec: the old tuple is gone, and the new one fits if the bytes suffice.\<close>

lemma defragment_incorporate_ok:
  assumes l: "leaf_layout cfg hdr" and b: "spec_bounds spec (btree_num_entries hdr)"
    and room: "table_end (length (incorporate spec (leaf_contents hdr)))
       + sum_list (map ((!) (sizes hdr)) (kept (Some spec) [0..<btree_num_entries hdr])) + spec_size spec \<le> bc_page_size cfg"
  shows "\<exists>spec' hdr1 hdr2. btree_defragment_leaf cfg hdr (Some spec) = Some (Some spec', hdr1)
    \<and> btree_try_perform_leaf_incorporate_spec hdr1 spec' = Some (Some (generation hdr), hdr2)
    \<and> leaf_layout cfg hdr2 \<and> leaf_contents hdr2 = incorporate spec (leaf_contents hdr)
    \<and> links hdr2 = links (hdr\<lparr>generation := generation hdr + 1\<rparr>)"
proof -
  let ?n = "btree_num_entries hdr" and ?k = "nat (idx spec)"
  obtain spec' where sp': "spec_after (Some spec) [0..<?n] = Some spec'" by (simp add: spec_after_def)
  obtain h where h: "btree_defragment_leaf cfg hdr (Some spec) = Some (Some spec', h)" "leaf_layout cfg h"
    "links h = links hdr" "leaf_contents h = map ((!) (leaf_contents hdr)) (kept (Some spec) [0..<?n])"
    "next_entry h + sum_list (map ((!) (sizes hdr)) (kept (Some spec) [0..<?n])) = bc_page_size cfg"
    using defragment_leaf_ok [OF l, of "Some spec"] sp' by auto
  have inc: "incorporate spec' (leaf_contents h) = incorporate spec (leaf_contents hdr)
      \<and> spec_bounds spec' (btree_num_entries h) \<and> old_entry_state spec' \<noteq> ENTRY_STILL_EXISTS
      \<and> tuple_key spec' = tuple_key spec \<and> spec_message spec' = spec_message spec"
  proof (cases "old_entry_state spec = ENTRY_STILL_EXISTS")
    case True
    have k: "idx spec = int ?k" "?k < ?n" using b True by (auto simp: spec_bounds_def)
    then have "idx spec \<in> int ` set [0..<?n]" by (metis atLeast_upt imageI lessThan_iff)
    then have s: "spec' = spec\<lparr>old_entry_state := ENTRY_HAS_BEEN_REMOVED\<rparr>"
      using sp' True by (simp add: spec_after_def)
    have c: "leaf_contents h = take ?k (leaf_contents hdr) @ drop (Suc ?k) (leaf_contents hdr)"
      unfolding h(4) kept_existing [OF True k(1) _ k(2), OF le0] using k(2) by (simp add: map_nth_upt)
    have "btree_num_entries h = ?n - 1"
      using arg_cong [OF c, of length] k(2) by simp
    with k c s b show ?thesis
      using incorporate_removed [OF True k(1), of "leaf_contents hdr"]
      by (auto simp: spec_bounds_def spec_message_def)
  next
    case False
    then have "spec' = spec" "leaf_contents h = leaf_contents hdr"
      using sp' h(4) by (auto simp: spec_after_def kept_not_existing map_nth_upt)
    moreover from this(2) have "btree_num_entries h = ?n" by (metis length_leaf_contents)
    ultimately show ?thesis using False b by simp
  qed
  have "length (incorporate spec' (leaf_contents h)) = btree_num_entries h + 1"
    using inc by (cases "old_entry_state spec'") (auto simp: incorporate_def Let_def spec_bounds_def)
  then have "spec_room h spec'"
    using room h(5) inc by (auto simp: spec_room_def leaf_room_def fits_def spec_size_def)
  then show ?thesis
    using try_perform_ok [OF h(2) inc [THEN conjunct2, THEN conjunct1]] inc h(1,3)
    by (auto simp: links_def)
qed

subsection \<open>The split point\<close>

text \<open>
  The plan walks over the tuples the two nodes will hold together, in order, and moves them
  to the left while more than half of each is on the left side: \<open>greedy\<close> on the list of their
  sizes.
\<close>

fun greedy :: "nat \<Rightarrow> nat \<Rightarrow> nat list \<Rightarrow> nat" where
  "greedy T L [] = 0"
| "greedy T L (z # zs) =
     (if most_of_entry_is_on_left_side T L z then Suc (greedy T (L + (2 + z)) zs) else 0)"

definition weight :: "nat list \<Rightarrow> nat" where
  "weight zs = sum_list (map ((+) 2) zs)"

lemma weight_simps [simp]:
  "weight [] = 0" "weight (z # zs) = 2 + z + weight zs" "weight (xs @ ys) = weight xs + weight ys"
  by (simp_all add: weight_def)

lemma weight_alt: "weight zs = 2 * length zs + sum_list zs"
  by (induction zs) simp_all

lemma greedy_le: "greedy T L zs \<le> length zs"
  by (induction zs arbitrary: L) simp_all

lemma greedy_append:
  "greedy T L (xs @ ys) = (if greedy T L xs = length xs then length xs + greedy T (L + weight xs) ys else greedy T L xs)"
  by (induction xs arbitrary: L) (simp_all add: add.assoc)

lemma greedy_last:
  "greedy T L zs = Suc m \<Longrightarrow> 2 * (L + weight (take (Suc m) zs)) < T + 2 + zs ! m"
proof (induction zs arbitrary: L m)
  case (Cons z zs)
  then show ?case
    by (cases m) (fastforce simp: most_of_entry_is_on_left_side_def add.assoc split: if_splits)+
qed simp

lemma greedy_next:
  "m = greedy T L zs \<Longrightarrow> m < length zs \<Longrightarrow> T + 2 + zs ! m \<le> 2 * (L + weight (take m zs)) + 2 * (2 + zs ! m) + 1"
proof (induction zs arbitrary: L m)
  case (Cons z zs)
  then show ?case
    by (cases m) (fastforce simp: most_of_entry_is_on_left_side_def add.assoc split: if_splits)+
qed simp

lemma weight_take_drop: "weight (take m zs) + weight (drop m zs) = weight zs"
  by (metis append_take_drop_id weight_simps(3))

lemma weight_nth_le: "m < length zs \<Longrightarrow> 2 + zs ! m \<le> weight zs"
proof (induction zs arbitrary: m)
  case (Cons z zs)
  show ?case
  proof (cases m)
    case (Suc i)
    with Cons.prems Cons.IH [of i] show ?thesis by simp
  qed simp
qed simp

lemma greedy_not_all:
  assumes "zs \<noteq> []"
  shows "greedy (weight zs) 0 zs < length zs"
proof (rule ccontr)
  assume "\<not> greedy (weight zs) 0 zs < length zs"
  then have all: "greedy (weight zs) 0 zs = Suc (length zs - 1)"
    using greedy_le [of "weight zs" 0 zs] assms by (cases zs) auto
  have "2 * weight zs < weight zs + 2 + zs ! (length zs - 1)"
    using greedy_last [OF all] assms by simp
  with weight_nth_le [of "length zs - 1" zs] assms show False by simp
qed

lemma greedy_positive:
  assumes "2 \<le> length zs" "zs = z0 # z1 # rest" "2 \<le> z1"
  shows "0 < greedy (weight zs) 0 zs"
  using assms by (auto simp: most_of_entry_is_on_left_side_def)

text \<open>If no tuple takes more than half of a page, both halves fit into a page.\<close>

lemma greedy_halves:
  assumes t: "weight zs \<le> F + (2 + s)" and s: "2 * (2 + s) \<le> F" and all: "\<forall>z\<in>set zs. 2 * (2 + z) \<le> F"
    and ne: "zs \<noteq> []"
  defines "m \<equiv> greedy (weight zs) 0 zs"
  shows "weight (take m zs) \<le> F" "weight (drop m zs) \<le> F"
proof -
  have m: "m < length zs" using greedy_not_all [OF ne] by (simp add: m_def)
  show "weight (take m zs) \<le> F"
  proof (cases m)
    case (Suc k)
    have "2 * (2 + zs ! k) \<le> F" using all m Suc by simp
    with greedy_last [of "weight zs" 0 zs k] Suc t s show ?thesis by (simp add: m_def)
  qed simp
  have "2 * (2 + zs ! m) \<le> F" using all m by simp
  with greedy_next [OF m_def [THEN meta_eq_to_obj_eq] m] weight_take_drop [of m zs] t s show "weight (drop m zs) \<le> F" by simp
qed

declare plan_move_more_entries_to_left.simps [simp del]

lemma plan_move_greedy:
  assumes l: "leaf_layout cfg hdr" and "max_entries \<le> btree_num_entries hdr"
  shows "split_idx plan \<le> max_entries \<Longrightarrow>
    plan_move_more_entries_to_left hdr max_entries T L plan =
      (let zs = map ((!) (sizes hdr)) [split_idx plan..<max_entries]; g = greedy T L zs
       in Some (L + weight (take g zs), plan\<lparr>split_idx := split_idx plan + g\<rparr>))"
proof (induction "max_entries - split_idx plan" arbitrary: plan L)
  case 0
  then show ?case by (simp add: plan_move_more_entries_to_left.simps Let_def)
next
  case (Suc d)
  let ?i = "split_idx plan"
  have i: "?i < max_entries" "?i < btree_num_entries hdr" using Suc.hyps(2) assms(2) by auto
  have e: "sizeof_leaf_entry (node_entries hdr ! ?i) = sizes hdr ! ?i"
    using i by (simp add: sizes_def btree_num_entries_def)
  have u: "[?i..<max_entries] = ?i # [Suc ?i..<max_entries]" using i(1) by (rule upt_conv_Cons)
  show ?case
  proof (cases "most_of_entry_is_on_left_side T L (sizes hdr ! ?i)")
    case True
    then show ?thesis
      using Suc.hyps(1) [of "plan\<lparr>split_idx := ?i + 1\<rparr>" "L + (2 + sizes hdr ! ?i)"] Suc.hyps(2) i
      by (subst plan_move_more_entries_to_left.simps) (simp add: get_tuple_ok(1) [OF l] e u Let_def)
  next
    case False
    then show ?thesis
      using i by (subst plan_move_more_entries_to_left.simps) (simp add: get_tuple_ok(1) [OF l] e u Let_def)
  qed
qed

lemma live_bytes_ok:
  assumes l: "leaf_layout cfg hdr"
  shows "\<forall>i\<in>set is. i < btree_num_entries hdr
    \<Longrightarrow> live_entry_bytes hdr spec is = Some (sum_list (map ((!) (sizes hdr)) (kept (Some spec) is)))"
  by (induction "is") (auto simp: kept_def get_tuple_ok(1) [OF l] sizes_def btree_num_entries_def)

text \<open>The position behind the tuple the spec replaces or is inserted before.\<close>

definition spec_rest :: "leaf_incorporate_spec \<Rightarrow> nat" where
  "spec_rest spec = (if old_entry_state spec = ENTRY_STILL_EXISTS then nat (idx spec) + 1 else nat (idx spec))"

definition spec_tuple :: "leaf_incorporate_spec \<Rightarrow> tuple" where
  "spec_tuple spec = (tuple_key spec, msg_view (spec_message spec))"

definition sizes_after :: "leaf_incorporate_spec \<Rightarrow> nat list \<Rightarrow> nat list" where
  "sizes_after spec sz = take (nat (idx spec)) sz @ spec_size spec # drop (spec_rest spec) sz"

lemma spec_rest_le: "spec_bounds spec n \<Longrightarrow> nat (idx spec) \<le> spec_rest spec \<and> spec_rest spec \<le> n"
  by (auto simp: spec_bounds_def spec_rest_def)

lemma incorporate_alt:
  assumes "spec_bounds spec (length cs)"
  shows "incorporate spec cs = take (nat (idx spec)) cs @ spec_tuple spec # drop (spec_rest spec) cs"
  using assms by (cases "old_entry_state spec")
    (auto simp: incorporate_def Let_def spec_rest_def spec_tuple_def spec_bounds_def upd_conv_take_nth_drop)

lemma kept_range:
  assumes "spec_bounds spec n" "a \<le> nat (idx spec)"
  shows "kept (Some spec) [a..<n] = [a..<nat (idx spec)] @ [spec_rest spec..<n]"
proof (cases "old_entry_state spec = ENTRY_STILL_EXISTS")
  case True
  with assms show ?thesis
    using kept_existing [OF True, of "nat (idx spec)" a n] by (simp add: spec_bounds_def spec_rest_def)
next
  case False
  have "[a..<n] = [a..<nat (idx spec)] @ [nat (idx spec)..<n]"
    using assms False upt_add_eq_append [of a "nat (idx spec)" "n - nat (idx spec)"] by (simp add: spec_bounds_def)
  with False show ?thesis by (simp add: kept_not_existing spec_rest_def)
qed

lemma kept_map:
  assumes "spec_bounds spec (length xs)" "a \<le> nat (idx spec)"
  shows "map ((!) xs) (kept (Some spec) [a..<length xs])
     = drop a (take (nat (idx spec)) xs) @ drop (spec_rest spec) xs"
  using assms spec_rest_le [OF assms(1)] by (simp add: kept_range map_nth_upt drop_take)

definition plan_of :: "leaf_incorporate_spec \<Rightarrow> nat \<Rightarrow> leaf_splitting_plan" where
  "plan_of spec m =
     (if m \<le> nat (idx spec) then \<lparr>split_idx = m, insertion_goes_left = False\<rparr>
      else \<lparr>split_idx = spec_rest spec + (m - nat (idx spec) - 1), insertion_goes_left = True\<rparr>)"

lemma build_plan_ok:
  assumes l: "leaf_layout cfg hdr" and b: "spec_bounds spec (btree_num_entries hdr)"
  defines "zs \<equiv> sizes_after spec (sizes hdr)"
  shows "btree_build_leaf_splitting_plan hdr spec = Some (plan_of spec (greedy (weight zs) 0 zs))"
proof -
  let ?n = "btree_num_entries hdr" and ?k = "nat (idx spec)" and ?r = "spec_rest spec" and ?sz = "sizes hdr"
  have k: "idx spec = int ?k" "?k \<le> ?n" "?k \<le> ?r" "?r \<le> ?n"
    using b spec_rest_le [OF b] by (auto simp: spec_bounds_def split: if_splits)
  have live: "live_entry_bytes hdr spec [0..<?n] = Some (sum_list (take ?k ?sz) + sum_list (drop ?r ?sz))"
    using live_bytes_ok [OF l, of "[0..<?n]"] kept_map [of spec ?sz 0] b by simp
  have "?n + (if old_entry_state spec = ENTRY_STILL_EXISTS then 0 else 1) = length zs"
    using k by (auto simp: zs_def sizes_after_def spec_rest_def)
  then have total: "spec_size spec + (sum_list (take ?k ?sz) + sum_list (drop ?r ?sz))
      + (?n + (if old_entry_state spec = ENTRY_STILL_EXISTS then 0 else 1)) * 2 = weight zs"
    by (simp add: weight_alt) (simp add: zs_def sizes_after_def)
  define T where "T = weight zs"
  let ?a = "take ?k ?sz" and ?b = "drop ?r ?sz"
  have up: "map ((!) ?sz) [0..<?k] = ?a" "map ((!) ?sz) [?r..<?n] = ?b" using k by (simp_all add: map_nth_upt)
  have la: "length ?a = ?k" using k by simp
  have m1: "plan_move_more_entries_to_left hdr ?k T 0 initial_plan
      = Some (weight (take (greedy T 0 ?a) ?a), \<lparr>split_idx = greedy T 0 ?a, insertion_goes_left = False\<rparr>)"
    using plan_move_greedy [OF l k(2), of initial_plan T 0] by (simp add: Let_def up initial_plan_def)
  have m2: "plan_move_more_entries_to_left hdr ?n T L \<lparr>split_idx = ?r, insertion_goes_left = True\<rparr>
      = Some (L + weight (take (greedy T L ?b) ?b), \<lparr>split_idx = ?r + greedy T L ?b, insertion_goes_left = True\<rparr>)" for L
    using plan_move_greedy [OF l order.refl, of "\<lparr>split_idx = ?r, insertion_goes_left = True\<rparr>" T L] k(4) by (simp add: Let_def up)
  have g: "greedy T 0 zs = (if greedy T 0 ?a = ?k then
      (if most_of_entry_is_on_left_side T (weight ?a) (spec_size spec)
       then ?k + Suc (greedy T (weight ?a + (2 + spec_size spec)) ?b) else ?k) else greedy T 0 ?a)"
    using k(2) by (simp add: zs_def sizes_after_def greedy_append la)
  have le: "greedy T 0 ?a \<le> ?k" using greedy_le [of T 0 ?a] la by simp
  have plan2: "(if old_entry_state spec = ENTRY_STILL_EXISTS then \<lparr>split_idx = ?k + 1, insertion_goes_left = True\<rparr>
      else \<lparr>split_idx = ?k, insertion_goes_left = True\<rparr>) = \<lparr>split_idx = ?r, insertion_goes_left = True\<rparr>"
    by (simp add: spec_rest_def)
  show ?thesis
    unfolding btree_build_leaf_splitting_plan_def Let_def live Option.bind.simps spec_size_def [symmetric]
      total T_def [symmetric] m1
    using le m2 k(1) plan2 by (auto simp: g plan_of_def la)
qed

subsection \<open>The two nodes of a split\<close>

lemma try_perform_room:
  assumes "leaf_layout cfg hdr" "spec_bounds spec (btree_num_entries hdr)" "spec_room hdr spec"
  shows "\<exists>hdr'. btree_try_perform_leaf_incorporate_spec hdr spec = Some (Some (generation hdr), hdr')
    \<and> leaf_layout cfg hdr' \<and> leaf_contents hdr' = incorporate spec (leaf_contents hdr)
    \<and> links hdr' = links (hdr\<lparr>generation := generation hdr + 1\<rparr>)"
  using try_perform_ok [OF assms(1,2)] assms(3) by auto

lemma copy_range_ok:
  fixes spec :: leaf_incorporate_spec and dst0 :: leaf_hdr
  assumes l: "leaf_layout cfg src" and a: "a \<le> btree_num_entries src"
  defines "js \<equiv> kept (Some spec) [a..<btree_num_entries src]"
  assumes room: "table_end (length js) + sum_list (map ((!) (sizes src)) js) \<le> bc_page_size cfg"
  shows "\<exists>dst. btree_copy_leaf_entries src [a..<btree_num_entries src] (Some spec) 0 (btree_reset_node_entries cfg dst0)
      = Some (spec_after (Some spec) [a..<btree_num_entries src], dst)
    \<and> leaf_layout cfg dst \<and> links dst = links dst0
    \<and> leaf_contents dst = map ((!) (leaf_contents src)) js
    \<and> next_entry dst = bc_page_size cfg - sum_list (map ((!) (sizes src)) js)"
proof -
  have p: "bc_page_size cfg < 65536" "37 \<le> bc_page_size cfg"
    using l by (auto simp: layout_ok_def table_end_def)
  note r = leaf.reset_layout [OF p, of dst0]
  have c: "leaf_contents (btree_reset_node_entries cfg dst0) = []" "sizes (btree_reset_node_entries cfg dst0) = []"
    "btree_num_entries (btree_reset_node_entries cfg dst0) = 0"
    "next_entry (btree_reset_node_entries cfg dst0) = bc_page_size cfg"
    "links (btree_reset_node_entries cfg dst0) = links dst0"
    using r p by (simp_all add: leaf_contents_def sizes_def btree_num_entries_def btree_reset_node_entries_def links_def node_entries_def)
  show ?thesis
    using copy_leaf_ok [OF l conjunct1 [OF r], of 0 "[a..<btree_num_entries src]" "Some spec"] room c
    by (auto simp: js_def [symmetric])
qed

text \<open>The right node takes the tuple when its position is behind the split point.\<close>

lemma build_right_insert:
  assumes l: "leaf_layout cfg hdr" and b: "spec_bounds spec (btree_num_entries hdr)" and m: "m \<le> nat (idx spec)"
    and room: "37 + weight (drop m (sizes_after spec (sizes hdr))) \<le> bc_page_size cfg"
  shows "\<exists>sp right g. btree_split_leaf_build_right_node cfg hdr addr spec \<lparr>split_idx = m, insertion_goes_left = False\<rparr> mem
      = Some (sp, right, Some g) \<and> leaf_layout cfg right
    \<and> leaf_contents right = drop m (incorporate spec (leaf_contents hdr))
    \<and> prev_addr right = addr \<and> next_addr right = next_addr hdr \<and> g = generation hdr + 1"
proof -
  let ?n = "btree_num_entries hdr" and ?k = "nat (idx spec)" and ?r = "spec_rest spec"
  let ?dst0 = "hdr\<lparr>entries := entries mem, generation := generation hdr + 1, prev_addr := addr\<rparr>"
  let ?js = "kept (Some spec) [m..<?n]"
  have k: "idx spec = int ?k" "?k \<le> ?n" "?k \<le> ?r" "?r \<le> ?n"
    using b spec_rest_le [OF b] by (auto simp: spec_bounds_def split: if_splits)
  have js: "map ((!) (sizes hdr)) ?js = drop m (take ?k (sizes hdr)) @ drop ?r (sizes hdr)"
    using kept_map [of spec "sizes hdr" m] b m by simp
  have cs: "map ((!) (leaf_contents hdr)) ?js = drop m (take ?k (leaf_contents hdr)) @ drop ?r (leaf_contents hdr)"
    using kept_map [of spec "leaf_contents hdr" m] b m by simp
  have lj: "length ?js = (?k - m) + (?n - ?r)"
    using arg_cong [OF js, of length] k by simp
  have w: "weight (drop m (sizes_after spec (sizes hdr)))
      = 2 * (length ?js + 1) + sum_list (map ((!) (sizes hdr)) ?js) + spec_size spec"
    using m k by (simp add: sizes_after_def weight_alt js lj drop_Cons')
  then have "table_end (length ?js) + sum_list (map ((!) (sizes hdr)) ?js) \<le> bc_page_size cfg"
    using room by (simp add: table_end_def)
  from copy_range_ok [OF l _ this, of ?dst0] m k
  obtain dst where dst: "btree_copy_leaf_entries hdr [m..<?n] (Some spec) 0 (btree_reset_node_entries cfg ?dst0)
      = Some (spec_after (Some spec) [m..<?n], dst)" "leaf_layout cfg dst" "links dst = links ?dst0"
    "leaf_contents dst = map ((!) (leaf_contents hdr)) ?js"
    "next_entry dst = bc_page_size cfg - sum_list (map ((!) (sizes hdr)) ?js)"
    by auto
  define sp where "sp = (if old_entry_state spec = ENTRY_STILL_EXISTS
     then spec\<lparr>old_entry_state := ENTRY_HAS_BEEN_REMOVED\<rparr> else spec)"
  define sp1 where "sp1 = sp\<lparr>idx := idx sp - int m\<rparr>"
  have "old_entry_state spec = ENTRY_STILL_EXISTS \<Longrightarrow> idx spec \<in> int ` set [m..<?n]"
    using m k(1) b by (auto simp: spec_bounds_def image_iff intro!: bexI [of _ ?k])
  then have after: "spec_after (Some spec) [m..<?n] = Some sp"
    by (auto simp: spec_after_def sp_def)
  have sp1: "old_entry_state sp1 \<noteq> ENTRY_STILL_EXISTS" "nat (idx sp1) = ?k - m" "0 \<le> idx sp1"
    "spec_tuple sp1 = spec_tuple spec" "spec_size sp1 = spec_size spec"
    "storable (tuple_key sp1) (spec_message sp1)"
    using m k(1) b by (auto simp: sp1_def sp_def spec_tuple_def spec_size_def spec_message_def spec_bounds_def)
  have nd: "btree_num_entries dst = length ?js"
    using arg_cong [OF dst(4), of length] by simp
  have b1: "spec_bounds sp1 (btree_num_entries dst)"
    using sp1 nd lj by (simp add: spec_bounds_def)
  have room1: "spec_room dst sp1"
    using room w dst(5) nd sp1
    by (auto simp: spec_room_def leaf_room_def fits_def spec_size_def table_end_def)
  obtain right where right: "btree_try_perform_leaf_incorporate_spec dst sp1 = Some (Some (generation dst), right)"
    "leaf_layout cfg right" "leaf_contents right = incorporate sp1 (leaf_contents dst)"
    "links right = links (dst\<lparr>generation := generation dst + 1\<rparr>)"
    using try_perform_room [OF dst(2) b1 room1] by auto
  have "incorporate sp1 (leaf_contents dst)
      = take (?k - m) (leaf_contents dst) @ spec_tuple spec # drop (?k - m) (leaf_contents dst)"
    using incorporate_alt [of sp1 "leaf_contents dst"] b1 sp1 by (simp add: spec_rest_def)
  also have "\<dots> = drop m (incorporate spec (leaf_contents hdr))"
    using b m k by (simp add: incorporate_alt dst(4) cs)
  finally have "incorporate sp1 (leaf_contents dst) = drop m (incorporate spec (leaf_contents hdr))" .
  then show ?thesis
    using right dst(1,3) after
    by (auto simp: btree_split_leaf_build_right_node_def Let_def sp1_def [symmetric] links_def)
qed

lemma build_right_plain:
  assumes l: "leaf_layout cfg hdr" and b: "spec_bounds spec (btree_num_entries hdr)"
    and q: "spec_rest spec \<le> q" "q \<le> btree_num_entries hdr"
    and room: "37 + weight (drop q (sizes hdr)) \<le> bc_page_size cfg"
  shows "\<exists>right. btree_split_leaf_build_right_node cfg hdr addr spec \<lparr>split_idx = q, insertion_goes_left = True\<rparr> mem
      = Some (spec, right, None) \<and> leaf_layout cfg right \<and> leaf_contents right = drop q (leaf_contents hdr)
    \<and> prev_addr right = addr \<and> next_addr right = next_addr hdr"
proof -
  let ?n = "btree_num_entries hdr"
  let ?dst0 = "hdr\<lparr>entries := entries mem, generation := generation hdr + 1, prev_addr := addr\<rparr>"
  have "old_entry_state spec = ENTRY_STILL_EXISTS \<Longrightarrow> idx spec \<notin> int ` set [q..<?n]"
    using q(1) by (auto simp: spec_rest_def)
  then have kp: "kept (Some spec) [q..<?n] = [q..<?n]" and af: "spec_after (Some spec) [q..<?n] = Some spec"
    by (cases "old_entry_state spec = ENTRY_STILL_EXISTS"; simp add: kept_outside kept_not_existing spec_after_def)+
  have "table_end (length [q..<?n]) + sum_list (map ((!) (sizes hdr)) [q..<?n]) \<le> bc_page_size cfg"
    using room by (simp add: weight_alt table_end_def map_nth_upt)
  with copy_range_ok [OF l q(2), of spec ?dst0] obtain dst where
    "btree_copy_leaf_entries hdr [q..<?n] (Some spec) 0 (btree_reset_node_entries cfg ?dst0) = Some (Some spec, dst)"
    "leaf_layout cfg dst" "links dst = links ?dst0" "leaf_contents dst = drop q (leaf_contents hdr)"
    by (auto simp: kp af map_nth_upt)
  then show ?thesis
    by (auto simp: btree_split_leaf_build_right_node_def links_def)
qed

lemma truncate_leaf_ok:
  assumes "leaf_layout cfg hdr" "n \<le> btree_num_entries hdr"
  shows "leaf_layout cfg (btree_truncate_leaf cfg hdr n)
    \<and> leaf_contents (btree_truncate_leaf cfg hdr n) = take n (leaf_contents hdr)
    \<and> sizes (btree_truncate_leaf cfg hdr n) = take n (sizes hdr)
    \<and> links (btree_truncate_leaf cfg hdr n) = links hdr"
  using leaf.truncate_layout [OF assms(1), of n] assms(2)
  by (simp add: btree_truncate_leaf_def leaf_contents_def sizes_def take_map links_def btree_num_entries_def)

text \<open>The left node takes the tuple, if need be after it is compacted.\<close>

lemma cleanup_left_insert:
  assumes l: "leaf_layout cfg hdr" and b: "spec_bounds spec (btree_num_entries hdr)"
    and q: "spec_rest spec \<le> q" "q \<le> btree_num_entries hdr"
    and room: "37 + weight (sizes_after spec (take q (sizes hdr))) \<le> bc_page_size cfg"
  shows "\<exists>sp left1 left g. btree_split_leaf_cleanup_left_node cfg hdr spec \<lparr>split_idx = q, insertion_goes_left = True\<rparr> raddr
      = Some (sp, left1) \<and> btree_try_perform_leaf_incorporate_spec left1 sp = Some (Some g, left)
    \<and> leaf_layout cfg left \<and> leaf_contents left = incorporate spec (take q (leaf_contents hdr))
    \<and> next_addr left = raddr \<and> prev_addr left = prev_addr hdr \<and> g = generation hdr + 1"
proof -
  let ?k = "nat (idx spec)" and ?r = "spec_rest spec"
  define left1 where "left1 = btree_truncate_leaf cfg (hdr\<lparr>next_addr := raddr\<rparr>) q"
  define left2 where "left2 = left1\<lparr>generation := generation left1 + 1\<rparr>"
  have fr: "leaf_layout cfg (hdr\<lparr>next_addr := raddr\<rparr>)" "q \<le> btree_num_entries (hdr\<lparr>next_addr := raddr\<rparr>)"
    "leaf_contents (hdr\<lparr>next_addr := raddr\<rparr>) = leaf_contents hdr" "sizes (hdr\<lparr>next_addr := raddr\<rparr>) = sizes hdr"
    using l q(2) by (simp_all add: frame_simps leaf_contents_def sizes_def btree_num_entries_def)
  note t = truncate_leaf_ok [OF fr(1,2), folded left1_def]
  have l2: "leaf_layout cfg left2" "leaf_contents left2 = take q (leaf_contents hdr)"
    "sizes left2 = take q (sizes hdr)" "next_addr left2 = raddr" "prev_addr left2 = prev_addr hdr"
    "generation left2 = generation hdr + 1"
    using t fr(3,4) by (simp_all add: left2_def frame_simps leaf_contents_def sizes_def links_def)
  have n2: "btree_num_entries left2 = q"
    using arg_cong [OF l2(2), of length] q(2) by simp
  have b2: "spec_bounds spec (btree_num_entries left2)"
    using b q(1) n2 by (auto simp: spec_bounds_def spec_rest_def)
  have can: "btree_can_perform_leaf_incorporate_spec left2 spec = Some (spec_room left2 spec)"
    by (rule can_perform_ok [OF l2(1) b2])
  note unfold = btree_split_leaf_cleanup_left_node_def Let_def left1_def [symmetric] left2_def [symmetric]
  show ?thesis
  proof (cases "spec_room left2 spec")
    case True
    obtain left where "btree_try_perform_leaf_incorporate_spec left2 spec = Some (Some (generation left2), left)"
      "leaf_layout cfg left" "leaf_contents left = incorporate spec (leaf_contents left2)"
      "links left = links (left2\<lparr>generation := generation left2 + 1\<rparr>)"
      using try_perform_room [OF l2(1) b2 True] by auto
    with True can l2 show ?thesis by (simp add: unfold links_def)
  next
    case False
    have rq: "?k \<le> q" "?r \<le> q" using spec_rest_le [OF b2] n2 by auto
    have "kept (Some spec) [0..<btree_num_entries left2] = kept (Some spec) [0..<length (take q (sizes hdr))]"
      using n2 q(2) by simp
    then have "sum_list (map ((!) (sizes left2)) (kept (Some spec) [0..<btree_num_entries left2]))
        = sum_list (take ?k (take q (sizes hdr))) + sum_list (drop ?r (take q (sizes hdr)))"
      using kept_map [of spec "take q (sizes hdr)" 0] b2 n2 q(2) l2(3) by simp
    moreover have "length (incorporate spec (leaf_contents left2)) = ?k + 1 + (q - ?r)"
      using b2 rq q(2) by (simp add: incorporate_alt l2(2) n2)
    ultimately have "table_end (length (incorporate spec (leaf_contents left2)))
       + sum_list (map ((!) (sizes left2)) (kept (Some spec) [0..<btree_num_entries left2])) + spec_size spec \<le> bc_page_size cfg"
      using room rq q(2) by (simp add: sizes_after_def weight_alt table_end_def)
    from defragment_incorporate_ok [OF l2(1) b2 this] False can l2 show ?thesis
      by (auto simp: unfold links_def)
  qed
qed

lemma cleanup_left_plain:
  assumes l: "leaf_layout cfg hdr" and m: "m \<le> btree_num_entries hdr"
  shows "\<exists>left. btree_split_leaf_cleanup_left_node cfg hdr spec \<lparr>split_idx = m, insertion_goes_left = False\<rparr> raddr
      = Some (spec, left) \<and> leaf_layout cfg left \<and> leaf_contents left = take m (leaf_contents hdr)
    \<and> next_addr left = raddr \<and> prev_addr left = prev_addr hdr"
proof -
  have fr: "leaf_layout cfg (hdr\<lparr>next_addr := raddr\<rparr>)" "m \<le> btree_num_entries (hdr\<lparr>next_addr := raddr\<rparr>)"
    "leaf_contents (hdr\<lparr>next_addr := raddr\<rparr>) = leaf_contents hdr"
    using l m by (simp_all add: frame_simps leaf_contents_def btree_num_entries_def)
  show ?thesis
    using truncate_leaf_ok [OF fr(1,2)] fr(3)
    by (simp add: btree_split_leaf_cleanup_left_node_def Let_def frame_simps leaf_contents_def links_def)
qed

lemma splitting_pivot_ok:
  assumes l: "leaf_layout cfg hdr" and b: "spec_bounds spec (btree_num_entries hdr)"
    and key: "old_entry_state spec = ENTRY_STILL_EXISTS \<Longrightarrow> leaf_keys hdr ! nat (idx spec) = tuple_key spec"
    and m: "m < length (incorporate spec (leaf_contents hdr))"
  shows "btree_splitting_pivot hdr spec (plan_of spec m) = Some (fst (incorporate spec (leaf_contents hdr) ! m))"
proof -
  let ?k = "nat (idx spec)" and ?r = "spec_rest spec" and ?n = "btree_num_entries hdr" and ?cs = "leaf_contents hdr"
  have k: "idx spec = int ?k" "?k \<le> ?n" "?k \<le> ?r" "?r \<le> ?n"
    using b spec_rest_le [OF b] by (auto simp: spec_bounds_def split: if_splits)
  have inc: "incorporate spec ?cs = take ?k ?cs @ spec_tuple spec # drop ?r ?cs"
    using b by (simp add: incorporate_alt)
  have ks: "leaf_keys hdr ! i = fst (?cs ! i)" if "i < ?n" for i
    using that by (simp add: leaf_keys_def)
  consider "m < ?k" | "m = ?k" | "?k < m" by linarith
  then show ?thesis
  proof cases
    case 1
    then have "int m \<noteq> idx spec" by auto
    with 1 k show ?thesis
      by (simp add: btree_splitting_pivot_def plan_of_def inc nth_append get_tuple_ok(2) [OF l] ks)
  next
    case 2
    have "?k < ?n \<and> leaf_keys hdr ! ?k = tuple_key spec" if "old_entry_state spec = ENTRY_STILL_EXISTS"
      using that key b by (simp add: spec_bounds_def)
    with 2 k show ?thesis
      by (auto simp: btree_splitting_pivot_def plan_of_def inc nth_append get_tuple_ok(2) [OF l] spec_tuple_def)
  next
    case 3
    have "?r + (m - ?k - 1) < ?n" using 3 m k by (simp add: inc)
    with 3 k show ?thesis
      by (simp add: btree_splitting_pivot_def plan_of_def inc nth_append get_tuple_ok(2) [OF l] ks nth_Cons')
  qed
qed

lemma sizes_after_incorporate:
  assumes "spec_bounds spec (btree_num_entries hdr)"
  shows "length (sizes_after spec (sizes hdr)) = length (incorporate spec (leaf_contents hdr))"
  using assms by (simp add: incorporate_alt sizes_after_def)

lemma replaced_split:
  assumes "k \<le> r" "r \<le> q" "q \<le> length xs"
  shows "drop (k + 1 + (q - r)) (take k xs @ x # drop r xs) = drop q xs"
    and "take k (take q xs) @ x # drop r (take q xs) = take (k + 1 + (q - r)) (take k xs @ x # drop r xs)"
proof -
  obtain d where d: "q = r + d" using assms(2) le_Suc_ex by blast
  have app: "take k xs @ x # drop r xs = (take k xs @ [x]) @ drop r xs" by simp
  have len: "length (take k xs @ [x]) = k + 1" using assms by simp
  show "drop (k + 1 + (q - r)) (take k xs @ x # drop r xs) = drop q xs"
    unfolding app drop_append len by (simp add: d add.commute assms)
  show "take k (take q xs) @ x # drop r (take q xs) = take (k + 1 + (q - r)) (take k xs @ x # drop r xs)"
    unfolding app take_append len using assms by (simp add: d drop_take)
qed

lemma split_leaf_plan_ok:
  assumes l: "leaf_layout cfg hdr" and b: "spec_bounds spec (btree_num_entries hdr)"
    and m: "m < length (incorporate spec (leaf_contents hdr))"
    and rooms: "37 + weight (take m (sizes_after spec (sizes hdr))) \<le> bc_page_size cfg"
      "37 + weight (drop m (sizes_after spec (sizes hdr))) \<le> bc_page_size cfg"
  shows "\<exists>left right g. btree_split_leaf cfg hdr addr spec (plan_of spec m) raddr mem = Some (left, right, g)
    \<and> leaf_layout cfg left \<and> leaf_layout cfg right
    \<and> leaf_contents left = take m (incorporate spec (leaf_contents hdr))
    \<and> leaf_contents right = drop m (incorporate spec (leaf_contents hdr))
    \<and> prev_addr left = prev_addr hdr \<and> next_addr left = raddr
    \<and> prev_addr right = addr \<and> next_addr right = next_addr hdr"
proof -
  let ?k = "nat (idx spec)" and ?r = "spec_rest spec" and ?n = "btree_num_entries hdr" and ?cs = "leaf_contents hdr"
  have k: "?k \<le> ?n" "?k \<le> ?r" "?r \<le> ?n"
    using b spec_rest_le [OF b] by (auto simp: spec_bounds_def split: if_splits)
  have inc: "incorporate spec ?cs = take ?k ?cs @ spec_tuple spec # drop ?r ?cs"
    using b by (simp add: incorporate_alt)
  show ?thesis
  proof (cases "m \<le> ?k")
    case True
    obtain sp right g where right: "btree_split_leaf_build_right_node cfg hdr addr spec (plan_of spec m) mem = Some (sp, right, Some g)"
      "leaf_layout cfg right" "leaf_contents right = drop m (incorporate spec ?cs)"
      "prev_addr right = addr" "next_addr right = next_addr hdr"
      using build_right_insert [OF l b True rooms(2), of addr mem] True by (auto simp: plan_of_def)
    obtain left where left: "btree_split_leaf_cleanup_left_node cfg hdr sp (plan_of spec m) raddr = Some (sp, left)"
      "leaf_layout cfg left" "leaf_contents left = take m ?cs" "next_addr left = raddr" "prev_addr left = prev_addr hdr"
      using cleanup_left_plain [OF l, of m sp raddr] True k by (auto simp: plan_of_def)
    have "take m ?cs = take m (incorporate spec ?cs)" using True k by (simp add: inc)
    moreover have "\<not> insertion_goes_left (plan_of spec m)" using True by (simp add: plan_of_def)
    ultimately show ?thesis
      using right left by (intro exI [of _ left] exI [of _ right] exI [of _ g]) (simp add: btree_split_leaf_def)
  next
    case False
    define q where "q = ?r + (m - ?k - 1)"
    have q: "?r \<le> q" "q \<le> ?n" "?k \<le> q" using False m k by (auto simp: q_def inc)
    have bq: "spec_bounds spec (length (take q ?cs))"
      using b q by (auto simp: spec_bounds_def spec_rest_def)
    have mq: "m = ?k + 1 + (q - ?r)" using False by (simp add: q_def)
    note eqs = replaced_split [OF k(2) q(1), folded mq]
    have plan: "plan_of spec m = \<lparr>split_idx = q, insertion_goes_left = True\<rparr>"
      using False by (simp add: plan_of_def q_def)
    have "37 + weight (drop q (sizes hdr)) \<le> bc_page_size cfg"
      using rooms(2) unfolding sizes_after_def by (subst (asm) eqs(1)) (simp_all add: q(2))
    from build_right_plain [OF l b q(1,2) this, of addr mem]
    obtain right where right: "btree_split_leaf_build_right_node cfg hdr addr spec (plan_of spec m) mem = Some (spec, right, None)"
      "leaf_layout cfg right" "leaf_contents right = drop q ?cs" "prev_addr right = addr" "next_addr right = next_addr hdr"
      by (auto simp: plan)
    have "37 + weight (sizes_after spec (take q (sizes hdr))) \<le> bc_page_size cfg"
      using rooms(1) unfolding sizes_after_def by (subst eqs(2)) (simp_all add: q(2))
    from cleanup_left_insert [OF l b q(1,2) this, of raddr]
    obtain sp left1 left g where left: "btree_split_leaf_cleanup_left_node cfg hdr spec (plan_of spec m) raddr = Some (sp, left1)"
      "btree_try_perform_leaf_incorporate_spec left1 sp = Some (Some g, left)" "leaf_layout cfg left"
      "leaf_contents left = incorporate spec (take q ?cs)" "next_addr left = raddr" "prev_addr left = prev_addr hdr"
      by (auto simp: plan)
    have "incorporate spec (take q ?cs) = take m (incorporate spec ?cs)" "drop q ?cs = drop m (incorporate spec ?cs)"
      unfolding incorporate_alt [OF bq] inc by (subst eqs; simp add: q(2))+
    moreover have "insertion_goes_left (plan_of spec m)" by (simp add: plan)
    ultimately show ?thesis
      using right left by (intro exI [of _ left] exI [of _ right] exI [of _ g]) (simp add: btree_split_leaf_def)
  qed
qed

lemma inline_half_page:
  assumes "1060 \<le> p" "k \<le> MAX_INLINE_KEY_SIZE p" "m \<le> MAX_INLINE_MESSAGE_SIZE p"
  shows "2 * (2 + (6 + k + m)) \<le> p - 37"
proof -
  have "8 * k \<le> p" "100 * m \<le> 35 * p"
    using assms(2,3) by (simp_all add: MAX_INLINE_KEY_SIZE_def MAX_INLINE_MESSAGE_SIZE_def)
  then have "80 * k \<le> 10 * p" "80 * m \<le> 28 * p" by simp_all
  with assms(1) have "40 * (2 * (2 + (6 + k + m)) + 37) \<le> 40 * p" by simp
  then show ?thesis by simp
qed

definition inline_tuple :: "btree_config \<Rightarrow> key \<Rightarrow> message \<Rightarrow> bool" where
  "inline_tuple cfg k msg \<longleftrightarrow> key_length k \<le> MAX_INLINE_KEY_SIZE (bc_page_size cfg)
     \<and> message_length msg \<le> MAX_INLINE_MESSAGE_SIZE (bc_page_size cfg)"

lemma entry_sizes:
  assumes "leaf_layout cfg hdr" "e \<in> set (node_entries hdr)"
  shows "sizeof_leaf_entry e = 6 + key_length (leaf_entry_key e) + message_length (leaf_entry_message e)"
  using entry_storable(2) leaf.layout_eok [OF assms] by (simp add: leaf_entry_required_capacity_def)

lemma weight_after_le:
  assumes l: "leaf_layout cfg hdr" and b: "spec_bounds spec (btree_num_entries hdr)"
  shows "weight (sizes_after spec (sizes hdr)) \<le> bc_page_size cfg - 37 + (2 + spec_size spec)"
proof -
  have "weight (take (nat (idx spec)) (sizes hdr)) + weight (drop (spec_rest spec) (sizes hdr)) \<le> weight (sizes hdr)"
  proof -
    have "weight (drop (spec_rest spec) (sizes hdr)) \<le> weight (drop (nat (idx spec)) (sizes hdr))"
      using weight_take_drop [of "spec_rest spec - nat (idx spec)" "drop (nat (idx spec)) (sizes hdr)"] spec_rest_le [OF b]
      by (simp add: add.commute)
    then show ?thesis using weight_take_drop [of "nat (idx spec)" "sizes hdr"] by linarith
  qed
  moreover have "weight (sizes hdr) \<le> bc_page_size cfg - 37"
    using leaf_capacity [OF l] by (simp add: weight_alt table_end_def)
  ultimately show ?thesis by (simp add: sizes_after_def)
qed

lemma sizes_ge_6: "z \<in> set (sizes hdr) \<Longrightarrow> 6 \<le> z"
  by (auto simp: sizes_def sizeof_leaf_entry_def)

lemma half_page_suffices:
  fixes B s p l :: nat
  assumes "B + s < p div 2" "6 \<le> s" "6 * l \<le> B" "111 \<le> p"
  shows "37 + 2 * (l + 1) + B + s \<le> p"
proof -
  have "4 * B + 4 * s \<le> 2 * p" using assms(1) by simp
  with assms(2-) have "111 + 6 * l + 6 + 3 * B + 3 * s \<le> 3 * p" by linarith
  then show ?thesis by simp
qed

lemma six_each: "\<forall>j\<in>set js. 6 \<le> f j \<Longrightarrow> 6 * length js \<le> sum_list (map f js)" for f :: "nat \<Rightarrow> nat"
  by (induction js) auto

lemma sizes_after_set:
  "z \<in> set (sizes_after spec (sizes hdr)) \<Longrightarrow> z = spec_size spec \<or> z \<in> set (sizes hdr)"
  by (auto simp: sizes_after_def dest: in_set_takeD in_set_dropD)



text \<open>
  C16: When the space check of \<open>btree_defragment_or_split_child_leaf\<close> chooses defragmentation, the insertion
  that follows always fits, so the assertion after it never fails, and the leaf holds its tuples with the
  new one incorporated.
\<close>

theorem btree_defragment_and_incorporate_ok:
  assumes l: "leaf_layout cfg hdr" and b: "spec_bounds spec (btree_num_entries hdr)"
    and page: "111 \<le> bc_page_size cfg" and d: "defragment_suffices cfg hdr spec = Some True"
  shows "\<exists>hdr'. btree_defragment_and_incorporate cfg hdr spec = Some (hdr', generation hdr)
    \<and> leaf_layout cfg hdr' \<and> leaf_contents hdr' = incorporate spec (leaf_contents hdr)"
proof -
  let ?js = "kept (Some spec) [0..<btree_num_entries hdr]"
  let ?B = "sum_list (map ((!) (sizes hdr)) ?js)"
  have len: "length (incorporate spec (leaf_contents hdr)) = length ?js + 1"
    using b kept_range [OF b, of 0] spec_rest_le [OF b] by (simp add: incorporate_alt)
  have "\<forall>j\<in>set ?js. 6 \<le> sizes hdr ! j"
    using sizes_ge_6 [OF nth_mem, of _ hdr] by (auto simp: kept_def)
  then have six: "6 * length ?js \<le> ?B" by (rule six_each)
  have "?B + spec_size spec < bc_page_size cfg div 2"
    using d live_bytes_ok [OF l, of "[0..<btree_num_entries hdr]" spec]
    by (auto simp: defragment_suffices_def Let_def spec_size_def BTREE_SPLIT_THRESHOLD_def split: if_splits)
  moreover have "6 \<le> spec_size spec" by (simp add: spec_size_def leaf_entry_required_capacity_def)
  ultimately have "table_end (length (incorporate spec (leaf_contents hdr))) + ?B + spec_size spec \<le> bc_page_size cfg"
    using six page unfolding len table_end_def by (intro half_page_suffices)
  from defragment_incorporate_ok [OF l b this] show ?thesis
    by (auto simp: btree_defragment_and_incorporate_def)
qed

end
