(* ===== verification/BTree_Index.thy ===== *)
theory BTree_Index
  imports BTree_Leaf
begin

text \<open>
  Correctness of the index operations of \<open>btree.c\<close>: an index node abstracts to the list of its
  pivots (\<open>index_contents\<close>); set, insert, defragment, truncate and split act on it as on a
  list and keep the page layout invariant.
\<close>

section \<open>Index nodes\<close>

definition index_ok :: "index_entry \<Rightarrow> bool" where
  "index_ok e \<longleftrightarrow> sizeof_ondisk_key_data (ie_pivot e) \<le> length (odk_bytes (ie_pivot e))"

interpretation index: node_layout sizeof_index_entry index_ok
  by unfold_locales (simp add: sizeof_index_entry_def)

abbreviation index_layout :: "btree_config \<Rightarrow> index_hdr \<Rightarrow> bool" where
  "index_layout cfg hdr \<equiv> layout_ok sizeof_index_entry index_ok (bc_page_size cfg) hdr"

type_synonym pivot = "key \<times> uint64 \<times> btree_pivot_stats"

definition pivot_view :: "index_entry \<Rightarrow> pivot" where
  "pivot_view e = (index_entry_key e, ie_child_addr e, ie_stats e)"

definition index_contents :: "index_hdr \<Rightarrow> pivot list" where
  "index_contents hdr = map pivot_view (node_entries hdr)"

definition pivot_storable :: "key \<Rightarrow> bool" where
  "pivot_storable k \<longleftrightarrow> (if kind k = USER_KEY then \<exists>bs. user_slice k = Slice bs \<and> length bs < 65534
     else user_slice k = INVALID_SLICE)"

lemma length_index_contents [simp]: "length (index_contents hdr) = btree_num_entries hdr"
  by (simp add: index_contents_def btree_num_entries_def)

lemma fill_index_entry:
  assumes s: "pivot_storable k" and "key_length k \<le> length (odk_bytes (ie_pivot e))"
  shows "pivot_view (btree_fill_index_entry e k addr stats) = (k, addr, stats)
    \<and> sizeof_index_entry (btree_fill_index_entry e k addr stats) = index_entry_required_capacity k
    \<and> index_ok (btree_fill_index_entry e k addr stats)"
proof -
  obtain bs where k: "kind k = USER_KEY \<and> user_slice k = Slice bs \<or> kind k \<noteq> USER_KEY \<and> user_slice k = INVALID_SLICE"
    "key_length k < 65534"
    using s by (auto simp: pivot_storable_def key_length_def split: if_splits)
  have "length (odk_bytes (copy_key_to_ondisk_key (ie_pivot e) k)) = length (odk_bytes (ie_pivot e))"
    using k(1) assms(2) by (auto simp: copy_key_to_ondisk_key_def Let_def key_is_user_key_def key_data_def slice_bytes_def key_length_def)
  with key_disk_roundtrip [OF k assms(2)] assms(2) show ?thesis
    by (simp add: pivot_view_def btree_fill_index_entry_def index_entry_key_def sizeof_index_entry_def
        index_entry_required_capacity_def index_ok_def ondisk_key_required_data_capacity_def)
qed

lemma entry_pivot_storable:
  assumes "index_ok e"
  shows "pivot_storable (index_entry_key e) \<and> index_entry_required_capacity (index_entry_key e) = sizeof_index_entry e"
proof -
  have "unat (odk_length (ie_pivot e)) \<le> 65535"
    using unsigned_less [of "odk_length (ie_pivot e)", where ?'a = nat] by simp
  moreover have "unat (odk_length (ie_pivot e)) \<noteq> 65535" if "odk_length (ie_pivot e) \<noteq> 65535"
    using that by (simp add: word_unat_eq_iff)
  moreover have "unat (odk_length (ie_pivot e)) \<noteq> 65534" if "odk_length (ie_pivot e) \<noteq> 65534"
    using that by (simp add: word_unat_eq_iff)
  ultimately show ?thesis
    using assms
    by (auto simp: pivot_storable_def index_ok_def index_entry_key_def ondisk_key_to_key_def index_entry_required_capacity_def
        sizeof_index_entry_def sizeof_ondisk_key_data_def key_create_def key_length_def NEGATIVE_INFINITY_KEY_def
        POSITIVE_INFINITY_KEY_def ONDISK_KEY_NEGATIVE_INFINITY_def ONDISK_KEY_POSITIVE_INFINITY_def)
qed

lemma region_without_first:
  assumes r: "region_ok s c p lo mem S" and o: "lo \<in> S" "mem lo = Some e"
  shows "region_ok s c p (lo + s e) mem (S - {lo})"
proof -
  have "lo + s e \<le> off" if "off \<in> S - {lo}" for off
  proof -
    have "lo \<le> off" "off \<noteq> lo" using r that unfolding region_ok_def by auto
    then have "lo < off" by simp
    then show ?thesis using r that o unfolding region_ok_def by fastforce
  qed
  with r show ?thesis unfolding region_ok_def by (metis DiffD1)
qed

definition index_fits :: "index_hdr \<Rightarrow> nat \<Rightarrow> nat \<Rightarrow> nat \<Rightarrow> bool" where
  "index_fits hdr k lo req \<longleftrightarrow> table_end (max (btree_num_entries hdr) (k + 1)) + req \<le> lo"

lemma place_index_entry_ok:
  assumes l: "bc_page_size cfg < 65536" "distinct (offsets hdr)" "lo \<le> bc_page_size cfg"
    and r: "region_ok sizeof_index_entry index_ok (bc_page_size cfg) lo (entries hdr)
        (if k < length (offsets hdr) then set (offsets hdr) - {offsets hdr ! k} else set (offsets hdr))"
    and s: "pivot_storable key" and k: "k \<le> btree_num_entries hdr" and n: "next_entry hdr = lo"
    and f: "index_fits hdr k lo (index_entry_required_capacity key)"
  shows "\<exists>hdr' e. btree_place_index_entry hdr k key addr stats = (True, hdr')
     \<and> index_layout cfg hdr' \<and> links hdr' = links hdr
     \<and> node_entries hdr' = put (node_entries hdr) k e \<and> pivot_view e = (key, addr, stats)
     \<and> sizeof_index_entry e = index_entry_required_capacity key \<and> next_entry hdr' = lo - index_entry_required_capacity key"
proof -
  have num: "(if k < btree_num_entries hdr then btree_num_entries hdr else k + 1) = max (btree_num_entries hdr) (k + 1)"
    using k by auto
  define e where "e = btree_fill_index_entry (blank_index_entry (key_length key)) key addr stats"
  have e: "pivot_view e = (key, addr, stats)" "sizeof_index_entry e = index_entry_required_capacity key" "index_ok e"
    using fill_index_entry [OF s, of "blank_index_entry (key_length key)"] by (simp_all add: e_def blank_index_entry_def)
  define hdr' where "hdr' = place_entry hdr k (lo - sizeof_index_entry e) e"
  have pl: "index_layout cfg hdr' \<and> node_entries hdr' = put (node_entries hdr) k e"
    using index.place_layout [OF l(1,2) _ l(3) r e(3)] f k e(2)
    by (simp add: hdr'_def index_fits_def btree_num_entries_def put_def)
  have small: "lo - index_entry_required_capacity key < 65536" using l by simp
  have "btree_place_index_entry hdr k key addr stats = (True, hdr')"
    using f k small n unfolding btree_place_index_entry_def Let_def num hdr'_def place_entry_def e_def [symmetric]
    by (auto simp: e(2) index_fits_def btree_num_entries_def)
  with pl e show ?thesis
    by (intro exI [of _ hdr'] exI [of _ e]) (simp add: hdr'_def place_entry_def links_def)
qed

lemma region_okD: "region_ok s c p lo mem S \<Longrightarrow> off \<in> S \<Longrightarrow> mem off = Some e \<Longrightarrow> lo \<le> off \<and> off + s e \<le> p"
  unfolding region_ok_def by fastforce

definition index_stored :: "btree_config \<Rightarrow> index_hdr \<Rightarrow> nat \<Rightarrow> pivot \<Rightarrow> bool \<times> index_hdr \<Rightarrow> bool" where
  "index_stored cfg hdr k x r \<longleftrightarrow> index_layout cfg (snd r) \<and> links (snd r) = links hdr
     \<and> (if fst r then index_contents (snd r) = put (index_contents hdr) k x else snd r = hdr)"

lemma place_index_entry_total:
  assumes l: "index_layout cfg hdr" and s: "pivot_storable key" and k: "k \<le> btree_num_entries hdr"
  shows "\<exists>r. btree_place_index_entry hdr k key addr stats = r \<and> index_stored cfg hdr k (key, addr, stats) r
    \<and> (index_fits hdr k (next_entry hdr) (index_entry_required_capacity key) \<longrightarrow> fst r)"
proof (cases "index_fits hdr k (next_entry hdr) (index_entry_required_capacity key)")
  case True
  have l': "bc_page_size cfg < 65536" "distinct (offsets hdr)" "next_entry hdr \<le> bc_page_size cfg"
    and r: "region_ok sizeof_index_entry index_ok (bc_page_size cfg) (next_entry hdr) (entries hdr) (set (offsets hdr))"
    using l by (simp_all add: layout_ok_def)
  have "region_ok sizeof_index_entry index_ok (bc_page_size cfg) (next_entry hdr) (entries hdr)
      (if k < length (offsets hdr) then set (offsets hdr) - {offsets hdr ! k} else set (offsets hdr))"
    by (rule region_ok_subset [OF r]) auto
  from place_index_entry_ok [OF l' this s k refl True, of addr stats] show ?thesis
    by (auto simp: index_stored_def index_contents_def map_put)
next
  case False
  have "(if k < btree_num_entries hdr then btree_num_entries hdr else k + 1) = max (btree_num_entries hdr) (k + 1)"
    using k by auto
  with False l show ?thesis by (simp add: btree_place_index_entry_def index_fits_def index_stored_def Let_def)
qed

text \<open>The entry with the lowest offset is given back before the new one is placed.\<close>

lemma place_index_entry_grow:
  assumes l: "index_layout cfg hdr" and s: "pivot_storable key" and k: "k < length (offsets hdr)"
    and m: "entries hdr (offsets hdr ! k) = Some old" and first: "next_entry hdr = offsets hdr ! k"
    and room: "table_end (btree_num_entries hdr) + index_entry_required_capacity key \<le> next_entry hdr + sizeof_index_entry old"
  shows "\<exists>h. btree_place_index_entry (hdr\<lparr>next_entry := u16 (next_entry hdr + sizeof_index_entry old)\<rparr>) k key addr stats
       = (True, h) \<and> index_stored cfg hdr k (key, addr, stats) (True, h)"
proof -
  let ?lo = "next_entry hdr + sizeof_index_entry old"
  let ?hdr = "hdr\<lparr>next_entry := ?lo\<rparr>"
  have l': "bc_page_size cfg < 65536" "distinct (offsets ?hdr)"
    and r: "region_ok sizeof_index_entry index_ok (bc_page_size cfg) (next_entry hdr) (entries hdr) (set (offsets hdr))"
    using l by (simp_all add: layout_ok_def)
  have lo: "?lo \<le> bc_page_size cfg"
    using region_okD [OF r nth_mem [OF k] m] first by simp
  have reg: "region_ok sizeof_index_entry index_ok (bc_page_size cfg) ?lo (entries ?hdr)
      (if k < length (offsets ?hdr) then set (offsets ?hdr) - {offsets ?hdr ! k} else set (offsets ?hdr))"
    using region_without_first [OF r] nth_mem [OF k] first m k by simp
  have fit: "index_fits ?hdr k ?lo (index_entry_required_capacity key)" "k \<le> btree_num_entries ?hdr"
    using room k by (simp_all add: index_fits_def btree_num_entries_def max.absorb1)
  have "u16 ?lo = ?lo" using lo l'(1) by simp
  with place_index_entry_ok [OF l'(1,2) lo reg s fit(2) _ fit(1), of addr stats] show ?thesis
    by (auto simp: index_stored_def index_contents_def map_put links_def frame_simps)
qed

lemma set_index_in_place:
  assumes l: "index_layout cfg hdr" and s: "pivot_storable key" and k: "k < length (offsets hdr)"
    and req: "index_entry_required_capacity key \<le> sizeof_index_entry (node_entries hdr ! k)"
  shows "index_stored cfg hdr k (key, addr, stats)
    (True, hdr\<lparr>entries := (entries hdr)(offsets hdr ! k \<mapsto> btree_fill_index_entry (node_entries hdr ! k) key addr stats)\<rparr>)"
proof -
  have "key_length key \<le> length (odk_bytes (ie_pivot (node_entries hdr ! k)))"
    using req index.layout_get [OF l k]
    by (simp add: index_entry_required_capacity_def sizeof_index_entry_def index_ok_def)
  note f = fill_index_entry [OF s this, of addr stats]
  show ?thesis
    using index.replace_layout [OF l k, of "btree_fill_index_entry (node_entries hdr ! k) key addr stats"] f req k
    by (simp add: index_stored_def index_contents_def put_def map_update links_def)
qed

lemma set_index_entry_ok:
  assumes l: "index_layout cfg hdr" and s: "pivot_storable key" and k: "k \<le> btree_num_entries hdr"
  shows "\<exists>r. btree_set_index_entry hdr k key addr stats = Some r \<and> index_stored cfg hdr k (key, addr, stats) r
    \<and> (index_fits hdr k (next_entry hdr) (index_entry_required_capacity key) \<longrightarrow> fst r)"
proof (cases "k < length (offsets hdr)")
  case False
  with k have "btree_set_index_entry hdr k key addr stats = Some (btree_place_index_entry hdr k key addr stats)"
    by (simp add: btree_set_index_entry_def Let_def btree_num_entries_def)
  with place_index_entry_total [OF assms, of addr stats] show ?thesis by metis
next
  case kn: True
  let ?old = "node_entries hdr ! k" and ?req = "index_entry_required_capacity key"
  have g: "btree_get_index_entry hdr k = Some ?old" "entries hdr (offsets hdr ! k) = Some ?old"
    using index.layout_get [OF l kn] kn by (auto simp: btree_get_index_entry_def get_entry_def btree_num_entries_def split: if_splits)
  consider (grow) "next_entry hdr = offsets hdr ! k" "table_end (btree_num_entries hdr) + ?req \<le> next_entry hdr + sizeof_index_entry ?old"
    | (same) "\<not> (next_entry hdr = offsets hdr ! k \<and> table_end (btree_num_entries hdr) + ?req \<le> next_entry hdr + sizeof_index_entry ?old)"
        "?req \<le> sizeof_index_entry ?old"
    | (new) "\<not> (next_entry hdr = offsets hdr ! k \<and> table_end (btree_num_entries hdr) + ?req \<le> next_entry hdr + sizeof_index_entry ?old)"
        "\<not> ?req \<le> sizeof_index_entry ?old"
    by blast
  then show ?thesis
  proof cases
    case grow
    with place_index_entry_grow [OF l s kn g(2), of addr stats] g(1) kn show ?thesis
      by (auto simp: btree_set_index_entry_def Let_def btree_num_entries_def)
  next
    case same
    with set_index_in_place [OF l s kn same(2), of addr stats] g(1) kn show ?thesis
      by (auto simp: btree_set_index_entry_def Let_def btree_num_entries_def)
  next
    case new
    with g(1) kn have "btree_set_index_entry hdr k key addr stats = Some (btree_place_index_entry hdr k key addr stats)"
      by (auto simp add: btree_set_index_entry_def Let_def btree_num_entries_def)
    with place_index_entry_total [OF assms, of addr stats] show ?thesis by metis
  qed
qed

lemma insert_index_entry_ok:
  assumes l: "index_layout cfg hdr" and s: "pivot_storable key" and k: "k \<le> btree_num_entries hdr"
  shows "\<exists>ok hdr'. btree_insert_index_entry hdr k key addr stats = Some (ok, hdr')
    \<and> index_layout cfg hdr' \<and> links hdr' = links hdr
    \<and> (if ok then index_contents hdr' = take k (index_contents hdr) @ (key, addr, stats) # drop k (index_contents hdr)
       else hdr' = hdr)
    \<and> (index_fits hdr (btree_num_entries hdr) (next_entry hdr) (index_entry_required_capacity key) \<longrightarrow> ok)"
proof -
  obtain r where r: "btree_set_index_entry hdr (btree_num_entries hdr) key addr stats = Some r"
    "index_stored cfg hdr (btree_num_entries hdr) (key, addr, stats) r"
    "index_fits hdr (btree_num_entries hdr) (next_entry hdr) (index_entry_required_capacity key) \<longrightarrow> fst r"
    using set_index_entry_ok [OF l s order.refl, of addr stats] by blast
  obtain ok h where rr: "r = (ok, h)" by (cases r)
  have put: "put (index_contents hdr) (btree_num_entries hdr) x = index_contents hdr @ [x]" for x
    by (simp add: put_def)
  have h: "btree_set_index_entry hdr (btree_num_entries hdr) key addr stats = Some (ok, h)"
    "index_layout cfg h" "links h = links hdr"
    "if ok then index_contents h = index_contents hdr @ [(key, addr, stats)] else h = hdr"
    "index_fits hdr (btree_num_entries hdr) (next_entry hdr) (index_entry_required_capacity key) \<longrightarrow> ok"
    using r unfolding rr index_stored_def put fst_conv snd_conv by simp_all
  show ?thesis
  proof (cases ok)
    case True
    obtain es e where es: "node_entries h = es @ [e]" "map pivot_view es = index_contents hdr" "pivot_view e = (key, addr, stats)"
      using h(4) True by (cases "node_entries h" rule: rev_cases) (auto simp: index_contents_def)
    have "k \<le> length es" using k arg_cong [OF es(2), of length] by simp
    note r = index.rotate_layout [OF h(2) es(1) this]
    have "index_contents (rotate_last_offset h k) = take k (map pivot_view es) @ pivot_view e # drop k (map pivot_view es)"
      using r by (simp add: index_contents_def take_map drop_map)
    then have "index_contents (rotate_last_offset h k) = take k (index_contents hdr) @ (key, addr, stats) # drop k (index_contents hdr)"
      unfolding es(2,3) .
    moreover have "links (rotate_last_offset h k) = links hdr"
      using h(3) by (simp add: links_def rotate_last_offset_def Let_def)
    moreover have "btree_insert_index_entry hdr k key addr stats = Some (True, rotate_last_offset h k)"
      using h(1) True by (simp add: btree_insert_index_entry_def)
    ultimately show ?thesis using r by auto
  next
    case False
    with h show ?thesis by (intro exI [of _ False] exI [of _ h]) (auto simp: btree_insert_index_entry_def)
  qed
qed

definition index_sizes :: "index_hdr \<Rightarrow> nat list" where
  "index_sizes hdr = map sizeof_index_entry (node_entries hdr)"

text \<open>What a copy of a pivot keeps: the metadata in the low bits of the child address is dropped.\<close>

fun plain_pivot :: "pivot \<Rightarrow> pivot" where
  "plain_pivot (k, addr, stats) = (k, addr AND NOT 0xFFF, stats)"

lemma plain_pivot_idem [simp]: "plain_pivot (plain_pivot p) = plain_pivot p"
  by (cases p) (simp add: and.assoc)

lemma length_index_sizes [simp]: "length (index_sizes hdr) = btree_num_entries hdr"
  by (simp add: index_sizes_def btree_num_entries_def)

lemma get_index_ok:
  assumes "index_layout cfg hdr" "k < btree_num_entries hdr"
  shows "btree_get_index_entry hdr k = Some (node_entries hdr ! k)" "index_ok (node_entries hdr ! k)"
    "index_contents hdr ! k = pivot_view (node_entries hdr ! k)"
    "sizeof_index_entry (node_entries hdr ! k) = index_sizes hdr ! k"
  using assms index.layout_get [OF assms(1), of k]
  by (simp_all add: btree_get_index_entry_def index_contents_def index_sizes_def btree_num_entries_def)

lemma append_index_ok:
  assumes l: "index_layout cfg src" "index_layout cfg dst" and i: "i < btree_num_entries src"
    and room: "table_end (btree_num_entries dst + 1) + index_sizes src ! i \<le> next_entry dst"
  defines "e \<equiv> node_entries src ! i"
  shows "\<exists>dst'. btree_set_index_entry dst (btree_num_entries dst) (index_entry_key e) (index_entry_child_addr e) (ie_stats e)
        = Some (True, dst') \<and> index_layout cfg dst' \<and> links dst' = links dst
    \<and> index_contents dst' = index_contents dst @ [plain_pivot (index_contents src ! i)]
    \<and> next_entry dst' = next_entry dst - index_sizes src ! i"
proof -
  note g = get_index_ok [OF l(1) i, folded e_def]
  note st = entry_pivot_storable [OF g(2)]
  let ?n = "btree_num_entries dst"
  have l': "bc_page_size cfg < 65536" "distinct (offsets dst)" "next_entry dst \<le> bc_page_size cfg"
    and r: "region_ok sizeof_index_entry index_ok (bc_page_size cfg) (next_entry dst) (entries dst)
      (if ?n < length (offsets dst) then set (offsets dst) - {offsets dst ! ?n} else set (offsets dst))"
    using l(2) by (simp_all add: layout_ok_def btree_num_entries_def)
  have fit: "index_fits dst ?n (next_entry dst) (index_entry_required_capacity (index_entry_key e))"
    using room st g(4) by (simp add: index_fits_def)
  have put: "put (node_entries dst) ?n x = node_entries dst @ [x]" for x
    by (simp add: put_def btree_num_entries_def)
  obtain h e' where h: "btree_place_index_entry dst ?n (index_entry_key e) (index_entry_child_addr e) (ie_stats e) = (True, h)"
    "index_layout cfg h" "links h = links dst" "node_entries h = node_entries dst @ [e']"
    "pivot_view e' = (index_entry_key e, index_entry_child_addr e, ie_stats e)"
    "next_entry h = next_entry dst - index_entry_required_capacity (index_entry_key e)"
    using place_index_entry_ok [OF l' r conjunct1 [OF st] order.refl refl fit, of "index_entry_child_addr e" "ie_stats e"]
    unfolding put by blast
  have "btree_set_index_entry dst ?n (index_entry_key e) (index_entry_child_addr e) (ie_stats e) = Some (True, h)"
    using h(1) by (simp add: btree_set_index_entry_def Let_def)
  moreover have "index_contents h = index_contents dst @ [plain_pivot (index_contents src ! i)]"
    using h(4,5) g(3) by (simp add: index_contents_def pivot_view_def index_entry_child_addr_def)
  ultimately show ?thesis
    using h(2,3,6) st g(4) by auto
qed

lemma copy_index_ok:
  assumes src: "index_layout cfg src"
  shows "\<lbrakk>index_layout cfg dst; k = btree_num_entries dst; \<forall>i\<in>set js. i < btree_num_entries src;
     table_end (btree_num_entries dst + length js) + sum_list (map ((!) (index_sizes src)) js) \<le> next_entry dst\<rbrakk>
   \<Longrightarrow> \<exists>dst'. btree_copy_index_entries src js k dst = Some dst' \<and> index_layout cfg dst' \<and> links dst' = links dst
     \<and> index_contents dst' = index_contents dst @ map (\<lambda>i. plain_pivot (index_contents src ! i)) js"
proof (induction js arbitrary: k dst)
  case Nil
  then show ?case by simp
next
  case (Cons i js)
  have i: "i < btree_num_entries src" using Cons.prems by simp
  have room: "table_end (btree_num_entries dst + 1) + index_sizes src ! i \<le> next_entry dst"
    using Cons.prems(4) by (simp add: table_end_def)
  let ?e = "node_entries src ! i"
  obtain d where d: "btree_set_index_entry dst k (index_entry_key ?e) (index_entry_child_addr ?e) (ie_stats ?e) = Some (True, d)"
    "index_layout cfg d" "links d = links dst" "index_contents d = index_contents dst @ [plain_pivot (index_contents src ! i)]"
    "next_entry d = next_entry dst - index_sizes src ! i"
    using append_index_ok [OF src Cons.prems(1) i room] Cons.prems(2) by auto
  have n: "btree_num_entries d = btree_num_entries dst + 1"
    using arg_cong [OF d(4), of length] by simp
  have "table_end (btree_num_entries d + length js) + sum_list (map ((!) (index_sizes src)) js) \<le> next_entry d"
    using Cons.prems(4) by (simp add: n d(5) table_end_def)
  with Cons.IH [OF d(2), of "k + 1"] Cons.prems(2,3) n d show ?case
    by (simp add: get_index_ok(1) [OF src i])
qed

lemma index_capacity:
  assumes "index_layout cfg hdr"
  shows "table_end (btree_num_entries hdr) + sum_list (index_sizes hdr) \<le> bc_page_size cfg"
  using assms index.layout_size [OF assms] by (auto simp: layout_ok_def index_sizes_def btree_num_entries_def)

lemma copy_index_range:
  assumes l: "index_layout cfg hdr" and a: "a \<le> btree_num_entries hdr"
  shows "\<exists>dst. btree_copy_index_entries hdr [a..<btree_num_entries hdr] 0 (btree_reset_node_entries cfg dst0) = Some dst
    \<and> index_layout cfg dst \<and> links dst = links dst0 \<and> index_contents dst = map plain_pivot (drop a (index_contents hdr))"
proof -
  let ?n = "btree_num_entries hdr"
  have p: "bc_page_size cfg < 65536" "37 \<le> bc_page_size cfg"
    using l by (auto simp: layout_ok_def table_end_def)
  note r = index.reset_layout [OF p, of dst0]
  have c: "index_contents (btree_reset_node_entries cfg dst0) = []" "btree_num_entries (btree_reset_node_entries cfg dst0) = 0"
    "next_entry (btree_reset_node_entries cfg dst0) = bc_page_size cfg" "links (btree_reset_node_entries cfg dst0) = links dst0"
    using r p by (simp_all add: index_contents_def btree_num_entries_def btree_reset_node_entries_def links_def node_entries_def)
  have "sum_list (index_sizes hdr) = sum_list (take a (index_sizes hdr)) + sum_list (drop a (index_sizes hdr))"
    by (metis append_take_drop_id sum_list_append)
  then have "table_end (length [a..<?n]) + sum_list (map ((!) (index_sizes hdr)) [a..<?n]) \<le> bc_page_size cfg"
    using index_capacity [OF l] by (simp add: map_nth_upt table_end_def)
  moreover have "map (\<lambda>i. plain_pivot (index_contents hdr ! i)) [a..<?n] = map plain_pivot (drop a (index_contents hdr))"
    using arg_cong [OF map_nth_upt [of ?n "index_contents hdr" a], of "map plain_pivot"] by (simp add: comp_def)
  ultimately show ?thesis
    using copy_index_ok [OF l conjunct1 [OF r], of 0 "[a..<?n]"] c by simp
qed

lemma defragment_index_ok:
  assumes "index_layout cfg hdr"
  shows "\<exists>hdr'. btree_defragment_index cfg hdr = Some hdr' \<and> index_layout cfg hdr' \<and> links hdr' = links hdr
    \<and> index_contents hdr' = map plain_pivot (index_contents hdr)"
  using copy_index_range [OF assms le0, of hdr] by (simp add: btree_defragment_index_def)

lemma truncate_index_ok:
  assumes l: "index_layout cfg hdr" and n: "n \<le> btree_num_entries hdr"
  shows "\<exists>hdr'. btree_truncate_index cfg hdr n = Some hdr' \<and> index_layout cfg hdr'
    \<and> map plain_pivot (index_contents hdr') = map plain_pivot (take n (index_contents hdr))
    \<and> generation hdr' = generation hdr + 1"
proof -
  define h where "h = hdr\<lparr>offsets := take n (offsets hdr),
      next_entry := u16 (least_offset (bc_page_size cfg) (take n (offsets hdr)))\<rparr>"
  define h1 where "h1 = h\<lparr>generation := generation hdr + 1\<rparr>"
  have h: "index_layout cfg h" "node_entries h = take n (node_entries hdr)"
    using index.truncate_layout [OF l, of n] n by (simp_all add: h_def btree_num_entries_def)
  have h1: "index_layout cfg h1" "index_contents h1 = take n (index_contents hdr)" "generation h1 = generation hdr + 1"
    using h by (simp_all add: h1_def frame_simps index_contents_def take_map)
  have "btree_truncate_index cfg hdr n = (if least_offset (bc_page_size cfg) (take n (offsets hdr)) < BTREE_DEFRAGMENT_THRESHOLD (bc_page_size cfg)
     then btree_defragment_index cfg h1 else Some h1)"
    by (simp add: btree_truncate_index_def Let_def h1_def h_def)
  with h1 defragment_index_ok [OF h1(1)] show ?thesis
    by (auto simp: links_def comp_def)
qed

declare choose_split_loop.simps [simp del]

lemma choose_split_loop_ok:
  assumes l: "index_layout cfg hdr" and tot: "half \<le> sum_list (index_sizes hdr)"
  shows "\<lbrakk>t \<le> btree_num_entries hdr; btree_num_entries hdr - t \<le> fuel; bytes = sum_list (take t (index_sizes hdr));
      \<forall>i<t. sum_list (take i (index_sizes hdr)) < half\<rbrakk>
    \<Longrightarrow> \<exists>t'. choose_split_loop hdr half fuel t bytes = Some t' \<and> t' \<le> btree_num_entries hdr
      \<and> half \<le> sum_list (take t' (index_sizes hdr)) \<and> (\<forall>i<t'. sum_list (take i (index_sizes hdr)) < half)"
proof (induction fuel arbitrary: t bytes)
  case 0
  then show ?case using tot by (intro exI [of _ t]) (simp add: choose_split_loop.simps)
next
  case (Suc fuel)
  show ?case
  proof (cases "bytes < half")
    case True
    have t: "t < btree_num_entries hdr"
      using True Suc.prems tot by (cases "t < btree_num_entries hdr") auto
    have "sum_list (take (t + 1) (index_sizes hdr)) = bytes + index_sizes hdr ! t"
      using t Suc.prems(3) by (simp add: take_Suc_conv_app_nth)
    moreover have "\<forall>i<t + 1. sum_list (take i (index_sizes hdr)) < half"
      using Suc.prems(3,4) True by (auto simp: less_Suc_eq)
    ultimately show ?thesis
      using Suc.IH [of "t + 1" "bytes + index_sizes hdr ! t"] Suc.prems t True
      by (subst choose_split_loop.simps) (simp add: get_index_ok [OF l t])
  next
    case False
    then show ?thesis using Suc.prems by (intro exI [of _ t]) (simp add: choose_split_loop.simps)
  qed
qed

lemma index_entry_bytes_ok:
  assumes l: "index_layout cfg hdr"
  shows "\<forall>i\<in>set js. i < btree_num_entries hdr \<Longrightarrow> index_entry_bytes hdr js = Some (sum_list (map ((!) (index_sizes hdr)) js))"
  by (induction js) (simp_all add: get_index_ok [OF l])

lemma choose_index_split_ok:
  assumes l: "index_layout cfg hdr"
  shows "\<exists>t. btree_choose_index_split hdr = Some t \<and> t \<le> btree_num_entries hdr
    \<and> sum_list (index_sizes hdr) div 2 \<le> sum_list (take t (index_sizes hdr))
    \<and> (\<forall>i<t. sum_list (take i (index_sizes hdr)) < sum_list (index_sizes hdr) div 2)"
proof -
  have "index_entry_bytes hdr [0..<btree_num_entries hdr] = Some (sum_list (index_sizes hdr))"
    using index_entry_bytes_ok [OF l, of "[0..<btree_num_entries hdr]"] by (simp add: map_nth_upt)
  then show ?thesis
    using choose_split_loop_ok [OF l, of "sum_list (index_sizes hdr) div 2" 0 "btree_num_entries hdr" 0]
    by (simp add: btree_choose_index_split_def Let_def)
qed

text \<open>
  C15: Splitting an index node whose last entry takes at most half of the entry bytes succeeds: the split
  point is inside, both halves are well-formed pages that together hold the pivots and child addresses in
  order, without the access counters, and both generations advance.
\<close>

theorem btree_split_index_correct:
  assumes l: "index_layout cfg hdr" and two: "2 \<le> btree_num_entries hdr"
    and last: "2 * sizeof_index_entry (last (node_entries hdr)) \<le> sum_list (map sizeof_index_entry (node_entries hdr))"
  shows "\<exists>t left right. btree_choose_index_split hdr = Some t \<and> 0 < t \<and> t < btree_num_entries hdr
    \<and> btree_split_index_build_right_node cfg hdr t mem = Some right \<and> btree_truncate_index cfg hdr t = Some left
    \<and> index_layout cfg left \<and> index_layout cfg right
    \<and> length (index_contents left) = t
    \<and> map plain_pivot (index_contents left @ index_contents right) = map plain_pivot (index_contents hdr)
    \<and> generation left = generation hdr + 1 \<and> generation right = generation hdr + 1"
proof -
  let ?n = "btree_num_entries hdr" and ?z = "index_sizes hdr"
  obtain t where t: "btree_choose_index_split hdr = Some t" "t \<le> ?n"
    "sum_list ?z div 2 \<le> sum_list (take t ?z)" "\<forall>i<t. sum_list (take i ?z) < sum_list ?z div 2"
    using choose_index_split_ok [OF l] by blast
  have ne: "?z \<noteq> []" using two by (cases ?z) (auto dest: arg_cong [of _ _ length])
  have lz: "last ?z = sizeof_index_entry (last (node_entries hdr))"
    using ne by (simp add: index_sizes_def last_map)
  have z: "?z = take (?n - 1) ?z @ [last ?z]"
    using append_butlast_last_id [OF ne] by (simp add: butlast_conv_take)
  then have "sum_list ?z = sum_list (take (?n - 1) ?z) + last ?z"
    by (metis sum_list_append sum_list_simps add.right_neutral sum_list.Cons sum_list.Nil)
  with last lz have "\<not> sum_list (take (?n - 1) ?z) < sum_list ?z div 2"
    by (simp add: index_sizes_def)
  then have "t \<noteq> ?n" using t(4) two by auto
  with t(2) have lt: "t < ?n" by simp
  have "0 < t"
  proof (rule ccontr)
    assume "\<not> 0 < t"
    then have "sum_list ?z < 2" using t(3) by simp
    moreover have "23 \<le> last ?z" by (simp add: lz sizeof_index_entry_def)
    moreover have "last ?z \<le> sum_list ?z" using ne by (simp add: member_le_sum_list)
    ultimately show False by simp
  qed
  let ?dst0 = "hdr\<lparr>entries := entries mem, generation := generation hdr + 1\<rparr>"
  obtain right where right: "btree_split_index_build_right_node cfg hdr t mem = Some right" "index_layout cfg right"
    "links right = links ?dst0" "index_contents right = map plain_pivot (drop t (index_contents hdr))"
    using copy_index_range [OF l t(2), of ?dst0] by (auto simp: btree_split_index_build_right_node_def)
  obtain left where left: "btree_truncate_index cfg hdr t = Some left" "index_layout cfg left"
    "map plain_pivot (index_contents left) = map plain_pivot (take t (index_contents hdr))" "generation left = generation hdr + 1"
    using truncate_index_ok [OF l t(2)] by blast
  have len: "length (index_contents left) = t"
    using arg_cong [OF left(3), of length] lt by simp
  have "map plain_pivot (index_contents left @ index_contents right) = map plain_pivot (index_contents hdr)"
    using left(3) right(4) by (simp add: comp_def) (metis append_take_drop_id map_append)
  moreover have "generation right = generation hdr + 1" using right(3) by (simp add: links_def)
  ultimately show ?thesis
    using t(1) \<open>0 < t\<close> lt right left len by blast
qed

end
