(* ===== verification/BTree_Lookup.thy ===== *)
theory BTree_Lookup
  imports BTree_Index
begin

text \<open>
  Lookups in a B-tree and the per-pivot access counters that TreePass keeps in the low byte
  of every child address: \<open>btree_private.h\<close> (\<open>btree_pivot_meta_*\<close>) and \<open>btree.c\<close> (\<open>pivot_*\<close>,
  \<open>btree_update_ac_and_classify_warm\<close>, \<open>btree_lookup_node\<close>, \<open>btree_lookup_with_ref\<close>,
  \<open>btree_lookup\<close>, \<open>btree_lookup_and_merge\<close>).

  The counters are atomics and the functions of one thread are modelled, so a
  compare-exchange succeeds at once. What the cache decides is an argument: \<open>lookup_env\<close>
  gives, for each height a lookup visits, the eviction interval, whether a page is cached,
  the clock, and what a \<open>cache_get\<close> does to the entry times of pages. The theorems hold for
  every such environment.
\<close>

section \<open>Definitions\<close>

subsection \<open>Metadata in a child address\<close>

definition PIVOT_CACHE_RESIDENT :: uint8 where
  "PIVOT_CACHE_RESIDENT = 0x80"

definition PIVOT_AC_MASK :: uint8 where
  "PIVOT_AC_MASK = 0x7F"

definition PIVOT_AC_SATURATION_THRESHOLD :: uint8 where
  "PIVOT_AC_SATURATION_THRESHOLD = PIVOT_AC_MASK"

text \<open>Loads and stores of byte 0 of the (little-endian) child address.\<close>

definition btree_pivot_meta_load :: "index_entry \<Rightarrow> uint8" where
  "btree_pivot_meta_load e = ucast (ie_child_addr e)"

definition store_b0 :: "index_entry \<Rightarrow> uint8 \<Rightarrow> index_entry" where
  "store_b0 e b = e\<lparr>ie_child_addr := (ie_child_addr e AND NOT 0xFF) OR ucast b\<rparr>"

definition btree_pivot_meta_ac_load :: "index_entry \<Rightarrow> uint8" where
  "btree_pivot_meta_ac_load e = btree_pivot_meta_load e AND PIVOT_AC_MASK"

definition btree_pivot_meta_mark_cache_resident :: "index_entry \<Rightarrow> index_entry" where
  "btree_pivot_meta_mark_cache_resident e = store_b0 e (btree_pivot_meta_load e OR PIVOT_CACHE_RESIDENT)"

definition btree_pivot_meta_clear_cache_resident :: "index_entry \<Rightarrow> index_entry" where
  "btree_pivot_meta_clear_cache_resident e = store_b0 e (btree_pivot_meta_load e AND NOT PIVOT_CACHE_RESIDENT)"

definition btree_pivot_meta_ac_set :: "index_entry \<Rightarrow> uint8 \<Rightarrow> index_entry" where
  "btree_pivot_meta_ac_set e count =
     (let count' = (if count > PIVOT_AC_MASK then PIVOT_AC_MASK else count);
          old = btree_pivot_meta_load e
      in store_b0 e ((old AND PIVOT_CACHE_RESIDENT) OR count'))"

definition btree_pivot_meta_ac_inc_atomic :: "index_entry \<Rightarrow> uint8 \<times> index_entry" where
  "btree_pivot_meta_ac_inc_atomic e =
     (let old = btree_pivot_meta_load e;
          cnt = old AND PIVOT_AC_MASK;
          newv = (old AND PIVOT_CACHE_RESIDENT) OR (cnt + 1)
      in if old AND PIVOT_CACHE_RESIDENT \<noteq> 0 then (old, e)
         else if cnt \<ge> PIVOT_AC_MASK then (old, e)
         else (newv, store_b0 e newv))"

definition pivot_is_cache_resident :: "index_entry \<Rightarrow> bool" where
  "pivot_is_cache_resident e \<longleftrightarrow> btree_pivot_meta_load e AND PIVOT_CACHE_RESIDENT \<noteq> 0"

definition pivot_ac_load :: "index_entry \<Rightarrow> nat" where
  "pivot_ac_load e = unat (btree_pivot_meta_ac_load e)"

definition pivot_ac_inc :: "index_entry \<Rightarrow> index_entry" where
  "pivot_ac_inc e = snd (btree_pivot_meta_ac_inc_atomic e)"

definition pivot_mark_cache_resident :: "index_entry \<Rightarrow> index_entry" where
  "pivot_mark_cache_resident e = btree_pivot_meta_mark_cache_resident e"

definition pivot_clear_cache_resident :: "index_entry \<Rightarrow> index_entry" where
  "pivot_clear_cache_resident e = btree_pivot_meta_clear_cache_resident e"

definition pivot_ac_set :: "index_entry \<Rightarrow> uint8 \<Rightarrow> index_entry" where
  "pivot_ac_set e count = btree_pivot_meta_ac_set e count"

subsection \<open>Warm and cold\<close>

text \<open>An update of entry \<open>k\<close> in its page, and the loop that resets the counters of a node.\<close>

definition update_pivot :: "index_hdr \<Rightarrow> nat \<Rightarrow> (index_entry \<Rightarrow> index_entry) \<Rightarrow> index_hdr" where
  "update_pivot hdr k f =
     hdr\<lparr>entries := (entries hdr)(offsets hdr ! k := map_option f (entries hdr (offsets hdr ! k)))\<rparr>"

definition reset_pivot_counts :: "index_hdr \<Rightarrow> index_hdr" where
  "reset_pivot_counts hdr =
     fold (\<lambda>j h. update_pivot h j (\<lambda>e. pivot_ac_set e 0)) [0..<btree_num_entries hdr] hdr"

text \<open>
  \<open>ei\<close> is the eviction interval, \<open>init\<close> the page's \<open>entry_time\<close>, \<open>now\<close> and \<open>now2\<close> the two readings
  of the clock. The result: warm or not, the \<open>entry_time\<close>, and the node. The comparison of
  \<open>long double\<close>s is one of natural numbers: every \<open>uint64\<close> is representable, so rounding the
  product cannot cross \<open>t_since_entry\<close>.
\<close>

definition btree_update_ac_and_classify_warm ::
  "uint64 \<Rightarrow> uint64 \<Rightarrow> uint64 \<Rightarrow> uint64 \<Rightarrow> index_hdr \<Rightarrow> nat \<Rightarrow> (bool \<times> uint64 \<times> index_hdr) option" where
  "btree_update_ac_and_classify_warm ei now now2 init hdr k =
     Option.bind (btree_get_index_entry hdr k) (\<lambda>entry.
       let was_cached = pivot_is_cache_resident entry;
           entry1 = (if was_cached then pivot_clear_cache_resident entry else entry);
           put_entry = (\<lambda>e. update_pivot hdr k (\<lambda>_. e))
       in if ei = EI_NOT_READY then Some (True, init, put_entry (pivot_mark_cache_resident entry1))
          else if init = 0 then Some (False, init, put_entry entry1)
          else
            let t_since_entry = unat (now - init);
                ac0 = pivot_ac_load entry1;
                threshold_ac = t_since_entry div unat ei;
                max_ac = (if threshold_ac > 0 then threshold_ac - 1 else 0);
                raise = was_cached \<and> ei > 0 \<and> max_ac > ac0;
                entry2 = (if raise then pivot_ac_set entry1 (word_of_nat (if max_ac > 127 then 127 else max_ac))
                          else entry1);
                ac = (if raise then max_ac else ac0)
            in if ac = 0 then Some (False, init, put_entry (pivot_ac_inc entry2))
               else if ei = 0 then Some (True, init, put_entry entry2)
               else if t_since_entry \<le> unat ei * ac
               then Some (True, init, put_entry (pivot_mark_cache_resident entry2))
               else if ac \<ge> unat PIVOT_AC_SATURATION_THRESHOLD
               then Some (False, now2, reset_pivot_counts (put_entry entry2))
               else Some (False, init, put_entry (pivot_ac_inc entry2)))"

subsection \<open>Lookups\<close>

datatype btree_page = Leaf_page leaf_hdr | Index_page index_hdr

type_synonym btree_memory = "uint64 \<Rightarrow> btree_page option"

fun page_height :: "btree_page \<Rightarrow> nat" where
  "page_height (Leaf_page hdr) = unat (btree_height hdr)"
| "page_height (Index_page hdr) = unat (btree_height hdr)"

definition index_page :: "btree_memory \<Rightarrow> uint64 \<Rightarrow> index_hdr option" where
  "index_page mem addr = (case mem addr of Some (Index_page hdr) \<Rightarrow> Some hdr | _ \<Rightarrow> None)"

definition leaf_page :: "btree_memory \<Rightarrow> uint64 \<Rightarrow> leaf_hdr option" where
  "leaf_page mem addr = (case mem addr of Some (Leaf_page hdr) \<Rightarrow> Some hdr | _ \<Rightarrow> None)"

record lookup_env =
  env_evict_interval :: "nat \<Rightarrow> uint64"
  env_present :: "nat \<Rightarrow> uint64 \<Rightarrow> bool"
  env_now :: "nat \<Rightarrow> uint64 \<times> uint64"
  env_get :: "nat \<Rightarrow> bool \<Rightarrow> (uint64 \<Rightarrow> uint64) \<Rightarrow> uint64 \<Rightarrow> uint64"

text \<open>What a lookup carries along: the pages, their entry times, the ranks, and the gets it made.\<close>

record lookup_state =
  ls_mem :: btree_memory
  ls_times :: "uint64 \<Rightarrow> uint64"
  ls_stats :: "btree_pivot_stats option"
  ls_gets :: "(uint64 \<times> bool) list"

text \<open>The index case of \<open>accumulate_node_ranks(cfg, hdr, 0, to, stats)\<close>.\<close>

fun accumulate_index_ranks :: "index_hdr \<Rightarrow> nat list \<Rightarrow> btree_pivot_stats \<Rightarrow> btree_pivot_stats option" where
  "accumulate_index_ranks hdr [] stats = Some stats"
| "accumulate_index_ranks hdr (i # is) stats =
     Option.bind (btree_get_index_entry hdr i) (\<lambda>e.
       accumulate_index_ranks hdr is (btree_accumulate_pivot_stats stats (ie_stats e)))"

definition accumulate_ranks_opt ::
  "index_hdr \<Rightarrow> nat \<Rightarrow> btree_pivot_stats option \<Rightarrow> btree_pivot_stats option option" where
  "accumulate_ranks_opt hdr to stats =
     (case stats of None \<Rightarrow> Some None
      | Some st \<Rightarrow> map_option Some (accumulate_index_ranks hdr [0..<to] st))"

definition lookup_child_idx :: "btree_config \<Rightarrow> index_hdr \<Rightarrow> key \<Rightarrow> nat option" where
  "lookup_child_idx cfg hdr target =
     map_option (\<lambda>i. if i < 0 then 0 else nat i)
       (if key_is_positive_infinity target then Some (int (btree_num_entries hdr) - 1)
        else map_option fst (btree_find_pivot cfg hdr target))"

text \<open>\<open>btree_node_get\<close>, which goes to \<open>cache_get_with_is_warm\<close>.\<close>

definition lookup_node_get :: "lookup_env \<Rightarrow> nat \<Rightarrow> uint64 \<Rightarrow> bool \<Rightarrow> lookup_state \<Rightarrow> lookup_state" where
  "lookup_node_get env h addr is_warm st =
     st\<lparr>ls_times := env_get env h is_warm (ls_times st), ls_gets := ls_gets st @ [(addr, is_warm)]\<rparr>"

text \<open>The body of the loop of \<open>btree_lookup_node\<close>, at height \<open>h\<close>.\<close>

definition lookup_step ::
  "btree_config \<Rightarrow> lookup_env \<Rightarrow> key \<Rightarrow> nat \<Rightarrow> page_type \<Rightarrow> nat \<Rightarrow> uint64 \<Rightarrow> bool \<Rightarrow> lookup_state
   \<Rightarrow> (uint64 \<times> bool \<times> lookup_state) option" where
  "lookup_step cfg env target stop_at_height ty h addr is_warm st =
     Option.bind (index_page (ls_mem st) addr) (\<lambda>hdr.
     Option.bind (lookup_child_idx cfg hdr target) (\<lambda>child_idx.
     Option.bind (btree_get_index_entry hdr child_idx) (\<lambda>entry.
     Option.bind (accumulate_ranks_opt hdr child_idx (ls_stats st)) (\<lambda>stats.
       let child_addr = index_entry_child_addr entry;
           child_in_cache = (ty = PAGE_TYPE_BRANCH \<and> is_warm \<and> env_present env h child_addr);
           track = (ty = PAGE_TYPE_BRANCH \<and> \<not> child_in_cache \<and> is_warm)
       in Option.bind
            (if track
             then btree_update_ac_and_classify_warm (env_evict_interval env h) (fst (env_now env h))
                    (snd (env_now env h)) (ls_times st addr) hdr child_idx
             else Some (is_warm, ls_times st addr, hdr))
            (\<lambda>(is_warm', time, hdr').
               let st1 = st\<lparr>ls_mem := (ls_mem st)(addr \<mapsto> Index_page hdr'),
                            ls_times := (ls_times st)(addr := time), ls_stats := stats\<rparr>;
                   st2 = lookup_node_get env h child_addr is_warm' st1
               in if \<not> child_in_cache \<and> h - 1 > stop_at_height \<and> ty = PAGE_TYPE_BRANCH
                  then map_option
                         (\<lambda>child. (child_addr, is_warm',
                            st2\<lparr>ls_mem := (ls_mem st2)(child_addr \<mapsto> Index_page (reset_pivot_counts child))\<rparr>))
                         (index_page (ls_mem st2) child_addr)
                  else Some (child_addr, is_warm', st2))))))"

fun lookup_loop ::
  "btree_config \<Rightarrow> lookup_env \<Rightarrow> key \<Rightarrow> nat \<Rightarrow> page_type \<Rightarrow> nat \<Rightarrow> uint64 \<Rightarrow> bool \<Rightarrow> lookup_state
   \<Rightarrow> (uint64 \<times> bool \<times> lookup_state) option" where
  "lookup_loop cfg env target stop_at_height ty 0 addr is_warm st = Some (addr, is_warm, st)"
| "lookup_loop cfg env target stop_at_height ty (Suc h) addr is_warm st =
     (if Suc h > stop_at_height then
        Option.bind (lookup_step cfg env target stop_at_height ty (Suc h) addr is_warm st)
          (\<lambda>(addr', is_warm', st'). lookup_loop cfg env target stop_at_height ty h addr' is_warm' st')
      else Some (addr, is_warm, st))"

definition btree_lookup_node ::
  "btree_config \<Rightarrow> lookup_env \<Rightarrow> uint64 \<Rightarrow> key \<Rightarrow> nat \<Rightarrow> page_type \<Rightarrow> lookup_state
   \<Rightarrow> (uint64 \<times> bool \<times> lookup_state) option" where
  "btree_lookup_node cfg env root_addr target stop_at_height ty st =
     (let zero = \<lparr>num_kvs = 0, key_bytes = 0, message_bytes = 0\<rparr>;
          st0 = st\<lparr>ls_stats := map_option (\<lambda>_. zero) (ls_stats st)\<rparr>
      in Option.bind (ls_mem st root_addr) (\<lambda>root.
           let h = page_height root
           in lookup_loop cfg env target stop_at_height ty h root_addr True
                (lookup_node_get env (h + 1) root_addr True st0)))"

definition btree_lookup_with_ref ::
  "btree_config \<Rightarrow> lookup_env \<Rightarrow> uint64 \<Rightarrow> page_type \<Rightarrow> key \<Rightarrow> lookup_state
   \<Rightarrow> (message option \<times> bool \<times> lookup_state) option" where
  "btree_lookup_with_ref cfg env root_addr ty target st =
     Option.bind (btree_lookup_node cfg env root_addr target 0 ty (st\<lparr>ls_stats := None\<rparr>))
       (\<lambda>(addr, is_warm, st').
          Option.bind (leaf_page (ls_mem st') addr) (\<lambda>hdr.
          Option.bind (btree_find_tuple cfg hdr target) (\<lambda>(idx, found).
            if found
            then map_option (\<lambda>entry. (Some (leaf_entry_message entry), is_warm, st'))
                   (btree_get_leaf_entry hdr (nat idx))
            else Some (None, is_warm, st'))))"

definition btree_lookup ::
  "malloc_fn \<Rightarrow> btree_config \<Rightarrow> lookup_env \<Rightarrow> uint64 \<Rightarrow> page_type \<Rightarrow> key \<Rightarrow> merge_accumulator \<Rightarrow> lookup_state
   \<Rightarrow> (platform_status \<times> merge_accumulator \<times> lookup_state) option" where
  "btree_lookup malloc cfg env root_addr ty target result st =
     Option.bind (btree_lookup_with_ref cfg env root_addr ty target st) (\<lambda>(data, _, st').
       case data of
         None \<Rightarrow> Some (STATUS_OK, result, st')
       | Some msg \<Rightarrow>
           map_option (\<lambda>(success, result'). (if success then STATUS_OK else STATUS_NO_MEMORY, result', st'))
             (merge_accumulator_copy_message malloc result msg))"

definition btree_lookup_and_merge ::
  "malloc_fn \<Rightarrow> btree_config \<Rightarrow> lookup_env \<Rightarrow> uint64 \<Rightarrow> page_type \<Rightarrow> key \<Rightarrow> merge_accumulator \<Rightarrow> lookup_state
   \<Rightarrow> (platform_status \<times> bool \<times> merge_accumulator \<times> lookup_state) option" where
  "btree_lookup_and_merge malloc cfg env root_addr ty target data st =
     Option.bind (btree_lookup_with_ref cfg env root_addr ty target st) (\<lambda>(local_data, _, st').
       case local_data of
         None \<Rightarrow> Some (STATUS_OK, False, data, st')
       | Some msg \<Rightarrow>
           if merge_accumulator_is_null data
           then map_option (\<lambda>(success, data'). (if success then STATUS_OK else STATUS_NO_MEMORY, True, data', st'))
                  (merge_accumulator_copy_message malloc data msg)
           else map_option (\<lambda>(rc, data'). (if rc \<noteq> 0 then STATUS_NO_MEMORY else STATUS_OK, True, data', st'))
                  (btree_merge_tuples malloc cfg target msg data))"

section \<open>The counters leave the address alone\<close>

lemma b0_masks: "(0xFF :: uint64) = mask 8" "(0xFFF :: uint64) = mask 12"
  by (simp_all add: mask_eq_exp_minus_1)

lemma store_b0_child_addr [simp]: "index_entry_child_addr (store_b0 e b) = index_entry_child_addr e"
proof -
  have "\<not> bit b n" if "12 \<le> n" for n
    using that bit_imp_le_length [of b n] by auto
  then show ?thesis
    unfolding index_entry_child_addr_def store_b0_def b0_masks
    by (intro bit_eqI) (auto simp: bit_simps not_less)
qed

lemma load_store_b0 [simp]: "btree_pivot_meta_load (store_b0 e b) = b"
  unfolding btree_pivot_meta_load_def store_b0_def b0_masks
  by (auto intro!: bit_eqI simp: bit_simps dest: bit_imp_le_length)

lemma store_b0_fields [simp]: "ie_pivot (store_b0 e b) = ie_pivot e" "ie_stats (store_b0 e b) = ie_stats e"
  by (simp_all add: store_b0_def)

lemma and_128_127 [simp]:
  "(b AND 128) AND 127 = (0 :: uint8)" "(b AND 127) AND 128 = (0 :: uint8)"
  by (simp_all add: and.assoc)

lemma unat_and_127: "unat (b AND 127 :: uint8) < 128"
proof -
  have "(127 :: uint8) = mask 7" by (simp add: mask_eq_exp_minus_1)
  then have "unat (b AND 127 :: uint8) = take_bit 7 (unat b)"
    by (metis take_bit_eq_mask unsigned_take_bit_eq)
  then show ?thesis using take_bit_nat_less_exp [of 7 "unat b"] by simp
qed

lemma split_meta: "(b :: uint8) = (b AND 128) OR (b AND 127)"
proof -
  have "(b AND 128) OR (b AND 127) = b AND (128 OR 127)" by (simp only: bit.conj_disj_distrib)
  also have "(128 OR 127 :: uint8) = - 1" by simp
  finally show ?thesis by simp
qed

lemma small_and:
  assumes "c \<le> (127 :: uint8)"
  shows "c AND 127 = c" "c AND 128 = 0"
proof -
  have m: "(127 :: uint8) = mask 7" by (simp add: mask_eq_exp_minus_1)
  have "unat c < 2 ^ 7" using assms by (simp add: word_le_nat_alt)
  then have "take_bit 7 c = c"
    by (metis take_bit_nat_eq_self unsigned_take_bit_eq unsigned_word_eqI)
  then show c: "c AND 127 = c" by (simp add: m take_bit_eq_mask)
  show "c AND 128 = 0" using and_128_127(2) [of c] c by simp
qed

lemmas meta_defs = pivot_is_cache_resident_def pivot_ac_load_def pivot_ac_inc_def pivot_mark_cache_resident_def
  pivot_clear_cache_resident_def pivot_ac_set_def btree_pivot_meta_ac_load_def btree_pivot_meta_mark_cache_resident_def
  btree_pivot_meta_clear_cache_resident_def btree_pivot_meta_ac_set_def btree_pivot_meta_ac_inc_atomic_def
  PIVOT_CACHE_RESIDENT_def PIVOT_AC_MASK_def

lemma ac_le: "pivot_ac_load e \<le> 127"
  using unat_and_127 [of "btree_pivot_meta_load e"] by (simp add: meta_defs)

lemma mark_meta:
  "pivot_is_cache_resident (pivot_mark_cache_resident e)"
  "pivot_ac_load (pivot_mark_cache_resident e) = pivot_ac_load e"
  by (simp_all add: meta_defs bit.conj_disj_distrib2)

lemma clear_meta:
  "\<not> pivot_is_cache_resident (pivot_clear_cache_resident e)"
  "pivot_ac_load (pivot_clear_cache_resident e) = pivot_ac_load e"
  by (simp_all add: meta_defs and.assoc)

lemma set_meta:
  "pivot_is_cache_resident (pivot_ac_set e c) = pivot_is_cache_resident e"
  "pivot_ac_load (pivot_ac_set e c) = min (unat c) 127"
proof -
  let ?c = "if c > 127 then 127 else c"
  have c: "?c \<le> (127 :: uint8)" by auto
  show "pivot_is_cache_resident (pivot_ac_set e c) = pivot_is_cache_resident e"
    using small_and [OF c] by (auto simp: meta_defs Let_def bit.conj_disj_distrib2 and.assoc split: if_splits)
  show "pivot_ac_load (pivot_ac_set e c) = min (unat c) 127"
    using small_and [OF c] by (auto simp: meta_defs Let_def bit.conj_disj_distrib2 min_def word_le_nat_alt word_less_nat_alt)
qed

lemma inc_meta:
  "pivot_is_cache_resident (pivot_ac_inc e) = pivot_is_cache_resident e"
  "pivot_ac_load (pivot_ac_inc e) = (if pivot_is_cache_resident e then pivot_ac_load e else min (pivot_ac_load e + 1) 127)"
proof -
  let ?b = "btree_pivot_meta_load e"
  have lt: "unat (?b AND 127) < 128" by (rule unat_and_127)
  have u: "unat ((?b AND 127) + 1) = unat (?b AND 127) + 1"
    using lt by (simp add: unat_word_ariths)
  have small: "(?b AND 127) + 1 \<le> 127" if "\<not> 127 \<le> ?b AND 127"
    using that u by (simp add: word_le_nat_alt)
  have full: "unat (?b AND 127) = 127" if "127 \<le> ?b AND 127"
    using that lt by (simp add: word_le_nat_alt)
  have notfull: "unat (?b AND 127) < 127" if "\<not> 127 \<le> ?b AND 127"
    using that by (simp add: word_le_nat_alt)
  show "pivot_is_cache_resident (pivot_ac_inc e) = pivot_is_cache_resident e"
    using small_and [OF small] by (auto simp: meta_defs Let_def bit.conj_disj_distrib2 and.assoc)
  show "pivot_ac_load (pivot_ac_inc e) = (if pivot_is_cache_resident e then pivot_ac_load e else min (pivot_ac_load e + 1) 127)"
    using small_and [OF small] u full notfull
    by (auto simp: meta_defs Let_def bit.conj_disj_distrib2 min_def)
qed

text \<open>What every operation on the metadata keeps of an entry.\<close>

definition same_pivot :: "index_entry \<Rightarrow> index_entry \<Rightarrow> bool" where
  "same_pivot e e' \<longleftrightarrow> ie_pivot e' = ie_pivot e \<and> ie_stats e' = ie_stats e
     \<and> index_entry_child_addr e' = index_entry_child_addr e"

lemma same_pivot_refl [simp]: "same_pivot e e"
  by (simp add: same_pivot_def)

lemma same_pivot_trans: "same_pivot a b \<Longrightarrow> same_pivot b c \<Longrightarrow> same_pivot a c"
  by (simp add: same_pivot_def)

lemma same_pivot_store [simp]: "same_pivot e (store_b0 e b)"
  by (simp add: same_pivot_def)

lemma same_pivot_ops:
  "same_pivot e (pivot_mark_cache_resident e)" "same_pivot e (pivot_clear_cache_resident e)"
  "same_pivot e (pivot_ac_set e c)" "same_pivot e (pivot_ac_inc e)"
  by (simp_all add: meta_defs Let_def)

lemma same_pivot_facts:
  assumes "same_pivot e e'"
  shows "index_ok e' = index_ok e" "sizeof_index_entry e' = sizeof_index_entry e"
    "plain_pivot (pivot_view e') = plain_pivot (pivot_view e)" "index_entry_key e' = index_entry_key e"
  using assms by (simp_all add: same_pivot_def index_ok_def sizeof_index_entry_def pivot_view_def index_entry_key_def
      index_entry_child_addr_def)

definition same_node :: "btree_config \<Rightarrow> index_hdr \<Rightarrow> index_hdr \<Rightarrow> bool" where
  "same_node cfg hdr hdr' \<longleftrightarrow> index_layout cfg hdr' \<and> links hdr' = links hdr
     \<and> map plain_pivot (index_contents hdr') = map plain_pivot (index_contents hdr)"

lemma same_node_trans: "same_node cfg a b \<Longrightarrow> same_node cfg b c \<Longrightarrow> same_node cfg a c"
  by (simp add: same_node_def)

lemma same_node_num: "same_node cfg a b \<Longrightarrow> btree_num_entries b = btree_num_entries a"
  unfolding same_node_def by (metis length_index_contents length_map)

lemma update_pivot_ok:
  assumes l: "index_layout cfg hdr" and k: "k < btree_num_entries hdr" and f: "same_pivot (node_entries hdr ! k) (f (node_entries hdr ! k))"
  shows "same_node cfg hdr (update_pivot hdr k f)
    \<and> node_entries (update_pivot hdr k f) = (node_entries hdr)[k := f (node_entries hdr ! k)]"
proof -
  let ?e = "node_entries hdr ! k"
  have k': "k < length (offsets hdr)" using k by (simp add: btree_num_entries_def)
  note sf = same_pivot_facts [OF f]
  have g: "entries hdr (offsets hdr ! k) = Some ?e" "index_ok ?e"
    using index.layout_get [OF l k'] k' by (auto simp: get_entry_def btree_num_entries_def)
  have u: "update_pivot hdr k f = hdr\<lparr>entries := (entries hdr)(offsets hdr ! k \<mapsto> f ?e)\<rparr>"
    by (simp add: update_pivot_def g)
  have r: "index_layout cfg (update_pivot hdr k f) \<and> node_entries (update_pivot hdr k f) = (node_entries hdr)[k := f ?e]"
    unfolding u by (rule index.replace_layout [OF l k']) (simp_all add: sf g)
  moreover have "map plain_pivot (index_contents (update_pivot hdr k f)) = map plain_pivot (index_contents hdr)"
    using r sf(3) k' by (simp add: index_contents_def map_update list_update_same_conv)
  ultimately show ?thesis by (simp add: same_node_def u links_def)
qed

lemma reset_pivot_counts_ok:
  assumes l: "index_layout cfg hdr"
  shows "same_node cfg hdr (reset_pivot_counts hdr)
    \<and> (\<forall>j<btree_num_entries hdr. pivot_ac_load (node_entries (reset_pivot_counts hdr) ! j) = 0
         \<and> pivot_is_cache_resident (node_entries (reset_pivot_counts hdr) ! j) = pivot_is_cache_resident (node_entries hdr ! j))"
proof -
  let ?step = "\<lambda>j h. update_pivot h j (\<lambda>e. pivot_ac_set e 0)"
  have "n \<le> btree_num_entries hdr \<Longrightarrow> same_node cfg hdr (fold ?step [0..<n] hdr)
      \<and> node_entries (fold ?step [0..<n] hdr) = map (\<lambda>e. pivot_ac_set e 0) (take n (node_entries hdr)) @ drop n (node_entries hdr)" for n
  proof (induction n)
    case 0
    then show ?case using l by (simp add: same_node_def)
  next
    case (Suc n)
    let ?h = "fold ?step [0..<n] hdr"
    have h: "same_node cfg hdr ?h"
      "node_entries ?h = map (\<lambda>e. pivot_ac_set e 0) (take n (node_entries hdr)) @ drop n (node_entries hdr)"
      using Suc by simp_all
    have n: "n < btree_num_entries ?h" "n < length (node_entries hdr)"
      using same_node_num [OF h(1)] Suc.prems by (simp_all add: btree_num_entries_def)
    have e: "node_entries ?h ! n = node_entries hdr ! n" using h(2) n(2) by (simp add: nth_append)
    have u: "same_node cfg ?h (?step n ?h)" "node_entries (?step n ?h) = (node_entries ?h)[n := pivot_ac_set (node_entries ?h ! n) 0]"
      using update_pivot_ok [OF _ n(1), of cfg "\<lambda>e. pivot_ac_set e 0"] h(1) same_pivot_ops(3) by (auto simp: same_node_def)
    have "node_entries (?step n ?h)
        = map (\<lambda>e. pivot_ac_set e 0) (take (Suc n) (node_entries hdr)) @ drop (Suc n) (node_entries hdr)"
      using n(2) unfolding u(2) e by (simp add: h(2) list_update_append take_Suc_conv_app_nth Cons_nth_drop_Suc [symmetric])
    then show ?case using same_node_trans [OF h(1) u(1)] by simp
  qed
  from this [of "btree_num_entries hdr"] show ?thesis
    by (auto simp: reset_pivot_counts_def btree_num_entries_def set_meta)
qed

section \<open>The classification\<close>

text \<open>The access count the test uses: a page that was cached since is credited with up to one less than \<open>t / EI\<close>.\<close>

definition effective_ac :: "index_entry \<Rightarrow> nat \<Rightarrow> nat \<Rightarrow> nat" where
  "effective_ac e t ei = (if pivot_is_cache_resident e then max (pivot_ac_load e) (t div ei - 1) else pivot_ac_load e)"

lemma classify_ok:
  fixes ei now now2 init :: uint64
  assumes l: "index_layout cfg hdr" and k: "k < btree_num_entries hdr"
  defines "e \<equiv> node_entries hdr ! k" and "t \<equiv> unat (now - init)"
  defines "ac \<equiv> effective_ac e t (unat ei)"
  shows "\<exists>warm time hdr'. btree_update_ac_and_classify_warm ei now now2 init hdr k = Some (warm, time, hdr')
    \<and> same_node cfg hdr hdr'
    \<and> warm = (ei = EI_NOT_READY \<or> init \<noteq> 0 \<and> ac \<noteq> 0 \<and> t \<le> unat ei * ac)
    \<and> time = (if ei \<noteq> EI_NOT_READY \<and> init \<noteq> 0 \<and> unat ei * ac < t \<and> 127 \<le> ac then now2 else init)
    \<and> (warm \<longrightarrow> pivot_is_cache_resident (node_entries hdr' ! k))
    \<and> (\<not> warm \<longrightarrow> \<not> pivot_is_cache_resident (node_entries hdr' ! k))"
proof -
  have g: "btree_get_index_entry hdr k = Some e" using get_index_ok(1) [OF l k] by (simp add: e_def)
  have len: "k < length (node_entries hdr)" using k by (simp add: btree_num_entries_def)
  have up: "same_node cfg hdr (update_pivot hdr k (\<lambda>_. x)) \<and> node_entries (update_pivot hdr k (\<lambda>_. x)) ! k = x"
    if "same_pivot e x" for x
    using update_pivot_ok [OF l k, of "\<lambda>_. x"] that len by (simp add: e_def)
  have rs: "same_node cfg hdr (reset_pivot_counts (update_pivot hdr k (\<lambda>_. x)))
      \<and> pivot_is_cache_resident (node_entries (reset_pivot_counts (update_pivot hdr k (\<lambda>_. x))) ! k) = pivot_is_cache_resident x"
    if "same_pivot e x" for x
  proof -
    note u = up [OF that]
    have "k < btree_num_entries (update_pivot hdr k (\<lambda>_. x))" using same_node_num u k by metis
    moreover have "index_layout cfg (update_pivot hdr k (\<lambda>_. x))" using u by (simp add: same_node_def)
    ultimately show ?thesis
      using u reset_pivot_counts_ok [of cfg "update_pivot hdr k (\<lambda>_. x)"] same_node_trans [of cfg hdr] by auto
  qed
  define e1 where "e1 = (if pivot_is_cache_resident e then pivot_clear_cache_resident e else e)"
  have e1: "same_pivot e e1" "\<not> pivot_is_cache_resident e1" "pivot_ac_load e1 = pivot_ac_load e"
    by (simp_all add: e1_def same_pivot_ops clear_meta)
  define raise where "raise \<longleftrightarrow> pivot_is_cache_resident e \<and> t div unat ei - 1 > pivot_ac_load e"
  define e2 where "e2 = (if raise then pivot_ac_set e1 (word_of_nat (if t div unat ei - 1 > 127 then 127 else t div unat ei - 1)) else e1)"
  have e2: "same_pivot e e2" "\<not> pivot_is_cache_resident e2"
    using same_pivot_trans [OF e1(1) same_pivot_ops(3)] e1 by (simp_all add: e2_def set_meta)
  have ac: "ac = (if raise then t div unat ei - 1 else pivot_ac_load e)"
    by (auto simp: ac_def effective_ac_def raise_def max_def)
  have max_ac: "(if 0 < t div unat ei then t div unat ei - 1 else 0) = t div unat ei - 1" by simp
  have res: "btree_update_ac_and_classify_warm ei now now2 init hdr k =
     (if ei = EI_NOT_READY then Some (True, init, update_pivot hdr k (\<lambda>_. pivot_mark_cache_resident e1))
      else if init = 0 then Some (False, init, update_pivot hdr k (\<lambda>_. e1))
      else if ac = 0 then Some (False, init, update_pivot hdr k (\<lambda>_. pivot_ac_inc e2))
      else if t \<le> unat ei * ac then Some (True, init, update_pivot hdr k (\<lambda>_. pivot_mark_cache_resident e2))
      else if ac \<ge> 127 then Some (False, now2, reset_pivot_counts (update_pivot hdr k (\<lambda>_. e2)))
      else Some (False, init, update_pivot hdr k (\<lambda>_. pivot_ac_inc e2)))"
  proof (cases "ei = EI_NOT_READY")
    case True
    then show ?thesis by (simp add: btree_update_ac_and_classify_warm_def g e1_def [symmetric])
  next
    case False
    then have ei: "ei > 0" "ei \<noteq> 0" by (simp_all add: EI_NOT_READY_def word_neq_0_conv)
    have rz: "(pivot_is_cache_resident e \<and> ei > 0 \<and> t div unat ei - 1 > pivot_ac_load e1) = raise"
      using ei by (simp add: raise_def e1(3))
    have th: "unat PIVOT_AC_SATURATION_THRESHOLD = 127"
      by (simp add: PIVOT_AC_SATURATION_THRESHOLD_def PIVOT_AC_MASK_def)
    have ac': "(if raise then t div unat ei - 1 else pivot_ac_load e1) = ac" by (simp add: ac e1(3))
    show ?thesis
      unfolding btree_update_ac_and_classify_warm_def g Option.bind.simps Let_def e1_def [symmetric] t_def [symmetric]
        max_ac rz th ac' e2_def [symmetric]
      using ei(2) by simp
  qed
  have s: "same_pivot e (pivot_mark_cache_resident e1)" "same_pivot e (pivot_mark_cache_resident e2)" "same_pivot e (pivot_ac_inc e2)"
    using same_pivot_trans e1(1) e2(1) same_pivot_ops by blast+
  show ?thesis
    unfolding res using up [OF s(1)] up [OF s(2)] up [OF s(3)] up [OF e1(1)] rs [OF e2(1)] e1(2) e2(2)
    by (auto simp: mark_meta inc_meta)
qed

text \<open>
  C13: Once the eviction interval is known and the node has an entry time, a pivot is classified warm
  exactly if its effective access count, raised to the count a resident child had earned, is not zero and
  the time since entry is at most the interval times the count.
\<close>

theorem btree_classify_warm_iff:
  assumes "index_layout cfg hdr" "k < btree_num_entries hdr" "ei \<noteq> EI_NOT_READY" "init \<noteq> 0"
    and "btree_update_ac_and_classify_warm ei now now2 init hdr k = Some (warm, time, hdr')"
  shows "warm \<longleftrightarrow> effective_ac (node_entries hdr ! k) (unat (now - init)) (unat ei) \<noteq> 0
      \<and> unat (now - init) \<le> unat ei * effective_ac (node_entries hdr ! k) (unat (now - init)) (unat ei)"
  using classify_ok [OF assms(1,2), of ei now now2 init] assms(3-5) by auto

text \<open>The credit never makes a page warm by itself.\<close>

lemma compensation_cold:
  assumes "pivot_ac_load e < t div ei - 1" "pivot_is_cache_resident e" "0 < ei"
  shows "\<not> t \<le> ei * effective_ac e t ei"
proof -
  have "effective_ac e t ei = t div ei - 1" using assms by (simp add: effective_ac_def)
  moreover have "ei * (t div ei - 1) + ei \<le> t"
    using assms(1,3) mult_div_mod_eq [of ei t] by (simp add: diff_mult_distrib2 le_diff_conv2)
  ultimately show ?thesis using assms(3) by simp
qed

section \<open>Trees in memory\<close>

definition pivot_keys :: "index_hdr \<Rightarrow> key list" where
  "pivot_keys hdr = map fst (index_contents hdr)"

definition pivot_children :: "index_hdr \<Rightarrow> uint64 list" where
  "pivot_children hdr = map (\<lambda>p. fst (snd (plain_pivot p))) (index_contents hdr)"

lemma length_pivots [simp]:
  "length (pivot_keys hdr) = btree_num_entries hdr" "length (pivot_children hdr) = btree_num_entries hdr"
  by (simp_all add: pivot_keys_def pivot_children_def)

lemma pivots_plain:
  "pivot_keys hdr = map fst (map plain_pivot (index_contents hdr))"
  "pivot_children hdr = map (\<lambda>p. fst (snd p)) (map plain_pivot (index_contents hdr))"
  by (auto simp: pivot_keys_def pivot_children_def)

lemma same_node_pivots:
  "same_node cfg a b \<Longrightarrow> pivot_keys b = pivot_keys a \<and> pivot_children b = pivot_children a
     \<and> btree_num_entries b = btree_num_entries a \<and> index_layout cfg b \<and> btree_height b = btree_height a"
  using same_node_num [of cfg a b]
  by (simp only: pivots_plain same_node_def) (simp add: links_def btree_height_def)

lemma get_pivot_ok:
  assumes "index_layout cfg hdr" "k < btree_num_entries hdr"
  shows "btree_get_pivot hdr k = Some (pivot_keys hdr ! k)"
    "map_option index_entry_child_addr (btree_get_index_entry hdr k) = Some (pivot_children hdr ! k)"
  using get_index_ok [OF assms] assms(2)
  by (simp_all add: btree_get_pivot_def pivot_keys_def pivot_children_def pivot_view_def index_entry_child_addr_def)

text \<open>Bounds of a subtree; \<open>None\<close> is no bound.\<close>

definition within :: "btree_config \<Rightarrow> key option \<Rightarrow> key option \<Rightarrow> key \<Rightarrow> bool" where
  "within cfg lo hi k \<longleftrightarrow> (case lo of None \<Rightarrow> True | Some l \<Rightarrow> btree_key_compare cfg l k \<le> 0)
     \<and> (case hi of None \<Rightarrow> True | Some u \<Rightarrow> btree_key_compare cfg k u < 0)"

definition child_lo :: "key list \<Rightarrow> key option \<Rightarrow> nat \<Rightarrow> key option" where
  "child_lo ps lo i = (if i = 0 then lo else Some (ps ! i))"

definition child_hi :: "key list \<Rightarrow> key option \<Rightarrow> nat \<Rightarrow> key option" where
  "child_hi ps hi i = (if Suc i < length ps then Some (ps ! Suc i) else hi)"

text \<open>
  \<open>tree_ok\<close>: the pages below \<open>addr\<close> form a B-tree of height \<open>h\<close> whose keys lie between the
  bounds. The first pivot of a node bounds nothing: a key below it goes to the first child.
\<close>

fun tree_ok :: "btree_config \<Rightarrow> (slice \<Rightarrow> bool) \<Rightarrow> btree_memory \<Rightarrow> nat \<Rightarrow> uint64 \<Rightarrow> key option \<Rightarrow> key option \<Rightarrow> bool" where
  "tree_ok cfg udom mem 0 addr lo hi =
     (\<exists>hdr. mem addr = Some (Leaf_page hdr) \<and> leaf_layout cfg hdr \<and> leaf_sorted cfg udom hdr \<and> btree_height hdr = 0
        \<and> (\<forall>k\<in>set (leaf_keys hdr). within cfg lo hi k))"
| "tree_ok cfg udom mem (Suc h) addr lo hi =
     (\<exists>hdr. mem addr = Some (Index_page hdr) \<and> index_layout cfg hdr \<and> unat (btree_height hdr) = Suc h
        \<and> 0 < btree_num_entries hdr
        \<and> increasing (key_dom udom) (btree_key_compare cfg) (pivot_keys hdr)
        \<and> (\<forall>i<btree_num_entries hdr. 0 < i \<longrightarrow> within cfg lo hi (pivot_keys hdr ! i))
        \<and> (\<forall>i<btree_num_entries hdr. tree_ok cfg udom mem h (pivot_children hdr ! i)
              (child_lo (pivot_keys hdr) lo i) (child_hi (pivot_keys hdr) hi i)))"

fun tree_contents :: "btree_memory \<Rightarrow> nat \<Rightarrow> uint64 \<Rightarrow> tuple list" where
  "tree_contents mem 0 addr = (case mem addr of Some (Leaf_page hdr) \<Rightarrow> leaf_contents hdr | _ \<Rightarrow> [])"
| "tree_contents mem (Suc h) addr =
     (case mem addr of Some (Index_page hdr) \<Rightarrow> concat (map (tree_contents mem h) (pivot_children hdr)) | _ \<Rightarrow> [])"

text \<open>Memories that differ in pivot metadata only.\<close>

fun same_page :: "btree_config \<Rightarrow> btree_page \<Rightarrow> btree_page \<Rightarrow> bool" where
  "same_page cfg (Leaf_page a) (Leaf_page b) = (a = b)"
| "same_page cfg (Index_page a) (Index_page b) = (a = b \<or> same_node cfg a b)"
| "same_page cfg _ _ = False"

definition same_mem :: "btree_config \<Rightarrow> btree_memory \<Rightarrow> btree_memory \<Rightarrow> bool" where
  "same_mem cfg mem mem' \<longleftrightarrow> (\<forall>addr. rel_option (same_page cfg) (mem addr) (mem' addr))"

lemma same_page_refl [simp]: "same_page cfg p p"
  by (cases p) simp_all

lemma same_page_trans: "same_page cfg a b \<Longrightarrow> same_page cfg b c \<Longrightarrow> same_page cfg a c"
  by (cases a; cases b; cases c) (auto intro: same_node_trans)

lemma same_mem_refl [simp]: "same_mem cfg mem mem"
  by (simp add: same_mem_def option.rel_refl)

lemma same_mem_trans: "same_mem cfg a b \<Longrightarrow> same_mem cfg b c \<Longrightarrow> same_mem cfg a c"
  unfolding same_mem_def
proof
  fix addr
  assume "\<forall>addr. rel_option (same_page cfg) (a addr) (b addr)" "\<forall>addr. rel_option (same_page cfg) (b addr) (c addr)"
  then have "rel_option (same_page cfg) (a addr) (b addr)" "rel_option (same_page cfg) (b addr) (c addr)" by auto
  then show "rel_option (same_page cfg) (a addr) (c addr)"
    by (cases "a addr"; cases "b addr"; cases "c addr") (auto intro: same_page_trans)
qed

lemma same_mem_update:
  assumes "mem addr = Some (Index_page hdr)" "same_node cfg hdr hdr'"
  shows "same_mem cfg mem (mem(addr \<mapsto> Index_page hdr'))"
  using assms by (auto simp: same_mem_def option.rel_refl)

lemma same_mem_leaf: "same_mem cfg mem mem' \<Longrightarrow> mem addr = Some (Leaf_page hdr) \<Longrightarrow> mem' addr = Some (Leaf_page hdr)"
  unfolding same_mem_def
  by (drule spec [of _ addr]) (auto simp: rel_option_iff elim!: same_page.elims split: option.splits)

lemma same_mem_index:
  assumes "same_mem cfg mem mem'" "mem addr = Some (Index_page hdr)"
  obtains hdr' where "mem' addr = Some (Index_page hdr')" "hdr' = hdr \<or> same_node cfg hdr hdr'"
proof -
  have "rel_option (same_page cfg) (Some (Index_page hdr)) (mem' addr)"
    using assms unfolding same_mem_def by metis
  then show ?thesis
    using that by (cases "mem' addr") (auto elim!: same_page.elims)
qed

lemma same_mem_tree:
  assumes "same_mem cfg mem mem'"
  shows "tree_ok cfg udom mem h addr lo hi \<Longrightarrow>
    tree_ok cfg udom mem' h addr lo hi \<and> tree_contents mem' h addr = tree_contents mem h addr"
proof (induction h arbitrary: addr lo hi)
  case 0
  then show ?case using same_mem_leaf [OF assms] by fastforce
next
  case (Suc h)
  then obtain hdr where h: "mem addr = Some (Index_page hdr)" "index_layout cfg hdr" "unat (btree_height hdr) = Suc h"
    "0 < btree_num_entries hdr" "increasing (key_dom udom) (btree_key_compare cfg) (pivot_keys hdr)"
    "\<forall>i<btree_num_entries hdr. 0 < i \<longrightarrow> within cfg lo hi (pivot_keys hdr ! i)"
    "\<And>i. i < btree_num_entries hdr \<Longrightarrow> tree_ok cfg udom mem h (pivot_children hdr ! i)
        (child_lo (pivot_keys hdr) lo i) (child_hi (pivot_keys hdr) hi i)"
    by auto
  obtain hdr' where h': "mem' addr = Some (Index_page hdr')" "hdr' = hdr \<or> same_node cfg hdr hdr'"
    using same_mem_index [OF assms h(1)] by blast
  have eq: "pivot_keys hdr' = pivot_keys hdr" "pivot_children hdr' = pivot_children hdr"
    "btree_num_entries hdr' = btree_num_entries hdr" "index_layout cfg hdr'" "btree_height hdr' = btree_height hdr"
    using h'(2) h(2) same_node_pivots by blast+
  have "map (tree_contents mem' h) (pivot_children hdr) = map (tree_contents mem h) (pivot_children hdr)"
    using Suc.IH [OF h(7)] by (auto simp: list_eq_iff_nth_eq)
  then have "tree_contents mem' (Suc h) addr = tree_contents mem (Suc h) addr"
    using h(1) h'(1) eq(2) by (simp only: tree_contents.simps option.case btree_page.case)
  then show ?case
    using h h' eq Suc.IH [OF h(7)] by (simp add: eq del: tree_contents.simps)
qed

lemma map_of_concat_unique:
  "i < length xss \<Longrightarrow> (\<And>j. j < length xss \<Longrightarrow> j \<noteq> i \<Longrightarrow> t \<notin> fst ` set (xss ! j))
    \<Longrightarrow> map_of (concat xss) t = map_of (xss ! i) t"
proof (induction xss arbitrary: i)
  case (Cons xs xss)
  show ?case
  proof (cases i)
    case 0
    have "t \<notin> fst ` set (concat xss)"
      using Cons.prems(2) [of "Suc _"] 0 by (force simp: in_set_conv_nth)
    then have "map_of (concat xss) t = None" by (simp add: map_of_eq_None_iff)
    then show ?thesis by (simp add: 0 map_add_def split: option.splits)
  next
    case (Suc k)
    have "map_of (concat xss) t = map_of (xss ! k) t"
      using Cons.IH [of k] Cons.prems Suc by fastforce
    moreover have "map_of xs t = None"
      using Cons.prems(2) [of 0] Suc by (simp add: map_of_eq_None_iff)
    ultimately show ?thesis by (simp add: Suc map_add_def split: option.splits)
  qed
qed simp

definition bounds_dom :: "(slice \<Rightarrow> bool) \<Rightarrow> key option \<Rightarrow> key option \<Rightarrow> bool" where
  "bounds_dom udom lo hi \<longleftrightarrow> (\<forall>k. lo = Some k \<or> hi = Some k \<longrightarrow> key_dom udom k)"

lemma child_bounds_dom:
  "bounds_dom udom lo hi \<Longrightarrow> \<forall>k\<in>set ps. key_dom udom k \<Longrightarrow> i < length ps
    \<Longrightarrow> bounds_dom udom (child_lo ps lo i) (child_hi ps hi i)"
  by (auto simp: bounds_dom_def child_lo_def child_hi_def)

context total_compare
begin

lemma cmp_less_le_trans: "dom a \<Longrightarrow> dom b \<Longrightarrow> dom c \<Longrightarrow> cmp a b < 0 \<Longrightarrow> cmp b c \<le> 0 \<Longrightarrow> cmp a c < 0"
  by (metis cmp_eq cmp_trans order_le_less)

lemma cmp_le_trans: "dom a \<Longrightarrow> dom b \<Longrightarrow> dom c \<Longrightarrow> cmp a b \<le> 0 \<Longrightarrow> cmp b c \<le> 0 \<Longrightarrow> cmp a c \<le> 0"
  by (metis cmp_eq cmp_trans order_le_less)

lemma cmp_less_irrefl: "dom a \<Longrightarrow> \<not> cmp a a < 0"
  by (simp add: cmp_refl)

end

lemma within_child:
  assumes o: "user_key_order (bc_data_cfg cfg) udom" and d: "bounds_dom udom lo hi" "\<forall>k\<in>set ps. key_dom udom k" "key_dom udom k"
    and i: "i < length ps" and p: "\<forall>i<length ps. 0 < i \<longrightarrow> within cfg lo hi (ps ! i)"
    and w: "within cfg (child_lo ps lo i) (child_hi ps hi i) k"
  shows "within cfg lo hi k"
proof -
  note tc = user_key_order.key_total [OF o, folded btree_key_compare_eq]
  have "btree_key_compare cfg l k \<le> 0" if "lo = Some l" for l
  proof (cases "i = 0")
    case False
    then have "btree_key_compare cfg l (ps ! i) \<le> 0" "btree_key_compare cfg (ps ! i) k \<le> 0"
      using p i w that by (auto simp: within_def child_lo_def)
    moreover have "key_dom udom l" "key_dom udom (ps ! i)" using d i that by (auto simp: bounds_dom_def)
    ultimately show ?thesis
      using total_compare.cmp_le_trans [OF tc] d(3) by blast
  qed (use w that in \<open>simp add: within_def child_lo_def\<close>)
  moreover have "btree_key_compare cfg k u < 0" if "hi = Some u" for u
  proof (cases "Suc i < length ps")
    case True
    then have "btree_key_compare cfg k (ps ! Suc i) < 0" "btree_key_compare cfg (ps ! Suc i) u < 0"
      using p w that by (auto simp: within_def child_hi_def)
    moreover have "key_dom udom u" "key_dom udom (ps ! Suc i)" using d True that by (auto simp: bounds_dom_def)
    ultimately show ?thesis
      using total_compare.cmp_trans [OF tc] d(3) by blast
  qed (use w that in \<open>simp add: within_def child_hi_def\<close>)
  ultimately show ?thesis by (simp add: within_def split: option.splits)
qed

lemma tree_keys_within:
  assumes o: "user_key_order (bc_data_cfg cfg) udom"
  shows "tree_ok cfg udom mem h addr lo hi \<Longrightarrow> bounds_dom udom lo hi
    \<Longrightarrow> k \<in> fst ` set (tree_contents mem h addr) \<Longrightarrow> within cfg lo hi k \<and> key_dom udom k"
proof (induction h arbitrary: addr lo hi)
  case 0
  then show ?case by (auto simp: leaf_keys_def leaf_sorted_def increasing_def)
next
  case (Suc h)
  from Suc.prems(1) obtain hdr where h: "mem addr = Some (Index_page hdr)"
    "\<forall>k\<in>set (pivot_keys hdr). key_dom udom k"
    "\<forall>i<btree_num_entries hdr. 0 < i \<longrightarrow> within cfg lo hi (pivot_keys hdr ! i)"
    "\<And>i. i < btree_num_entries hdr \<Longrightarrow> tree_ok cfg udom mem h (pivot_children hdr ! i)
        (child_lo (pivot_keys hdr) lo i) (child_hi (pivot_keys hdr) hi i)"
    by (auto simp: increasing_def)
  obtain c where "c \<in> set (pivot_children hdr)" "k \<in> fst ` set (tree_contents mem h c)"
    using Suc.prems(3) h(1) by auto
  then obtain i where i: "i < btree_num_entries hdr" "k \<in> fst ` set (tree_contents mem h (pivot_children hdr ! i))"
    by (auto simp: in_set_conv_nth)
  have "bounds_dom udom (child_lo (pivot_keys hdr) lo i) (child_hi (pivot_keys hdr) hi i)"
    using child_bounds_dom [OF Suc.prems(2) h(2)] i(1) by simp
  from Suc.IH [OF h(4) [OF i(1)] this i(2)] show ?case
    using within_child [OF o Suc.prems(2) h(2)] h(3) i(1) by simp
qed

text \<open>The child a search descends to: its bounds hold the target, and no other child has it.\<close>

lemma find_pivot_search:
  assumes "user_key_order (bc_data_cfg cfg) udom" "index_layout cfg hdr"
    and "increasing (key_dom udom) (btree_key_compare cfg) (pivot_keys hdr)" "key_dom udom target"
  shows "\<exists>r. btree_find_pivot cfg hdr target = Some r
    \<and> search_result (\<lambda>j. btree_key_compare cfg (pivot_keys hdr ! j) target) (btree_num_entries hdr) r"
proof -
  note tc = user_key_order.key_total [OF assms(1), folded btree_key_compare_eq]
  show ?thesis
    using total_compare.search_increasing [OF tc assms(3,4),
        of "\<lambda>mid. map_option (\<lambda>k. btree_key_compare cfg k target) (btree_get_pivot hdr mid)"]
      get_pivot_ok(1) [OF assms(2)]
    by (simp add: btree_find_pivot_def)
qed

lemma lookup_child_ok:
  assumes o: "user_key_order (bc_data_cfg cfg) udom" and l: "index_layout cfg hdr" and n: "0 < btree_num_entries hdr"
    and inc: "increasing (key_dom udom) (btree_key_compare cfg) (pivot_keys hdr)"
    and t: "key_dom udom target" "within cfg lo hi target"
  shows "\<exists>i. lookup_child_idx cfg hdr target = Some i \<and> i < btree_num_entries hdr
    \<and> within cfg (child_lo (pivot_keys hdr) lo i) (child_hi (pivot_keys hdr) hi i) target"
proof (cases "key_is_positive_infinity target")
  case inf: True
  let ?k = "btree_num_entries hdr - 1"
  have "btree_key_compare cfg p target \<le> 0" for p
    using inf by (cases "kind p") (simp_all add: btree_key_compare_eq data_key_compare_def key_is_positive_infinity_def key_is_user_key_def)
  then have "within cfg (child_lo (pivot_keys hdr) lo ?k) (child_hi (pivot_keys hdr) hi ?k) target"
    using t(2) n by (auto simp: within_def child_lo_def child_hi_def)
  moreover have "lookup_child_idx cfg hdr target = Some ?k" using inf n by (simp add: lookup_child_idx_def nat_diff_distrib)
  ultimately show ?thesis using n by auto
next
  case fin: False
  note tc = user_key_order.key_total [OF o, folded btree_key_compare_eq]
  obtain i f where r: "btree_find_pivot cfg hdr target = Some (i, f)"
    "search_result (\<lambda>j. btree_key_compare cfg (pivot_keys hdr ! j) target) (btree_num_entries hdr) (i, f)"
    using find_pivot_search [OF o l inc t(1)] by auto
  have i: "- 1 \<le> i" "i < int (btree_num_entries hdr)"
    "\<And>j. j < btree_num_entries hdr \<Longrightarrow> int j \<le> i \<longleftrightarrow> btree_key_compare cfg (pivot_keys hdr ! j) target \<le> 0"
    using r(2) by (auto simp: search_result_def)
  define k where "k = (if i < 0 then 0 else nat i)"
  have k: "k < btree_num_entries hdr" using i(2) n by (auto simp: k_def)
  have "btree_key_compare cfg (pivot_keys hdr ! k) target \<le> 0" if "0 < k"
    using i(3) [OF k] that by (auto simp: k_def split: if_splits)
  moreover have "btree_key_compare cfg target (pivot_keys hdr ! Suc k) < 0" if "Suc k < btree_num_entries hdr"
  proof -
    have "\<not> btree_key_compare cfg (pivot_keys hdr ! Suc k) target \<le> 0"
      using i(3) [OF that] i(1) by (auto simp: k_def split: if_splits)
    moreover have "key_dom udom (pivot_keys hdr ! Suc k)" using inc that by (simp add: increasing_def)
    ultimately show ?thesis using total_compare.cmp_sym [OF tc t(1), of "pivot_keys hdr ! Suc k"] by simp
  qed
  ultimately have "within cfg (child_lo (pivot_keys hdr) lo k) (child_hi (pivot_keys hdr) hi k) target"
    using t(2) by (auto simp: within_def child_lo_def child_hi_def)
  moreover have "lookup_child_idx cfg hdr target = Some k"
    using r(1) fin by (simp add: lookup_child_idx_def k_def)
  ultimately show ?thesis using k by auto
qed

lemma other_child_bounds:
  assumes o: "user_key_order (bc_data_cfg cfg) udom" and inc: "increasing (key_dom udom) (btree_key_compare cfg) ps"
    and t: "key_dom udom t" and ij: "i < length ps" "j < length ps" "j \<noteq> i"
    and w: "within cfg (child_lo ps lo i) (child_hi ps hi i) t" "within cfg (child_lo ps lo j) (child_hi ps hi j) t"
  shows False
proof -
  note tc = user_key_order.key_total [OF o, folded btree_key_compare_eq]
  have aux: False if ab: "a < b" "b < length ps" and w: "within cfg (child_lo ps lo a) (child_hi ps hi a) t"
      "within cfg (child_lo ps lo b) (child_hi ps hi b) t" for a b
  proof -
    have d: "key_dom udom (ps ! Suc a)" "key_dom udom (ps ! b)" using inc ab by (auto simp: increasing_def)
    have "btree_key_compare cfg t (ps ! Suc a) < 0" "btree_key_compare cfg (ps ! b) t \<le> 0"
      using ab w by (auto simp: within_def child_lo_def child_hi_def)
    moreover have "btree_key_compare cfg (ps ! Suc a) (ps ! b) \<le> 0"
    proof (cases "Suc a = b")
      case True
      then show ?thesis using total_compare.cmp_refl [OF tc d(2)] by simp
    next
      case False
      then show ?thesis using inc ab by (auto simp: increasing_def sorted_wrt_iff_nth_less intro: less_imp_le)
    qed
    ultimately have "btree_key_compare cfg t t < 0"
      using total_compare.cmp_less_le_trans [OF tc t d(1)] total_compare.cmp_le_trans [OF tc d(1,2) t] t by blast
    then show False using total_compare.cmp_less_irrefl [OF tc t] by simp
  qed
  show False using aux [of i j] aux [of j i] ij w by (metis nat_neq_iff)
qed

section \<open>Lookups find what the tree holds\<close>

lemma accumulate_ok:
  assumes "index_layout cfg hdr" "to \<le> btree_num_entries hdr"
  shows "\<exists>s. accumulate_ranks_opt hdr to stats = Some s"
proof -
  have "\<forall>i\<in>set js. i < btree_num_entries hdr \<Longrightarrow> \<exists>s. accumulate_index_ranks hdr js st = Some s" for js st
    by (induction js arbitrary: st) (auto simp: get_index_ok [OF assms(1)])
  from this [of "[0..<to]"] assms(2) show ?thesis
    by (cases stats) (auto simp: accumulate_ranks_opt_def)
qed

lemma lookup_step_ok:
  assumes o: "user_key_order (bc_data_cfg cfg) udom"
    and tree: "tree_ok cfg udom (ls_mem st) (Suc h) addr lo hi" and b: "bounds_dom udom lo hi"
    and t: "key_dom udom target" "within cfg lo hi target"
  shows "\<exists>addr' w' st' lo' hi'. lookup_step cfg env target 0 ty (Suc h) addr w st = Some (addr', w', st')
    \<and> same_mem cfg (ls_mem st) (ls_mem st') \<and> tree_ok cfg udom (ls_mem st') h addr' lo' hi'
    \<and> bounds_dom udom lo' hi' \<and> within cfg lo' hi' target
    \<and> map_of (tree_contents (ls_mem st) (Suc h) addr) target = map_of (tree_contents (ls_mem st') h addr') target
    \<and> ls_gets st' = ls_gets st @ [(addr', w')] \<and> (w' \<longrightarrow> w)
    \<and> (\<exists>hdr i. ls_mem st addr = Some (Index_page hdr) \<and> i < btree_num_entries hdr \<and> addr' = pivot_children hdr ! i
          \<and> lo' = child_lo (pivot_keys hdr) lo i \<and> hi' = child_hi (pivot_keys hdr) hi i)"
proof -
  from tree obtain hdr where h: "ls_mem st addr = Some (Index_page hdr)" "index_layout cfg hdr" "0 < btree_num_entries hdr"
    "increasing (key_dom udom) (btree_key_compare cfg) (pivot_keys hdr)"
    "\<And>i. i < btree_num_entries hdr \<Longrightarrow> tree_ok cfg udom (ls_mem st) h (pivot_children hdr ! i)
        (child_lo (pivot_keys hdr) lo i) (child_hi (pivot_keys hdr) hi i)"
    by auto
  obtain i where i: "lookup_child_idx cfg hdr target = Some i" "i < btree_num_entries hdr"
    "within cfg (child_lo (pivot_keys hdr) lo i) (child_hi (pivot_keys hdr) hi i) target"
    using lookup_child_ok [OF o h(2-4) t] by blast
  let ?lo = "child_lo (pivot_keys hdr) lo i" and ?hi = "child_hi (pivot_keys hdr) hi i"
  let ?e = "node_entries hdr ! i"
  define child where "child = pivot_children hdr ! i"
  have e: "btree_get_index_entry hdr i = Some ?e" "index_entry_child_addr ?e = child"
    using get_index_ok(1) [OF h(2) i(2)] get_pivot_ok(2) [OF h(2) i(2)] by (simp_all add: child_def)
  obtain stats where stats: "accumulate_ranks_opt hdr i (ls_stats st) = Some stats"
    using accumulate_ok [OF h(2)] i(2) less_imp_le by blast
  define in_cache where "in_cache \<longleftrightarrow> ty = PAGE_TYPE_BRANCH \<and> w \<and> env_present env (Suc h) child"
  define track where "track \<longleftrightarrow> ty = PAGE_TYPE_BRANCH \<and> \<not> in_cache \<and> w"
  obtain w' time hdr' where c: "(if track then btree_update_ac_and_classify_warm (env_evict_interval env (Suc h))
        (fst (env_now env (Suc h))) (snd (env_now env (Suc h))) (ls_times st addr) hdr i
      else Some (w, ls_times st addr, hdr)) = Some (w', time, hdr')" "same_node cfg hdr hdr'" "w' \<longrightarrow> w"
  proof (cases track)
    case True
    obtain w' time hdr' where "btree_update_ac_and_classify_warm (env_evict_interval env (Suc h))
        (fst (env_now env (Suc h))) (snd (env_now env (Suc h))) (ls_times st addr) hdr i = Some (w', time, hdr')"
      "same_node cfg hdr hdr'"
      using classify_ok [OF h(2) i(2)] by blast
    with that [of w' time hdr'] True show ?thesis by (simp add: track_def)
  next
    case False
    with that [of w "ls_times st addr" hdr] h(2) show ?thesis by (simp add: same_node_def)
  qed
  define st1 where "st1 = st\<lparr>ls_mem := (ls_mem st)(addr \<mapsto> Index_page hdr'), ls_times := (ls_times st)(addr := time), ls_stats := stats\<rparr>"
  define st2 where "st2 = lookup_node_get env (Suc h) child w' st1"
  have m2: "same_mem cfg (ls_mem st) (ls_mem st2)"
    using same_mem_update [of "ls_mem st" addr hdr, OF h(1) c(2)] by (simp add: st2_def st1_def lookup_node_get_def)
  note child_tree = same_mem_tree [OF m2 h(5) [OF i(2), folded child_def]]
  define deep where "deep \<longleftrightarrow> \<not> in_cache \<and> Suc h - 1 > 0 \<and> ty = PAGE_TYPE_BRANCH"
  have ip: "index_page (ls_mem st) addr = Some hdr" using h(1) by (simp add: index_page_def)
  have step: "lookup_step cfg env target 0 ty (Suc h) addr w st =
     (if deep then map_option (\<lambda>c. (child, w', st2\<lparr>ls_mem := (ls_mem st2)(child \<mapsto> Index_page (reset_pivot_counts c))\<rparr>))
        (index_page (ls_mem st2) child) else Some (child, w', st2))"
    unfolding lookup_step_def ip i(1) e stats Option.bind.simps Let_def in_cache_def [symmetric] track_def [symmetric]
      deep_def [symmetric] c(1) prod.case st1_def [symmetric] st2_def [symmetric] by (rule refl)
  obtain st' where st': "lookup_step cfg env target 0 ty (Suc h) addr w st = Some (child, w', st')"
    "same_mem cfg (ls_mem st2) (ls_mem st')" "ls_gets st' = ls_gets st2"
  proof (cases deep)
    case True
    then obtain h' where "h = Suc h'" by (auto simp: deep_def gr0_conv_Suc)
    with child_tree obtain ch where ch: "ls_mem st2 child = Some (Index_page ch)" "index_layout cfg ch" by auto
    then have "same_mem cfg (ls_mem st2) ((ls_mem st2)(child \<mapsto> Index_page (reset_pivot_counts ch)))"
      using same_mem_update [of "ls_mem st2" child ch, OF ch(1)] reset_pivot_counts_ok by blast
    with that True step ch(1) show ?thesis by (simp add: index_page_def)
  next
    case False
    with that step show ?thesis by simp
  qed
  have m': "same_mem cfg (ls_mem st) (ls_mem st')" by (rule same_mem_trans [OF m2 st'(2)])
  note ct = same_mem_tree [OF m' h(5) [OF i(2), folded child_def]]
  have bd: "bounds_dom udom (child_lo (pivot_keys hdr) lo j) (child_hi (pivot_keys hdr) hi j)" if "j < btree_num_entries hdr" for j
    using child_bounds_dom [OF b _, of "pivot_keys hdr" j] h(4) that by (simp add: increasing_def)
  have "target \<notin> fst ` set (map (tree_contents (ls_mem st) h) (pivot_children hdr) ! j)"
    if j: "j < btree_num_entries hdr" "j \<noteq> i" for j
    using tree_keys_within [OF o h(5) [OF j(1)] bd [OF j(1)], of target] other_child_bounds [OF o h(4) t(1) _ _ j(2)] i j
    by auto
  then have "map_of (concat (map (tree_contents (ls_mem st) h) (pivot_children hdr))) target
      = map_of (map (tree_contents (ls_mem st) h) (pivot_children hdr) ! i) target"
    using i(2) by (intro map_of_concat_unique) auto
  then have "map_of (tree_contents (ls_mem st) (Suc h) addr) target = map_of (tree_contents (ls_mem st) h child) target"
    using h(1) i(2) by (simp add: child_def)
  moreover have "ls_gets st2 = ls_gets st @ [(child, w')]"
    by (simp add: st2_def st1_def lookup_node_get_def)
  moreover have "\<exists>hdr j. ls_mem st addr = Some (Index_page hdr) \<and> j < btree_num_entries hdr \<and> child = pivot_children hdr ! j
      \<and> ?lo = child_lo (pivot_keys hdr) lo j \<and> ?hi = child_hi (pivot_keys hdr) hi j"
    using h(1) i(2) by (intro exI [of _ hdr] exI [of _ i]) (simp add: child_def)
  ultimately show ?thesis
    using st' m' ct bd [OF i(2)] i(3) c(3) by (intro exI [of _ child] exI [of _ w'] exI [of _ st'] exI [of _ ?lo] exI [of _ ?hi]) simp
qed

text \<open>The flags of the gets: once a lookup is cold it stays cold.\<close>

definition cold_after_cold :: "bool list \<Rightarrow> bool" where
  "cold_after_cold ws \<longleftrightarrow> sorted_wrt (\<lambda>a b. b \<longrightarrow> a) ws"

lemma lookup_loop_ok:
  assumes o: "user_key_order (bc_data_cfg cfg) udom" and t: "key_dom udom target" "\<not> key_is_positive_infinity target"
  shows "\<lbrakk>tree_ok cfg udom (ls_mem st) h addr lo hi; bounds_dom udom lo hi; within cfg lo hi target;
      cold_after_cold (map snd (ls_gets st)); \<forall>g\<in>set (ls_gets st). w \<longrightarrow> snd g\<rbrakk>
    \<Longrightarrow> \<exists>addr' w' st' leaf. lookup_loop cfg env target 0 ty h addr w st = Some (addr', w', st')
      \<and> same_mem cfg (ls_mem st) (ls_mem st')
      \<and> ls_mem st' addr' = Some (Leaf_page leaf) \<and> leaf_layout cfg leaf \<and> leaf_sorted cfg udom leaf
      \<and> leaf_map leaf target = map_of (tree_contents (ls_mem st) h addr) target
      \<and> cold_after_cold (map snd (ls_gets st'))"
proof (induction h arbitrary: addr w st lo hi)
  case 0
  then show ?case by (auto simp: leaf_map_def)
next
  case (Suc h)
  obtain addr' w' st' lo' hi' where s: "lookup_step cfg env target 0 ty (Suc h) addr w st = Some (addr', w', st')"
    "same_mem cfg (ls_mem st) (ls_mem st')" "tree_ok cfg udom (ls_mem st') h addr' lo' hi'"
    "bounds_dom udom lo' hi'" "within cfg lo' hi' target"
    "map_of (tree_contents (ls_mem st) (Suc h) addr) target = map_of (tree_contents (ls_mem st') h addr') target"
    "ls_gets st' = ls_gets st @ [(addr', w')]" "w' \<longrightarrow> w"
    using lookup_step_ok [OF o Suc.prems(1,2) t(1) Suc.prems(3)] by metis
  have "cold_after_cold (map snd (ls_gets st'))" "\<forall>g\<in>set (ls_gets st'). w' \<longrightarrow> snd g"
    using Suc.prems(4,5) s(7,8) by (auto simp: cold_after_cold_def sorted_wrt_append)
  from Suc.IH [OF s(3-5) this] show ?case
    using s(1,6) same_mem_trans [OF s(2)] by (simp add: s(1) del: tree_contents.simps) metis
qed

lemma lookup_node_ok:
  assumes o: "user_key_order (bc_data_cfg cfg) udom" and t: "key_dom udom target" "\<not> key_is_positive_infinity target"
    and tree: "tree_ok cfg udom (ls_mem st) h root None None" and g: "ls_gets st = []"
  shows "\<exists>addr w st' leaf. btree_lookup_node cfg env root target 0 ty st = Some (addr, w, st')
    \<and> same_mem cfg (ls_mem st) (ls_mem st')
    \<and> ls_mem st' addr = Some (Leaf_page leaf) \<and> leaf_layout cfg leaf \<and> leaf_sorted cfg udom leaf
    \<and> leaf_map leaf target = map_of (tree_contents (ls_mem st) h root) target
    \<and> cold_after_cold (map snd (ls_gets st'))"
proof -
  obtain page where page: "ls_mem st root = Some page" "page_height page = h"
    using tree by (cases h) auto
  let ?st = "lookup_node_get env (h + 1) root True (st\<lparr>ls_stats := map_option (\<lambda>_. \<lparr>num_kvs = 0, key_bytes = 0, message_bytes = 0\<rparr>) (ls_stats st)\<rparr>)"
  have m: "ls_mem ?st = ls_mem st" "ls_gets ?st = [(root, True)]" by (simp_all add: lookup_node_get_def g)
  have "bounds_dom udom None None" "within cfg None None target" by (simp_all add: bounds_dom_def within_def)
  from lookup_loop_ok [OF o t, of ?st h root None None True env ty, unfolded m, OF tree this]
  show ?thesis
    by (simp add: btree_lookup_node_def page cold_after_cold_def)
qed

lemma find_tuple_map:
  assumes o: "user_key_order (bc_data_cfg cfg) udom" and l: "leaf_layout cfg leaf" and s: "leaf_sorted cfg udom leaf"
    and t: "key_dom udom target"
  obtains (found) i where "btree_find_tuple cfg leaf target = Some (int i, True)" "i < btree_num_entries leaf"
      "leaf_map leaf target = Some (msg_view (leaf_entry_message (node_entries leaf ! i)))"
  | (absent) i where "btree_find_tuple cfg leaf target = Some (i, False)" "leaf_map leaf target = None"
proof (cases rule: find_tuple_cases [OF o l s t])
  case (1 i)
  have d: "distinct (map fst (leaf_contents leaf))"
    using leaf_sorted_distinct [OF o s] by (simp add: leaf_keys_def)
  have "leaf_contents leaf ! i = tuple_view (node_entries leaf ! i)" by (rule get_tuple_ok(4) [OF l 1(2)])
  moreover have "fst (leaf_contents leaf ! i) = target" using 1 by (simp add: leaf_keys_def)
  ultimately have "leaf_contents leaf ! i = (target, msg_view (leaf_entry_message (node_entries leaf ! i)))"
    by (simp add: tuple_view_def)
  then have "leaf_map leaf target = Some (msg_view (leaf_entry_message (node_entries leaf ! i)))"
    unfolding leaf_map_def using d 1(2) by (metis length_leaf_contents map_of_eq_Some_iff nth_mem)
  with 1 show ?thesis using found by blast
next
  case (2 i)
  then have "leaf_map leaf target = None" by (simp add: leaf_map_def leaf_keys_def map_of_eq_None_iff)
  with 2 show ?thesis using absent by blast
qed

lemma lookup_with_ref_ok:
  assumes o: "user_key_order (bc_data_cfg cfg) udom" and t: "key_dom udom target" "\<not> key_is_positive_infinity target"
    and tree: "tree_ok cfg udom (ls_mem st) h root None None" and g: "ls_gets st = []"
  shows "\<exists>r w st'. btree_lookup_with_ref cfg env root ty target st = Some (r, w, st')
    \<and> same_mem cfg (ls_mem st) (ls_mem st')
    \<and> map_option msg_view r = map_of (tree_contents (ls_mem st) h root) target
    \<and> (\<forall>m. r = Some m \<longrightarrow> message_length m < 65536)
    \<and> cold_after_cold (map snd (ls_gets st'))"
proof -
  let ?st = "st\<lparr>ls_stats := None\<rparr>"
  obtain addr w st' leaf where n: "btree_lookup_node cfg env root target 0 ty ?st = Some (addr, w, st')"
    "same_mem cfg (ls_mem st) (ls_mem st')" "ls_mem st' addr = Some (Leaf_page leaf)" "leaf_layout cfg leaf" "leaf_sorted cfg udom leaf"
    "leaf_map leaf target = map_of (tree_contents (ls_mem st) h root) target" "cold_after_cold (map snd (ls_gets st'))"
    using lookup_node_ok [OF o t, of ?st h root env ty] tree g by auto
  have lp: "leaf_page (ls_mem st') addr = Some leaf" using n(3) by (simp add: leaf_page_def)
  show ?thesis
  proof (cases rule: find_tuple_map [OF o n(4,5) t(1)])
    case (1 i)
    have "storable (leaf_entry_key (node_entries leaf ! i)) (leaf_entry_message (node_entries leaf ! i))"
      using entry_storable(1) leaf.layout_get [OF n(4)] 1(2) by (simp add: btree_num_entries_def)
    with 1 n get_tuple_ok(1) [OF n(4) 1(2)] show ?thesis
      by (simp add: btree_lookup_with_ref_def lp storable_def)
  next
    case (2 i)
    with n show ?thesis by (simp add: btree_lookup_with_ref_def lp)
  qed
qed

text \<open>
  C2: A lookup in a well-formed B-tree returns the message of the target key if the tree stores one and
  leaves the result alone if not, or reports that memory ran out; the tree stays well formed and stores the
  same tuples, whatever pivot counters the lookup updates on the way.
\<close>

theorem btree_lookup_correct:
  assumes "user_key_order (bc_data_cfg cfg) udom" "key_dom udom target" "\<not> key_is_positive_infinity target"
    and "tree_ok cfg udom (ls_mem st) h root None None" "ls_gets st = []" "malloc_ok malloc" "ma_inv result"
  shows "\<exists>rc result' st'. btree_lookup malloc cfg env root ty target result st = Some (rc, result', st')
    \<and> tree_ok cfg udom (ls_mem st') h root None None
    \<and> tree_contents (ls_mem st') h root = tree_contents (ls_mem st) h root
    \<and> (case map_of (tree_contents (ls_mem st) h root) target of
         None \<Rightarrow> rc = STATUS_OK \<and> result' = result
       | Some m \<Rightarrow> rc = STATUS_OK \<and> ma_view result' = m \<or> rc = STATUS_NO_MEMORY \<and> result' = result)"
proof -
  obtain r w st' where r: "btree_lookup_with_ref cfg env root ty target st = Some (r, w, st')"
    "same_mem cfg (ls_mem st) (ls_mem st')" "map_option msg_view r = map_of (tree_contents (ls_mem st) h root) target"
    "\<forall>m. r = Some m \<longrightarrow> message_length m < 65536"
    using lookup_with_ref_ok [OF assms(1-5), of env ty] by blast
  note tree = same_mem_tree [OF r(2) assms(4)]
  show ?thesis
  proof (cases r)
    case None
    with r(1) r(3) [symmetric] tree show ?thesis by (simp add: btree_lookup_def)
  next
    case (Some m)
    then have "message_length m < 2 ^ 64 - 1" using r(4) by auto
    from ma_copy_ok [OF assms(7,6) this] obtain ok ma where
      ma: "merge_accumulator_copy_message malloc result m = Some (ok, ma)" "ok \<and> ma_view ma = msg_view m \<or> \<not> ok \<and> ma = result"
      by metis
    with r(1) r(3) [symmetric] Some tree show ?thesis by (auto simp: btree_lookup_def)
  qed
qed

text \<open>
  C14: Along a lookup, a node under a node that was read as cold is read as cold too: warmth is never
  regained on the way down.
\<close>

theorem btree_lookup_stays_cold:
  assumes "user_key_order (bc_data_cfg cfg) udom" "key_dom udom target" "\<not> key_is_positive_infinity target"
    and "tree_ok cfg udom (ls_mem st) h root None None" "ls_gets st = []"
    and "btree_lookup_node cfg env root target 0 ty st = Some (addr, w, st')"
  shows "cold_after_cold (map snd (ls_gets st'))"
  using lookup_node_ok [OF assms(1-5), of env ty] assms(6) by auto

end
