(* ===== verification/TreePass.thy ===== *)
theory TreePass
  imports Prelude
begin

text \<open>
  Model of the page cache, \<open>treepass.c\<close>: entry status words with flags and a 3-bit clock, the
  lookup table, distributed reference counts, pins, the read/claim/write locks, writeback,
  the early (EE) and clock eviction passes, the eviction interval, allocation, loading,
  synchronisation, prefetching and discarding.

  The operations are those of one thread \<open>tid\<close>, run to completion: a compare-and-swap succeeds
  if the value it expects is there. The state is arbitrary otherwise: references, claims,
  write locks and pins of other threads are in the counters and status words. Where the source
  waits for another thread, and where an assertion fails, the result is \<open>None\<close>. Page contents
  are a type parameter \<open>'p\<close>; the device \<open>tp_disk\<close> maps page addresses to contents, and \<open>tp_io\<close>
  holds the writes that were issued and whose completion callback has not run. Usage statistics,
  logging and backtraces are left out.
\<close>

section \<open>Definitions\<close>

subsection \<open>Constants and state\<close>

definition TP_UNMAPPED_ENTRY :: nat where "TP_UNMAPPED_ENTRY = 4294967295"
definition TP_UNMAPPED_ADDR :: uint64 where "TP_UNMAPPED_ADDR = - 1"
definition TP_ENTRIES_PER_BATCH :: nat where "TP_ENTRIES_PER_BATCH = 64"
definition TP_CLEANER_GAP :: nat where "TP_CLEANER_GAP = 512"
definition TP_RC_WIDTH :: nat where "TP_RC_WIDTH = 4"
definition PLATFORM_CACHELINE_SIZE :: nat where "PLATFORM_CACHELINE_SIZE = 64"

definition TP_FREE :: uint32 where "TP_FREE = 1"
definition TP_CLEAN :: uint32 where "TP_CLEAN = 2"
definition TP_WRITEBACK :: uint32 where "TP_WRITEBACK = 4"
definition TP_LOADING :: uint32 where "TP_LOADING = 8"
definition TP_WRITELOCKED :: uint32 where "TP_WRITELOCKED = 16"
definition TP_CLAIMED :: uint32 where "TP_CLAIMED = 32"

definition TP_CLOCK_SHIFT :: nat where "TP_CLOCK_SHIFT = 6"
definition TP_CLOCK_ONE :: uint32 where "TP_CLOCK_ONE = 64"
definition TP_CLOCK_MAX :: uint32 where "TP_CLOCK_MAX = 7"
definition TP_CLOCK_MASK :: uint32 where "TP_CLOCK_MASK = 448"

definition TP_FREE_STATUS :: uint32 where "TP_FREE_STATUS = 0 OR TP_FREE"
definition TP_EVICTABLE_STATUS :: uint32 where "TP_EVICTABLE_STATUS = 0 OR TP_CLEAN"
definition TP_LOCKED_EVICTABLE_STATUS :: uint32 where
  "TP_LOCKED_EVICTABLE_STATUS = 0 OR TP_CLEAN OR TP_CLAIMED OR TP_WRITELOCKED"
definition TP_ALLOC_STATUS :: uint32 where "TP_ALLOC_STATUS = 0 OR TP_WRITELOCKED OR TP_CLAIMED"
definition TP_CLEANABLE_BASE_MASK :: uint32 where
  "TP_CLEANABLE_BASE_MASK = TP_FREE OR TP_CLEAN OR TP_WRITEBACK OR TP_LOADING OR TP_WRITELOCKED OR TP_CLAIMED"
definition TP_READ_LOADING_STATUS :: uint32 where "TP_READ_LOADING_STATUS = 0 OR TP_CLEAN OR TP_LOADING"
definition TP_ENTRY_TIME_PREFETCHED :: uint64 where "TP_ENTRY_TIME_PREFETCHED = - 1"

lemmas tp_flags = TP_FREE_def TP_CLEAN_def TP_WRITEBACK_def TP_LOADING_def TP_WRITELOCKED_def TP_CLAIMED_def
  TP_FREE_STATUS_def TP_EVICTABLE_STATUS_def TP_LOCKED_EVICTABLE_STATUS_def TP_ALLOC_STATUS_def
  TP_CLEANABLE_BASE_MASK_def TP_READ_LOADING_STATUS_def TP_CLOCK_ONE_def TP_CLOCK_MAX_def TP_CLOCK_MASK_def
  TP_CLOCK_SHIFT_def

text \<open>
  \<open>cfg_ewma avg ei\<close> is \<open>(uint64)(avg * alpha + ei * (1.0 - alpha))\<close>, computed in \<open>double\<close>: the only
  floating-point expression of the component, kept as an argument.
\<close>

record treepass_config =
  page_capacity :: nat
  log_page_size :: nat
  extent_mask :: uint64
  pages_per_extent :: nat
  cfg_capacity :: uint64
  ei_initial_per_gb_ns :: uint64
  cfg_ewma :: "uint64 \<Rightarrow> uint64 \<Rightarrow> uint64"

definition batch_capacity :: "treepass_config \<Rightarrow> nat" where
  "batch_capacity cfg = page_capacity cfg div TP_ENTRIES_PER_BATCH"

definition cacheline_capacity :: "treepass_config \<Rightarrow> nat" where
  "cacheline_capacity cfg = page_capacity cfg div PLATFORM_CACHELINE_SIZE"

record treepass_entry =
  disk_addr :: uint64
  entry_time :: uint64
  status :: uint32
  etype :: page_type
  has_waiters :: bool

text \<open>An issued write: its device address, the entries whose pages it writes, and \<open>num_passes\<close>.\<close>

record async_io_state =
  io_addr :: uint64
  io_entries :: "nat list"
  io_num_passes :: nat

record 'p treepass =
  tp_entry :: "nat \<Rightarrow> treepass_entry"
  tp_data :: "nat \<Rightarrow> 'p"
  tp_lookup :: "nat \<Rightarrow> nat"
  tp_refcount :: "nat \<Rightarrow> uint16"
  tp_pincount :: "nat \<Rightarrow> uint8"
  evict_hand :: uint32
  free_hand :: "nat \<Rightarrow> nat"
  batch_busy :: "nat \<Rightarrow> bool"
  cleaner_gap :: nat
  evict_interval :: uint64
  last_cycle_ts :: uint64
  evict_batches :: uint32
  last_ei_check_ts :: uint64
  last_ei_check_cycle :: uint32
  tp_disk :: "uint64 \<Rightarrow> 'p"
  tp_io :: "async_io_state list"

definition upd_entry :: "'p treepass \<Rightarrow> nat \<Rightarrow> (treepass_entry \<Rightarrow> treepass_entry) \<Rightarrow> 'p treepass" where
  "upd_entry cc e f = cc\<lparr>tp_entry := (tp_entry cc)(e := f (tp_entry cc e))\<rparr>"

subsection \<open>Flags and clock\<close>

definition treepass_get_status :: "'p treepass \<Rightarrow> nat \<Rightarrow> uint32" where
  "treepass_get_status cc e = status (tp_entry cc e)"

definition treepass_set_flag :: "'p treepass \<Rightarrow> nat \<Rightarrow> uint32 \<Rightarrow> uint32 \<times> 'p treepass" where
  "treepass_set_flag cc e flag =
     (flag AND treepass_get_status cc e, upd_entry cc e (\<lambda>en. en\<lparr>status := status en OR flag\<rparr>))"

definition treepass_clear_flag :: "'p treepass \<Rightarrow> nat \<Rightarrow> uint32 \<Rightarrow> uint32 \<times> 'p treepass" where
  "treepass_clear_flag cc e flag =
     (flag AND treepass_get_status cc e, upd_entry cc e (\<lambda>en. en\<lparr>status := status en AND NOT flag\<rparr>))"

definition treepass_test_flag :: "'p treepass \<Rightarrow> nat \<Rightarrow> uint32 \<Rightarrow> uint32" where
  "treepass_test_flag cc e flag = flag AND treepass_get_status cc e"

definition clock_of :: "uint32 \<Rightarrow> uint32" where
  "clock_of st = drop_bit TP_CLOCK_SHIFT st AND TP_CLOCK_MAX"

definition treepass_get_clock :: "'p treepass \<Rightarrow> nat \<Rightarrow> uint32" where
  "treepass_get_clock cc e = clock_of (treepass_get_status cc e)"

definition treepass_set_clock :: "'p treepass \<Rightarrow> nat \<Rightarrow> uint32 \<Rightarrow> 'p treepass" where
  "treepass_set_clock cc e v =
     (let clamped = (if v > TP_CLOCK_MAX then TP_CLOCK_MAX else v);
          new_clock_bits = push_bit TP_CLOCK_SHIFT clamped
      in upd_entry cc e (\<lambda>en. en\<lparr>status := (status en AND NOT TP_CLOCK_MASK) OR new_clock_bits\<rparr>))"

definition treepass_set_clock_accessed :: "'p treepass \<Rightarrow> nat \<Rightarrow> 'p treepass" where
  "treepass_set_clock_accessed cc e =
     (if treepass_get_clock cc e < TP_CLOCK_MAX
      then upd_entry cc e (\<lambda>en. en\<lparr>status := status en + TP_CLOCK_ONE\<rparr>) else cc)"

definition treepass_try_dec_clock :: "'p treepass \<Rightarrow> nat \<Rightarrow> bool \<times> 'p treepass" where
  "treepass_try_dec_clock cc e =
     (if treepass_get_clock cc e = 0 then (False, cc)
      else (True, upd_entry cc e (\<lambda>en. en\<lparr>status := status en - TP_CLOCK_ONE\<rparr>)))"

definition treepass_has_clock :: "'p treepass \<Rightarrow> nat \<Rightarrow> bool" where
  "treepass_has_clock cc e \<longleftrightarrow> treepass_get_clock cc e > 0"

subsection \<open>Addresses and the lookup table\<close>

definition treepass_page_size :: "treepass_config \<Rightarrow> uint64" where
  "treepass_page_size cfg = push_bit (log_page_size cfg) 1"

definition treepass_multiply_by_page_size :: "treepass_config \<Rightarrow> uint64 \<Rightarrow> uint64" where
  "treepass_multiply_by_page_size cfg addr = push_bit (log_page_size cfg) addr"

definition treepass_divide_by_page_size :: "treepass_config \<Rightarrow> uint64 \<Rightarrow> nat" where
  "treepass_divide_by_page_size cfg addr = unat (drop_bit (log_page_size cfg) addr)"

definition treepass_lookup :: "treepass_config \<Rightarrow> 'p treepass \<Rightarrow> uint64 \<Rightarrow> nat" where
  "treepass_lookup cfg cc addr = tp_lookup cc (treepass_divide_by_page_size cfg addr)"

definition set_lookup :: "treepass_config \<Rightarrow> 'p treepass \<Rightarrow> uint64 \<Rightarrow> nat \<Rightarrow> 'p treepass" where
  "set_lookup cfg cc addr e = cc\<lparr>tp_lookup := (tp_lookup cc)(treepass_divide_by_page_size cfg addr := e)\<rparr>"

definition pages_share_extent :: "treepass_config \<Rightarrow> uint64 \<Rightarrow> uint64 \<Rightarrow> bool" where
  "pages_share_extent cfg addr1 addr2 \<longleftrightarrow> addr1 AND extent_mask cfg = addr2 AND extent_mask cfg"

definition treepass_inherit_clock ::
  "treepass_config \<Rightarrow> 'p treepass \<Rightarrow> uint64 \<Rightarrow> uint64 \<Rightarrow> uint32 \<Rightarrow> 'p treepass" where
  "treepass_inherit_clock cfg cc old_addr new_addr divisor =
     (let old_entry_no = treepass_lookup cfg cc old_addr;
          old_found = (old_entry_no \<noteq> TP_UNMAPPED_ENTRY);
          old_clock = treepass_get_clock cc old_entry_no;
          clock0 = (if old_found then (if divisor > 1 then old_clock div divisor else old_clock) else 1);
          clock_val = (if clock0 = 0 then 1 else clock0);
          new_entry_no = treepass_lookup cfg cc new_addr
      in if new_entry_no \<noteq> TP_UNMAPPED_ENTRY then
           let cc1 = treepass_set_clock cc new_entry_no clock_val
           in if old_found \<and> entry_time (tp_entry cc1 old_entry_no) \<noteq> 0
              then upd_entry cc1 new_entry_no
                     (\<lambda>en. en\<lparr>entry_time := entry_time (tp_entry cc1 old_entry_no)\<rparr>)
              else cc1
         else cc)"

subsection \<open>Reference counts and pins\<close>

definition treepass_get_ref_internal :: "treepass_config \<Rightarrow> nat \<Rightarrow> nat" where
  "treepass_get_ref_internal cfg e =
     e mod cacheline_capacity cfg * PLATFORM_CACHELINE_SIZE + e div cacheline_capacity cfg"

definition ref_index :: "treepass_config \<Rightarrow> nat \<Rightarrow> nat \<Rightarrow> nat" where
  "ref_index cfg e counter_no =
     counter_no mod TP_RC_WIDTH * page_capacity cfg + treepass_get_ref_internal cfg e"

definition treepass_get_ref :: "treepass_config \<Rightarrow> 'p treepass \<Rightarrow> nat \<Rightarrow> nat \<Rightarrow> uint16" where
  "treepass_get_ref cfg cc e counter_no = tp_refcount cc (ref_index cfg e counter_no)"

definition treepass_inc_ref :: "treepass_config \<Rightarrow> 'p treepass \<Rightarrow> nat \<Rightarrow> nat \<Rightarrow> 'p treepass" where
  "treepass_inc_ref cfg cc e counter_no =
     cc\<lparr>tp_refcount := (tp_refcount cc)(ref_index cfg e counter_no := tp_refcount cc (ref_index cfg e counter_no) + 1)\<rparr>"

definition treepass_dec_ref :: "treepass_config \<Rightarrow> 'p treepass \<Rightarrow> nat \<Rightarrow> nat \<Rightarrow> 'p treepass" where
  "treepass_dec_ref cfg cc e counter_no =
     cc\<lparr>tp_refcount := (tp_refcount cc)(ref_index cfg e counter_no := tp_refcount cc (ref_index cfg e counter_no) - 1)\<rparr>"

definition treepass_get_pin :: "treepass_config \<Rightarrow> 'p treepass \<Rightarrow> nat \<Rightarrow> uint8" where
  "treepass_get_pin cfg cc e = tp_pincount cc (treepass_get_ref_internal cfg e)"

definition treepass_inc_pin :: "treepass_config \<Rightarrow> 'p treepass \<Rightarrow> nat \<Rightarrow> 'p treepass" where
  "treepass_inc_pin cfg cc e =
     (let r = treepass_get_ref_internal cfg e in cc\<lparr>tp_pincount := (tp_pincount cc)(r := tp_pincount cc r + 1)\<rparr>)"

definition treepass_dec_pin :: "treepass_config \<Rightarrow> 'p treepass \<Rightarrow> nat \<Rightarrow> 'p treepass" where
  "treepass_dec_pin cfg cc e =
     (let r = treepass_get_ref_internal cfg e in cc\<lparr>tp_pincount := (tp_pincount cc)(r := tp_pincount cc r - 1)\<rparr>)"

definition treepass_reset_pin :: "treepass_config \<Rightarrow> 'p treepass \<Rightarrow> nat \<Rightarrow> 'p treepass" where
  "treepass_reset_pin cfg cc e =
     (let r = treepass_get_ref_internal cfg e
      in if tp_pincount cc r \<noteq> 0 then cc\<lparr>tp_pincount := (tp_pincount cc)(r := 0)\<rparr> else cc)"

subsection \<open>Page locks\<close>

datatype get_rc = GET_RC_SUCCESS | GET_RC_CONFLICT | GET_RC_EVICTED | GET_RC_FLUSHING

definition treepass_try_get_read ::
  "treepass_config \<Rightarrow> nat \<Rightarrow> 'p treepass \<Rightarrow> nat \<Rightarrow> bool \<Rightarrow> get_rc \<times> 'p treepass" where
  "treepass_try_get_read cfg tid cc e set_access =
     (if treepass_test_flag cc e TP_WRITELOCKED \<noteq> 0 then (GET_RC_CONFLICT, cc)
      else
        let cc1 = treepass_inc_ref cfg cc e tid;
            cc_free = treepass_test_flag cc1 e TP_FREE;
            cc_writing = treepass_test_flag cc1 e TP_WRITELOCKED
        in if cc_free = 0 \<and> cc_writing = 0
           then (GET_RC_SUCCESS, if set_access then treepass_set_clock_accessed cc1 e else cc1)
           else
             let cc2 = treepass_dec_ref cfg cc1 e tid
             in (if cc_free \<noteq> 0 then GET_RC_EVICTED else GET_RC_CONFLICT, cc2))"

text \<open>Retries while another thread holds the write lock: \<open>None\<close>.\<close>

definition treepass_get_read ::
  "treepass_config \<Rightarrow> nat \<Rightarrow> 'p treepass \<Rightarrow> nat \<Rightarrow> (get_rc \<times> 'p treepass) option" where
  "treepass_get_read cfg tid cc e =
     (let (rc, cc1) = treepass_try_get_read cfg tid cc e True
      in if rc = GET_RC_CONFLICT then None else Some (rc, cc1))"

definition treepass_try_get_claim :: "'p treepass \<Rightarrow> nat \<Rightarrow> get_rc \<times> 'p treepass" where
  "treepass_try_get_claim cc e =
     (let (was_claimed, cc1) = treepass_set_flag cc e TP_CLAIMED
      in (if was_claimed \<noteq> 0 then GET_RC_CONFLICT else GET_RC_SUCCESS, cc1))"

text \<open>Other readers: a reference in another stripe, or a second one in the thread's own.\<close>

definition other_readers :: "treepass_config \<Rightarrow> nat \<Rightarrow> 'p treepass \<Rightarrow> nat \<Rightarrow> bool" where
  "other_readers cfg tid cc e \<longleftrightarrow>
     (\<exists>thr_i\<in>set [0..<TP_RC_WIDTH].
        if tid mod TP_RC_WIDTH \<noteq> thr_i then treepass_get_ref cfg cc e thr_i \<noteq> 0
        else treepass_get_ref cfg cc e thr_i > 1)"

definition treepass_get_write ::
  "treepass_config \<Rightarrow> nat \<Rightarrow> 'p treepass \<Rightarrow> nat \<Rightarrow> 'p treepass option" where
  "treepass_get_write cfg tid cc e =
     (let (_, cc1) = treepass_set_flag cc e TP_WRITELOCKED
      in if treepass_test_flag cc1 e TP_WRITEBACK \<noteq> 0 \<or> other_readers cfg tid cc1 e then None
         else Some cc1)"

definition treepass_try_get_write ::
  "treepass_config \<Rightarrow> nat \<Rightarrow> 'p treepass \<Rightarrow> nat \<Rightarrow> get_rc \<times> 'p treepass" where
  "treepass_try_get_write cfg tid cc e =
     (let (_, cc1) = treepass_set_flag cc e TP_WRITELOCKED;
          failed = (\<lambda>rc. (rc, snd (treepass_clear_flag cc1 e TP_WRITELOCKED)))
      in if treepass_test_flag cc1 e TP_WRITEBACK \<noteq> 0 then failed GET_RC_FLUSHING
         else if other_readers cfg tid cc1 e then failed GET_RC_CONFLICT
         else (GET_RC_SUCCESS, cc1))"

subsection \<open>Writeback\<close>

definition treepass_ok_to_writeback :: "'p treepass \<Rightarrow> nat \<Rightarrow> nat \<Rightarrow> bool" where
  "treepass_ok_to_writeback cc e num_passes =
     (let st = treepass_get_status cc e
      in if st AND TP_CLEANABLE_BASE_MASK \<noteq> 0 then False
         else if unat (clock_of st) > num_passes then False
         else True)"

definition treepass_try_set_writeback ::
  "'p treepass \<Rightarrow> nat \<Rightarrow> nat \<Rightarrow> (bool \<times> 'p treepass) option" where
  "treepass_try_set_writeback cc e num_passes =
     (if has_waiters (tp_entry cc e) then None
      else
        let old_status = treepass_get_status cc e
        in if old_status AND TP_CLEANABLE_BASE_MASK \<noteq> 0 then Some (False, cc)
           else if unat (clock_of old_status) > num_passes then Some (False, cc)
           else Some (True, upd_entry cc e (\<lambda>en. en\<lparr>status := old_status OR TP_WRITEBACK\<rparr>)))"

text \<open>
  The device: a write puts the pages of its entries at consecutive addresses. The callback then
  runs over the entries.
\<close>

definition io_write_pages :: "treepass_config \<Rightarrow> 'p treepass \<Rightarrow> async_io_state \<Rightarrow> 'p treepass" where
  "io_write_pages cfg cc st =
     cc\<lparr>tp_disk := fold (\<lambda>i d. d(io_addr st + treepass_multiply_by_page_size cfg (word_of_nat i) := tp_data cc (io_entries st ! i)))
          [0..<length (io_entries st)] (tp_disk cc)\<rparr>"

definition write_callback_entry :: "nat \<Rightarrow> nat \<Rightarrow> 'p treepass \<Rightarrow> 'p treepass" where
  "write_callback_entry num_passes e cc =
     (let (_, cc1) = treepass_set_flag cc e TP_CLEAN;
          (_, cc2) = treepass_clear_flag cc1 e TP_WRITEBACK
      in if num_passes > 0 \<and> num_passes < unat TP_CLOCK_MAX \<and> etype (tp_entry cc2 e) = PAGE_TYPE_BRANCH
         then treepass_set_clock cc2 e 0 else cc2)"

definition treepass_write_callback ::
  "treepass_config \<Rightarrow> 'p treepass \<Rightarrow> async_io_state \<Rightarrow> 'p treepass option" where
  "treepass_write_callback cfg cc st =
     (let count = length (io_entries st)
      in if \<not> (count > 0 \<and> count \<le> pages_per_extent cfg) then None
         else Some (fold (write_callback_entry (io_num_passes st)) (io_entries st) (io_write_pages cfg cc st)))"

text \<open>Polling for completions: the \<open>i\<close>-th issued write completes.\<close>

definition treepass_wait :: "treepass_config \<Rightarrow> 'p treepass \<Rightarrow> nat \<Rightarrow> 'p treepass option" where
  "treepass_wait cfg cc i =
     (if i < length (tp_io cc)
      then treepass_write_callback cfg (cc\<lparr>tp_io := take i (tp_io cc) @ drop (Suc i) (tp_io cc)\<rparr>) (tp_io cc ! i)
      else Some cc)"

text \<open>
  The walks through the extent of \<open>addr\<close>: from \<open>cur\<close>, in steps of \<open>delta\<close>, while the next page is
  cached and can be put into writeback. The result has the entries taken. A walk leaves the extent after
  at most \<open>pages_per_extent\<close> steps, which is the fuel.
\<close>

fun writeback_walk ::
  "treepass_config \<Rightarrow> nat \<Rightarrow> uint64 \<Rightarrow> uint64 \<Rightarrow> nat \<Rightarrow> uint64 \<Rightarrow> 'p treepass \<Rightarrow> (nat list \<times> 'p treepass) option" where
  "writeback_walk cfg 0 addr delta num_passes cur cc = None"
| "writeback_walk cfg (Suc fuel) addr delta num_passes cur cc =
     (let cur' = cur + delta;
          next = (if pages_share_extent cfg cur' addr then treepass_lookup cfg cc cur' else TP_UNMAPPED_ENTRY)
      in if next = TP_UNMAPPED_ENTRY then Some ([], cc)
         else Option.bind (treepass_try_set_writeback cc next num_passes) (\<lambda>(ok, cc1).
                if ok then map_option (\<lambda>(es, cc2). (next # es, cc2))
                             (writeback_walk cfg fuel addr delta num_passes cur' cc1)
                else Some ([], cc1)))"

definition treepass_writeback_entry ::
  "treepass_config \<Rightarrow> nat \<Rightarrow> nat \<Rightarrow> 'p treepass \<Rightarrow> 'p treepass option" where
  "treepass_writeback_entry cfg num_passes e cc =
     (if num_passes > 0 \<and> \<not> num_passes \<ge> unat TP_CLOCK_MAX \<and> etype (tp_entry cc e) \<noteq> PAGE_TYPE_BRANCH
      then Some cc
      else if \<not> treepass_ok_to_writeback cc e num_passes then Some cc
      else Option.bind (treepass_try_set_writeback cc e num_passes) (\<lambda>(ok, cc1).
             if \<not> ok then Some cc1
             else
               let addr = disk_addr (tp_entry cc e);
                   psize = treepass_page_size cfg;
                   fuel = pages_per_extent cfg
               in Option.bind (writeback_walk cfg fuel addr (- psize) num_passes addr cc1) (\<lambda>(before, cc2).
                  Option.bind (writeback_walk cfg fuel addr psize num_passes addr cc2) (\<lambda>(after, cc3).
                    let first_addr = addr - treepass_multiply_by_page_size cfg (word_of_nat (length before));
                        req_count = length before + 1 + length after;
                        entry_nos = map (\<lambda>i. treepass_lookup cfg cc3
                                              (first_addr + treepass_multiply_by_page_size cfg (word_of_nat i)))
                                      [0..<req_count]
                    in Some (cc3\<lparr>tp_io := tp_io cc3 @
                         [\<lparr>io_addr = first_addr, io_entries = entry_nos, io_num_passes = num_passes\<rparr>]\<rparr>)))))"

text \<open>Loops over the entries of a batch.\<close>

definition batch_entries :: "nat \<Rightarrow> nat list" where
  "batch_entries batch = [batch * TP_ENTRIES_PER_BATCH..<batch * TP_ENTRIES_PER_BATCH + TP_ENTRIES_PER_BATCH]"

fun fold_opt :: "('a \<Rightarrow> 's \<Rightarrow> 's option) \<Rightarrow> 'a list \<Rightarrow> 's \<Rightarrow> 's option" where
  "fold_opt f [] s = Some s"
| "fold_opt f (x # xs) s = Option.bind (f x s) (fold_opt f xs)"

definition treepass_batch_start_writeback ::
  "treepass_config \<Rightarrow> 'p treepass \<Rightarrow> nat \<Rightarrow> nat \<Rightarrow> 'p treepass option" where
  "treepass_batch_start_writeback cfg cc batch num_passes =
     fold_opt (treepass_writeback_entry cfg num_passes) (batch_entries batch) cc"

subsection \<open>Eviction\<close>

definition release_entry :: "treepass_config \<Rightarrow> 'p treepass \<Rightarrow> nat \<Rightarrow> 'p treepass" where
  "release_entry cfg cc e =
     (let addr = disk_addr (tp_entry cc e);
          cc1 = (if addr \<noteq> TP_UNMAPPED_ADDR
                 then upd_entry (set_lookup cfg cc addr TP_UNMAPPED_ENTRY) e
                        (\<lambda>en. en\<lparr>disk_addr := TP_UNMAPPED_ADDR, entry_time := 0\<rparr>)
                 else cc)
      in upd_entry cc1 e (\<lambda>en. en\<lparr>etype := PAGE_TYPE_INVALID, status := TP_FREE_STATUS\<rparr>))"

definition treepass_try_evict ::
  "treepass_config \<Rightarrow> nat \<Rightarrow> 'p treepass \<Rightarrow> nat \<Rightarrow> bool \<Rightarrow> (bool \<times> 'p treepass) option" where
  "treepass_try_evict cfg tid cc e ee_pass =
     (let (go_on, cc1) =
            (if ee_pass
             then (etype (tp_entry cc e) = PAGE_TYPE_BRANCH \<and> entry_time (tp_entry cc e) = 0, cc)
             else let (had_clock, c) = treepass_try_dec_clock cc e in (\<not> had_clock, c))
      in if \<not> go_on then Some (False, cc1)
         else if treepass_get_status cc1 e \<noteq> TP_EVICTABLE_STATUS \<or> treepass_get_ref cfg cc1 e tid \<noteq> 0
                 \<or> treepass_get_pin cfg cc1 e \<noteq> 0
         then Some (False, cc1)
         else
           let (rc, cc2) = treepass_try_get_read cfg tid cc1 e False
           in if rc \<noteq> GET_RC_SUCCESS then Some (False, cc2)
              else
                let (rc2, cc3) = treepass_try_get_claim cc2 e
                in if rc2 \<noteq> GET_RC_SUCCESS then Some (False, treepass_dec_ref cfg cc3 e tid)
                   else
                     let (rc3, cc4) = (if treepass_test_flag cc3 e TP_LOADING \<noteq> 0 then (GET_RC_CONFLICT, cc3)
                                       else treepass_try_get_write cfg tid cc3 e)
                     in if rc3 \<noteq> GET_RC_SUCCESS
                        then Some (False, treepass_dec_ref cfg (snd (treepass_clear_flag cc4 e TP_CLAIMED)) e tid)
                        else if treepass_get_status cc4 e \<noteq> TP_LOCKED_EVICTABLE_STATUS \<or> treepass_get_pin cfg cc4 e \<noteq> 0
                        then Some (False, treepass_dec_ref cfg
                               (snd (treepass_clear_flag (snd (treepass_clear_flag cc4 e TP_WRITELOCKED)) e TP_CLAIMED)) e tid)
                        else if has_waiters (tp_entry cc4 e) then None
                        else Some (True, treepass_dec_ref cfg (release_entry cfg cc4 e) e tid))"

fun evict_entries ::
  "treepass_config \<Rightarrow> nat \<Rightarrow> bool \<Rightarrow> nat list \<Rightarrow> 'p treepass \<Rightarrow> (nat \<times> 'p treepass) option" where
  "evict_entries cfg tid ee_pass [] cc = Some (0, cc)"
| "evict_entries cfg tid ee_pass (e # es) cc =
     Option.bind (treepass_try_evict cfg tid cc e ee_pass) (\<lambda>(evicted, cc1).
       map_option (\<lambda>(n, cc2). ((if evicted then 1 else 0) + n, cc2)) (evict_entries cfg tid ee_pass es cc1))"

definition treepass_evict_batch_ee ::
  "treepass_config \<Rightarrow> nat \<Rightarrow> 'p treepass \<Rightarrow> nat \<Rightarrow> (nat \<times> 'p treepass) option" where
  "treepass_evict_batch_ee cfg tid cc batch = evict_entries cfg tid True (batch_entries batch) cc"

text \<open>The update of the eviction interval at the end of a sweep; \<open>now\<close> is the clock.\<close>

definition treepass_update_ei :: "treepass_config \<Rightarrow> uint64 \<Rightarrow> 'p treepass \<Rightarrow> 'p treepass" where
  "treepass_update_ei cfg now cc0 =
     (let cc = cc0\<lparr>evict_batches := evict_batches cc0 + 1\<rparr>;
          batches = unat (evict_batches cc);
          cycle = batches div batch_capacity cfg;
          is_cycle_boundary = (batches mod batch_capacity cfg = 0);
          expected = unat (last_ei_check_cycle cc);
          last_ts = last_cycle_ts cc;
          ei = evict_interval cc;
          elapsed = now - last_ts;
          avg_sweep_time = elapsed div word_of_nat (cycle - expected);
          scaled = drop_bit 30 (cfg_capacity cfg) * ei_initial_per_gb_ns cfg;
          new_ei = (if ei = EI_NOT_READY then (if scaled = 0 then ei_initial_per_gb_ns cfg else scaled)
                    else cfg_ewma cfg avg_sweep_time ei)
      in if \<not> (is_cycle_boundary \<and> cycle > 0) then cc
         else if expected \<ge> cycle then cc
         else if now \<le> last_ts then cc
         else cc\<lparr>last_ei_check_cycle := word_of_nat cycle, evict_interval := new_ei, last_cycle_ts := now,
                 last_ei_check_ts := now\<rparr>)"

definition treepass_evict_batch ::
  "treepass_config \<Rightarrow> nat \<Rightarrow> uint64 \<Rightarrow> 'p treepass \<Rightarrow> nat \<Rightarrow> bool \<Rightarrow> 'p treepass option" where
  "treepass_evict_batch cfg tid now cc batch first_pass =
     map_option (\<lambda>(_, cc1). if \<not> first_pass then cc1 else treepass_update_ei cfg now cc1)
       (evict_entries cfg tid False (batch_entries batch) cc)"


text \<open>
  The loop that advances the hand: it cleans a batch ahead, and stops at a batch no thread holds.
  With no other thread running it has seen every batch after \<open>batch_capacity\<close> steps, its fuel.
\<close>

fun advance_hand ::
  "treepass_config \<Rightarrow> nat \<Rightarrow> nat \<Rightarrow> 'p treepass \<Rightarrow> (nat \<times> 'p treepass) option" where
  "advance_hand cfg num_passes 0 cc = None"
| "advance_hand cfg num_passes (Suc fuel) cc =
     (let cc1 = cc\<lparr>evict_hand := evict_hand cc + 1\<rparr>;
          hand = unat (evict_hand cc1) mod batch_capacity cfg;
          cleaner_hand = (hand + cleaner_gap cc1) mod batch_capacity cfg
      in Option.bind
           (if \<not> batch_busy cc1 cleaner_hand
            then map_option (\<lambda>c. c\<lparr>batch_busy := (batch_busy c)(cleaner_hand := False)\<rparr>)
                   (treepass_batch_start_writeback cfg
                      (cc1\<lparr>batch_busy := (batch_busy cc1)(cleaner_hand := True)\<rparr>) cleaner_hand num_passes)
            else Some cc1)
           (\<lambda>cc2. if \<not> batch_busy cc2 hand
                  then Some (hand, cc2\<lparr>batch_busy := (batch_busy cc2)(hand := True)\<rparr>)
                  else advance_hand cfg num_passes fuel cc2))"

definition treepass_move_hand ::
  "treepass_config \<Rightarrow> nat \<Rightarrow> uint64 \<Rightarrow> 'p treepass \<Rightarrow> nat \<Rightarrow> 'p treepass option" where
  "treepass_move_hand cfg tid now cc num_passes =
     (let held = free_hand cc tid
      in Option.bind
           (if held \<noteq> TP_UNMAPPED_ENTRY
            then map_option (\<lambda>(n, c). if n > 0 then (True, c)
                                       else (False, c\<lparr>batch_busy := (batch_busy c)(held := False)\<rparr>))
                   (treepass_evict_batch_ee cfg tid cc (held mod batch_capacity cfg))
            else Some (False, cc))
           (\<lambda>(stay, cc1).
              if stay then Some cc1
              else Option.bind (advance_hand cfg num_passes (batch_capacity cfg) cc1) (\<lambda>(hand, cc2).
                     map_option (\<lambda>c. c\<lparr>free_hand := (free_hand c)(tid := hand)\<rparr>)
                       (treepass_evict_batch cfg tid now cc2 hand (num_passes = 0)))))"

subsection \<open>Free pages\<close>

definition take_free_entry ::
  "treepass_config \<Rightarrow> nat \<Rightarrow> 'p treepass \<Rightarrow> uint32 \<Rightarrow> page_type \<Rightarrow> bool \<Rightarrow> nat \<Rightarrow> 'p treepass option" where
  "take_free_entry cfg tid cc st ty refcount e =
     (if has_waiters (tp_entry cc e) then None
      else
        let cc1 = upd_entry cc e (\<lambda>en. en\<lparr>status := TP_ALLOC_STATUS\<rparr>);
            cc2 = (if refcount then treepass_inc_ref cfg cc1 e tid else cc1)
        in Some (upd_entry cc2 e (\<lambda>en. en\<lparr>status := st, etype := ty\<rparr>)))"

text \<open>
  What the environment gives a thread: the clock, the thread-local \<open>treepass_current_ts\<close>, the write that
  completes when it polls, whether the maximal I/O latency is over, both indexed by the number of
  batches left to try, and that number.
\<close>

record tp_env =
  te_now :: uint64
  te_current_ts :: uint64
  te_poll :: "nat \<Rightarrow> nat"
  te_elapsed :: "nat \<Rightarrow> bool"
  te_fuel :: nat

text \<open>
  The search of \<open>treepass_get_free_page\<close>. The fuel bounds the number of batches tried; the assertion
  that the cache is locked up is \<open>None\<close> too, and the non-blocking failure is \<open>TP_UNMAPPED_ENTRY\<close>.
\<close>

fun find_free_page ::
  "treepass_config \<Rightarrow> nat \<Rightarrow> tp_env \<Rightarrow> uint32 \<Rightarrow> page_type \<Rightarrow> bool \<Rightarrow> bool
   \<Rightarrow> nat \<Rightarrow> nat \<Rightarrow> nat \<Rightarrow> 'p treepass \<Rightarrow> (nat \<times> 'p treepass) option" where
  "find_free_page cfg tid env st ty refcount blocking 0 num_passes max_hand cc = None"
| "find_free_page cfg tid env st ty refcount blocking (Suc fuel) num_passes max_hand cc =
     (if \<not> (num_passes < 3 \<or> blocking \<and> \<not> te_elapsed env fuel) then
        (if blocking then None else Some (TP_UNMAPPED_ENTRY, cc))
      else
        case filter (\<lambda>e. status (tp_entry cc e) = TP_FREE_STATUS) (batch_entries (free_hand cc tid)) of
          e # _ \<Rightarrow> map_option (\<lambda>c. (e, c)) (take_free_entry cfg tid cc st ty refcount e)
        | [] \<Rightarrow>
            Option.bind (treepass_move_hand cfg tid (te_now env) cc num_passes) (\<lambda>cc1.
              if free_hand cc1 tid < max_hand
              then Option.bind (treepass_wait cfg cc1 (te_poll env fuel)) (\<lambda>cc2.
                     find_free_page cfg tid env st ty refcount blocking fuel (num_passes + 1) (free_hand cc2 tid) cc2)
              else find_free_page cfg tid env st ty refcount blocking fuel num_passes (free_hand cc1 tid) cc1))"

definition treepass_get_free_page ::
  "treepass_config \<Rightarrow> nat \<Rightarrow> tp_env \<Rightarrow> 'p treepass \<Rightarrow> uint32 \<Rightarrow> page_type \<Rightarrow> bool \<Rightarrow> bool
   \<Rightarrow> (nat \<times> 'p treepass) option" where
  "treepass_get_free_page cfg tid env cc st ty refcount blocking =
     (let max_hand = free_hand cc tid
      in Option.bind
           (if free_hand cc tid = TP_UNMAPPED_ENTRY then treepass_move_hand cfg tid (te_now env) cc 0 else Some cc)
           (\<lambda>cc1. find_free_page cfg tid env st ty refcount blocking (te_fuel env) 0 max_hand cc1))"

subsection \<open>Flushing and evicting everything\<close>

text \<open>\<open>io_wait_all\<close>: the issued writes complete, in the order they were issued.\<close>

fun complete_writes :: "treepass_config \<Rightarrow> nat \<Rightarrow> 'p treepass \<Rightarrow> 'p treepass option" where
  "complete_writes cfg 0 cc = Some cc"
| "complete_writes cfg (Suc n) cc = Option.bind (treepass_wait cfg cc 0) (complete_writes cfg n)"

definition io_wait_all :: "treepass_config \<Rightarrow> 'p treepass \<Rightarrow> 'p treepass option" where
  "io_wait_all cfg cc = complete_writes cfg (length (tp_io cc)) cc"

definition treepass_flush :: "treepass_config \<Rightarrow> 'p treepass \<Rightarrow> 'p treepass option" where
  "treepass_flush cfg cc =
     Option.bind (io_wait_all cfg cc) (\<lambda>cc1.
     Option.bind (fold_opt (\<lambda>b c. treepass_batch_start_writeback cfg c b (unat TP_CLOCK_MAX))
                    [0..<page_capacity cfg div TP_ENTRIES_PER_BATCH] cc1)
       (io_wait_all cfg))"

definition treepass_evict_all :: "treepass_config \<Rightarrow> nat \<Rightarrow> uint64 \<Rightarrow> 'p treepass \<Rightarrow> 'p treepass option" where
  "treepass_evict_all cfg tid now cc =
     fold_opt (\<lambda>b c. fold_opt (\<lambda>_ c. treepass_evict_batch cfg tid now c b False) [0..<unat TP_CLOCK_MAX + 1] c)
       [0..<batch_capacity cfg] cc"

subsection \<open>Allocating, loading and getting pages\<close>

definition map_entry :: "treepass_config \<Rightarrow> 'p treepass \<Rightarrow> nat \<Rightarrow> uint64 \<Rightarrow> page_type \<Rightarrow> uint64 \<Rightarrow> 'p treepass" where
  "map_entry cfg cc e addr ty time =
     set_lookup cfg (upd_entry cc e (\<lambda>en. en\<lparr>disk_addr := addr, etype := ty, entry_time := time\<rparr>)) addr e"

definition treepass_alloc ::
  "treepass_config \<Rightarrow> nat \<Rightarrow> tp_env \<Rightarrow> 'p treepass \<Rightarrow> uint64 \<Rightarrow> page_type \<Rightarrow> (nat \<times> 'p treepass) option" where
  "treepass_alloc cfg tid env cc addr ty =
     Option.bind (treepass_get_free_page cfg tid env cc (TP_ALLOC_STATUS OR TP_CLOCK_ONE) ty True True) (\<lambda>(e, cc1).
       if \<not> (ty \<noteq> PAGE_TYPE_TRUNK \<or> te_current_ts env \<noteq> 0) then None
       else Some (e, map_entry cfg cc1 e addr ty (te_current_ts env)))"

definition treepass_alloc_compaction_hot ::
  "treepass_config \<Rightarrow> nat \<Rightarrow> tp_env \<Rightarrow> 'p treepass \<Rightarrow> uint64 \<Rightarrow> page_type \<Rightarrow> (nat \<times> 'p treepass) option" where
  "treepass_alloc_compaction_hot cfg tid env cc addr ty =
     map_option (\<lambda>(e, cc1). (e, map_entry cfg cc1 e addr ty (if ty = PAGE_TYPE_BRANCH then te_now env else 0)))
       (treepass_get_free_page cfg tid env cc (TP_ALLOC_STATUS OR push_bit TP_CLOCK_SHIFT TP_CLOCK_MAX) ty True True)"

text \<open>
  \<open>treepass_try_page_discard\<close> retries after a race; with one thread running, each retry finds the
  same state, so a retry is \<open>None\<close> like a wait.
\<close>

definition treepass_try_page_discard ::
  "treepass_config \<Rightarrow> nat \<Rightarrow> 'p treepass \<Rightarrow> uint64 \<Rightarrow> 'p treepass option" where
  "treepass_try_page_discard cfg tid cc addr =
     (let e = treepass_lookup cfg cc addr
      in if e = TP_UNMAPPED_ENTRY then Some cc
         else Option.bind (treepass_get_read cfg tid cc e) (\<lambda>(rc, cc1).
           if rc = GET_RC_EVICTED then None
           else if treepass_test_flag cc1 e TP_LOADING \<noteq> 0 then None
           else if disk_addr (tp_entry cc1 e) \<noteq> addr then None
           else
             let (rc2, cc2) = treepass_try_get_claim cc1 e
             in if rc2 \<noteq> GET_RC_SUCCESS then None
                else Option.bind (treepass_get_write cfg tid cc2 e) (\<lambda>cc3.
                  let cc4 = upd_entry (set_lookup cfg cc3 addr TP_UNMAPPED_ENTRY) e
                              (\<lambda>en. en\<lparr>disk_addr := TP_UNMAPPED_ADDR, entry_time := 0\<rparr>)
                  in if has_waiters (tp_entry cc4 e) then None
                     else
                       let cc5 = upd_entry cc4 e (\<lambda>en. en\<lparr>etype := PAGE_TYPE_INVALID, status := TP_FREE_STATUS\<rparr>)
                       in Some (treepass_dec_ref cfg (treepass_reset_pin cfg cc5 e) e tid))))"

definition treepass_extent_discard ::
  "treepass_config \<Rightarrow> nat \<Rightarrow> 'p treepass \<Rightarrow> uint64 \<Rightarrow> 'p treepass option" where
  "treepass_extent_discard cfg tid cc addr =
     fold_opt (\<lambda>i c. treepass_try_page_discard cfg tid c (addr + treepass_multiply_by_page_size cfg (word_of_nat i)))
       [0..<pages_per_extent cfg] cc"

text \<open>The promotion of a cold branch page that a warm lookup reads.\<close>

definition promote :: "tp_env \<Rightarrow> 'p treepass \<Rightarrow> nat \<Rightarrow> bool \<Rightarrow> page_type \<Rightarrow> 'p treepass" where
  "promote env cc e is_warm ty =
     (if is_warm \<and> ty = PAGE_TYPE_BRANCH \<and> entry_time (tp_entry cc e) = 0
      then upd_entry cc e (\<lambda>en. en\<lparr>entry_time := te_current_ts env\<rparr>) else cc)"

text \<open>
  \<open>treepass_get_in_cache\<close>: \<open>Inl\<close> is the request to retry, \<open>Inr None\<close> the page that a non-blocking get does
  not wait for, \<open>Inr (Some e)\<close> the page at entry \<open>e\<close>.
\<close>

type_synonym get_result = "unit + nat option"

definition treepass_get_in_cache ::
  "treepass_config \<Rightarrow> nat \<Rightarrow> tp_env \<Rightarrow> 'p treepass \<Rightarrow> uint64 \<Rightarrow> bool \<Rightarrow> page_type \<Rightarrow> bool \<Rightarrow> nat
   \<Rightarrow> (get_result \<times> 'p treepass) option" where
  "treepass_get_in_cache cfg tid env cc addr blocking ty is_warm e =
     (let finish = (\<lambda>cc1.
            if disk_addr (tp_entry cc1 e) \<noteq> addr then Some (Inl (), treepass_dec_ref cfg cc1 e tid)
            else if treepass_test_flag cc1 e TP_LOADING \<noteq> 0 then None
            else if etype (tp_entry cc1 e) \<noteq> ty then None
            else Some (Inr (Some e), promote env cc1 e is_warm ty))
      in if blocking
         then Option.bind (treepass_get_read cfg tid cc e) (\<lambda>(rc, cc1).
                if rc \<noteq> GET_RC_SUCCESS then Some (Inl (), cc1) else finish cc1)
         else let (rc, cc1) = treepass_try_get_read cfg tid cc e True
              in (case rc of
                    GET_RC_CONFLICT \<Rightarrow> Some (Inr None, cc1)
                  | GET_RC_EVICTED \<Rightarrow> Some (Inl (), cc1)
                  | GET_RC_SUCCESS \<Rightarrow> finish cc1
                  | GET_RC_FLUSHING \<Rightarrow> None))"

definition treepass_acquire_entry_for_load ::
  "treepass_config \<Rightarrow> nat \<Rightarrow> tp_env \<Rightarrow> 'p treepass \<Rightarrow> uint64 \<Rightarrow> page_type \<Rightarrow> (nat \<times> 'p treepass) option" where
  "treepass_acquire_entry_for_load cfg tid env cc addr ty =
     Option.bind (treepass_get_free_page cfg tid env cc TP_READ_LOADING_STATUS ty True True) (\<lambda>(e, cc1).
       if treepass_lookup cfg cc1 addr \<noteq> TP_UNMAPPED_ENTRY then
         (if has_waiters (tp_entry cc1 e) then None
          else Some (TP_UNMAPPED_ENTRY,
                 upd_entry (treepass_dec_ref cfg cc1 e tid) e
                   (\<lambda>en. en\<lparr>etype := PAGE_TYPE_INVALID, status := TP_FREE_STATUS\<rparr>)))
       else Some (e, upd_entry (set_lookup cfg cc1 addr e) e (\<lambda>en. en\<lparr>disk_addr := addr\<rparr>)))"

definition treepass_finish_load :: "'p treepass \<Rightarrow> nat \<Rightarrow> 'p treepass" where
  "treepass_finish_load cc e =
     upd_entry (snd (treepass_clear_flag cc e TP_LOADING)) e (\<lambda>en. en\<lparr>has_waiters := False\<rparr>)"

definition io_read :: "'p treepass \<Rightarrow> nat \<Rightarrow> uint64 \<Rightarrow> 'p treepass" where
  "io_read cc e addr = cc\<lparr>tp_data := (tp_data cc)(e := tp_disk cc addr)\<rparr>"

definition treepass_get_from_disk ::
  "treepass_config \<Rightarrow> nat \<Rightarrow> tp_env \<Rightarrow> 'p treepass \<Rightarrow> uint64 \<Rightarrow> page_type \<Rightarrow> bool \<Rightarrow> (get_result \<times> 'p treepass) option" where
  "treepass_get_from_disk cfg tid env cc addr ty is_warm =
     Option.bind (treepass_acquire_entry_for_load cfg tid env cc addr ty) (\<lambda>(e, cc1).
       if e = TP_UNMAPPED_ENTRY then Some (Inl (), cc1)
       else
         let cc2 = io_read cc1 e addr;
             timed = (ty = PAGE_TYPE_BRANCH \<and> is_warm \<or> ty = PAGE_TYPE_TRUNK)
         in if timed \<and> te_current_ts env = 0 then None
            else
              let cc3 = (if timed then upd_entry cc2 e (\<lambda>en. en\<lparr>entry_time := te_current_ts env\<rparr>) else cc2)
              in Some (Inr (Some e), treepass_finish_load cc3 e))"

text \<open>A non-blocking miss returns without an error and leaves the page pointer unset: \<open>Inr None\<close> here.\<close>

definition treepass_get_internal ::
  "treepass_config \<Rightarrow> nat \<Rightarrow> tp_env \<Rightarrow> 'p treepass \<Rightarrow> uint64 \<Rightarrow> bool \<Rightarrow> page_type \<Rightarrow> bool \<Rightarrow> (get_result \<times> 'p treepass) option" where
  "treepass_get_internal cfg tid env cc addr blocking ty is_warm =
     (let e = treepass_lookup cfg cc addr
      in if e \<noteq> TP_UNMAPPED_ENTRY then treepass_get_in_cache cfg tid env cc addr blocking ty is_warm e
         else if blocking then treepass_get_from_disk cfg tid env cc addr ty is_warm
         else Some (Inr None, cc))"

text \<open>\<open>treepass_get\<close> retries until it has the page; the fuel bounds the retries.\<close>

fun treepass_get ::
  "treepass_config \<Rightarrow> nat \<Rightarrow> tp_env \<Rightarrow> nat \<Rightarrow> 'p treepass \<Rightarrow> uint64 \<Rightarrow> bool \<Rightarrow> page_type \<Rightarrow> bool
   \<Rightarrow> (nat option \<times> 'p treepass) option" where
  "treepass_get cfg tid env 0 cc addr blocking ty is_warm = None"
| "treepass_get cfg tid env (Suc n) cc addr blocking ty is_warm =
     Option.bind (treepass_get_internal cfg tid env cc addr blocking ty is_warm) (\<lambda>(r, cc1).
       case r of Inl _ \<Rightarrow> treepass_get cfg tid env n cc1 addr blocking ty is_warm | Inr p \<Rightarrow> Some (p, cc1))"

subsection \<open>Operations on a page handle\<close>

definition treepass_unget :: "treepass_config \<Rightarrow> nat \<Rightarrow> 'p treepass \<Rightarrow> nat \<Rightarrow> 'p treepass" where
  "treepass_unget cfg tid cc e =
     treepass_dec_ref cfg
       (if entry_time (tp_entry cc e) = TP_ENTRY_TIME_PREFETCHED
        then upd_entry cc e (\<lambda>en. en\<lparr>entry_time := 0\<rparr>) else cc) e tid"

definition treepass_try_claim :: "'p treepass \<Rightarrow> nat \<Rightarrow> bool \<times> 'p treepass" where
  "treepass_try_claim cc e = (let (rc, cc1) = treepass_try_get_claim cc e in (rc = GET_RC_SUCCESS, cc1))"

definition treepass_unclaim :: "'p treepass \<Rightarrow> nat \<Rightarrow> 'p treepass" where
  "treepass_unclaim cc e = snd (treepass_clear_flag cc e TP_CLAIMED)"

definition treepass_lock :: "treepass_config \<Rightarrow> nat \<Rightarrow> 'p treepass \<Rightarrow> nat \<Rightarrow> 'p treepass option" where
  "treepass_lock cfg tid cc e = treepass_get_write cfg tid cc e"

definition treepass_unlock :: "'p treepass \<Rightarrow> nat \<Rightarrow> 'p treepass" where
  "treepass_unlock cc e = snd (treepass_clear_flag cc e TP_WRITELOCKED)"

definition treepass_mark_dirty :: "'p treepass \<Rightarrow> nat \<Rightarrow> 'p treepass" where
  "treepass_mark_dirty cc e = snd (treepass_clear_flag cc e TP_CLEAN)"

definition treepass_pin :: "treepass_config \<Rightarrow> 'p treepass \<Rightarrow> nat \<Rightarrow> 'p treepass" where
  "treepass_pin cfg cc e = treepass_inc_pin cfg cc e"

definition treepass_unpin :: "treepass_config \<Rightarrow> 'p treepass \<Rightarrow> nat \<Rightarrow> 'p treepass" where
  "treepass_unpin cfg cc e = treepass_dec_pin cfg cc e"

definition treepass_page_sync ::
  "treepass_config \<Rightarrow> 'p treepass \<Rightarrow> nat \<Rightarrow> bool \<Rightarrow> 'p treepass option" where
  "treepass_page_sync cfg cc e is_blocking =
     (let addr = disk_addr (tp_entry cc e)
      in Option.bind (treepass_try_set_writeback cc e (unat TP_CLOCK_MAX)) (\<lambda>(ok, cc1).
           if \<not> ok then (if treepass_test_flag cc1 e TP_CLEAN \<noteq> 0 then Some cc1 else None)
           else if \<not> is_blocking
           then Some (cc1\<lparr>tp_io := tp_io cc1 @ [\<lparr>io_addr = addr, io_entries = [e], io_num_passes = 0\<rparr>]\<rparr>)
           else
             let cc2 = cc1\<lparr>tp_disk := (tp_disk cc1)(addr := tp_data cc1 e)\<rparr>
             in Some (snd (treepass_clear_flag (snd (treepass_set_flag cc2 e TP_CLEAN)) e TP_WRITEBACK))))"

text \<open>
  \<open>treepass_extent_sync\<close> collects runs of pages that go into writeback; \<open>run\<close> is the address and the entries of
  the open run. The counter of outstanding pages is the sum of the lengths of the writes issued.
\<close>

fun extent_sync_loop ::
  "treepass_config \<Rightarrow> uint64 \<Rightarrow> nat list \<Rightarrow> (uint64 \<times> nat list) option \<Rightarrow> 'p treepass \<Rightarrow> 'p treepass option" where
  "extent_sync_loop cfg addr [] run cc =
     Some (case run of None \<Rightarrow> cc
           | Some (a, es) \<Rightarrow> cc\<lparr>tp_io := tp_io cc @ [\<lparr>io_addr = a, io_entries = es, io_num_passes = 0\<rparr>]\<rparr>)"
| "extent_sync_loop cfg addr (i # is) run cc =
     (let page_addr = addr + treepass_multiply_by_page_size cfg (word_of_nat i);
          e = treepass_lookup cfg cc page_addr
      in Option.bind
           (if e \<noteq> TP_UNMAPPED_ENTRY then treepass_try_set_writeback cc e (unat TP_CLOCK_MAX) else Some (False, cc))
           (\<lambda>(ok, cc1).
              if ok then
                extent_sync_loop cfg addr is
                  (case run of None \<Rightarrow> Some (page_addr, [e]) | Some (a, es) \<Rightarrow> Some (a, es @ [e])) cc1
              else
                extent_sync_loop cfg addr is None
                  (case run of None \<Rightarrow> cc1
                   | Some (a, es) \<Rightarrow> cc1\<lparr>tp_io := tp_io cc1 @ [\<lparr>io_addr = a, io_entries = es, io_num_passes = 0\<rparr>]\<rparr>)))"

definition treepass_extent_sync :: "treepass_config \<Rightarrow> 'p treepass \<Rightarrow> uint64 \<Rightarrow> 'p treepass option" where
  "treepass_extent_sync cfg cc addr = extent_sync_loop cfg addr [0..<pages_per_extent cfg] None cc"

definition treepass_get_page_clock :: "treepass_config \<Rightarrow> 'p treepass \<Rightarrow> uint64 \<Rightarrow> uint32 \<times> uint64" where
  "treepass_get_page_clock cfg cc addr =
     (let e = treepass_lookup cfg cc addr
      in if e = TP_UNMAPPED_ENTRY then (0, 0) else (treepass_get_clock cc e, entry_time (tp_entry cc e)))"

definition treepass_set_page_clock :: "'p treepass \<Rightarrow> nat \<Rightarrow> uint32 \<Rightarrow> 'p treepass" where
  "treepass_set_page_clock cc e clock = treepass_set_clock cc e clock"

definition treepass_present_by_addr :: "treepass_config \<Rightarrow> 'p treepass \<Rightarrow> uint64 \<Rightarrow> bool" where
  "treepass_present_by_addr cfg cc addr \<longleftrightarrow> treepass_lookup cfg cc addr \<noteq> TP_UNMAPPED_ENTRY"

subsection \<open>Initialisation\<close>

text \<open>\<open>treepass_init\<close> on a device with contents \<open>disk\<close>; \<open>data\<close> is the uninitialised buffer memory.\<close>

definition treepass_init :: "treepass_config \<Rightarrow> uint64 \<Rightarrow> (nat \<Rightarrow> 'p) \<Rightarrow> (uint64 \<Rightarrow> 'p) \<Rightarrow> 'p treepass option" where
  "treepass_init cfg now data disk =
     (if page_capacity cfg mod PLATFORM_CACHELINE_SIZE \<noteq> 0
         \<or> cfg_capacity cfg \<noteq> treepass_multiply_by_page_size cfg (word_of_nat (page_capacity cfg))
         \<or> page_capacity cfg mod TP_ENTRIES_PER_BATCH \<noteq> 0
      then None
      else Some
        \<lparr>tp_entry = (\<lambda>_. \<lparr>disk_addr = TP_UNMAPPED_ADDR, entry_time = 0, status = TP_FREE_STATUS,
                          etype = PAGE_TYPE_INVALID, has_waiters = False\<rparr>),
         tp_data = data, tp_lookup = (\<lambda>_. TP_UNMAPPED_ENTRY), tp_refcount = (\<lambda>_. 0), tp_pincount = (\<lambda>_. 0),
         evict_hand = 1, free_hand = (\<lambda>_. TP_UNMAPPED_ENTRY), batch_busy = (\<lambda>_. False),
         cleaner_gap = TP_CLEANER_GAP, evict_interval = EI_NOT_READY, last_cycle_ts = now, evict_batches = 0,
         last_ei_check_ts = 0, last_ei_check_cycle = 0, tp_disk = disk, tp_io = []\<rparr>)"

end
