(* ===== verification/TreePass_Evict.thy ===== *)
theory TreePass_Evict
  imports TreePass
begin

text \<open>
  Lemmas on status words and on the operations of \<open>treepass.c\<close> that evict pages: what an
  eviction attempt does on every branch, that only clean, unlocked, unreferenced and unpinned
  pages with clock zero are evicted, and what a pass over a batch and over the whole cache does.
\<close>

section \<open>Status words\<close>

text \<open>A status word: six flags, the clock in bits 6 to 8, and bits the source leaves unused.\<close>

lemma flag_bit: "n < 32 \<Longrightarrow> ((2 ^ n :: uint32) AND st = 0) = (\<not> bit st n)"
  by (metis and.commute and_exp_eq_0_iff_not_bit)

lemma unat_clock_of: "unat (clock_of st) = unat st div 64 mod 8"
proof -
  have "(7 :: uint32) = mask 3" by (simp add: mask_eq_exp_minus_1)
  then have "clock_of st = take_bit 3 (drop_bit 6 st)"
    by (simp add: clock_of_def tp_flags take_bit_eq_mask)
  then show ?thesis
    using unsigned_less [of st, where ?'a = nat]
    by (simp add: unsigned_take_bit_eq unsigned_drop_bit_eq take_bit_nat_def drop_bit_nat_def)
qed

lemma status_parts:
  fixes f c h :: nat
  assumes "f < 64" "c < 8"
  shows "(512 * h + 64 * c + f) div 64 mod 8 = c" "(512 * h + 64 * c + f) mod 64 = f" "(512 * h + 64 * c + f) div 512 = h"
proof -
  have e: "512 * h + 64 * c + f = f + (8 * h + c) * 64" "512 * h + 64 * c + f = (64 * c + f) + h * 512" by simp_all
  show "(512 * h + 64 * c + f) div 64 mod 8 = c" "(512 * h + 64 * c + f) mod 64 = f"
    unfolding e(1) using assms by (simp_all only: div_mult_self1 mod_mult_self1 div_less mod_less add_0) simp_all
  show "(512 * h + 64 * c + f) div 512 = h"
    unfolding e(2) using assms by simp
qed

lemma status_split:
  obtains h c f where "n = 512 * h + 64 * c + f" "f < 64" "c < (8 :: nat)"
proof -
  define m x where "m = n div 64" and "x = n mod 64"
  define q r where "q = m div 8" and "r = m mod 8"
  have "n = m * 64 + x" "m = q * 8 + r"
    by (simp_all only: m_def x_def q_def r_def div_mult_mod_eq)
  then have "n = 512 * q + 64 * r + x" by linarith
  then show ?thesis using that [of q r x] by (simp add: x_def r_def)
qed

lemma clock_of_le: "unat (clock_of st) \<le> 7"
  by (simp add: unat_clock_of less_Suc_eq_le [symmetric])

lemma clock_zero_iff: "clock_of st = 0 \<longleftrightarrow> unat st div 64 mod 8 = 0"
  by (metis unat_clock_of unat_eq_zero)

lemma unat_flags: "unat (take_bit 6 st :: uint32) = unat st mod 64"
  by (simp add: unsigned_take_bit_eq take_bit_nat_def)

text \<open>The two atomic additions on the clock, when the test before them holds.\<close>

lemma status_eqI:
  assumes "unat st = 512 * h + 64 * c + f" "f < 64" "c < 8"
  shows "unat (clock_of st) = c" "unat (take_bit 6 st) = f" "unat (drop_bit 9 st) = h"
proof -
  note p = status_parts [OF assms(2,3), of h, folded assms(1)]
  show "unat (clock_of st) = c" "unat (take_bit 6 st) = f"
    using p by (simp_all add: unat_clock_of unat_flags)
  have "take_bit 32 (unat st) = unat st" using unsigned_less [of st, where ?'a = nat] by (simp add: take_bit_nat_eq_self)
  then show "unat (drop_bit 9 st) = h"
    using p by (simp add: unsigned_drop_bit_eq drop_bit_nat_def)
qed

lemma clock_inc:
  assumes "clock_of st < TP_CLOCK_MAX"
  shows "unat (clock_of (st + TP_CLOCK_ONE)) = unat (clock_of st) + 1"
    "take_bit 6 (st + TP_CLOCK_ONE) = take_bit 6 st"
    "drop_bit 9 (st + TP_CLOCK_ONE) = drop_bit 9 st"
proof -
  obtain h c f where s: "unat st = 512 * h + 64 * c + f" "f < 64" "c < 8" by (rule status_split)
  note p = status_eqI [OF s]
  have c: "c < 7" using assms p(1) by (simp add: word_less_nat_alt tp_flags)
  have "512 * h < 4294967296" using unsigned_less [of st, where ?'a = nat] s(1) by simp
  then have "h < 8388608" by simp
  then have "unat st + 64 < 4294967296" using s c by simp
  then have "unat (st + TP_CLOCK_ONE) = 512 * h + 64 * (c + 1) + f"
    using s(1) by (simp add: tp_flags unat_word_ariths)
  note q = status_eqI [OF this s(2)]
  show "unat (clock_of (st + TP_CLOCK_ONE)) = unat (clock_of st) + 1"
    "take_bit 6 (st + TP_CLOCK_ONE) = take_bit 6 st" "drop_bit 9 (st + TP_CLOCK_ONE) = drop_bit 9 st"
    using p q c by (simp_all add: word_unat_eq_iff)
qed

lemma clock_dec:
  assumes "clock_of st \<noteq> 0"
  shows "unat (clock_of (st - TP_CLOCK_ONE)) = unat (clock_of st) - 1"
    "take_bit 6 (st - TP_CLOCK_ONE) = take_bit 6 st"
    "drop_bit 9 (st - TP_CLOCK_ONE) = drop_bit 9 st"
proof -
  obtain h c f where s: "unat st = 512 * h + 64 * c + f" "f < 64" "c < 8" by (rule status_split)
  note p = status_eqI [OF s]
  obtain c' where c: "c = Suc c'" using assms p(1) by (cases c) (auto simp: unat_eq_zero)
  have "64 \<le> unat st" using s(1) c by simp
  then have "unat (st - TP_CLOCK_ONE) = 512 * h + 64 * c' + f"
    using s(1) c by (simp add: tp_flags unat_sub word_le_nat_alt)
  note q = status_eqI [OF this s(2)]
  show "unat (clock_of (st - TP_CLOCK_ONE)) = unat (clock_of st) - 1"
    "take_bit 6 (st - TP_CLOCK_ONE) = take_bit 6 st" "drop_bit 9 (st - TP_CLOCK_ONE) = drop_bit 9 st"
    using p q s(3) c by (simp_all add: word_unat_eq_iff)
qed

lemma flags_eq_bits: "take_bit 6 a = take_bit 6 (b :: uint32) \<Longrightarrow> k < 6 \<Longrightarrow> bit a k = bit b k"
  by (metis bit_take_bit_iff)

lemma clock_set:
  assumes "v \<le> TP_CLOCK_MAX"
  shows "clock_of ((st AND NOT TP_CLOCK_MASK) OR push_bit TP_CLOCK_SHIFT v) = v"
    "take_bit 6 ((st AND NOT TP_CLOCK_MASK) OR push_bit TP_CLOCK_SHIFT v) = take_bit 6 st"
    "drop_bit 9 ((st AND NOT TP_CLOCK_MASK) OR push_bit TP_CLOCK_SHIFT v) = drop_bit 9 st"
proof -
  have m: "(448 :: uint32) = push_bit 6 (mask 3)" "(7 :: uint32) = mask 3"
    by (simp_all add: mask_eq_exp_minus_1 push_bit_eq_mult)
  have v: "\<not> bit v n" if "3 \<le> n" for n
  proof -
    have "unat v < 8" using assms by (simp add: tp_flags word_le_nat_alt)
    then have "take_bit 3 (unat v) = unat v" by (simp add: take_bit_nat_eq_self)
    then have "take_bit 3 v = v" by (metis unsigned_take_bit_eq word_unat_eq_iff)
    then show ?thesis using that by (metis bit_take_bit_iff not_less)
  qed
  note defs = tp_flags m bit_simps
  show "clock_of ((st AND NOT TP_CLOCK_MASK) OR push_bit TP_CLOCK_SHIFT v) = v"
    unfolding clock_of_def defs by (rule bit_eqI) (use v in \<open>auto simp: bit_simps not_le [symmetric]\<close>)
  show "take_bit 6 ((st AND NOT TP_CLOCK_MASK) OR push_bit TP_CLOCK_SHIFT v) = take_bit 6 st"
    unfolding defs by (rule bit_eqI) (auto simp: bit_simps)
  show "drop_bit 9 ((st AND NOT TP_CLOCK_MASK) OR push_bit TP_CLOCK_SHIFT v) = drop_bit 9 st"
    unfolding defs by (rule bit_eqI) (use v in \<open>auto simp: bit_simps dest: bit_imp_le_length\<close>)
qed

section \<open>One eviction attempt\<close>

lemma upd_entry_simps [simp]:
  "tp_entry (upd_entry cc e f) = (tp_entry cc)(e := f (tp_entry cc e))"
  "tp_data (upd_entry cc e f) = tp_data cc" "tp_lookup (upd_entry cc e f) = tp_lookup cc"
  "tp_refcount (upd_entry cc e f) = tp_refcount cc" "tp_pincount (upd_entry cc e f) = tp_pincount cc"
  "tp_disk (upd_entry cc e f) = tp_disk cc" "tp_io (upd_entry cc e f) = tp_io cc"
  "free_hand (upd_entry cc e f) = free_hand cc"
  by (simp_all add: upd_entry_def)

lemma upd_entry_upd_entry [simp]: "upd_entry (upd_entry cc e f) e g = upd_entry cc e (\<lambda>en. g (f en))"
  by (simp add: upd_entry_def)

lemma upd_entry_same: "f (tp_entry cc e) = tp_entry cc e \<Longrightarrow> upd_entry cc e f = cc"
  by (simp add: upd_entry_def)

lemma ref_frame [simp]:
  "tp_entry (treepass_inc_ref cfg cc e t) = tp_entry cc" "tp_entry (treepass_dec_ref cfg cc e t) = tp_entry cc"
  "tp_pincount (treepass_inc_ref cfg cc e t) = tp_pincount cc" "tp_pincount (treepass_dec_ref cfg cc e t) = tp_pincount cc"
  "tp_data (treepass_inc_ref cfg cc e t) = tp_data cc" "tp_data (treepass_dec_ref cfg cc e t) = tp_data cc"
  "tp_lookup (treepass_inc_ref cfg cc e t) = tp_lookup cc" "tp_lookup (treepass_dec_ref cfg cc e t) = tp_lookup cc"
  "tp_disk (treepass_inc_ref cfg cc e t) = tp_disk cc" "tp_disk (treepass_dec_ref cfg cc e t) = tp_disk cc"
  "tp_io (treepass_inc_ref cfg cc e t) = tp_io cc" "tp_io (treepass_dec_ref cfg cc e t) = tp_io cc"
  by (simp_all add: treepass_inc_ref_def treepass_dec_ref_def)

lemma ref_commute:
  "treepass_inc_ref cfg (upd_entry cc e f) e' t = upd_entry (treepass_inc_ref cfg cc e' t) e f"
  "treepass_dec_ref cfg (upd_entry cc e f) e' t = upd_entry (treepass_dec_ref cfg cc e' t) e f"
  by (simp_all add: upd_entry_def treepass_inc_ref_def treepass_dec_ref_def)

lemma dec_inc_ref [simp]: "treepass_dec_ref cfg (treepass_inc_ref cfg cc e t) e t = cc"
  by (simp add: treepass_inc_ref_def treepass_dec_ref_def)

lemma get_ref_frame [simp]: "treepass_get_ref cfg (upd_entry cc e f) e' t = treepass_get_ref cfg cc e' t"
  by (simp add: treepass_get_ref_def)

lemma get_pin_frame [simp]:
  "treepass_get_pin cfg (upd_entry cc e f) e' = treepass_get_pin cfg cc e'"
  "treepass_get_pin cfg (treepass_inc_ref cfg' cc e t) e' = treepass_get_pin cfg cc e'"
  by (simp_all add: treepass_get_pin_def treepass_inc_ref_def)

text \<open>Stripes of different threads are different counters.\<close>

lemma ref_index_stripe:
  assumes "treepass_get_ref_internal cfg e < page_capacity cfg" "a < TP_RC_WIDTH" "b < TP_RC_WIDTH" "a \<noteq> b"
  shows "ref_index cfg e a \<noteq> ref_index cfg e b"
proof -
  have "(a * page_capacity cfg + treepass_get_ref_internal cfg e) div page_capacity cfg = a" for a
    using assms(1) by simp
  then show ?thesis using assms(2-) by (metis mod_less ref_index_def)
qed

lemma get_ref_internal_less:
  assumes "page_capacity cfg = 64 * n" "e < page_capacity cfg"
  shows "treepass_get_ref_internal cfg e < page_capacity cfg"
proof -
  have c: "cacheline_capacity cfg = n" "0 < n"
    using assms by (auto simp: cacheline_capacity_def PLATFORM_CACHELINE_SIZE_def)
  have "e mod n < n" "e div n < 64" using assms c(2) by (simp_all add: less_mult_imp_div_less mult.commute)
  then have "e mod n * 64 + e div n < n * 64" by simp
  then show ?thesis using assms(1) c by (simp add: treepass_get_ref_internal_def PLATFORM_CACHELINE_SIZE_def mult.commute)
qed

text \<open>No thread has a reference: every stripe is zero.\<close>

definition unreferenced :: "treepass_config \<Rightarrow> 'p treepass \<Rightarrow> nat \<Rightarrow> bool" where
  "unreferenced cfg cc e \<longleftrightarrow> (\<forall>t<TP_RC_WIDTH. treepass_get_ref cfg cc e t = 0)"

lemma other_readers_inc:
  assumes cap: "treepass_get_ref_internal cfg e < page_capacity cfg" and own: "treepass_get_ref cfg cc e tid = 0"
  shows "other_readers cfg tid (treepass_inc_ref cfg cc e tid) e \<longleftrightarrow> \<not> unreferenced cfg cc e"
proof -
  let ?t = "tid mod TP_RC_WIDTH"
  have t: "?t < TP_RC_WIDTH" by (simp add: TP_RC_WIDTH_def)
  have idx: "ref_index cfg e tid = ref_index cfg e ?t" by (simp add: ref_index_def)
  have same: "treepass_get_ref cfg (treepass_inc_ref cfg cc e tid) e ?t = 1" "treepass_get_ref cfg cc e ?t = 0"
    using own by (simp_all add: treepass_get_ref_def treepass_inc_ref_def idx)
  have diff: "treepass_get_ref cfg (treepass_inc_ref cfg cc e tid) e i = treepass_get_ref cfg cc e i"
    if "i < TP_RC_WIDTH" "i \<noteq> ?t" for i
    using ref_index_stripe [OF cap that(1) t that(2)] by (simp add: treepass_get_ref_def treepass_inc_ref_def idx)
  have "other_readers cfg tid (treepass_inc_ref cfg cc e tid) e
      \<longleftrightarrow> (\<exists>i<TP_RC_WIDTH. i \<noteq> ?t \<and> treepass_get_ref cfg cc e i \<noteq> 0)"
    unfolding other_readers_def using same(1) diff t by (auto split: if_splits)
  also have "\<dots> \<longleftrightarrow> \<not> unreferenced cfg cc e"
    unfolding unreferenced_def using same(2) by metis
  finally show ?thesis .
qed

definition evictable :: "treepass_config \<Rightarrow> 'p treepass \<Rightarrow> nat \<Rightarrow> bool" where
  "evictable cfg cc e \<longleftrightarrow> status (tp_entry cc e) = TP_EVICTABLE_STATUS \<and> unreferenced cfg cc e \<and> treepass_get_pin cfg cc e = 0"

text \<open>What a pass does before it tests a page: the early pass selects cold branch pages, the other one ticks the clock.\<close>

definition evict_candidate :: "'p treepass \<Rightarrow> nat \<Rightarrow> bool \<Rightarrow> bool" where
  "evict_candidate cc e ee_pass \<longleftrightarrow>
     (if ee_pass then etype (tp_entry cc e) = PAGE_TYPE_BRANCH \<and> entry_time (tp_entry cc e) = 0
      else treepass_get_clock cc e = 0)"

definition evict_tick :: "'p treepass \<Rightarrow> nat \<Rightarrow> bool \<Rightarrow> 'p treepass" where
  "evict_tick cc e ee_pass = (if ee_pass then cc else snd (treepass_try_dec_clock cc e))"

lemma tick_candidate: "evict_candidate cc e ee_pass \<Longrightarrow> evict_tick cc e ee_pass = cc"
  by (simp add: evict_candidate_def evict_tick_def treepass_try_dec_clock_def split: if_splits)

lemma set_lookup_upd_entry: "set_lookup cfg (upd_entry cc e f) a n = upd_entry (set_lookup cfg cc a n) e f"
  by (simp add: set_lookup_def upd_entry_def)

lemma set_lookup_simps [simp]:
  "tp_entry (set_lookup cfg cc a n) = tp_entry cc" "tp_data (set_lookup cfg cc a n) = tp_data cc"
  "tp_lookup (set_lookup cfg cc a n) = (tp_lookup cc)(treepass_divide_by_page_size cfg a := n)"
  "tp_refcount (set_lookup cfg cc a n) = tp_refcount cc" "tp_pincount (set_lookup cfg cc a n) = tp_pincount cc"
  "tp_disk (set_lookup cfg cc a n) = tp_disk cc" "tp_io (set_lookup cfg cc a n) = tp_io cc"
  by (simp_all add: set_lookup_def)

lemma other_readers_upd: "other_readers cfg tid (upd_entry cc e f) e' = other_readers cfg tid cc e'"
  unfolding other_readers_def get_ref_frame ..

lemma release_entry_locked:
  "release_entry cfg (upd_entry cc e (\<lambda>en. en\<lparr>status := s\<rparr>)) e = release_entry cfg cc e"
  by (cases "disk_addr (tp_entry cc e) = TP_UNMAPPED_ADDR") (simp_all add: release_entry_def set_lookup_upd_entry)

lemma release_entry_ref:
  "treepass_dec_ref cfg (release_entry cfg (treepass_inc_ref cfg cc e t) e) e t = release_entry cfg cc e"
  by (simp add: release_entry_def set_lookup_def upd_entry_def treepass_inc_ref_def treepass_dec_ref_def Let_def)

lemma try_evict_result:
  assumes cap: "treepass_get_ref_internal cfg e < page_capacity cfg"
  shows "treepass_try_evict cfg tid cc e ee_pass =
    (if evict_candidate cc e ee_pass \<and> evictable cfg cc e
     then (if has_waiters (tp_entry cc e) then None else Some (True, release_entry cfg cc e))
     else Some (False, evict_tick cc e ee_pass))"
proof (cases "evict_candidate cc e ee_pass")
  case False
  then show ?thesis
    by (cases ee_pass) (auto simp: treepass_try_evict_def evict_candidate_def evict_tick_def treepass_try_dec_clock_def)
next
  case cand: True
  note tick = tick_candidate [OF cand]
  have start: "(if ee_pass then (etype (tp_entry cc e) = PAGE_TYPE_BRANCH \<and> entry_time (tp_entry cc e) = 0, cc)
             else let (had_clock, c) = treepass_try_dec_clock cc e in (\<not> had_clock, c)) = (True, cc)"
    using cand by (auto simp: evict_candidate_def treepass_try_dec_clock_def split: if_splits)
  let ?fast = "treepass_get_status cc e \<noteq> TP_EVICTABLE_STATUS \<or> treepass_get_ref cfg cc e tid \<noteq> 0 \<or> treepass_get_pin cfg cc e \<noteq> 0"
  show ?thesis
  proof (cases ?fast)
    case True
    have "\<not> evictable cfg cc e"
    proof
      assume ev: "evictable cfg cc e"
      have "treepass_get_ref cfg cc e (tid mod TP_RC_WIDTH) = 0"
        using ev by (simp add: evictable_def unreferenced_def TP_RC_WIDTH_def)
      then have "treepass_get_ref cfg cc e tid = 0" by (simp add: treepass_get_ref_def ref_index_def)
      with ev True show False by (simp add: evictable_def treepass_get_status_def)
    qed
    with True show ?thesis by (simp add: treepass_try_evict_def start tick)
  next
    case False
    then have st: "status (tp_entry cc e) = 2" and own: "treepass_get_ref cfg cc e tid = 0" and pin: "treepass_get_pin cfg cc e = 0"
      by (auto simp: treepass_get_status_def tp_flags)
    define c1 where "c1 = treepass_inc_ref cfg cc e tid"
    have c1e: "tp_entry c1 = tp_entry cc" by (simp add: c1_def)
    have read: "treepass_try_get_read cfg tid cc e False = (GET_RC_SUCCESS, c1)"
      by (simp add: treepass_try_get_read_def treepass_test_flag_def treepass_get_status_def st c1e c1_def [symmetric] tp_flags Let_def)
    define c2 where "c2 = upd_entry c1 e (\<lambda>en. en\<lparr>status := 34\<rparr>)"
    have claim: "treepass_try_get_claim c1 e = (GET_RC_SUCCESS, c2)"
      by (simp add: treepass_try_get_claim_def treepass_set_flag_def treepass_get_status_def c1e st tp_flags c2_def upd_entry_def)
    have load: "treepass_test_flag c2 e TP_LOADING = 0"
      by (simp add: treepass_test_flag_def treepass_get_status_def c2_def tp_flags)
    have busy: "other_readers cfg tid (upd_entry c1 e f) e \<longleftrightarrow> \<not> unreferenced cfg cc e" for f
      using other_readers_inc [OF cap own] by (simp add: other_readers_upd c1_def)
    define c3 where "c3 = upd_entry c1 e (\<lambda>en. en\<lparr>status := 50\<rparr>)"
    have set3: "upd_entry c2 e (\<lambda>en. en\<lparr>status := status en OR TP_WRITELOCKED\<rparr>) = c3"
      by (simp add: c2_def c3_def tp_flags)
    have wr: "treepass_try_get_write cfg tid c2 e =
        (if unreferenced cfg cc e then (GET_RC_SUCCESS, c3) else (GET_RC_CONFLICT, c2))"
    proof -
      have "treepass_test_flag c3 e TP_WRITEBACK = 0"
        by (simp add: treepass_test_flag_def treepass_get_status_def c3_def tp_flags)
      moreover have "snd (treepass_clear_flag c3 e TP_WRITELOCKED) = c2"
        by (simp add: treepass_clear_flag_def c3_def c2_def tp_flags)
      moreover have "other_readers cfg tid c3 e \<longleftrightarrow> \<not> unreferenced cfg cc e"
        unfolding c3_def by (rule busy)
      ultimately show ?thesis
        by (simp add: treepass_try_get_write_def treepass_set_flag_def set3 Let_def)
    qed
    have unclaim: "treepass_dec_ref cfg (snd (treepass_clear_flag c2 e TP_CLAIMED)) e tid = cc"
    proof -
      have "snd (treepass_clear_flag c2 e TP_CLAIMED) = c1"
        using st by (simp add: treepass_clear_flag_def c2_def tp_flags upd_entry_same c1e)
      then show ?thesis by (simp add: c1_def)
    qed
    have locked: "treepass_get_status c3 e = TP_LOCKED_EVICTABLE_STATUS" "treepass_get_pin cfg c3 e = 0" "has_waiters (tp_entry c3 e) = has_waiters (tp_entry cc e)"
      using pin by (simp_all add: treepass_get_status_def c3_def c1_def tp_flags)
    have rel: "treepass_dec_ref cfg (release_entry cfg c3 e) e tid = release_entry cfg cc e"
      unfolding c3_def c1_def release_entry_locked by (rule release_entry_ref)
    have ev: "evictable cfg cc e \<longleftrightarrow> unreferenced cfg cc e"
      using st pin by (simp add: evictable_def tp_flags)
    show ?thesis
      using False cand by (simp add: treepass_try_evict_def start read claim load wr unclaim locked rel ev tick)
  qed
qed


section \<open>Passes over a batch and over the cache\<close>

text \<open>What an attempt makes of the entry itself; \<open>idle\<close>: no reference and no pin.\<close>

definition idle :: "treepass_config \<Rightarrow> 'p treepass \<Rightarrow> nat \<Rightarrow> bool" where
  "idle cfg cc e \<longleftrightarrow> unreferenced cfg cc e \<and> treepass_get_pin cfg cc e = 0"

definition freed :: "treepass_entry \<Rightarrow> treepass_entry" where
  "freed en = (if disk_addr en \<noteq> TP_UNMAPPED_ADDR then en\<lparr>disk_addr := TP_UNMAPPED_ADDR, entry_time := 0\<rparr> else en)
     \<lparr>etype := PAGE_TYPE_INVALID, status := TP_FREE_STATUS\<rparr>"

definition goes :: "bool \<Rightarrow> bool \<Rightarrow> treepass_entry \<Rightarrow> bool" where
  "goes ee_pass unused en \<longleftrightarrow>
     (if ee_pass then etype en = PAGE_TYPE_BRANCH \<and> entry_time en = 0 else clock_of (status en) = 0) \<and>
     status en = TP_EVICTABLE_STATUS \<and> unused"

definition pass_entry :: "bool \<Rightarrow> bool \<Rightarrow> treepass_entry \<Rightarrow> treepass_entry" where
  "pass_entry ee_pass unused en =
     (if goes ee_pass unused en then freed en
      else if \<not> ee_pass \<and> clock_of (status en) \<noteq> 0 then en\<lparr>status := status en - TP_CLOCK_ONE\<rparr> else en)"

lemma release_entry_simps [simp]:
  "tp_entry (release_entry cfg cc e) = (tp_entry cc)(e := freed (tp_entry cc e))"
  "tp_data (release_entry cfg cc e) = tp_data cc" "tp_disk (release_entry cfg cc e) = tp_disk cc"
  "tp_io (release_entry cfg cc e) = tp_io cc" "tp_refcount (release_entry cfg cc e) = tp_refcount cc"
  "tp_pincount (release_entry cfg cc e) = tp_pincount cc"
  "tp_lookup (release_entry cfg cc e) =
     (if disk_addr (tp_entry cc e) \<noteq> TP_UNMAPPED_ADDR
      then (tp_lookup cc)(treepass_divide_by_page_size cfg (disk_addr (tp_entry cc e)) := TP_UNMAPPED_ENTRY) else tp_lookup cc)"
  by (simp_all add: release_entry_def freed_def Let_def)

lemma idle_cong: "tp_refcount cc' = tp_refcount cc \<Longrightarrow> tp_pincount cc' = tp_pincount cc \<Longrightarrow> idle cfg cc' = idle cfg cc"
  by (simp add: idle_def unreferenced_def treepass_get_ref_def treepass_get_pin_def fun_eq_iff)

lemma try_evict_entry:
  assumes "treepass_get_ref_internal cfg e < page_capacity cfg" "\<not> has_waiters (tp_entry cc e)"
  obtains cc' where "treepass_try_evict cfg tid cc e ee_pass = Some (goes ee_pass (idle cfg cc e) (tp_entry cc e), cc')"
    "tp_entry cc' = (tp_entry cc)(e := pass_entry ee_pass (idle cfg cc e) (tp_entry cc e))"
    "tp_refcount cc' = tp_refcount cc" "tp_pincount cc' = tp_pincount cc"
proof -
  have g: "evict_candidate cc e ee_pass \<and> evictable cfg cc e \<longleftrightarrow> goes ee_pass (idle cfg cc e) (tp_entry cc e)"
    by (auto simp: evict_candidate_def evictable_def goes_def idle_def treepass_get_clock_def treepass_get_status_def)
  note sp = try_evict_result [OF assms(1), of tid cc ee_pass, unfolded g]
  show ?thesis
  proof (cases "goes ee_pass (idle cfg cc e) (tp_entry cc e)")
    case True
    then show ?thesis by (intro that [of "release_entry cfg cc e"]) (simp_all add: sp pass_entry_def assms(2))
  next
    case False
    then show ?thesis
      by (intro that [of "evict_tick cc e ee_pass"])
        (auto simp: sp pass_entry_def evict_tick_def treepass_try_dec_clock_def treepass_get_clock_def treepass_get_status_def)
  qed
qed

lemma evict_entries_spec:
  assumes "\<forall>e\<in>set es. treepass_get_ref_internal cfg e < page_capacity cfg \<and> \<not> has_waiters (tp_entry cc e)" "distinct es"
  shows "\<exists>cc'. evict_entries cfg tid ee_pass es cc =
      Some (length (filter (\<lambda>e. goes ee_pass (idle cfg cc e) (tp_entry cc e)) es), cc')
    \<and> tp_entry cc' = (\<lambda>x. if x \<in> set es then pass_entry ee_pass (idle cfg cc x) (tp_entry cc x) else tp_entry cc x)
    \<and> tp_refcount cc' = tp_refcount cc \<and> tp_pincount cc' = tp_pincount cc"
  using assms
proof (induction es arbitrary: cc)
  case Nil
  then show ?case by auto
next
  case (Cons e es)
  obtain c1 where c1: "treepass_try_evict cfg tid cc e ee_pass = Some (goes ee_pass (idle cfg cc e) (tp_entry cc e), c1)"
    "tp_entry c1 = (tp_entry cc)(e := pass_entry ee_pass (idle cfg cc e) (tp_entry cc e))"
    "tp_refcount c1 = tp_refcount cc" "tp_pincount c1 = tp_pincount cc"
    using try_evict_entry [of cfg e cc tid ee_pass] Cons.prems by auto
  have id: "idle cfg c1 = idle cfg cc" by (rule idle_cong) (fact c1(3,4))+
  have same: "tp_entry c1 x = tp_entry cc x" if "x \<in> set es" for x
    using that Cons.prems(2) by (auto simp: c1(2))
  have pre: "\<forall>x\<in>set es. treepass_get_ref_internal cfg x < page_capacity cfg \<and> \<not> has_waiters (tp_entry c1 x)" "distinct es"
    using Cons.prems by (auto simp: same)
  obtain c2 where c2: "evict_entries cfg tid ee_pass es c1 =
      Some (length (filter (\<lambda>e. goes ee_pass (idle cfg c1 e) (tp_entry c1 e)) es), c2)"
    "tp_entry c2 = (\<lambda>x. if x \<in> set es then pass_entry ee_pass (idle cfg c1 x) (tp_entry c1 x) else tp_entry c1 x)"
    "tp_refcount c2 = tp_refcount c1" "tp_pincount c2 = tp_pincount c1"
    using Cons.IH [OF pre] by blast
  have "filter (\<lambda>e. goes ee_pass (idle cfg c1 e) (tp_entry c1 e)) es = filter (\<lambda>e. goes ee_pass (idle cfg cc e) (tp_entry cc e)) es"
    by (rule filter_cong) (simp_all add: same id)
  moreover have "tp_entry c2 = (\<lambda>x. if x \<in> set (e # es) then pass_entry ee_pass (idle cfg cc x) (tp_entry cc x) else tp_entry cc x)"
    using Cons.prems(2) by (auto simp: c2(2) id same c1(2))
  ultimately show ?case using c1 c2 by simp
qed

lemma waiters_pass [simp]: "has_waiters (pass_entry ee_pass r en) = has_waiters en"
  by (simp add: pass_entry_def freed_def)

text \<open>\<open>TP_CLOCK_MAX + 1\<close> clock passes: the clock goes to zero, and an unused clean page goes.\<close>

definition drained :: "bool \<Rightarrow> treepass_entry \<Rightarrow> treepass_entry" where
  "drained unused en =
     (if status en AND NOT TP_CLOCK_MASK = TP_EVICTABLE_STATUS \<and> unused then freed en
      else en\<lparr>status := status en AND NOT TP_CLOCK_MASK\<rparr>)"

lemma unclocked_nat:
  assumes s: "unat st = 512 * h + 64 * c + f" "f < 64" "c < 8"
  shows "unat (st AND NOT TP_CLOCK_MASK) = 512 * h + f"
proof -
  let ?u = "st AND NOT TP_CLOCK_MASK"
  have "?u = (st AND NOT TP_CLOCK_MASK) OR push_bit TP_CLOCK_SHIFT 0" by simp
  moreover have "(0 :: uint32) \<le> TP_CLOCK_MAX" by simp
  ultimately have u: "clock_of ?u = 0" "take_bit 6 ?u = take_bit 6 st" "drop_bit 9 ?u = drop_bit 9 st"
    using clock_set [of 0 st] by simp_all
  obtain h' c' f' where s': "unat ?u = 512 * h' + 64 * c' + f'" "f' < 64" "c' < 8" by (rule status_split)
  show ?thesis using status_eqI [OF s] status_eqI [OF s'] u s'(1) by simp
qed

lemma unclocked_dec: 
  assumes "clock_of st \<noteq> 0"
  shows "(st - TP_CLOCK_ONE) AND NOT TP_CLOCK_MASK = st AND NOT TP_CLOCK_MASK"
proof -
  obtain h c f where s: "unat st = 512 * h + 64 * c + f" "f < 64" "c < 8" by (rule status_split)
  obtain h' c' f' where s': "unat (st - TP_CLOCK_ONE) = 512 * h' + 64 * c' + f'" "f' < 64" "c' < 8" by (rule status_split)
  show ?thesis
    using clock_dec(2,3) [OF assms] status_eqI [OF s] status_eqI [OF s'] unclocked_nat [OF s] unclocked_nat [OF s']
    by (simp add: word_unat_eq_iff)
qed

lemma unclocked_zero: "clock_of st = 0 \<Longrightarrow> st AND NOT TP_CLOCK_MASK = st"
proof -
  assume z: "clock_of st = 0"
  obtain h c f where s: "unat st = 512 * h + 64 * c + f" "f < 64" "c < 8" by (rule status_split)
  show ?thesis using z status_eqI(1) [OF s] unclocked_nat [OF s] s(1) by (simp add: word_unat_eq_iff)
qed

lemma passes_free: "(pass_entry False r ^^ n) (freed en) = freed en"
proof (induction n)
  case (Suc n)
  have "pass_entry False r (freed en) = freed en"
    by (simp add: pass_entry_def goes_def freed_def tp_flags clock_of_def)
  with Suc show ?case by simp
qed simp

lemma passes_drain:
  "unat (clock_of (status en)) < n \<Longrightarrow> (pass_entry False r ^^ n) en = drained r en"
proof (induction n arbitrary: en)
  case (Suc n)
  show ?case
  proof (cases "clock_of (status en) = 0")
    case True
    show ?thesis
    proof (cases "goes False r en")
      case go: True
      then have "pass_entry False r en = freed en" by (simp add: pass_entry_def)
      moreover have "drained r en = freed en"
        using go unclocked_zero [OF True] by (simp add: drained_def goes_def)
      ultimately show ?thesis by (simp add: funpow_Suc_right passes_free del: funpow.simps)
    next
      case False
      then have p: "pass_entry False r en = en" using True by (simp add: pass_entry_def)
      have "(pass_entry False r ^^ k) en = en" for k by (induction k) (simp_all add: p)
      moreover have "drained r en = en"
        using False True by (auto simp: drained_def goes_def unclocked_zero)
      ultimately show ?thesis by (simp add: p)
    qed
  next
    case False
    let ?en = "en\<lparr>status := status en - TP_CLOCK_ONE\<rparr>"
    have p: "pass_entry False r en = ?en" using False by (simp add: pass_entry_def goes_def)
    have "0 < unat (clock_of (status en))" using False by (simp add: unat_gt_0)
    then have "unat (clock_of (status ?en)) < n" using Suc.prems by (simp add: clock_dec [OF False])
    then have "(pass_entry False r ^^ n) ?en = drained r ?en" by (rule Suc.IH)
    also have "\<dots> = drained r en" by (simp add: drained_def unclocked_dec [OF False] freed_def)
    finally show ?thesis by (simp add: funpow_Suc_right p del: funpow.simps)
  qed
qed simp

lemma fold_opt_append: "fold_opt f (xs @ ys) s = Option.bind (fold_opt f xs s) (fold_opt f ys)"
  by (induction xs arbitrary: s) (auto simp: bind_eq_Some_conv split: Option.bind_split)

definition batch_ready :: "treepass_config \<Rightarrow> 'p treepass \<Rightarrow> nat \<Rightarrow> bool" where
  "batch_ready cfg cc n \<longleftrightarrow> (\<forall>e<n. treepass_get_ref_internal cfg e < page_capacity cfg \<and> \<not> has_waiters (tp_entry cc e))"

lemma batch_passes:
  assumes "batch_ready cfg cc (batch * TP_ENTRIES_PER_BATCH + TP_ENTRIES_PER_BATCH)"
  shows "\<exists>cc'. fold_opt (\<lambda>_ c. treepass_evict_batch cfg tid now c batch False) [0..<n] cc = Some cc'
    \<and> tp_entry cc' = (\<lambda>x. if x \<in> set (batch_entries batch) then (pass_entry False (idle cfg cc x) ^^ n) (tp_entry cc x) else tp_entry cc x)
    \<and> tp_refcount cc' = tp_refcount cc \<and> tp_pincount cc' = tp_pincount cc"
proof (induction n)
  case (Suc n)
  then obtain c1 where c1: "fold_opt (\<lambda>_ c. treepass_evict_batch cfg tid now c batch False) [0..<n] cc = Some c1"
    "tp_entry c1 = (\<lambda>x. if x \<in> set (batch_entries batch) then (pass_entry False (idle cfg cc x) ^^ n) (tp_entry cc x) else tp_entry cc x)"
    "tp_refcount c1 = tp_refcount cc" "tp_pincount c1 = tp_pincount cc" by blast
  have w: "has_waiters ((pass_entry False r ^^ n) en) = has_waiters en" for r en by (induction n) simp_all
  have id: "idle cfg c1 = idle cfg cc" by (rule idle_cong) (fact c1(3,4))+
  have "\<forall>e\<in>set (batch_entries batch). treepass_get_ref_internal cfg e < page_capacity cfg \<and> \<not> has_waiters (tp_entry c1 e)"
    using assms by (auto simp: batch_ready_def batch_entries_def c1(2) w)
  moreover have "distinct (batch_entries batch)" by (simp add: batch_entries_def)
  ultimately obtain k c2 where c2: "evict_entries cfg tid False (batch_entries batch) c1 = Some (k, c2)"
    "tp_entry c2 = (\<lambda>x. if x \<in> set (batch_entries batch) then pass_entry False (idle cfg c1 x) (tp_entry c1 x) else tp_entry c1 x)"
    "tp_refcount c2 = tp_refcount c1" "tp_pincount c2 = tp_pincount c1"
    using evict_entries_spec [of "batch_entries batch" cfg c1 tid False] by blast
  then have "treepass_evict_batch cfg tid now c1 batch False = Some c2" by (simp add: treepass_evict_batch_def)
  then show ?case using c1 c2 id by (simp add: fold_opt_append fun_eq_iff)
qed auto

lemma evict_batches_drain:
  assumes "batch_ready cfg cc (m * TP_ENTRIES_PER_BATCH)"
  shows "\<exists>cc'. fold_opt (\<lambda>b c. fold_opt (\<lambda>_ c. treepass_evict_batch cfg tid now c b False) [0..<unat TP_CLOCK_MAX + 1] c) [0..<m] cc = Some cc'
    \<and> tp_entry cc' = (\<lambda>x. if x < m * TP_ENTRIES_PER_BATCH then drained (idle cfg cc x) (tp_entry cc x) else tp_entry cc x)
    \<and> tp_refcount cc' = tp_refcount cc \<and> tp_pincount cc' = tp_pincount cc"
  using assms
proof (induction m)
  case (Suc m)
  let ?f = "\<lambda>b c. fold_opt (\<lambda>_ c. treepass_evict_batch cfg tid now c b False) [0..<unat TP_CLOCK_MAX + 1] c"
  have "batch_ready cfg cc (m * TP_ENTRIES_PER_BATCH)" using Suc.prems by (simp add: batch_ready_def)
  then obtain c1 where c1: "fold_opt ?f [0..<m] cc = Some c1"
    "tp_entry c1 = (\<lambda>x. if x < m * TP_ENTRIES_PER_BATCH then drained (idle cfg cc x) (tp_entry cc x) else tp_entry cc x)"
    "tp_refcount c1 = tp_refcount cc" "tp_pincount c1 = tp_pincount cc" using Suc.IH by blast
  have id: "idle cfg c1 = idle cfg cc" by (rule idle_cong) (fact c1(3,4))+
  have w: "has_waiters (drained r en) = has_waiters en" for r en by (simp add: drained_def freed_def)
  have "batch_ready cfg c1 (m * TP_ENTRIES_PER_BATCH + TP_ENTRIES_PER_BATCH)"
    using Suc.prems by (simp add: batch_ready_def c1(2) w add.commute)
  from batch_passes [OF this, of tid now "unat TP_CLOCK_MAX + 1"] obtain c2 where c2: "?f m c1 = Some c2"
    "tp_entry c2 = (\<lambda>x. if x \<in> set (batch_entries m) then (pass_entry False (idle cfg c1 x) ^^ (unat TP_CLOCK_MAX + 1)) (tp_entry c1 x) else tp_entry c1 x)"
    "tp_refcount c2 = tp_refcount c1" "tp_pincount c2 = tp_pincount c1" by blast
  have lt: "unat (clock_of st) < unat TP_CLOCK_MAX + 1" for st
    using clock_of_le [of st] by (simp add: tp_flags)
  have "tp_entry c2 x = (if x < Suc m * TP_ENTRIES_PER_BATCH then drained (idle cfg cc x) (tp_entry cc x) else tp_entry cc x)" for x
    unfolding c2(2) passes_drain [OF lt] id by (auto simp: c1(2) batch_entries_def)
  then show ?case using c1 c2 by (simp add: fold_opt_append fun_eq_iff)
qed auto


text \<open>
  C6: The early-eviction pass over a batch returns the number of pages it evicted. It frees exactly the
  branch pages without an entry time that are clean, unlocked, idle and have clock zero; every other entry,
  with its clock, and all reference and pin counts are as before.
\<close>

theorem evict_batch_ee_spec:
  assumes "page_capacity cfg = 64 * n" "batch < n" "\<forall>e<page_capacity cfg. \<not> has_waiters (tp_entry cc e)"
  defines "victim \<equiv> \<lambda>e. etype (tp_entry cc e) = PAGE_TYPE_BRANCH \<and> entry_time (tp_entry cc e) = 0
      \<and> status (tp_entry cc e) = TP_EVICTABLE_STATUS \<and> unreferenced cfg cc e \<and> treepass_get_pin cfg cc e = 0"
  shows "\<exists>cc'. treepass_evict_batch_ee cfg tid cc batch = Some (length (filter victim (batch_entries batch)), cc') \<and>
    (\<forall>e. tp_entry cc' e =
       (if e div TP_ENTRIES_PER_BATCH = batch \<and> victim e then freed (tp_entry cc e) else tp_entry cc e)) \<and>
    tp_refcount cc' = tp_refcount cc \<and> tp_pincount cc' = tp_pincount cc"
proof -
  have m: "e \<in> set (batch_entries batch) \<longleftrightarrow> e div TP_ENTRIES_PER_BATCH = batch" for e
    by (auto simp: batch_entries_def TP_ENTRIES_PER_BATCH_def)
  have v: "goes True (idle cfg cc e) (tp_entry cc e) = victim e" for e
    by (simp add: goes_def idle_def victim_def)
  have "e < page_capacity cfg" if "e \<in> set (batch_entries batch)" for e
    using that assms(1,2) by (auto simp: batch_entries_def TP_ENTRIES_PER_BATCH_def)
  then have "\<forall>e\<in>set (batch_entries batch). treepass_get_ref_internal cfg e < page_capacity cfg \<and> \<not> has_waiters (tp_entry cc e)"
    using get_ref_internal_less [OF assms(1)] assms(3) by blast
  from evict_entries_spec [OF this, of tid True] have "\<exists>cc'. evict_entries cfg tid True (batch_entries batch) cc =
      Some (length (filter (\<lambda>e. goes True (idle cfg cc e) (tp_entry cc e)) (batch_entries batch)), cc')
    \<and> tp_entry cc' = (\<lambda>x. if x \<in> set (batch_entries batch) then pass_entry True (idle cfg cc x) (tp_entry cc x) else tp_entry cc x)
    \<and> tp_refcount cc' = tp_refcount cc \<and> tp_pincount cc' = tp_pincount cc"
    by (simp add: batch_entries_def)
  then show ?thesis
    unfolding treepass_evict_batch_ee_def v by (auto simp: pass_entry_def v m)
qed

section \<open>Clock inheritance, the eviction interval and the counters\<close>

lemma clock_word_less: "clock_of st < 8"
  using clock_of_le [of st] by (simp add: word_less_nat_alt)

text \<open>
  C: a page that inherits the clock of the page it replaces has a clock between 1 and \<open>TP_CLOCK_MAX\<close>: the old clock
  divided by the divisor, at least 1, and 1 if the old page is not cached. The flags of both entries stay.
\<close>

definition inherited_clock :: "treepass_config \<Rightarrow> 'p treepass \<Rightarrow> uint64 \<Rightarrow> nat \<Rightarrow> nat" where
  "inherited_clock cfg cc old_addr divisor =
     (let old = treepass_lookup cfg cc old_addr
      in if old = TP_UNMAPPED_ENTRY then 1 else max 1 (unat (treepass_get_clock cc old) div max 1 divisor))"

text \<open>
  C17: A page that inherits the clock of the page it replaces has a clock between 1 and TP_CLOCK_MAX: the
  old clock divided by the divisor, at least 1, and 1 if the old page is not cached. The flags of the entry
  stay, and no other entry changes.
\<close>

theorem inherit_clock_spec:
  assumes "treepass_lookup cfg cc new_addr = e" "e \<noteq> TP_UNMAPPED_ENTRY"
  shows "let cc' = treepass_inherit_clock cfg cc old_addr new_addr divisor
    in unat (treepass_get_clock cc' e) = inherited_clock cfg cc old_addr (unat divisor) \<and>
       take_bit 6 (treepass_get_status cc' e) = take_bit 6 (treepass_get_status cc e) \<and>
       (\<forall>x. x = e \<or> tp_entry cc' x = tp_entry cc x)"
proof -
  let ?old = "treepass_lookup cfg cc old_addr"
  define c0 where "c0 = (if ?old \<noteq> TP_UNMAPPED_ENTRY then (if divisor > 1 then treepass_get_clock cc ?old div divisor
    else treepass_get_clock cc ?old) else 1)"
  define v where "v = (if c0 = 0 then 1 else c0)"
  have le: "unat (treepass_get_clock cc ?old) \<le> 7"
    using clock_of_le by (simp add: treepass_get_clock_def)
  have c0: "unat c0 = (if ?old = TP_UNMAPPED_ENTRY then 1 else unat (treepass_get_clock cc ?old) div max 1 (unat divisor))"
  proof (cases "divisor > 1")
    case True
    then show ?thesis by (simp add: c0_def unat_div word_less_nat_alt max_def)
  next
    case False
    then have "max 1 (unat divisor) = 1" by (simp add: word_less_nat_alt)
    with False show ?thesis by (simp add: c0_def)
  qed
  have v: "unat v = inherited_clock cfg cc old_addr (unat divisor)"
    using c0 unat_gt_0 [of c0] by (auto simp: v_def inherited_clock_def Let_def max_def split: if_splits)
  have "unat c0 \<le> 7" unfolding c0 using le by (auto intro: le_trans [OF div_le_dividend])
  then have vle: "v \<le> TP_CLOCK_MAX" by (simp add: v_def word_le_nat_alt tp_flags)
  note cs = clock_set [OF vle, of "status (tp_entry cc e)"]
  have upd: "treepass_set_clock cc e v = upd_entry cc e (\<lambda>en. en\<lparr>status := (status en AND NOT TP_CLOCK_MASK) OR push_bit TP_CLOCK_SHIFT v\<rparr>)"
    using vle by (simp add: treepass_set_clock_def Let_def)
  have inh: "treepass_inherit_clock cfg cc old_addr new_addr divisor =
      (if ?old \<noteq> TP_UNMAPPED_ENTRY \<and> entry_time (tp_entry (treepass_set_clock cc e v) ?old) \<noteq> 0
       then upd_entry (treepass_set_clock cc e v) e (\<lambda>en. en\<lparr>entry_time := entry_time (tp_entry (treepass_set_clock cc e v) ?old)\<rparr>)
       else treepass_set_clock cc e v)"
    using assms by (simp add: treepass_inherit_clock_def Let_def v_def c0_def)
  show ?thesis
    unfolding inh Let_def v [symmetric] using cs by (simp add: upd treepass_get_clock_def treepass_get_status_def)
qed

text \<open>The counters of different entries are different.\<close>

lemma get_ref_internal_inj:
  assumes "page_capacity cfg = 64 * n" "e < page_capacity cfg" "e' < page_capacity cfg"
    and eq: "treepass_get_ref_internal cfg e = treepass_get_ref_internal cfg e'"
  shows "e = e'"
proof -
  have c: "cacheline_capacity cfg = n" "0 < n"
    using assms by (auto simp: cacheline_capacity_def PLATFORM_CACHELINE_SIZE_def)
  have lt: "x div n < 64" if "x < 64 * n" for x using that by (simp add: less_mult_imp_div_less)
  have "(e mod n * 64 + e div n) div 64 = (e' mod n * 64 + e' div n) div 64" "(e mod n * 64 + e div n) mod 64 = (e' mod n * 64 + e' div n) mod 64"
    using eq by (simp_all add: treepass_get_ref_internal_def c PLATFORM_CACHELINE_SIZE_def)
  then have "e mod n = e' mod n" "e div n = e' div n"
    using lt assms(1-3) by (simp_all add: div_add1_eq)
  then show ?thesis by (metis div_mult_mod_eq)
qed

lemma ref_index_inj:
  assumes "page_capacity cfg = 64 * n" "e < page_capacity cfg" "e' < page_capacity cfg"
    and "ref_index cfg e t = ref_index cfg e' t'"
  shows "e = e' \<and> t mod TP_RC_WIDTH = t' mod TP_RC_WIDTH"
proof -
  let ?r = "treepass_get_ref_internal cfg"
  have r: "?r e < page_capacity cfg" "?r e' < page_capacity cfg" using get_ref_internal_less assms by blast+
  have p: "(k * page_capacity cfg + x) div page_capacity cfg = k" "(k * page_capacity cfg + x) mod page_capacity cfg = x"
    if "x < page_capacity cfg" for k x using that by simp_all
  have "t mod TP_RC_WIDTH = t' mod TP_RC_WIDTH" "?r e = ?r e'"
    using assms(4) p [OF r(1)] p [OF r(2)] unfolding ref_index_def by metis+
  then show ?thesis using get_ref_internal_inj assms by blast
qed

text \<open>
  C19: Taking or dropping a reference on a page touches the counter of that page and of that thread's stripe
  only: counters of different pages, and of different stripes of one page, are different words.
\<close>

theorem reference_counters_disjoint:
  assumes "page_capacity cfg = 64 * n" "e < page_capacity cfg" "e' < page_capacity cfg"
  shows "treepass_get_ref cfg (treepass_inc_ref cfg cc e t) e' t' =
      treepass_get_ref cfg cc e' t' + (if e = e' \<and> t mod TP_RC_WIDTH = t' mod TP_RC_WIDTH then 1 else 0)
    \<and> treepass_get_ref cfg (treepass_dec_ref cfg cc e t) e' t' =
      treepass_get_ref cfg cc e' t' - (if e = e' \<and> t mod TP_RC_WIDTH = t' mod TP_RC_WIDTH then 1 else 0)"
  using ref_index_inj [OF assms, of t t']
  by (auto simp: treepass_get_ref_def treepass_inc_ref_def treepass_dec_ref_def ref_index_def)


end
