(* ===== verification/TreePass_Coherence.thy ===== *)
theory TreePass_Coherence
  imports TreePass_Evict
begin

text \<open>
  Coherence of the page cache of \<open>treepass.c\<close>: the invariant that ties entries, lookup table, page data,
  device and pending writes together, the contents a reader of an address sees, and that eviction, writeback, the
  completion of writes and gets keep both.
\<close>

section \<open>The invariant and the contents of a page\<close>

definition aligned :: "treepass_config \<Rightarrow> uint64 \<Rightarrow> bool" where
  "aligned cfg a \<longleftrightarrow> take_bit (log_page_size cfg) a = 0"

definition cfg_ok :: "treepass_config \<Rightarrow> bool" where
  "cfg_ok cfg \<longleftrightarrow> 0 < log_page_size cfg \<and> log_page_size cfg < 64 \<and> page_capacity cfg mod 64 = 0
     \<and> 0 < page_capacity cfg \<and> page_capacity cfg \<le> TP_UNMAPPED_ENTRY"

definition mapped :: "'p treepass \<Rightarrow> nat \<Rightarrow> bool" where
  "mapped cc e \<longleftrightarrow> disk_addr (tp_entry cc e) \<noteq> TP_UNMAPPED_ADDR"

definition loading :: "'p treepass \<Rightarrow> nat \<Rightarrow> bool" where
  "loading cc e \<longleftrightarrow> bit (status (tp_entry cc e)) 3"

definition in_writeback :: "'p treepass \<Rightarrow> nat \<Rightarrow> bool" where
  "in_writeback cc e \<longleftrightarrow> bit (status (tp_entry cc e)) 2"

definition clean :: "'p treepass \<Rightarrow> nat \<Rightarrow> bool" where
  "clean cc e \<longleftrightarrow> bit (status (tp_entry cc e)) 1"

definition io_page :: "treepass_config \<Rightarrow> async_io_state \<Rightarrow> nat \<Rightarrow> uint64" where
  "io_page cfg st i = io_addr st + treepass_multiply_by_page_size cfg (word_of_nat i)"

definition io_ok :: "treepass_config \<Rightarrow> 'p treepass \<Rightarrow> async_io_state \<Rightarrow> bool" where
  "io_ok cfg cc st \<longleftrightarrow> (\<forall>i<length (io_entries st). let e = io_entries st ! i in
     e < page_capacity cfg \<and> mapped cc e \<and> in_writeback cc e \<and> \<not> loading cc e \<and> disk_addr (tp_entry cc e) = io_page cfg st i)"

definition entry_ok :: "treepass_config \<Rightarrow> 'p treepass \<Rightarrow> nat \<Rightarrow> bool" where
  "entry_ok cfg cc e \<longleftrightarrow>
     (if mapped cc e
      then aligned cfg (disk_addr (tp_entry cc e)) \<and> treepass_lookup cfg cc (disk_addr (tp_entry cc e)) = e
           \<and> \<not> bit (status (tp_entry cc e)) 0
           \<and> (clean cc e \<and> \<not> loading cc e \<longrightarrow> tp_data cc e = tp_disk cc (disk_addr (tp_entry cc e)))
      else take_bit 6 (status (tp_entry cc e)) \<noteq> 0)"

definition lookup_ok :: "treepass_config \<Rightarrow> 'p treepass \<Rightarrow> nat \<Rightarrow> bool" where
  "lookup_ok cfg cc n \<longleftrightarrow> (let e = tp_lookup cc n in e \<noteq> TP_UNMAPPED_ENTRY \<longrightarrow>
     e < page_capacity cfg \<and> mapped cc e \<and> treepass_divide_by_page_size cfg (disk_addr (tp_entry cc e)) = n)"

definition hand_ok :: "treepass_config \<Rightarrow> 'p treepass \<Rightarrow> nat \<Rightarrow> bool" where
  "hand_ok cfg cc t \<longleftrightarrow> free_hand cc t = TP_UNMAPPED_ENTRY \<or> free_hand cc t < batch_capacity cfg"

definition disjoint_io :: "async_io_state \<Rightarrow> async_io_state \<Rightarrow> bool" where
  "disjoint_io a b \<longleftrightarrow> set (io_entries a) \<inter> set (io_entries b) = {}"

definition tp_inv :: "treepass_config \<Rightarrow> 'p treepass \<Rightarrow> bool" where
  "tp_inv cfg cc \<longleftrightarrow> cfg_ok cfg \<and> (\<forall>e<page_capacity cfg. entry_ok cfg cc e) \<and> (\<forall>n. lookup_ok cfg cc n)
     \<and> (\<forall>t. hand_ok cfg cc t) \<and> (\<forall>st\<in>set (tp_io cc). io_ok cfg cc st) \<and> sorted_wrt disjoint_io (tp_io cc)"

text \<open>
  What a reader of the page at an address sees: the cached page, or the page on the device. A step coheres if it
  keeps the invariant and the contents of every page, and no thread loses its batch.
\<close>

definition page_view :: "treepass_config \<Rightarrow> 'p treepass \<Rightarrow> uint64 \<Rightarrow> 'p" where
  "page_view cfg cc a =
     (let e = treepass_lookup cfg cc a
      in if e \<noteq> TP_UNMAPPED_ENTRY \<and> \<not> loading cc e then tp_data cc e else tp_disk cc a)"

definition coheres :: "treepass_config \<Rightarrow> 'p treepass \<Rightarrow> 'p treepass \<Rightarrow> bool" where
  "coheres cfg cc cc' \<longleftrightarrow> (tp_inv cfg cc \<longrightarrow> tp_inv cfg cc' \<and> (\<forall>a. aligned cfg a \<longrightarrow> page_view cfg cc' a = page_view cfg cc a))
     \<and> (\<forall>t. free_hand cc t \<noteq> TP_UNMAPPED_ENTRY \<longrightarrow> free_hand cc' t \<noteq> TP_UNMAPPED_ENTRY)"

lemma coheres_refl [simp]: "coheres cfg cc cc"
  by (simp add: coheres_def)

lemma coheres_trans: "coheres cfg a b \<Longrightarrow> coheres cfg b c \<Longrightarrow> coheres cfg a c"
  by (simp add: coheres_def)

lemma coheresI:
  "free_hand cc' = free_hand cc \<Longrightarrow> (tp_inv cfg cc \<Longrightarrow> tp_inv cfg cc') \<Longrightarrow> (\<And>a. tp_inv cfg cc \<Longrightarrow> aligned cfg a \<Longrightarrow> page_view cfg cc' a = page_view cfg cc a) \<Longrightarrow> coheres cfg cc cc'"
  by (simp add: coheres_def)

lemma tp_invD:
  assumes "tp_inv cfg cc"
  shows "cfg_ok cfg" "e < page_capacity cfg \<Longrightarrow> entry_ok cfg cc e" "lookup_ok cfg cc n" "hand_ok cfg cc t"
    "st \<in> set (tp_io cc) \<Longrightarrow> io_ok cfg cc st" "sorted_wrt disjoint_io (tp_io cc)"
  using assms by (auto simp: tp_inv_def)

text \<open>Page numbers identify page-aligned addresses.\<close>

lemma divide_inj:
  assumes "aligned cfg a" "aligned cfg b" "treepass_divide_by_page_size cfg a = treepass_divide_by_page_size cfg b"
  shows "a = b"
proof -
  have "drop_bit (log_page_size cfg) a = drop_bit (log_page_size cfg) b"
    using assms(3) unfolding treepass_divide_by_page_size_def by (rule unsigned_word_eqI)
  then show ?thesis
    using assms(1,2) unfolding aligned_def by (metis bits_ident)
qed

lemma lookup_unique:
  assumes "tp_inv cfg cc" "aligned cfg a" "treepass_lookup cfg cc a = e" "e \<noteq> TP_UNMAPPED_ENTRY"
  shows "e < page_capacity cfg" "mapped cc e" "disk_addr (tp_entry cc e) = a"
proof -
  show e: "e < page_capacity cfg" "mapped cc e"
    using tp_invD(3) [OF assms(1), of "treepass_divide_by_page_size cfg a"] assms(3,4)
    by (auto simp: lookup_ok_def treepass_lookup_def Let_def)
  have "treepass_divide_by_page_size cfg (disk_addr (tp_entry cc e)) = treepass_divide_by_page_size cfg a"
    using tp_invD(3) [OF assms(1), of "treepass_divide_by_page_size cfg a"] assms(3,4)
    by (auto simp: lookup_ok_def treepass_lookup_def Let_def)
  moreover have "aligned cfg (disk_addr (tp_entry cc e))"
    using tp_invD(2) [OF assms(1) e(1)] e(2) by (simp add: entry_ok_def)
  ultimately show "disk_addr (tp_entry cc e) = a" using divide_inj assms(2) by blast
qed

lemma mapped_lookup:
  assumes "tp_inv cfg cc" "e < page_capacity cfg" "mapped cc e"
  shows "treepass_lookup cfg cc (disk_addr (tp_entry cc e)) = e" "aligned cfg (disk_addr (tp_entry cc e))" "e \<noteq> TP_UNMAPPED_ENTRY"
  using tp_invD(1) [OF assms(1)] tp_invD(2) [OF assms(1,2)] assms(2,3) by (auto simp: entry_ok_def cfg_ok_def)

section \<open>Steps that keep flags, addresses and data\<close>

definition same_pages :: "'p treepass \<Rightarrow> 'p treepass \<Rightarrow> bool" where
  "same_pages cc cc' \<longleftrightarrow>
     (\<forall>e. take_bit 6 (status (tp_entry cc' e)) = take_bit 6 (status (tp_entry cc e)) \<and> disk_addr (tp_entry cc' e) = disk_addr (tp_entry cc e))
     \<and> tp_data cc' = tp_data cc \<and> tp_lookup cc' = tp_lookup cc \<and> tp_disk cc' = tp_disk cc \<and> tp_io cc' = tp_io cc
     \<and> free_hand cc' = free_hand cc"

lemma same_pages_refl [simp]: "same_pages cc cc" by (simp add: same_pages_def)

lemma same_pages_trans: "same_pages a b \<Longrightarrow> same_pages b c \<Longrightarrow> same_pages a c" by (simp add: same_pages_def)

lemma same_pagesD:
  assumes "same_pages cc cc'"
  shows "mapped cc' = mapped cc" "loading cc' = loading cc" "clean cc' = clean cc" "in_writeback cc' = in_writeback cc"
    "bit (status (tp_entry cc' e)) 0 = bit (status (tp_entry cc e)) 0" "treepass_lookup cfg cc' = treepass_lookup cfg cc"
proof -
  have b: "bit (status (tp_entry cc' e)) k = bit (status (tp_entry cc e)) k" if "k < 6" for e k
    using assms that flags_eq_bits unfolding same_pages_def by blast
  show "mapped cc' = mapped cc" "treepass_lookup cfg cc' = treepass_lookup cfg cc"
    using assms by (simp_all add: same_pages_def mapped_def treepass_lookup_def fun_eq_iff)
  show "loading cc' = loading cc" "clean cc' = clean cc" "in_writeback cc' = in_writeback cc"
    "bit (status (tp_entry cc' e)) 0 = bit (status (tp_entry cc e)) 0"
    using b by (simp_all add: fun_eq_iff loading_def clean_def in_writeback_def)
qed

lemma same_pages_coheres:
  assumes "same_pages cc cc'"
  shows "coheres cfg cc cc'"
proof (rule coheresI)
  note d = same_pagesD [OF assms] and s = assms [unfolded same_pages_def]
  have "entry_ok cfg cc' e = entry_ok cfg cc e" for e using s by (simp add: entry_ok_def d)
  moreover have "lookup_ok cfg cc' n = lookup_ok cfg cc n" for n using s by (simp add: lookup_ok_def d)
  moreover have "io_ok cfg cc' st = io_ok cfg cc st" for st using s by (simp add: io_ok_def d)
  moreover have "hand_ok cfg cc' t = hand_ok cfg cc t" for t using s by (simp add: hand_ok_def)
  ultimately have i: "tp_inv cfg cc' = tp_inv cfg cc" using s by (simp add: tp_inv_def)
  show "tp_inv cfg cc \<Longrightarrow> tp_inv cfg cc'" by (simp add: i)
  show "free_hand cc' = free_hand cc" using s by simp
  show "page_view cfg cc' a = page_view cfg cc a" for a using s by (simp add: page_view_def d Let_def)
qed

section \<open>Eviction\<close>

lemma evictable_flags:
  assumes "status (tp_entry cc e) = TP_EVICTABLE_STATUS"
  shows "clean cc e" "\<not> loading cc e" "\<not> in_writeback cc e"
  using assms by (simp_all add: clean_def loading_def in_writeback_def tp_flags)

lemma freed_simps [simp]:
  "disk_addr (freed en) = TP_UNMAPPED_ADDR" "status (freed en) = TP_FREE_STATUS" "has_waiters (freed en) = has_waiters en"
  by (simp_all add: freed_def)

lemma free_hand_release [simp]: "free_hand (release_entry cfg cc e) = free_hand cc"
  by (simp add: release_entry_def set_lookup_def Let_def)

lemma entry_preds_other:
  assumes "tp_entry cc' x = tp_entry cc x"
  shows "mapped cc' x = mapped cc x" "loading cc' x = loading cc x" "clean cc' x = clean cc x" "in_writeback cc' x = in_writeback cc x"
  using assms by (simp_all add: mapped_def loading_def clean_def in_writeback_def)

lemma io_entry_writeback:
  assumes "tp_inv cfg cc" "st \<in> set (tp_io cc)" "e \<in> set (io_entries st)"
  shows "in_writeback cc e" "e < page_capacity cfg" "mapped cc e" "\<not> loading cc e"
proof -
  obtain i where "i < length (io_entries st)" "io_entries st ! i = e" using assms(3) by (auto simp: in_set_conv_nth)
  then show "in_writeback cc e" "e < page_capacity cfg" "mapped cc e" "\<not> loading cc e"
    using tp_invD(5) [OF assms(1,2)] by (auto simp: io_ok_def Let_def)
qed

text \<open>An entry outside every pending write may change: the pending writes stay well formed.\<close>

lemma io_ok_frame:
  assumes "tp_inv cfg cc" "st \<in> set (tp_io cc)" "\<And>x. in_writeback cc x \<Longrightarrow> tp_entry cc' x = tp_entry cc x"
  shows "io_ok cfg cc' st"
proof -
  have "tp_entry cc' x = tp_entry cc x" if "x \<in> set (io_entries st)" for x
    using assms(3) io_entry_writeback(1) [OF assms(1,2) that] by blast
  then show ?thesis
    using tp_invD(5) [OF assms(1,2)] by (auto simp: io_ok_def Let_def mapped_def loading_def in_writeback_def)
qed

lemma release_coheres:
  assumes "status (tp_entry cc e) = TP_EVICTABLE_STATUS" and e: "e < page_capacity cfg"
  shows "coheres cfg cc (release_entry cfg cc e)"
proof (rule coheresI)
  let ?cc = "release_entry cfg cc e" and ?a = "disk_addr (tp_entry cc e)"
  show "free_hand ?cc = free_hand cc" by simp
  assume inv: "tp_inv cfg cc"
  note fl = evictable_flags [OF assms(1)]
  have lk: "treepass_lookup cfg ?cc a = (if mapped cc e \<and> treepass_divide_by_page_size cfg a = treepass_divide_by_page_size cfg ?a
      then TP_UNMAPPED_ENTRY else treepass_lookup cfg cc a)" for a
    by (simp add: treepass_lookup_def mapped_def)
  have old: "tp_data cc e = tp_disk cc ?a" if "mapped cc e"
    using tp_invD(2) [OF inv e] fl that by (simp add: entry_ok_def)
  have eok: "entry_ok cfg ?cc x" if x: "x < page_capacity cfg" for x
  proof (cases "x = e")
    case True
    then show ?thesis by (simp add: entry_ok_def mapped_def tp_flags)
  next
    case False
    have "treepass_divide_by_page_size cfg (disk_addr (tp_entry cc x)) \<noteq> treepass_divide_by_page_size cfg ?a"
      if "mapped cc x" "mapped cc e"
      using mapped_lookup [OF inv x that(1)] mapped_lookup [OF inv e that(2)] divide_inj False by metis
    then show ?thesis
      using tp_invD(2) [OF inv x] False by (auto simp: entry_ok_def lk entry_preds_other [of ?cc x cc])
  qed
  have lok: "lookup_ok cfg ?cc n" for n
  proof (cases "mapped cc e \<and> n = treepass_divide_by_page_size cfg ?a")
    case True
    then show ?thesis by (simp add: lookup_ok_def mapped_def)
  next
    case False
    then have l: "tp_lookup ?cc n = tp_lookup cc n" by (auto simp: mapped_def)
    moreover have "tp_lookup cc n \<noteq> e" if "tp_lookup cc n \<noteq> TP_UNMAPPED_ENTRY"
      using that False tp_invD(3) [OF inv, of n] by (auto simp: lookup_ok_def Let_def)
    ultimately show ?thesis
      using tp_invD(3) [OF inv, of n] by (auto simp: lookup_ok_def Let_def mapped_def)
  qed
  have "tp_entry ?cc x = tp_entry cc x" if "in_writeback cc x" for x using that fl by auto
  then have iok: "io_ok cfg ?cc st" if "st \<in> set (tp_io cc)" for st using io_ok_frame [OF inv that, of ?cc] by blast
  show "tp_inv cfg ?cc"
    unfolding tp_inv_def
  proof (intro conjI allI ballI impI)
    show "cfg_ok cfg" by (rule tp_invD(1) [OF inv])
    show "entry_ok cfg ?cc x" if "x < page_capacity cfg" for x by (rule eok [OF that])
    show "lookup_ok cfg ?cc n" for n by (rule lok)
    show "hand_ok cfg ?cc t" for t using tp_invD(4) [OF inv, of t] by (simp add: hand_ok_def)
    show "io_ok cfg ?cc st" if "st \<in> set (tp_io ?cc)" for st using iok that by simp
    show "sorted_wrt disjoint_io (tp_io ?cc)" using tp_invD(6) [OF inv] by simp
  qed
  fix a assume a: "aligned cfg a"
  show "page_view cfg ?cc a = page_view cfg cc a"
  proof (cases "treepass_lookup cfg cc a = e")
    case True
    then have m: "mapped cc e" "?a = a" "e \<noteq> TP_UNMAPPED_ENTRY"
      using lookup_unique [OF inv a True] tp_invD(1) [OF inv] e by (auto simp: cfg_ok_def)
    then show ?thesis using True fl old by (simp add: page_view_def lk)
  next
    case False
    have "treepass_divide_by_page_size cfg a \<noteq> treepass_divide_by_page_size cfg ?a" if "mapped cc e"
      using False mapped_lookup(1) [OF inv e that] by (auto simp: treepass_lookup_def)
    then show ?thesis
      using False by (auto simp: page_view_def lk Let_def entry_preds_other [of ?cc _ cc])
  qed
qed

lemma tick_same_pages: "same_pages cc (evict_tick cc e ee_pass)"
proof -
  have "take_bit 6 (status (tp_entry cc e) - TP_CLOCK_ONE) = take_bit 6 (status (tp_entry cc e))"
    if "treepass_get_clock cc e \<noteq> 0"
    using clock_dec(2) that by (simp add: treepass_get_clock_def treepass_get_status_def)
  then show ?thesis
    by (simp add: evict_tick_def treepass_try_dec_clock_def same_pages_def)
qed

lemma try_evict_coheres:
  assumes "page_capacity cfg = 64 * n" "e < page_capacity cfg"
    and "treepass_try_evict cfg tid cc e ee_pass = Some (b, cc')"
  shows "coheres cfg cc cc'"
proof -
  have "b = (evict_candidate cc e ee_pass \<and> evictable cfg cc e) \<and> cc' = (if b then release_entry cfg cc e else evict_tick cc e ee_pass)"
    using try_evict_result [OF get_ref_internal_less [OF assms(1,2)], of tid cc ee_pass] assms(3) by (auto split: if_splits)
  then show ?thesis
    using release_coheres [OF _ assms(2), of cc] same_pages_coheres [OF tick_same_pages, of cfg cc e ee_pass]
    by (auto simp: evictable_def split: if_splits)
qed

lemma cfg_okD:
  assumes "cfg_ok cfg"
  obtains n where "page_capacity cfg = 64 * n" "batch_capacity cfg = n" "0 < n"
  using assms by (auto simp: cfg_ok_def batch_capacity_def TP_ENTRIES_PER_BATCH_def mod_eq_0_iff_dvd dvd_def)

lemma batch_entries_less:
  assumes "cfg_ok cfg" "batch < batch_capacity cfg" "e \<in> set (batch_entries batch)"
  shows "e < page_capacity cfg"
proof -
  obtain n where "page_capacity cfg = 64 * n" "batch_capacity cfg = n" using cfg_okD [OF assms(1)] by blast
  then show ?thesis using assms(2,3) by (auto simp: batch_entries_def TP_ENTRIES_PER_BATCH_def)
qed

lemma evict_entries_coheres:
  assumes "cfg_ok cfg" "\<forall>e\<in>set es. e < page_capacity cfg" "evict_entries cfg tid ee_pass es cc = Some (k, cc')"
  shows "coheres cfg cc cc'"
  using assms(2,3)
proof (induction es arbitrary: cc k)
  case (Cons e es)
  obtain n where n: "page_capacity cfg = 64 * n" using cfg_okD [OF assms(1)] by blast
  obtain b c1 m where c1: "treepass_try_evict cfg tid cc e ee_pass = Some (b, c1)" "evict_entries cfg tid ee_pass es c1 = Some (m, cc')"
    using Cons.prems(2) by (auto simp: bind_eq_Some_conv)
  have "coheres cfg cc c1" using try_evict_coheres [OF n _ c1(1)] Cons.prems(1) by simp
  moreover have "coheres cfg c1 cc'" using Cons.IH [OF _ c1(2)] Cons.prems(1) by simp
  ultimately show ?case by (rule coheres_trans)
qed simp

lemma update_ei_same_pages: "same_pages cc (treepass_update_ei cfg now cc)"
  by (simp add: treepass_update_ei_def same_pages_def Let_def)

lemma evict_batch_coheres:
  assumes "cfg_ok cfg" "batch < batch_capacity cfg" "treepass_evict_batch cfg tid now cc batch first_pass = Some cc'"
  shows "coheres cfg cc cc'"
proof -
  obtain p where p: "evict_entries cfg tid False (batch_entries batch) cc = Some p"
    "cc' = (if \<not> first_pass then snd p else treepass_update_ei cfg now (snd p))"
    using assms(3) unfolding treepass_evict_batch_def map_option_eq_Some by (auto simp: split_beta)
  obtain k c1 where kc: "p = (k, c1)" by (cases p)
  from p have "evict_entries cfg tid False (batch_entries batch) cc = Some (k, c1)" and
    c': "cc' = (if first_pass then treepass_update_ei cfg now c1 else c1)" unfolding kc by auto
  then have "coheres cfg cc c1" using evict_entries_coheres batch_entries_less assms(1,2) by blast
  moreover have "coheres cfg c1 cc'" by (simp add: c' same_pages_coheres [OF update_ei_same_pages])
  ultimately show ?thesis by (rule coheres_trans)
qed

section \<open>Writeback\<close>

text \<open>The entries of a set go into writeback.\<close>

definition marks :: "treepass_config \<Rightarrow> nat set \<Rightarrow> 'p treepass \<Rightarrow> 'p treepass \<Rightarrow> bool" where
  "marks cfg S cc cc' \<longleftrightarrow>
     cc' = cc\<lparr>tp_entry := (\<lambda>e. if e \<in> S then (tp_entry cc e)\<lparr>status := status (tp_entry cc e) OR TP_WRITEBACK\<rparr> else tp_entry cc e)\<rparr>
     \<and> (\<forall>e\<in>S. e < page_capacity cfg \<and> mapped cc e \<and> take_bit 6 (status (tp_entry cc e)) = 0)"

lemma base_mask: "st AND TP_CLEANABLE_BASE_MASK = take_bit 6 st"
proof -
  have "(63 :: uint32) = mask 6" by (simp add: mask_eq_exp_minus_1)
  then show ?thesis by (simp add: tp_flags take_bit_eq_mask)
qed

lemma marked_bit: "bit ((st :: uint32) OR TP_WRITEBACK) k \<longleftrightarrow> bit st k \<or> k = 2"
proof -
  have w: "TP_WRITEBACK = 2 ^ 2" by (simp add: tp_flags)
  have "bit TP_WRITEBACK k \<longleftrightarrow> k = 2" unfolding w bit_exp_iff by auto
  then show ?thesis by (simp add: bit_or_iff)
qed

lemma marks_refl [simp]: "marks cfg {} cc cc"
  by (simp add: marks_def)

lemma unmarked_bits: "take_bit 6 (st :: uint32) = 0 \<Longrightarrow> k < 6 \<Longrightarrow> \<not> bit st k"
  by (metis bit_0_eq bit_take_bit_iff bot_apply bot_bool_def)

lemma marks_simps:
  assumes "marks cfg S cc cc'"
  shows "mapped cc' = mapped cc" "loading cc' = loading cc" "clean cc' = clean cc" "in_writeback cc' e \<longleftrightarrow> in_writeback cc e \<or> e \<in> S"
    "treepass_lookup cfg' cc' = treepass_lookup cfg' cc" "disk_addr (tp_entry cc' e) = disk_addr (tp_entry cc e)"
  using assms by (auto simp: marks_def fun_eq_iff mapped_def loading_def clean_def in_writeback_def treepass_lookup_def marked_bit)

lemma marks_fresh: "marks cfg S cc cc' \<Longrightarrow> e \<in> S \<Longrightarrow> \<not> in_writeback cc e"
  by (simp add: marks_def in_writeback_def unmarked_bits)

lemma marks_coheres:
  assumes "marks cfg S cc cc'"
  shows "coheres cfg cc cc'"
proof (rule coheresI)
  note ms = marks_simps [OF assms]
  have c': "cc' = cc\<lparr>tp_entry := (\<lambda>e. if e \<in> S then (tp_entry cc e)\<lparr>status := status (tp_entry cc e) OR TP_WRITEBACK\<rparr> else tp_entry cc e)\<rparr>"
    and S: "e \<in> S \<Longrightarrow> mapped cc e" for e
    using assms by (simp_all add: marks_def)
  have f: "tp_data cc' = tp_data cc" "tp_disk cc' = tp_disk cc" "tp_lookup cc' = tp_lookup cc" "tp_io cc' = tp_io cc" "free_hand cc' = free_hand cc"
    "bit (status (tp_entry cc' e)) 0 = bit (status (tp_entry cc e)) 0" "\<not> mapped cc e \<Longrightarrow> tp_entry cc' e = tp_entry cc e" for e
    using S by (auto simp: c' marked_bit)
  { assume inv: "tp_inv cfg cc"
    have "entry_ok cfg cc' e" if "e < page_capacity cfg" for e
      using tp_invD(2) [OF inv that] by (cases "mapped cc e") (simp_all add: entry_ok_def ms f)
    moreover have "lookup_ok cfg cc' n" for n using tp_invD(3) [OF inv, of n] by (simp add: lookup_ok_def f ms Let_def)
    moreover have "hand_ok cfg cc' t" for t using tp_invD(4) [OF inv, of t] by (simp add: hand_ok_def f)
    moreover have "io_ok cfg cc' st" if "st \<in> set (tp_io cc)" for st
      using tp_invD(5) [OF inv that] by (simp add: io_ok_def ms Let_def)
    ultimately show "tp_inv cfg cc'" using tp_invD(1,6) [OF inv] by (simp add: tp_inv_def f) }
  show "page_view cfg cc' a = page_view cfg cc a" for a by (simp add: page_view_def ms f Let_def)
  show "free_hand cc' = free_hand cc" by (rule f)
qed

lemma marks_trans:
  assumes "marks cfg S a b" "marks cfg T b c"
  shows "marks cfg (S \<union> T) a c"
proof -
  have "S \<inter> T = {}" using marks_fresh [OF assms(2)] marks_simps(4) [OF assms(1)] by blast
  then have t: "e \<in> T \<Longrightarrow> tp_entry b e = tp_entry a e" for e using assms(1) by (auto simp: marks_def)
  have "c = a\<lparr>tp_entry := (\<lambda>e. if e \<in> S \<union> T then (tp_entry a e)\<lparr>status := status (tp_entry a e) OR TP_WRITEBACK\<rparr> else tp_entry a e)\<rparr>"
    using assms t \<open>S \<inter> T = {}\<close> by (auto simp: marks_def fun_eq_iff)
  moreover have "\<forall>e\<in>S \<union> T. e < page_capacity cfg \<and> mapped a e \<and> take_bit 6 (status (tp_entry a e)) = 0"
    using assms t by (auto simp: marks_def mapped_def)
  ultimately show ?thesis by (simp add: marks_def)
qed

lemma try_set_writeback_marks:
  assumes "tp_inv cfg cc" "e < page_capacity cfg" "treepass_try_set_writeback cc e np = Some (ok, cc')"
  shows "marks cfg (if ok then {e} else {}) cc cc'"
proof (cases ok)
  case True
  then have t: "take_bit 6 (status (tp_entry cc e)) = 0" "cc' = upd_entry cc e (\<lambda>en. en\<lparr>status := status (tp_entry cc e) OR TP_WRITEBACK\<rparr>)"
    using assms(3) by (auto simp: treepass_try_set_writeback_def treepass_get_status_def base_mask Let_def split: if_splits)
  then have "mapped cc e" using tp_invD(2) [OF assms(1,2)] by (auto simp: entry_ok_def split: if_splits)
  then show ?thesis using True t assms(2) by (auto simp: marks_def upd_entry_def fun_eq_iff)
next
  case False
  then show ?thesis using assms(3) by (auto simp: treepass_try_set_writeback_def Let_def split: if_splits)
qed

lemma writeback_walk_marks:
  assumes "writeback_walk cfg fuel addr d np cur cc = Some (es, cc')" "tp_inv cfg cc"
  shows "marks cfg (set es) cc cc' \<and> (\<forall>j<length es. es ! j = treepass_lookup cfg cc (cur + word_of_nat (Suc j) * d))"
  using assms
proof (induction fuel arbitrary: cur cc es)
  case (Suc fuel)
  let ?next = "if pages_share_extent cfg (cur + d) addr then treepass_lookup cfg cc (cur + d) else TP_UNMAPPED_ENTRY"
  show ?case
  proof (cases "?next = TP_UNMAPPED_ENTRY")
    case True
    then show ?thesis using Suc.prems(1) by (simp add: Let_def)
  next
    case False
    then have l: "?next = treepass_lookup cfg cc (cur + d)" by (auto split: if_splits)
    have cap: "?next < page_capacity cfg"
      using tp_invD(3) [OF Suc.prems(2), of "treepass_divide_by_page_size cfg (cur + d)"] False
      by (auto simp: lookup_ok_def treepass_lookup_def Let_def split: if_splits)
    obtain ok c1 where t: "treepass_try_set_writeback cc ?next np = Some (ok, c1)"
      using Suc.prems(1) False by (auto simp: Let_def bind_eq_Some_conv)
    note m1 = try_set_writeback_marks [OF Suc.prems(2) cap t]
    show ?thesis
    proof (cases ok)
      case False
      then show ?thesis using Suc.prems(1) \<open>?next \<noteq> _\<close> t m1 by (simp add: Let_def)
    next
      case True
      then obtain es' where w: "writeback_walk cfg fuel addr d np (cur + d) c1 = Some (es', cc')" "es = ?next # es'"
        using Suc.prems(1) \<open>?next \<noteq> _\<close> t by (auto simp: Let_def)
      have inv1: "tp_inv cfg c1" using marks_coheres [OF m1] Suc.prems(2) by (simp add: coheres_def)
      note ih = Suc.IH [OF w(1) inv1]
      have "marks cfg (set es) cc cc'"
        using marks_trans [OF m1, of "set es'" cc'] ih True by (simp add: w(2))
      moreover have "es ! j = treepass_lookup cfg cc (cur + word_of_nat (Suc j) * d)" if "j < length es" for j
        using that ih marks_simps(5) [OF m1] l by (cases j) (auto simp: w(2) algebra_simps)
      ultimately show ?thesis by blast
    qed
  qed
qed simp

text \<open>A new write of pages that were just put into writeback.\<close>

lemma add_io_coheres:
  assumes m: "marks cfg S cc0 cc" and inv0: "tp_inv cfg cc0"
    and es: "set (io_entries st) \<subseteq> S" "\<And>i. i < length (io_entries st) \<Longrightarrow> disk_addr (tp_entry cc (io_entries st ! i)) = io_page cfg st i"
  shows "coheres cfg cc0 (cc\<lparr>tp_io := tp_io cc @ [st]\<rparr>)"
proof -
  let ?cc = "cc\<lparr>tp_io := tp_io cc @ [st]\<rparr>"
  have c: "coheres cfg cc0 cc" by (rule marks_coheres [OF m])
  have inv: "tp_inv cfg cc" using c inv0 by (simp add: coheres_def)
  have io: "tp_io cc = tp_io cc0" using m by (simp add: marks_def)
  have p: "mapped ?cc = mapped cc" "loading ?cc = loading cc" "clean ?cc = clean cc" "in_writeback ?cc = in_writeback cc"
    "treepass_lookup cfg ?cc = treepass_lookup cfg cc"
    by (simp_all add: fun_eq_iff mapped_def loading_def clean_def in_writeback_def treepass_lookup_def)
  have S: "e < page_capacity cfg \<and> mapped cc e \<and> \<not> loading cc e \<and> in_writeback cc e" if "e \<in> S" for e
    using m that marks_simps [OF m] by (auto simp: marks_def loading_def unmarked_bits)
  have "io_ok cfg cc st" using es S by (simp add: io_ok_def Let_def subset_iff)
  moreover have "disjoint_io a st" if "a \<in> set (tp_io cc)" for a
    using io_entry_writeback(1) [OF inv0] marks_fresh [OF m] es(1) that unfolding io disjoint_io_def by blast
  ultimately have "tp_inv cfg ?cc"
    using inv by (auto simp: tp_inv_def entry_ok_def lookup_ok_def hand_ok_def io_ok_def p sorted_wrt_append)
  moreover have "page_view cfg ?cc a = page_view cfg cc a" for a by (simp add: page_view_def p Let_def)
  ultimately show ?thesis using c by (simp add: coheres_def)
qed

lemma word_of_nat_diff: "n \<le> m \<Longrightarrow> (word_of_nat (m - n) :: uint64) = word_of_nat m - word_of_nat n"
  by (simp add: of_nat_diff)

lemma aligned_add: "aligned cfg a \<Longrightarrow> aligned cfg (a + push_bit (log_page_size cfg) w)"
proof -
  assume a: "aligned cfg a"
  show ?thesis
    using a by (simp add: aligned_def take_bit_eq_0_iff push_bit_eq_mult)
qed

text \<open>The addresses of a write, from the entries before, at and after the page it starts from.\<close>

lemma writeback_addresses:
  fixes addr :: uint64 and k :: nat
  defines "P \<equiv> push_bit k (1 :: uint64)"
  assumes "i < nb + 1 + na"
  shows "addr - push_bit k (word_of_nat nb) + push_bit k (word_of_nat i) =
    (if i < nb then addr + word_of_nat (Suc (nb - 1 - i)) * - P
     else if i = nb then addr else addr + word_of_nat (Suc (i - nb - 1)) * P)"
proof -
  have pw: "push_bit k x = x * P" for x :: uint64 by (simp add: P_def push_bit_eq_mult)
  have "i < nb \<Longrightarrow> Suc (nb - 1 - i) = nb - i" "nb < i \<Longrightarrow> Suc (i - nb - 1) = i - nb" by simp_all
  then show ?thesis by (auto simp: pw word_of_nat_diff algebra_simps not_less)
qed

lemma writeback_entry_coheres:
  assumes inv: "tp_inv cfg cc" and e: "e < page_capacity cfg" and "treepass_writeback_entry cfg np e cc = Some cc'"
  shows "coheres cfg cc cc'"
proof (cases "cc' = cc")
  case False
  let ?addr = "disk_addr (tp_entry cc e)" and ?P = "treepass_page_size cfg" and ?n = "pages_per_extent cfg"
  obtain ok c1 where t: "treepass_try_set_writeback cc e np = Some (ok, c1)"
    using assms(3) False by (auto simp: treepass_writeback_entry_def bind_eq_Some_conv split: if_splits)
  note m1 = try_set_writeback_marks [OF inv e t]
  show ?thesis
  proof (cases ok)
    case nok: False
    then have "cc' = c1" using assms(3) t False by (auto simp: treepass_writeback_entry_def split: if_splits)
    then show ?thesis using marks_coheres [OF m1] by simp
  next
    case True
    obtain b c2 a c3 where w: "writeback_walk cfg ?n ?addr (- ?P) np ?addr c1 = Some (b, c2)"
      "writeback_walk cfg ?n ?addr ?P np ?addr c2 = Some (a, c3)"
      and c': "cc' = c3\<lparr>tp_io := tp_io c3 @ [\<lparr>io_addr = ?addr - treepass_multiply_by_page_size cfg (word_of_nat (length b)),
         io_entries = map (\<lambda>i. treepass_lookup cfg c3 (?addr - treepass_multiply_by_page_size cfg (word_of_nat (length b))
           + treepass_multiply_by_page_size cfg (word_of_nat i))) [0..<length b + 1 + length a], io_num_passes = np\<rparr>]\<rparr>"
      using assms(3) t False True by (auto simp: treepass_writeback_entry_def bind_eq_Some_conv Let_def split: if_splits)
    define st where "st = \<lparr>io_addr = ?addr - treepass_multiply_by_page_size cfg (word_of_nat (length b)),
         io_entries = map (\<lambda>i. treepass_lookup cfg c3 (?addr - treepass_multiply_by_page_size cfg (word_of_nat (length b))
           + treepass_multiply_by_page_size cfg (word_of_nat i))) [0..<length b + 1 + length a], io_num_passes = np\<rparr>"
    have inv1: "tp_inv cfg c1" using marks_coheres [OF m1] inv by (simp add: coheres_def)
    note m2 = writeback_walk_marks [OF w(1) inv1]
    have inv2: "tp_inv cfg c2" using marks_coheres m2 inv1 by (auto simp: coheres_def)
    note m3 = writeback_walk_marks [OF w(2) inv2]
    have inv3: "tp_inv cfg c3" using marks_coheres m3 inv2 by (auto simp: coheres_def)
    let ?S = "{e} \<union> set b \<union> set a"
    have "marks cfg ({e} \<union> set b) cc c2" using marks_trans [OF m1, of "set b" c2] m2 True by simp
    then have m: "marks cfg ?S cc c3" using m3 by (blast intro: marks_trans)
    have l1: "treepass_lookup cfg c1 = treepass_lookup cfg cc" by (rule marks_simps(5) [OF m1])
    have l2: "treepass_lookup cfg c2 = treepass_lookup cfg c1" using marks_simps(5) m2 by blast
    have l3: "treepass_lookup cfg c3 = treepass_lookup cfg c2" using marks_simps(5) m3 by blast
    have me: "mapped cc e" using m by (simp add: marks_def)
    note le = mapped_lookup [OF inv e me]
    have ent: "treepass_lookup cfg cc (io_page cfg st i) \<in> ?S" if i: "i < length b + 1 + length a" for i
    proof -
      have ad: "io_page cfg st i = (if i < length b then ?addr + word_of_nat (Suc (length b - 1 - i)) * - ?P
         else if i = length b then ?addr else ?addr + word_of_nat (Suc (i - length b - 1)) * ?P)"
        unfolding io_page_def st_def treepass_multiply_by_page_size_def treepass_page_size_def
        using writeback_addresses [OF i] by simp
      consider "i < length b" | "i = length b" | "length b < i" by linarith
      then show ?thesis
      proof cases
        case 1
        then have "b ! (length b - 1 - i) = treepass_lookup cfg cc (io_page cfg st i)" "length b - 1 - i < length b"
          using m2 l1 by (simp_all add: ad)
        then show ?thesis by (metis UnI1 UnI2 nth_mem)
      next
        case 2
        then show ?thesis using le(1) unfolding ad by simp
      next
        case 3
        then have "a ! (i - length b - 1) = treepass_lookup cfg cc (io_page cfg st i)" "i - length b - 1 < length a"
          using m3 l1 l2 i by (simp_all add: ad)
        then show ?thesis by (metis UnI2 nth_mem)
      qed
    qed
    have len: "length (io_entries st) = length b + 1 + length a" by (simp add: st_def)
    have nth: "io_entries st ! i = treepass_lookup cfg cc (io_page cfg st i)" if "i < length (io_entries st)" for i
      using that l1 l2 l3 unfolding st_def io_page_def by (simp del: upt_Suc)
    have sub: "set (io_entries st) \<subseteq> ?S"
      using ent nth len by (metis in_set_conv_nth subsetI)
    have "disk_addr (tp_entry c3 (io_entries st ! i)) = io_page cfg st i" if i: "i < length (io_entries st)" for i
    proof (rule lookup_unique(3) [OF inv3])
      show "treepass_lookup cfg c3 (io_page cfg st i) = io_entries st ! i" using nth [OF i] l1 l2 l3 by simp
      have "io_entries st ! i \<in> ?S" using sub nth_mem [OF i] by blast
      then have "io_entries st ! i < page_capacity cfg" using m by (auto simp: marks_def)
      then show "io_entries st ! i \<noteq> TP_UNMAPPED_ENTRY" using tp_invD(1) [OF inv] by (simp add: cfg_ok_def)
      have "aligned cfg (?addr - push_bit (log_page_size cfg) (word_of_nat (length b)))"
        using aligned_add [OF le(2), of "- word_of_nat (length b)"] by (simp add: push_bit_eq_mult)
      then show "aligned cfg (io_page cfg st i)"
        using aligned_add by (simp add: io_page_def st_def treepass_multiply_by_page_size_def)
    qed
    then have "coheres cfg cc (c3\<lparr>tp_io := tp_io c3 @ [st]\<rparr>)" by (rule add_io_coheres [OF m inv sub])
    then show ?thesis by (simp add: c' st_def)
  qed
qed simp

section \<open>Completion of a write\<close>

lemma fold_updates:
  assumes "\<And>i j. i < n \<Longrightarrow> j < n \<Longrightarrow> f i = f j \<Longrightarrow> g i = g j"
  shows "fold (\<lambda>i d. d(f i := g i)) [0..<n] d x = (if \<exists>i<n. f i = x then g (LEAST i. f i = x) else d x)"
  using assms
proof (induction n)
  case (Suc n)
  have least: "f (LEAST i. f i = f n) = f n" "(LEAST i. f i = f n) \<le> n" by (auto intro: LeastI Least_le)
  then have "g n = g (LEAST i. f i = f n)" using Suc.prems [of "LEAST i. f i = f n" n] by simp
  then show ?case using Suc by (auto simp: less_Suc_eq)
qed simp

lemma fold_updates_at:
  assumes "\<And>i j. i < n \<Longrightarrow> j < n \<Longrightarrow> f i = f j \<Longrightarrow> g i = g j"
  shows "i < n \<Longrightarrow> fold (\<lambda>i d. d(f i := g i)) [0..<n] d (f i) = g i"
    "(\<And>i. i < n \<Longrightarrow> f i \<noteq> x) \<Longrightarrow> fold (\<lambda>i d. d(f i := g i)) [0..<n] d x = d x"
proof -
  assume i: "i < n"
  have "f (LEAST j. f j = f i) = f i" "(LEAST j. f j = f i) \<le> i" by (auto intro: LeastI Least_le)
  then have "g (LEAST j. f j = f i) = g i" using assms [of "LEAST j. f j = f i" i] i by simp
  then show "fold (\<lambda>i d. d(f i := g i)) [0..<n] d (f i) = g i" using i by (subst fold_updates [OF assms]) auto
next
  assume "\<And>i. i < n \<Longrightarrow> f i \<noteq> x"
  then show "fold (\<lambda>i d. d(f i := g i)) [0..<n] d x = d x" by (subst fold_updates [OF assms]) auto
qed

text \<open>The callback: the entries of the write become clean and leave writeback.\<close>

definition settles :: "nat set \<Rightarrow> 'p treepass \<Rightarrow> 'p treepass \<Rightarrow> bool" where
  "settles S cc cc' \<longleftrightarrow>
     (\<forall>e. disk_addr (tp_entry cc' e) = disk_addr (tp_entry cc e) \<and>
        (\<forall>k<6. bit (status (tp_entry cc' e)) k =
           (if e \<in> S \<and> k = 1 then True else if e \<in> S \<and> k = 2 then False else bit (status (tp_entry cc e)) k)))
     \<and> tp_data cc' = tp_data cc \<and> tp_lookup cc' = tp_lookup cc \<and> tp_disk cc' = tp_disk cc \<and> tp_io cc' = tp_io cc
     \<and> free_hand cc' = free_hand cc"

lemma settles_refl [simp]: "settles {} cc cc" by (simp add: settles_def)

lemma settles_trans: "settles S a b \<Longrightarrow> settles T b c \<Longrightarrow> settles (S \<union> T) a c"
  by (auto simp: settles_def)

lemma flag_pow: "TP_CLEAN = 2 ^ 1" "TP_WRITEBACK = 2 ^ 2"
  by (simp_all add: tp_flags)

lemma set_clock_bits:
  "k < 6 \<Longrightarrow> bit (status (tp_entry (treepass_set_clock cc e 0) x)) k = bit (status (tp_entry cc x)) k"
  using flags_eq_bits [OF clock_set(2) [of 0 "status (tp_entry cc e)"]] by (simp add: treepass_set_clock_def)

lemma set_clock_frame [simp]:
  "tp_data (treepass_set_clock cc e v) = tp_data cc" "tp_lookup (treepass_set_clock cc e v) = tp_lookup cc"
  "tp_disk (treepass_set_clock cc e v) = tp_disk cc" "tp_io (treepass_set_clock cc e v) = tp_io cc"
  "free_hand (treepass_set_clock cc e v) = free_hand cc" "disk_addr (tp_entry (treepass_set_clock cc e v) x) = disk_addr (tp_entry cc x)"
  by (simp_all add: treepass_set_clock_def Let_def)

lemma callback_entry_settles: "settles {e} cc (write_callback_entry np e cc)"
proof -
  define c2 where "c2 = snd (treepass_clear_flag (snd (treepass_set_flag cc e TP_CLEAN)) e TP_WRITEBACK)"
  have "bit ((st OR TP_CLEAN) AND NOT TP_WRITEBACK) k = (if k = 1 then True else if k = 2 then False else bit st k)" if "k < 6" for k and st :: uint32
    unfolding flag_pow using that by (auto simp only: bit_simps split: if_splits) simp_all
  then have s: "settles {e} cc c2" by (simp add: settles_def c2_def treepass_clear_flag_def treepass_set_flag_def)
  have "settles {} c2 (treepass_set_clock c2 e 0)" by (simp add: settles_def set_clock_bits)
  with s have "settles {e} cc (treepass_set_clock c2 e 0)" using settles_trans by fastforce
  with s show ?thesis
    by (auto simp: write_callback_entry_def c2_def [symmetric] split_beta Let_def)
qed

lemma callbacks_settle: "settles (set es) cc (fold (write_callback_entry np) es cc)"
proof (induction es arbitrary: cc)
  case (Cons e es)
  have "settles ({e} \<union> set es) cc (fold (write_callback_entry np) es (write_callback_entry np e cc))"
    by (rule settles_trans [OF callback_entry_settles Cons.IH])
  then show ?case by simp
qed simp

lemma settlesD:
  assumes "settles S cc cc'"
  shows "mapped cc' = mapped cc" "loading cc' = loading cc" "clean cc' e = (e \<in> S \<or> clean cc e)"
    "in_writeback cc' e = (e \<notin> S \<and> in_writeback cc e)" "bit (status (tp_entry cc' e)) 0 = bit (status (tp_entry cc e)) 0"
    "treepass_lookup cfg cc' = treepass_lookup cfg cc" "disk_addr (tp_entry cc' e) = disk_addr (tp_entry cc e)"
    "e \<notin> S \<Longrightarrow> take_bit 6 (status (tp_entry cc' e)) = take_bit 6 (status (tp_entry cc e))"
proof -
  show "mapped cc' = mapped cc" "loading cc' = loading cc" "clean cc' e = (e \<in> S \<or> clean cc e)"
    "in_writeback cc' e = (e \<notin> S \<and> in_writeback cc e)" "bit (status (tp_entry cc' e)) 0 = bit (status (tp_entry cc e)) 0"
    "treepass_lookup cfg cc' = treepass_lookup cfg cc" "disk_addr (tp_entry cc' e) = disk_addr (tp_entry cc e)"
    using assms by (auto simp: settles_def fun_eq_iff mapped_def loading_def clean_def in_writeback_def treepass_lookup_def)
  show "take_bit 6 (status (tp_entry cc' e)) = take_bit 6 (status (tp_entry cc e))" if "e \<notin> S"
    using assms that by (intro bit_eqI) (auto simp: settles_def bit_take_bit_iff)
qed

text \<open>One pending write completes: its pages are on the device, its entries are clean.\<close>

lemma write_callback_coheres:
  assumes io: "tp_io cc = xs @ st # ys"
    and cb: "treepass_write_callback cfg (cc\<lparr>tp_io := xs @ ys\<rparr>) st = Some cc'"
  shows "coheres cfg cc cc'"
proof (rule coheresI)
  have "settles (set (io_entries st)) (io_write_pages cfg (cc\<lparr>tp_io := xs @ ys\<rparr>) st) cc'"
    using cb callbacks_settle by (auto simp: treepass_write_callback_def Let_def split: if_splits)
  then show "free_hand cc' = free_hand cc" by (simp add: settles_def io_write_pages_def)
next
  assume inv: "tp_inv cfg cc"
  let ?es = "io_entries st" and ?S = "set (io_entries st)" and ?a = "io_page cfg st"
  define c1 where "c1 = io_write_pages cfg (cc\<lparr>tp_io := xs @ ys\<rparr>) st"
  have s: "settles ?S c1 cc'"
    using cb callbacks_settle by (auto simp: treepass_write_callback_def c1_def Let_def split: if_splits)
  note sd = settlesD [OF s]
  have f1: "tp_data c1 = tp_data cc" "tp_lookup c1 = tp_lookup cc" "free_hand c1 = free_hand cc" "tp_entry c1 = tp_entry cc" "tp_io c1 = xs @ ys"
    by (simp_all add: c1_def io_write_pages_def)
  then have f: "tp_data cc' = tp_data cc" "tp_lookup cc' = tp_lookup cc" "free_hand cc' = free_hand cc" "tp_io cc' = xs @ ys" "tp_disk cc' = tp_disk c1"
    using s by (simp_all add: settles_def)
  have p1: "mapped c1 = mapped cc" "loading c1 = loading cc" "clean c1 = clean cc" "in_writeback c1 = in_writeback cc"
    "treepass_lookup cfg c1 = treepass_lookup cfg cc"
    by (simp_all add: fun_eq_iff mapped_def loading_def clean_def in_writeback_def treepass_lookup_def f1)
  have st: "st \<in> set (tp_io cc)" by (simp add: io)
  have ent: "?es ! i < page_capacity cfg" "mapped cc (?es ! i)" "\<not> loading cc (?es ! i)" "disk_addr (tp_entry cc (?es ! i)) = ?a i"
    if "i < length ?es" for i
    using tp_invD(5) [OF inv st] that by (auto simp: io_ok_def Let_def)
  have lk: "treepass_lookup cfg cc (?a i) = ?es ! i" "aligned cfg (?a i)" "?es ! i \<noteq> TP_UNMAPPED_ENTRY" if "i < length ?es" for i
    using mapped_lookup [OF inv ent(1,2) [OF that]] ent(4) [OF that] by simp_all
  have d: "tp_disk c1 = fold (\<lambda>i d. d(?a i := tp_data cc (?es ! i))) [0..<length ?es] (tp_disk cc)"
    by (simp add: c1_def io_write_pages_def io_page_def)
  have cons: "tp_data cc (?es ! i) = tp_data cc (?es ! j)" if "i < length ?es" "j < length ?es" "?a i = ?a j" for i j
    using lk(1) that by metis
  have din: "tp_disk c1 (?a i) = tp_data cc (?es ! i)" if "i < length ?es" for i
    unfolding d by (rule fold_updates_at(1) [OF cons that])
  have dout: "tp_disk c1 x = tp_disk cc x" if "\<And>i. i < length ?es \<Longrightarrow> ?a i \<noteq> x" for x
    unfolding d by (rule fold_updates_at(2) [OF cons that])
  have eok: "entry_ok cfg cc' e" if e: "e < page_capacity cfg" for e
  proof (cases "e \<in> ?S")
    case True
    then obtain i where i: "i < length ?es" "e = ?es ! i" by (auto simp: in_set_conv_nth)
    then show ?thesis
      using tp_invD(2) [OF inv e] ent [OF i(1)] din [OF i(1)] by (simp add: entry_ok_def sd f p1 f1)
  next
    case False
    have "tp_disk c1 (disk_addr (tp_entry cc e)) = tp_disk cc (disk_addr (tp_entry cc e))" if "mapped cc e"
      using mapped_lookup(1) [OF inv e that] lk(1) False by (intro dout) (metis nth_mem)
    then show ?thesis using tp_invD(2) [OF inv e] False by (simp add: entry_ok_def sd f p1 f1)
  qed
  have "sorted_wrt disjoint_io (tp_io cc)" by (rule tp_invD(6) [OF inv])
  then have dis: "sorted_wrt disjoint_io (xs @ ys)" "\<forall>t\<in>set (xs @ ys). set (io_entries t) \<inter> ?S = {}"
    by (auto simp: io sorted_wrt_append disjoint_io_def)
  have iok: "io_ok cfg cc' t" if t: "t \<in> set (xs @ ys)" for t
  proof -
    have "io_ok cfg cc t" using tp_invD(5) [OF inv] t by (auto simp: io)
    moreover have "io_entries t ! i \<notin> ?S" if "i < length (io_entries t)" for i
      using dis(2) t nth_mem [OF that] by blast
    ultimately show ?thesis by (simp add: io_ok_def Let_def sd p1 f1)
  qed
  show "tp_inv cfg cc'"
  proof -
    have "lookup_ok cfg cc' n" for n using tp_invD(3) [OF inv, of n] by (simp add: lookup_ok_def Let_def sd p1 f1 f)
    moreover have "hand_ok cfg cc' t" for t using tp_invD(4) [OF inv, of t] by (simp add: hand_ok_def f)
    ultimately show ?thesis unfolding tp_inv_def f using tp_invD(1) [OF inv] eok iok dis(1) by blast
  qed
  fix a assume a: "aligned cfg a"
  show "page_view cfg cc' a = page_view cfg cc a"
  proof (cases "treepass_lookup cfg cc a \<noteq> TP_UNMAPPED_ENTRY \<and> \<not> loading cc (treepass_lookup cfg cc a)")
    case True
    then show ?thesis by (simp add: page_view_def sd p1 f)
  next
    case False
    then have "tp_disk c1 a = tp_disk cc a" using lk ent(3) by (intro dout) metis
    with False show ?thesis by (auto simp: page_view_def sd p1 f Let_def)
  qed
qed

lemma wait_coheres:
  assumes "treepass_wait cfg cc i = Some cc'"
  shows "coheres cfg cc cc'"
proof (cases "i < length (tp_io cc)")
  case True
  show ?thesis
    by (rule write_callback_coheres [OF id_take_nth_drop [OF True]]) (use assms True in \<open>simp add: treepass_wait_def\<close>)
next
  case False
  then show ?thesis using assms by (simp add: treepass_wait_def)
qed

section \<open>Searching for a free page\<close>

lemma coheres_inv: "coheres cfg a b \<Longrightarrow> tp_inv cfg a \<Longrightarrow> tp_inv cfg b"
  by (simp add: coheres_def)

lemma fold_opt_coheres:
  assumes "\<And>x c c'. x \<in> set xs \<Longrightarrow> tp_inv cfg c \<Longrightarrow> f x c = Some c' \<Longrightarrow> coheres cfg c c'"
    and "tp_inv cfg cc" "fold_opt f xs cc = Some cc'"
  shows "coheres cfg cc cc'"
  using assms
proof (induction xs arbitrary: cc)
  case (Cons x xs)
  obtain c1 where c1: "f x cc = Some c1" "fold_opt f xs c1 = Some cc'" using Cons.prems(3) by (auto simp: bind_eq_Some_conv)
  have c: "coheres cfg cc c1" by (rule Cons.prems(1) [OF _ Cons.prems(2) c1(1)]) simp
  moreover have "coheres cfg c1 cc'"
  proof (rule Cons.IH [OF _ coheres_inv [OF c Cons.prems(2)] c1(2)])
    show "coheres cfg d d'" if "y \<in> set xs" "tp_inv cfg d" "f y d = Some d'" for y d d'
      by (rule Cons.prems(1) [OF _ that(2,3)]) (simp add: that(1))
  qed
  ultimately show ?case by (rule coheres_trans)
qed simp

lemma batch_start_writeback_coheres:
  assumes "tp_inv cfg cc" "batch < batch_capacity cfg" "treepass_batch_start_writeback cfg cc batch np = Some cc'"
  shows "coheres cfg cc cc'"
  using assms(3) unfolding treepass_batch_start_writeback_def
  by (rule fold_opt_coheres [rotated 2])
    (use assms(1,2) writeback_entry_coheres batch_entries_less [OF tp_invD(1) [OF assms(1)]] in blast)+

lemma hands_same_pages [simp]:
  "same_pages cc (cc\<lparr>batch_busy := b\<rparr>)" "same_pages cc (cc\<lparr>evict_hand := h\<rparr>)"
  by (simp_all add: same_pages_def)

lemma advance_hand_coheres:
  assumes "tp_inv cfg cc" "advance_hand cfg np fuel cc = Some (hand, cc')"
  shows "coheres cfg cc cc' \<and> hand < batch_capacity cfg"
  using assms
proof (induction fuel arbitrary: cc)
  case (Suc fuel)
  have b: "0 < batch_capacity cfg" using cfg_okD [OF tp_invD(1) [OF Suc.prems(1)]] by metis
  let ?c1 = "cc\<lparr>evict_hand := evict_hand cc + 1\<rparr>"
  let ?hand = "unat (evict_hand ?c1) mod batch_capacity cfg"
  let ?clean = "(?hand + cleaner_gap ?c1) mod batch_capacity cfg"
  have c1: "coheres cfg cc ?c1" by (rule same_pages_coheres) simp
  note inv1 = coheres_inv [OF c1 Suc.prems(1)]
  obtain c2 where
    c2: "(if \<not> batch_busy ?c1 ?clean
          then map_option (\<lambda>c. c\<lparr>batch_busy := (batch_busy c)(?clean := False)\<rparr>)
                 (treepass_batch_start_writeback cfg (?c1\<lparr>batch_busy := (batch_busy ?c1)(?clean := True)\<rparr>) ?clean np)
          else Some ?c1) = Some c2"
    and rest: "(if \<not> batch_busy c2 ?hand then Some (?hand, c2\<lparr>batch_busy := (batch_busy c2)(?hand := True)\<rparr>)
                else advance_hand cfg np fuel c2) = Some (hand, cc')"
    using Suc.prems(2) unfolding advance_hand.simps Let_def bind_eq_Some_conv by blast
  have "coheres cfg ?c1 c2"
  proof (cases "batch_busy ?c1 ?clean")
    case False
    let ?c = "?c1\<lparr>batch_busy := (batch_busy ?c1)(?clean := True)\<rparr>"
    obtain c where c: "treepass_batch_start_writeback cfg ?c ?clean np = Some c" "c2 = c\<lparr>batch_busy := (batch_busy c)(?clean := False)\<rparr>"
      using c2 False by (auto simp: if_P)
    have a: "coheres cfg ?c1 ?c" by (rule same_pages_coheres) simp
    moreover have "coheres cfg ?c c"
      by (rule batch_start_writeback_coheres [OF coheres_inv [OF a inv1] _ c(1)]) (simp add: b)
    moreover have "coheres cfg c c2" unfolding c(2) by (rule same_pages_coheres) simp
    ultimately show ?thesis using coheres_trans by blast
  qed (use c2 in simp)
  then have cc2: "coheres cfg cc c2" using c1 coheres_trans by blast
  show ?case
  proof (cases "batch_busy c2 ?hand")
    case True
    then have "advance_hand cfg np fuel c2 = Some (hand, cc')" using rest by simp
    then show ?thesis using Suc.IH [OF coheres_inv [OF cc2 Suc.prems(1)]] cc2 coheres_trans by blast
  next
    case False
    then have r: "hand = ?hand" "cc' = c2\<lparr>batch_busy := (batch_busy c2)(?hand := True)\<rparr>" using rest by auto
    have "coheres cfg c2 cc'" unfolding r(2) by (rule same_pages_coheres) simp
    then show ?thesis using cc2 coheres_trans b r(1) by (metis mod_less_divisor)
  qed
qed simp

lemma set_hand_coheres:
  assumes "h < batch_capacity cfg" "cfg_ok cfg"
  shows "coheres cfg cc (cc\<lparr>free_hand := (free_hand cc)(t := h)\<rparr>)"
proof -
  let ?cc = "cc\<lparr>free_hand := (free_hand cc)(t := h)\<rparr>"
  have p: "mapped ?cc = mapped cc" "loading ?cc = loading cc" "clean ?cc = clean cc" "in_writeback ?cc = in_writeback cc"
    "treepass_lookup cfg ?cc = treepass_lookup cfg cc"
    by (simp_all add: fun_eq_iff mapped_def loading_def clean_def in_writeback_def treepass_lookup_def)
  obtain n where "page_capacity cfg = 64 * n" "batch_capacity cfg = n" using cfg_okD [OF assms(2)] by blast
  then have "h \<noteq> TP_UNMAPPED_ENTRY" using assms by (auto simp: cfg_ok_def TP_UNMAPPED_ENTRY_def)
  moreover have "page_view cfg ?cc a = page_view cfg cc a" for a by (simp add: page_view_def p Let_def)
  moreover have "tp_inv cfg cc \<Longrightarrow> tp_inv cfg ?cc"
    using assms(1) by (auto simp: tp_inv_def entry_ok_def lookup_ok_def hand_ok_def io_ok_def p)
  ultimately show ?thesis by (simp add: coheres_def)
qed

lemma move_hand_coheres:
  assumes inv: "tp_inv cfg cc" and mv: "treepass_move_hand cfg tid now cc np = Some cc'"
  shows "coheres cfg cc cc' \<and> free_hand cc' tid \<noteq> TP_UNMAPPED_ENTRY"
proof -
  note cok = tp_invD(1) [OF inv]
  let ?held = "free_hand cc tid"
  obtain n where n: "page_capacity cfg = 64 * n" "batch_capacity cfg = n" "0 < n" using cfg_okD [OF cok] by blast
  obtain stay c1 where
    s: "(if ?held \<noteq> TP_UNMAPPED_ENTRY
         then map_option (\<lambda>(n, c). if n > 0 then (True, c) else (False, c\<lparr>batch_busy := (batch_busy c)(?held := False)\<rparr>))
                (treepass_evict_batch_ee cfg tid cc (?held mod batch_capacity cfg))
         else Some (False, cc)) = Some (stay, c1)"
    and rest: "(if stay then Some c1
       else Option.bind (advance_hand cfg np (batch_capacity cfg) c1) (\<lambda>(hand, cc2).
              map_option (\<lambda>c. c\<lparr>free_hand := (free_hand c)(tid := hand)\<rparr>)
                (treepass_evict_batch cfg tid now cc2 hand (np = 0)))) = Some cc'"
    using mv unfolding treepass_move_hand_def Let_def bind_eq_Some_conv by auto
  have c1: "coheres cfg cc c1 \<and> (stay \<longrightarrow> ?held \<noteq> TP_UNMAPPED_ENTRY)"
  proof (cases "?held = TP_UNMAPPED_ENTRY")
    case False
    then obtain k c where k: "evict_entries cfg tid True (batch_entries (?held mod batch_capacity cfg)) cc = Some (k, c)"
      "c1 = c \<or> c1 = c\<lparr>batch_busy := (batch_busy c)(?held := False)\<rparr>"
      using s by (auto simp: treepass_evict_batch_ee_def split: if_splits)
    have "coheres cfg cc c"
      by (rule evict_entries_coheres [OF cok _ k(1)]) (use batch_entries_less [OF cok, of "?held mod batch_capacity cfg"] n in auto)
    moreover have "coheres cfg c c1" using k(2) by (auto intro: same_pages_coheres)
    ultimately show ?thesis using False coheres_trans by blast
  qed (use s in auto)
  show ?thesis
  proof (cases stay)
    case True
    then show ?thesis using c1 rest by (auto simp: coheres_def)
  next
    case False
    then obtain hand c2 c3 where h: "advance_hand cfg np (batch_capacity cfg) c1 = Some (hand, c2)"
      "treepass_evict_batch cfg tid now c2 hand (np = 0) = Some c3" "cc' = c3\<lparr>free_hand := (free_hand c3)(tid := hand)\<rparr>"
      using rest by (auto simp: bind_eq_Some_conv)
    have a: "coheres cfg c1 c2 \<and> hand < batch_capacity cfg"
      using advance_hand_coheres [OF _ h(1)] coheres_inv c1 inv by blast
    have b: "coheres cfg c2 c3" using evict_batch_coheres [OF cok _ h(2)] a by blast
    have c: "coheres cfg c3 cc'" unfolding h(3) using set_hand_coheres [OF _ cok] a by blast
    have "hand < TP_UNMAPPED_ENTRY" using a n cok by (simp add: cfg_ok_def)
    then have "free_hand cc' tid \<noteq> TP_UNMAPPED_ENTRY" by (simp add: h(3))
    then show ?thesis using coheres_trans c1 a b c by blast
  qed
qed

text \<open>A free entry is taken: it is neither free nor mapped.\<close>

definition fresh_entry :: "treepass_config \<Rightarrow> 'p treepass \<Rightarrow> nat \<Rightarrow> uint32 \<Rightarrow> bool" where
  "fresh_entry cfg cc e st \<longleftrightarrow> e < page_capacity cfg \<and> \<not> mapped cc e \<and> status (tp_entry cc e) = st"

lemma unmapped_entry_coheres:
  assumes inv: "tp_inv cfg cc" and e: "e < page_capacity cfg" "\<not> mapped cc e" "\<not> in_writeback cc e"
    and en: "disk_addr en = TP_UNMAPPED_ADDR" "take_bit 6 (status en) \<noteq> 0"
    and f: "tp_entry cc' = (tp_entry cc)(e := en)" "tp_data cc' = tp_data cc" "tp_lookup cc' = tp_lookup cc"
    "tp_disk cc' = tp_disk cc" "tp_io cc' = tp_io cc" "free_hand cc' = free_hand cc"
  shows "coheres cfg cc cc'"
proof (rule coheresI)
  show "free_hand cc' = free_hand cc" by (rule f)
  have lk: "treepass_lookup cfg cc' = treepass_lookup cfg cc" by (simp add: fun_eq_iff treepass_lookup_def f)
  have other: "mapped cc' x = mapped cc x" for x using e(2) en(1) by (simp add: mapped_def f)
  have ne: "x \<noteq> e" if "mapped cc x" for x using that e(2) by auto
  have "entry_ok cfg cc' x" if "x < page_capacity cfg" for x
  proof (cases "x = e")
    case True
    then show ?thesis using e(2) en by (simp add: entry_ok_def other f)
  next
    case False
    then show ?thesis using tp_invD(2) [OF inv that] by (simp add: entry_ok_def other lk f clean_def loading_def)
  qed
  moreover have "lookup_ok cfg cc' n" for n
    using tp_invD(3) [OF inv, of n] ne by (auto simp: lookup_ok_def Let_def other f)
  moreover have "hand_ok cfg cc' t" for t using tp_invD(4) [OF inv, of t] by (simp add: hand_ok_def f)
  moreover have "io_ok cfg cc' t" if "t \<in> set (tp_io cc)" for t
    by (rule io_ok_frame [OF inv that]) (use e in \<open>auto simp: f\<close>)
  ultimately show "tp_inv cfg cc'" using tp_invD(1,6) [OF inv] by (simp add: tp_inv_def f)
  fix a assume a: "aligned cfg a"
  have "treepass_lookup cfg cc a \<noteq> e" using lookup_unique(2) [OF inv a] e tp_invD(1) [OF inv] by (auto simp: cfg_ok_def)
  then show "page_view cfg cc' a = page_view cfg cc a" by (simp add: page_view_def lk f Let_def loading_def)
qed

lemma take_free_entry_coheres:
  assumes inv: "tp_inv cfg cc" and e: "e < page_capacity cfg" "status (tp_entry cc e) = TP_FREE_STATUS"
    and st: "take_bit 6 st \<noteq> 0" "\<not> bit st 2" and tk: "take_free_entry cfg tid cc st ty refcount e = Some cc'"
  shows "coheres cfg cc cc' \<and> fresh_entry cfg cc' e st"
proof -
  have free: "\<not> mapped cc e" "\<not> in_writeback cc e"
    using tp_invD(2) [OF inv e(1)] e(2) by (auto simp: entry_ok_def in_writeback_def tp_flags split: if_splits)
  have f: "tp_entry cc' = (tp_entry cc)(e := (tp_entry cc e)\<lparr>status := st, etype := ty\<rparr>)" "tp_data cc' = tp_data cc" "tp_lookup cc' = tp_lookup cc"
    "tp_disk cc' = tp_disk cc" "tp_io cc' = tp_io cc" "free_hand cc' = free_hand cc"
    using tk by (auto simp: take_free_entry_def treepass_inc_ref_def Let_def split: if_splits)
  have "coheres cfg cc cc'"
    by (rule unmapped_entry_coheres [OF inv e(1) free _ _ f]) (use free st in \<open>simp_all add: mapped_def\<close>)
  then show ?thesis using e(1) free(1) by (simp add: fresh_entry_def f mapped_def)
qed

lemma find_free_page_coheres:
  assumes "tp_inv cfg cc" "free_hand cc tid \<noteq> TP_UNMAPPED_ENTRY" "take_bit 6 st \<noteq> 0" "\<not> bit st 2"
    and "find_free_page cfg tid env st ty refcount True fuel np mh cc = Some (e, cc')"
  shows "coheres cfg cc cc' \<and> fresh_entry cfg cc' e st"
  using assms
proof (induction fuel arbitrary: np mh cc)
  case (Suc fuel)
  note inv = Suc.prems(1)
  have lt: "free_hand cc tid < batch_capacity cfg" using tp_invD(4) [OF inv, of tid] Suc.prems(2) by (simp add: hand_ok_def)
  have go: "np < 3 \<or> \<not> te_elapsed env fuel" using Suc.prems(5) by (auto split: if_splits)
  show ?case
  proof (cases "filter (\<lambda>e. status (tp_entry cc e) = TP_FREE_STATUS) (batch_entries (free_hand cc tid))")
    case (Cons x xs)
    have "x \<in> set (filter (\<lambda>e. status (tp_entry cc e) = TP_FREE_STATUS) (batch_entries (free_hand cc tid)))"
      by (simp only: Cons list.set_intros)
    then have x: "status (tp_entry cc x) = TP_FREE_STATUS" "x \<in> set (batch_entries (free_hand cc tid))" by simp_all
    have xc: "x < page_capacity cfg" by (rule batch_entries_less [OF tp_invD(1) [OF inv] lt x(2)])
    have "e = x" "take_free_entry cfg tid cc st ty refcount x = Some cc'" using Suc.prems(5) Cons go by auto
    then show ?thesis using take_free_entry_coheres [OF inv xc x(1) Suc.prems(3,4)] by blast
  next
    case Nil
    then obtain c1 where m: "treepass_move_hand cfg tid (te_now env) cc np = Some c1"
      and rest: "(if free_hand c1 tid < mh
              then Option.bind (treepass_wait cfg c1 (te_poll env fuel)) (\<lambda>cc2.
                     find_free_page cfg tid env st ty refcount True fuel (np + 1) (free_hand cc2 tid) cc2)
              else find_free_page cfg tid env st ty refcount True fuel np (free_hand c1 tid) c1) = Some (e, cc')"
      using Suc.prems(5) go by (auto simp: bind_eq_Some_conv)
    have c1: "coheres cfg cc c1" "free_hand c1 tid \<noteq> TP_UNMAPPED_ENTRY" using move_hand_coheres [OF inv m] by blast+
    show ?thesis
    proof (cases "free_hand c1 tid < mh")
      case True
      then obtain c2 where w: "treepass_wait cfg c1 (te_poll env fuel) = Some c2"
        "find_free_page cfg tid env st ty refcount True fuel (np + 1) (free_hand c2 tid) c2 = Some (e, cc')"
        using rest by (auto simp: bind_eq_Some_conv)
      have c2: "coheres cfg c1 c2" by (rule wait_coheres [OF w(1)])
      then have "free_hand c2 tid \<noteq> TP_UNMAPPED_ENTRY" using c1(2) by (simp add: coheres_def)
      then show ?thesis
        using Suc.IH [OF coheres_inv [OF c2 coheres_inv [OF c1(1) inv]] _ Suc.prems(3,4) w(2)] c1(1) c2 coheres_trans by blast
    next
      case False
      then show ?thesis
        using Suc.IH [OF coheres_inv [OF c1(1) inv] c1(2) Suc.prems(3,4)] rest c1(1) coheres_trans by fastforce
    qed
  qed
qed simp

lemma get_free_page_coheres:
  assumes inv: "tp_inv cfg cc" and st: "take_bit 6 st \<noteq> 0" "\<not> bit st 2"
    and g: "treepass_get_free_page cfg tid env cc st ty refcount True = Some (e, cc')"
  shows "coheres cfg cc cc' \<and> fresh_entry cfg cc' e st"
proof -
  obtain c1 where c1: "(if free_hand cc tid = TP_UNMAPPED_ENTRY then treepass_move_hand cfg tid (te_now env) cc 0 else Some cc) = Some c1"
    and r: "find_free_page cfg tid env st ty refcount True (te_fuel env) 0 (free_hand cc tid) c1 = Some (e, cc')"
    using g by (auto simp: treepass_get_free_page_def bind_eq_Some_conv)
  have c: "coheres cfg cc c1" "free_hand c1 tid \<noteq> TP_UNMAPPED_ENTRY"
    using c1 move_hand_coheres [OF inv] by (auto split: if_splits)
  show ?thesis using find_free_page_coheres [OF coheres_inv [OF c(1) inv] c(2) st r] c(1) coheres_trans by blast
qed

section \<open>Getting a page\<close>

text \<open>A fresh entry takes the page of an address that is not cached, read from the device.\<close>

lemma load_coheres:
  assumes inv: "tp_inv cfg cc" and e: "e < page_capacity cfg" "\<not> mapped cc e" "\<not> in_writeback cc e"
    and a: "aligned cfg addr" "treepass_lookup cfg cc addr = TP_UNMAPPED_ENTRY"
    and en: "disk_addr en = addr" "\<not> bit (status en) 0" "\<not> bit (status en) 3"
    and f: "tp_entry cc' = (tp_entry cc)(e := en)" "tp_data cc' = (tp_data cc)(e := tp_disk cc addr)"
    "tp_lookup cc' = (tp_lookup cc)(treepass_divide_by_page_size cfg addr := e)"
    "tp_disk cc' = tp_disk cc" "tp_io cc' = tp_io cc" "free_hand cc' = free_hand cc"
  shows "coheres cfg cc cc'"
proof (rule coheresI)
  show "free_hand cc' = free_hand cc" by (rule f)
  note cok = tp_invD(1) [OF inv]
  have "\<not> aligned cfg TP_UNMAPPED_ADDR"
    using cok by (auto simp: aligned_def cfg_ok_def TP_UNMAPPED_ADDR_def take_bit_minus_one_eq_mask mask_eq_0_iff)
  then have addr: "addr \<noteq> TP_UNMAPPED_ADDR" using a(1) by auto
  have lk: "treepass_lookup cfg cc' x = (if x = addr then e else treepass_lookup cfg cc x)" if "aligned cfg x" for x
    using divide_inj [OF that a(1)] by (auto simp: treepass_lookup_def f)
  have mp: "mapped cc' x = (x = e \<or> mapped cc x)" for x using addr en(1) by (simp add: mapped_def f)
  have ne: "x \<noteq> e" "disk_addr (tp_entry cc x) \<noteq> addr" if "x < page_capacity cfg" "mapped cc x" for x
    using that e(2) mapped_lookup [OF inv that] a(2) by auto
  have "entry_ok cfg cc' x" if x: "x < page_capacity cfg" for x
  proof (cases "x = e")
    case True
    then show ?thesis using en a(1) by (simp add: entry_ok_def mp lk f)
  next
    case False
    then show ?thesis
      using tp_invD(2) [OF inv x] ne(2) [OF x] by (cases "mapped cc x") (auto simp: entry_ok_def mp lk f clean_def loading_def)
  qed
  moreover have "lookup_ok cfg cc' n" for n
    using tp_invD(3) [OF inv, of n] ne e(1) en(1) by (auto simp: lookup_ok_def Let_def mp f)
  moreover have "hand_ok cfg cc' t" for t using tp_invD(4) [OF inv, of t] by (simp add: hand_ok_def f)
  moreover have "io_ok cfg cc' t" if "t \<in> set (tp_io cc)" for t
    by (rule io_ok_frame [OF inv that]) (use e in \<open>auto simp: f\<close>)
  ultimately show "tp_inv cfg cc'" using tp_invD(1,6) [OF inv] by (simp add: tp_inv_def f)
  fix x assume x: "aligned cfg x"
  have eu: "e \<noteq> TP_UNMAPPED_ENTRY" using cok e(1) by (simp add: cfg_ok_def)
  show "page_view cfg cc' x = page_view cfg cc x"
  proof (cases "x = addr")
    case True
    then show ?thesis using a en(3) eu by (simp add: page_view_def lk f loading_def)
  next
    case False
    have "treepass_lookup cfg cc x \<noteq> e" using lookup_unique(2) [OF inv x] e(2) eu by auto
    with False show ?thesis by (simp add: page_view_def lk x f Let_def loading_def)
  qed
qed

lemma accessed_same_pages: "same_pages cc (treepass_set_clock_accessed cc e)"
  using clock_inc(2) [of "status (tp_entry cc e)"]
  by (auto simp: treepass_set_clock_accessed_def same_pages_def treepass_get_clock_def treepass_get_status_def)

lemma refs_same_pages [simp]: "same_pages cc (treepass_inc_ref cfg cc e t)" "same_pages cc (treepass_dec_ref cfg cc e t)"
  by (simp_all add: same_pages_def treepass_inc_ref_def treepass_dec_ref_def)

lemma try_get_read_same_pages: "treepass_try_get_read cfg tid cc e acc = (rc, cc') \<Longrightarrow> same_pages cc cc'"
  using same_pages_trans [OF refs_same_pages(1) accessed_same_pages] same_pages_trans [OF refs_same_pages(1) refs_same_pages(2)]
  by (auto simp: treepass_try_get_read_def Let_def split: if_splits)

lemma promote_same_pages: "same_pages cc (promote env cc e is_warm ty)"
  by (simp add: promote_def same_pages_def)

lemma promote_simps [simp]:
  "tp_data (promote env cc e is_warm ty) = tp_data cc" "disk_addr (tp_entry (promote env cc e is_warm ty) x) = disk_addr (tp_entry cc x)"
  by (simp_all add: promote_def)

definition got :: "treepass_config \<Rightarrow> 'p treepass \<Rightarrow> uint64 \<Rightarrow> 'p treepass \<Rightarrow> get_result \<Rightarrow> bool" where
  "got cfg cc addr cc' r \<longleftrightarrow>
     (case r of Inr (Some e) \<Rightarrow> e < page_capacity cfg \<and> disk_addr (tp_entry cc' e) = addr \<and> tp_data cc' e = page_view cfg cc addr
      | _ \<Rightarrow> True)"

lemma test_loading: "treepass_test_flag cc e TP_LOADING = 0 \<longleftrightarrow> \<not> loading cc e"
  using flag_bit [of 3 "status (tp_entry cc e)"]
  by (simp add: treepass_test_flag_def treepass_get_status_def loading_def tp_flags)

lemma get_in_cache_coheres:
  assumes inv: "tp_inv cfg cc" and a: "aligned cfg addr" and e: "treepass_lookup cfg cc addr = e" "e \<noteq> TP_UNMAPPED_ENTRY"
    and g: "treepass_get_in_cache cfg tid env cc addr blocking ty is_warm e = Some (r, cc')"
  shows "coheres cfg cc cc' \<and> got cfg cc addr cc' r \<and> (r = Inr None \<longrightarrow> \<not> blocking)"
proof -
  obtain rc c1 where rd: "treepass_try_get_read cfg tid cc e True = (rc, c1)" by fastforce
  have s1: "same_pages cc c1" by (rule try_get_read_same_pages [OF rd])
  have "cc' = c1 \<and> (\<forall>x. r \<noteq> Inr (Some x)) \<and> (r = Inr None \<longrightarrow> \<not> blocking) \<or> cc' = treepass_dec_ref cfg c1 e tid \<and> r = Inl ()
    \<or> cc' = promote env c1 e is_warm ty \<and> r = Inr (Some e) \<and> disk_addr (tp_entry c1 e) = addr \<and> \<not> loading c1 e"
    using g rd by (auto simp: treepass_get_in_cache_def treepass_get_read_def Let_def test_loading split: if_splits get_rc.splits)
  then consider "cc' = c1" "\<forall>x. r \<noteq> Inr (Some x)" "r = Inr None \<longrightarrow> \<not> blocking" | "cc' = treepass_dec_ref cfg c1 e tid" "r = Inl ()"
    | "cc' = promote env c1 e is_warm ty" "r = Inr (Some e)" "disk_addr (tp_entry c1 e) = addr" "\<not> loading c1 e" by blast
  then show ?thesis
  proof cases
    case 1
    then show ?thesis using same_pages_coheres [OF s1] by (auto simp: got_def split: sum.splits option.splits)
  next
    case 2
    then show ?thesis using same_pages_coheres [OF same_pages_trans [OF s1]] by (simp add: got_def)
  next
    case 3
    have "tp_data c1 e = page_view cfg cc addr"
      using s1 3(4) same_pagesD(2) [OF s1] e by (simp add: page_view_def same_pages_def)
    then show ?thesis
      using 3 same_pages_coheres [OF same_pages_trans [OF s1 promote_same_pages]] lookup_unique(1) [OF inv a e(1,2)] by (simp add: got_def)
  qed
qed

lemma loading_status:
  "take_bit 6 TP_READ_LOADING_STATUS \<noteq> 0" "\<not> bit TP_READ_LOADING_STATUS 2" "TP_READ_LOADING_STATUS AND NOT TP_LOADING = TP_CLEAN"
  by (simp_all add: tp_flags)

lemma get_from_disk_coheres:
  assumes inv: "tp_inv cfg cc" and a: "aligned cfg addr"
    and g: "treepass_get_from_disk cfg tid env cc addr ty is_warm = Some (r, cc')"
  shows "coheres cfg cc cc' \<and> got cfg cc addr cc' r \<and> r \<noteq> Inr None"
proof -
  obtain e c1 where ac: "treepass_acquire_entry_for_load cfg tid env cc addr ty = Some (e, c1)"
    using g by (auto simp: treepass_get_from_disk_def bind_eq_Some_conv)
  obtain x c0 where fp: "treepass_get_free_page cfg tid env cc TP_READ_LOADING_STATUS ty True True = Some (x, c0)"
    using ac by (auto simp: treepass_acquire_entry_for_load_def bind_eq_Some_conv)
  have c0: "coheres cfg cc c0" "fresh_entry cfg c0 x TP_READ_LOADING_STATUS"
    using get_free_page_coheres [OF inv loading_status(1,2) fp] by blast+
  note inv0 = coheres_inv [OF c0(1) inv]
  have x: "x < page_capacity cfg" "\<not> mapped c0 x" "\<not> in_writeback c0 x" "status (tp_entry c0 x) = TP_READ_LOADING_STATUS"
    using c0(2) loading_status(2) by (simp_all add: fresh_entry_def in_writeback_def)
  have xu: "x \<noteq> TP_UNMAPPED_ENTRY" using x(1) tp_invD(1) [OF inv] by (simp add: cfg_ok_def)
  show ?thesis
  proof (cases "treepass_lookup cfg c0 addr = TP_UNMAPPED_ENTRY")
    case False
    then have u: "e = TP_UNMAPPED_ENTRY" "c1 = upd_entry (treepass_dec_ref cfg c0 x tid) x (\<lambda>en. en\<lparr>etype := PAGE_TYPE_INVALID, status := TP_FREE_STATUS\<rparr>)"
      using ac fp by (auto simp: treepass_acquire_entry_for_load_def split: if_splits)
    then have r: "r = Inl ()" "cc' = c1" using g ac by (auto simp: treepass_get_from_disk_def)
    have "coheres cfg c0 c1"
      by (rule unmapped_entry_coheres [OF inv0 x(1-3), of "(tp_entry c0 x)\<lparr>etype := PAGE_TYPE_INVALID, status := TP_FREE_STATUS\<rparr>"])
        (use x(2) in \<open>simp_all add: mapped_def u(2) treepass_dec_ref_def upd_entry_def tp_flags\<close>)
    then show ?thesis using r c0(1) coheres_trans by (auto simp: got_def)
  next
    case True
    then have u: "e = x" "c1 = upd_entry (set_lookup cfg c0 addr x) x (\<lambda>en. en\<lparr>disk_addr := addr\<rparr>)"
      using ac fp by (auto simp: treepass_acquire_entry_for_load_def)
    let ?timed = "ty = PAGE_TYPE_BRANCH \<and> is_warm \<or> ty = PAGE_TYPE_TRUNK"
    let ?c2 = "io_read c1 x addr"
    let ?c3 = "if ?timed then upd_entry ?c2 x (\<lambda>en. en\<lparr>entry_time := te_current_ts env\<rparr>) else ?c2"
    have r: "r = Inr (Some x)" "cc' = treepass_finish_load ?c3 x"
      using g ac u(1) xu by (auto simp: treepass_get_from_disk_def Let_def split: if_splits)
    define en where "en = tp_entry cc' x"
    have en: "disk_addr en = addr" "status en = TP_CLEAN"
      using x(4) loading_status(3) by (simp_all add: en_def r(2) u(2) treepass_finish_load_def treepass_clear_flag_def io_read_def)
    have f: "tp_entry cc' = (tp_entry c0)(x := en)" "tp_data cc' = (tp_data c0)(x := tp_disk c0 addr)"
      "tp_lookup cc' = (tp_lookup c0)(treepass_divide_by_page_size cfg addr := x)"
      "tp_disk cc' = tp_disk c0" "tp_io cc' = tp_io c0" "free_hand cc' = free_hand c0"
      by (simp_all add: en_def r(2) u(2) treepass_finish_load_def treepass_clear_flag_def io_read_def set_lookup_def upd_entry_def)
    have c: "coheres cfg c0 cc'"
      by (rule load_coheres [OF inv0 x(1-3) a True en(1) _ _ f]) (simp_all add: en(2) tp_flags)
    have "tp_data cc' x = page_view cfg c0 addr" using True by (simp add: f page_view_def)
    then have "got cfg cc addr cc' r" using c0(1) inv a en(1) x(1) by (simp add: got_def r(1) coheres_def en_def)
    then show ?thesis using coheres_trans [OF c0(1) c] r by blast
  qed
qed

lemma get_internal_coheres:
  assumes inv: "tp_inv cfg cc" and a: "aligned cfg addr"
    and g: "treepass_get_internal cfg tid env cc addr blocking ty is_warm = Some (r, cc')"
  shows "coheres cfg cc cc' \<and> got cfg cc addr cc' r \<and> (r = Inr None \<longrightarrow> \<not> blocking)"
proof (cases "treepass_lookup cfg cc addr = TP_UNMAPPED_ENTRY")
  case False
  then have "treepass_get_in_cache cfg tid env cc addr blocking ty is_warm (treepass_lookup cfg cc addr) = Some (r, cc')"
    using g by (simp add: treepass_get_internal_def)
  then show ?thesis by (rule get_in_cache_coheres [OF inv a refl False])
next
  case True
  then show ?thesis
    using get_from_disk_coheres [OF inv a] g by (auto simp: treepass_get_internal_def got_def split: if_splits)
qed

lemma get_coheres:
  assumes "tp_inv cfg cc" "aligned cfg addr" "treepass_get cfg tid env fuel cc addr blocking ty is_warm = Some (h, cc')"
  shows "coheres cfg cc cc' \<and> got cfg cc addr cc' (Inr h) \<and> (h = None \<longrightarrow> \<not> blocking)"
  using assms
proof (induction fuel arbitrary: cc)
  case (Suc n)
  obtain r c1 where i: "treepass_get_internal cfg tid env cc addr blocking ty is_warm = Some (r, c1)"
    using Suc.prems(3) by (auto simp: bind_eq_Some_conv)
  note c1 = get_internal_coheres [OF Suc.prems(1,2) i]
  show ?case
  proof (cases r)
    case (Inl u)
    then have "treepass_get cfg tid env n c1 addr blocking ty is_warm = Some (h, cc')" using Suc.prems(3) i by simp
    from Suc.IH [OF _ Suc.prems(2) this] c1 Suc.prems(1) have ih: "coheres cfg c1 cc'" "got cfg c1 addr cc' (Inr h)" "h = None \<longrightarrow> \<not> blocking"
      using coheres_inv by blast+
    have "page_view cfg c1 addr = page_view cfg cc addr" using c1 Suc.prems(1,2) by (simp add: coheres_def)
    then show ?thesis using ih c1 coheres_trans by (auto simp: got_def split: option.splits)
  next
    case (Inr p)
    then show ?thesis using Suc.prems(3) i c1 by auto
  qed
qed simp


text \<open>
  The interface a reader of pages relies on, and its instance: reads by any sequence of blocking gets, with all the
  evictions and writebacks they cause, return what the store held at the start.
\<close>

fun read_all :: "('s \<Rightarrow> 'a \<Rightarrow> ('h \<times> 's) option) \<Rightarrow> ('s \<Rightarrow> 'h \<Rightarrow> 'p) \<Rightarrow> 'a list \<Rightarrow> 's \<Rightarrow> ('p list \<times> 's) option" where
  "read_all get cont [] s = Some ([], s)"
| "read_all get cont (a # as) s =
     Option.bind (get s a) (\<lambda>(h, s1). map_option (\<lambda>(ps, s2). (cont s1 h # ps, s2)) (read_all get cont as s1))"

locale page_cache =
  fixes inv :: "'s \<Rightarrow> bool" and valid :: "'a \<Rightarrow> bool" and view :: "'s \<Rightarrow> 'a \<Rightarrow> 'p"
    and get :: "'s \<Rightarrow> 'a \<Rightarrow> ('h \<times> 's) option" and cont :: "'s \<Rightarrow> 'h \<Rightarrow> 'p"
  assumes get_inv: "inv s \<Longrightarrow> valid a \<Longrightarrow> get s a = Some (h, s') \<Longrightarrow> inv s'"
    and get_view: "inv s \<Longrightarrow> valid a \<Longrightarrow> get s a = Some (h, s') \<Longrightarrow> valid b \<Longrightarrow> view s' b = view s b"
    and get_cont: "inv s \<Longrightarrow> valid a \<Longrightarrow> get s a = Some (h, s') \<Longrightarrow> cont s' h = view s a"
begin

lemma reads_stable:
  "inv s \<Longrightarrow> \<forall>a\<in>set as. valid a \<Longrightarrow> read_all get cont as s = Some (ps, s') \<Longrightarrow>
    inv s' \<and> (\<forall>b. valid b \<longrightarrow> view s' b = view s b) \<and> ps = map (view s) as"
proof (induction as arbitrary: s ps)
  case (Cons a as)
  obtain h s1 ps' where g: "get s a = Some (h, s1)" "read_all get cont as s1 = Some (ps', s')" "ps = cont s1 h # ps'"
    using Cons.prems(3) by (auto simp: bind_eq_Some_conv)
  have "valid a" using Cons.prems(2) by simp
  note get = get_inv [OF Cons.prems(1) this g(1)] get_view [OF Cons.prems(1) this g(1)] get_cont [OF Cons.prems(1) this g(1)]
  have "\<forall>a\<in>set as. valid a" using Cons.prems(2) by simp
  from Cons.IH [OF get(1) this g(2)] show ?case using get g(3) Cons.prems(2) by simp
qed simp

end

definition get_blocking ::
  "treepass_config \<Rightarrow> nat \<Rightarrow> tp_env \<Rightarrow> nat \<Rightarrow> page_type \<Rightarrow> bool \<Rightarrow> 'p treepass \<Rightarrow> uint64 \<Rightarrow> (nat \<times> 'p treepass) option" where
  "get_blocking cfg tid env fuel ty is_warm cc addr =
     (case treepass_get cfg tid env fuel cc addr True ty is_warm of Some (Some e, cc') \<Rightarrow> Some (e, cc') | _ \<Rightarrow> None)"

lemma get_blocking_Some:
  "get_blocking cfg tid env fuel ty is_warm cc addr = Some (e, cc') \<longleftrightarrow>
    treepass_get cfg tid env fuel cc addr True ty is_warm = Some (Some e, cc')"
  by (auto simp: get_blocking_def split: option.splits)

interpretation tp: page_cache "tp_inv cfg" "aligned cfg" "page_view cfg" "get_blocking cfg tid env fuel ty is_warm" tp_data
  for cfg tid env fuel ty is_warm
proof
  fix s :: "'p treepass" and a h s' b
  assume g: "tp_inv cfg s" "aligned cfg a" "get_blocking cfg tid env fuel ty is_warm s a = Some (h, s')"
  note t = get_coheres [OF g(1,2) g(3) [unfolded get_blocking_Some]]
  show "tp_inv cfg s'" using t g(1) by (simp add: coheres_def)
  show "page_view cfg s' b = page_view cfg s b" if "aligned cfg b" using t g(1) that by (simp add: coheres_def)
  show "tp_data s' h = page_view cfg s a" using t by (simp add: got_def)
qed


end
