(* ===== verification/TreePass_Locks.thy ===== *)
theory TreePass_Locks
  imports TreePass_Evict
begin

text \<open>
  The page locks of \<open>treepass.c\<close> under concurrency, for one entry of the cache: every atomic access of the lock
  functions to the status word and to the reference counters is one step of some thread, and threads interleave.
  Readers, claims, writers, writeback, eviction and reallocation of the entry are steps. The clock bits may
  change at any time. The reference counters are numbers: the source asserts that they do not overflow.
\<close>

section \<open>Definitions\<close>

text \<open>
  Where a thread is: in \<open>treepass_try_get_read\<close> before the reference, before the load of \<open>TP_FREE\<close>, before the load of
  \<open>TP_WRITELOCKED\<close> with the result of the first, before the reference is dropped; holding a read lock or a claim; in
  \<open>treepass_get_write\<close> or \<open>treepass_try_get_write\<close> waiting for writeback or looking at a stripe; holding the write lock; in
  \<open>treepass_get_free_page\<close> before the reference; in \<open>treepass_try_evict\<close> or \<open>treepass_try_page_discard\<close> before \<open>TP_FREE_STATUS\<close> is stored,
  and then before the reference is dropped.
\<close>

datatype lock_pc = Idle | Read_inc | Read_free | Read_write bool | Read_undo | Reading | Claimed
  | Write_wait | Write_scan nat | Writing | Evicting | Evicted | Alloc_inc

record lock_state =
  l_status :: uint32
  l_refs :: "nat \<Rightarrow> nat"
  l_pc :: "nat \<Rightarrow> lock_pc"

definition goto :: "lock_state \<Rightarrow> nat \<Rightarrow> lock_pc \<Rightarrow> lock_state" where
  "goto s t p = s\<lparr>l_pc := (l_pc s)(t := p)\<rparr>"

definition stripe_free :: "lock_state \<Rightarrow> nat \<Rightarrow> nat \<Rightarrow> bool" where
  "stripe_free s t k \<longleftrightarrow> (if t mod TP_RC_WIDTH \<noteq> k then l_refs s k = 0 else l_refs s k \<le> 1)"

definition inc_stripe :: "lock_state \<Rightarrow> nat \<Rightarrow> lock_state" where
  "inc_stripe s t = s\<lparr>l_refs := (l_refs s)(t mod TP_RC_WIDTH := l_refs s (t mod TP_RC_WIDTH) + 1)\<rparr>"

definition dec_stripe :: "lock_state \<Rightarrow> nat \<Rightarrow> lock_state" where
  "dec_stripe s t = s\<lparr>l_refs := (l_refs s)(t mod TP_RC_WIDTH := l_refs s (t mod TP_RC_WIDTH) - 1)\<rparr>"

text \<open>\<open>evicting\<close> says whether the entry may be evicted and allocated again.\<close>

inductive lock_step :: "bool \<Rightarrow> lock_state \<Rightarrow> lock_state \<Rightarrow> bool" for evicting where
  read_test: "l_pc s t = Idle \<Longrightarrow> l_status s AND TP_WRITELOCKED = 0 \<Longrightarrow> lock_step evicting s (goto s t Read_inc)"
| read_inc: "l_pc s t = Read_inc \<Longrightarrow> lock_step evicting s (goto (inc_stripe s t) t Read_free)"
| read_free: "l_pc s t = Read_free \<Longrightarrow> lock_step evicting s (goto s t (Read_write (l_status s AND TP_FREE \<noteq> 0)))"
| read_ok: "l_pc s t = Read_write False \<Longrightarrow> l_status s AND TP_WRITELOCKED = 0 \<Longrightarrow> lock_step evicting s (goto s t Reading)"
| read_fail: "l_pc s t = Read_write f \<Longrightarrow> f \<or> l_status s AND TP_WRITELOCKED \<noteq> 0 \<Longrightarrow> lock_step evicting s (goto s t Read_undo)"
| read_undo: "l_pc s t = Read_undo \<Longrightarrow> lock_step evicting s (goto (dec_stripe s t) t Idle)"
| claim: "l_pc s t = Reading \<Longrightarrow> l_status s AND TP_CLAIMED = 0
    \<Longrightarrow> lock_step evicting s (goto (s\<lparr>l_status := l_status s OR TP_CLAIMED\<rparr>) t Claimed)"
| write_set: "l_pc s t = Claimed
    \<Longrightarrow> lock_step evicting s (goto (s\<lparr>l_status := l_status s OR TP_WRITELOCKED\<rparr>) t Write_wait)"
| write_flushed: "l_pc s t = Write_wait \<Longrightarrow> l_status s AND TP_WRITEBACK = 0 \<Longrightarrow> lock_step evicting s (goto s t (Write_scan 0))"
| write_scan: "l_pc s t = Write_scan k \<Longrightarrow> k < TP_RC_WIDTH \<Longrightarrow> stripe_free s t k
    \<Longrightarrow> lock_step evicting s (goto s t (Write_scan (k + 1)))"
| write_done: "l_pc s t = Write_scan TP_RC_WIDTH \<Longrightarrow> lock_step evicting s (goto s t Writing)"
| write_fail: "l_pc s t = Write_wait \<and> l_status s AND TP_WRITEBACK \<noteq> 0 \<or> l_pc s t = Write_scan k \<and> \<not> stripe_free s t k
    \<Longrightarrow> lock_step evicting s (goto (s\<lparr>l_status := l_status s AND NOT TP_WRITELOCKED\<rparr>) t Claimed)"
| unlock: "l_pc s t = Writing
    \<Longrightarrow> lock_step evicting s (goto (s\<lparr>l_status := l_status s AND NOT TP_WRITELOCKED\<rparr>) t Claimed)"
| unclaim: "l_pc s t = Claimed
    \<Longrightarrow> lock_step evicting s (goto (s\<lparr>l_status := l_status s AND NOT TP_CLAIMED\<rparr>) t Reading)"
| unget: "l_pc s t = Reading \<Longrightarrow> lock_step evicting s (goto (dec_stripe s t) t Idle)"
| mark_dirty: "l_pc s t = Writing \<Longrightarrow> lock_step evicting s (s\<lparr>l_status := l_status s AND NOT TP_CLEAN\<rparr>)"
| set_writeback: "l_status s AND TP_CLEANABLE_BASE_MASK = 0
    \<Longrightarrow> lock_step evicting s (s\<lparr>l_status := l_status s OR TP_WRITEBACK\<rparr>)"
| written: "l_status s AND TP_WRITEBACK \<noteq> 0
    \<Longrightarrow> lock_step evicting s (s\<lparr>l_status := (l_status s OR TP_CLEAN) AND NOT TP_WRITEBACK\<rparr>)"
| clock: "take_bit 6 st = take_bit 6 (l_status s) \<Longrightarrow> lock_step evicting s (s\<lparr>l_status := st\<rparr>)"
| evict_check: "evicting \<Longrightarrow> l_pc s t = Writing \<Longrightarrow> l_status s = TP_LOCKED_EVICTABLE_STATUS \<or> discarded
    \<Longrightarrow> lock_step evicting s (goto s t Evicting)"
| evict: "l_pc s t = Evicting
    \<Longrightarrow> lock_step evicting s (goto (s\<lparr>l_status := TP_FREE_STATUS\<rparr>) t Evicted)"
| evicted: "l_pc s t = Evicted \<Longrightarrow> lock_step evicting s (goto (dec_stripe s t) t Idle)"
| alloc: "evicting \<Longrightarrow> l_pc s t = Idle \<Longrightarrow> l_status s = TP_FREE_STATUS
    \<Longrightarrow> lock_step evicting s (goto (s\<lparr>l_status := TP_ALLOC_STATUS\<rparr>) t Alloc_inc)"
| alloc_inc: "l_pc s t = Alloc_inc \<Longrightarrow> lock_step evicting s (goto (inc_stripe s t) t Writing)"

inductive lock_reachable :: "bool \<Rightarrow> lock_state \<Rightarrow> bool" for evicting where
  start: "st AND (TP_WRITELOCKED OR TP_CLAIMED) = 0 \<Longrightarrow>
    lock_reachable evicting \<lparr>l_status = st, l_refs = (\<lambda>_. 0), l_pc = (\<lambda>_. Idle)\<rparr>"
| step: "lock_reachable evicting s \<Longrightarrow> lock_step evicting s s' \<Longrightarrow> lock_reachable evicting s'"

section \<open>Claims are unique, and a writer is alone\<close>

text \<open>What a place of a thread means: it has a reference, the claim, the write flag.\<close>

fun has_ref :: "lock_pc \<Rightarrow> bool" where
  "has_ref Idle = False" | "has_ref Read_inc = False" | "has_ref Alloc_inc = False" | "has_ref _ = True"

fun has_claim :: "lock_pc \<Rightarrow> bool" where
  "has_claim Claimed = True" | "has_claim Write_wait = True" | "has_claim (Write_scan k) = True"
| "has_claim Writing = True" | "has_claim Evicting = True" | "has_claim Alloc_inc = True" | "has_claim _ = False"

fun has_flag :: "lock_pc \<Rightarrow> bool" where
  "has_flag Write_wait = True" | "has_flag (Write_scan k) = True"
| "has_flag Writing = True" | "has_flag Evicting = True" | "has_flag Alloc_inc = True" | "has_flag _ = False"

lemma has_flag_claim: "has_flag p \<Longrightarrow> has_claim p"
  by (cases p) simp_all

definition holders :: "lock_state \<Rightarrow> nat \<Rightarrow> nat set" where
  "holders s k = {t. t mod TP_RC_WIDTH = k \<and> has_ref (l_pc s t)}"

text \<open>The invariant: the counters count the holders, the two flags tell of the only thread that has them.\<close>

definition refs_ok :: "lock_state \<Rightarrow> bool" where
  "refs_ok s \<longleftrightarrow> finite {t. l_pc s t \<noteq> Idle} \<and> (\<forall>k. l_refs s k = card (holders s k))"

definition claims_ok :: "uint32 \<Rightarrow> (nat \<Rightarrow> lock_pc) \<Rightarrow> bool" where
  "claims_ok st pc \<longleftrightarrow> bit st 5 = (\<exists>t. has_claim (pc t)) \<and> (\<forall>t u. has_claim (pc t) \<and> has_claim (pc u) \<longrightarrow> t = u)
     \<and> bit st 4 = (\<exists>t. has_flag (pc t))"

definition lock_inv :: "lock_state \<Rightarrow> bool" where
  "lock_inv s \<longleftrightarrow> refs_ok s \<and> claims_ok (l_status s) (l_pc s)"

lemma flag_zero:
  "(st AND TP_WRITELOCKED = 0) = (\<not> bit st 4)" "(st AND TP_CLAIMED = 0) = (\<not> bit st 5)"
  "(st AND TP_WRITEBACK = 0) = (\<not> bit st 2)" "(st AND TP_FREE = 0) = (\<not> bit st 0)"
proof -
  have w: "TP_WRITELOCKED = 2 ^ 4" "TP_CLAIMED = 2 ^ 5" "TP_WRITEBACK = 2 ^ 2" "TP_FREE = 2 ^ 0" by (simp_all add: tp_flags)
  show "(st AND TP_WRITELOCKED = 0) = (\<not> bit st 4)" "(st AND TP_CLAIMED = 0) = (\<not> bit st 5)"
    "(st AND TP_WRITEBACK = 0) = (\<not> bit st 2)" "(st AND TP_FREE = 0) = (\<not> bit st 0)"
    unfolding w and_exp_eq_0_iff_not_bit by (rule refl)+
qed

lemma flag_bits:
  "bit TP_WRITELOCKED k \<longleftrightarrow> k = 4" "bit TP_CLAIMED k \<longleftrightarrow> k = 5" "bit TP_WRITEBACK k \<longleftrightarrow> k = 2" "bit TP_CLEAN k \<longleftrightarrow> k = 1"
  "bit TP_FREE k \<longleftrightarrow> k = 0"
proof -
  have w: "TP_WRITELOCKED = 2 ^ 4" "TP_CLAIMED = 2 ^ 5" "TP_WRITEBACK = 2 ^ 2" "TP_CLEAN = 2 ^ 1" "TP_FREE = 2 ^ 0"
    by (simp_all add: tp_flags)
  show "bit TP_WRITELOCKED k \<longleftrightarrow> k = 4" "bit TP_CLAIMED k \<longleftrightarrow> k = 5" "bit TP_WRITEBACK k \<longleftrightarrow> k = 2" "bit TP_CLEAN k \<longleftrightarrow> k = 1"
    "bit TP_FREE k \<longleftrightarrow> k = 0"
    unfolding w bit_exp_iff by auto
qed

lemma status_bits:
  "bit TP_ALLOC_STATUS k \<longleftrightarrow> k = 4 \<or> k = 5" "bit TP_FREE_STATUS k \<longleftrightarrow> k = 0"
  by (auto simp: TP_ALLOC_STATUS_def TP_FREE_STATUS_def bit_or_iff flag_bits)

lemma not_bit: "bit (NOT (f :: uint32)) k \<longleftrightarrow> k < 32 \<and> \<not> bit f k"
  by (simp add: bit_not_iff)

lemmas lock_bits = flag_zero flag_bits status_bits bit_or_iff bit_and_iff not_bit

lemma finite_holders: "refs_ok s \<Longrightarrow> finite (holders s k)"
  unfolding refs_ok_def holders_def by (rule finite_subset [of _ "{t. l_pc s t \<noteq> Idle}"]) auto

lemma refs_ok_same:
  assumes "refs_ok s" "has_ref p = has_ref (l_pc s t)" "l_refs s' = l_refs s" "l_pc s' = (l_pc s)(t := p)"
  shows "refs_ok s'"
proof -
  have "holders s' k = holders s k" for k using assms(2,4) by (auto simp: holders_def split: if_splits)
  moreover have "{u. l_pc s' u \<noteq> Idle} \<subseteq> insert t {u. l_pc s u \<noteq> Idle}" using assms(4) by auto
  ultimately show ?thesis using assms(1,3) finite_subset by (fastforce simp: refs_ok_def)
qed

lemma refs_ok_goto: "refs_ok s \<Longrightarrow> has_ref p = has_ref (l_pc s t) \<Longrightarrow> refs_ok (goto s t p)"
  by (erule refs_ok_same) (simp_all add: goto_def)

lemma refs_ok_change:
  assumes "refs_ok s" "l_pc s' = (l_pc s)(t := p)"
    and "\<not> has_ref (l_pc s t) \<and> has_ref p \<and> l_refs s' = l_refs (inc_stripe s t) \<or> has_ref (l_pc s t) \<and> \<not> has_ref p \<and> l_refs s' = l_refs (dec_stripe s t)"
  shows "refs_ok s'"
proof -
  have h: "holders s' k = (if t mod TP_RC_WIDTH = k then if has_ref p then insert t (holders s k) else holders s k - {t} else holders s k)" for k
    using assms(2) by (auto simp: holders_def split: if_splits)
  have "t \<in> holders s (t mod TP_RC_WIDTH) \<longleftrightarrow> has_ref (l_pc s t)" by (simp add: holders_def)
  then have "l_refs s' k = card (holders s' k)" for k
    using assms(1,3) finite_holders [OF assms(1)] by (auto simp: h refs_ok_def inc_stripe_def dec_stripe_def)
  moreover have "finite {u. l_pc s' u \<noteq> Idle}"
    by (rule finite_subset [of _ "insert t {u. l_pc s u \<noteq> Idle}"]) (use assms(1,2) in \<open>auto simp: refs_ok_def\<close>)
  ultimately show ?thesis by (simp add: refs_ok_def)
qed

lemma claims_ok_upd:
  assumes "claims_ok st pc"
    and "has_claim p = has_claim (pc t) \<and> has_flag p = has_flag (pc t) \<and> bit st' 5 = bit st 5 \<and> bit st' 4 = bit st 4
       \<or> (bit st 5 \<longrightarrow> has_claim (pc t)) \<and> bit st' 5 = has_claim p \<and> bit st' 4 = has_flag p"
  shows "claims_ok st' (pc(t := p))"
  using assms(2)
proof
  assume "has_claim p = has_claim (pc t) \<and> has_flag p = has_flag (pc t) \<and> bit st' 5 = bit st 5 \<and> bit st' 4 = bit st 4"
  moreover have "has_claim ((pc(t := p)) u) = has_claim (pc u)" "has_flag ((pc(t := p)) u) = has_flag (pc u)" for u
    using calculation by auto
  ultimately show ?thesis using assms(1) unfolding claims_ok_def by presburger
next
  assume a: "(bit st 5 \<longrightarrow> has_claim (pc t)) \<and> bit st' 5 = has_claim p \<and> bit st' 4 = has_flag p"
  have "\<not> has_claim (pc u)" if "u \<noteq> t" for u using that a assms(1) unfolding claims_ok_def by blast
  moreover have "\<not> has_flag (pc u)" if "u \<noteq> t" for u using calculation that has_flag_claim by blast
  ultimately have "has_claim ((pc(t := p)) u) \<longleftrightarrow> u = t \<and> has_claim p" "has_flag ((pc(t := p)) u) \<longleftrightarrow> u = t \<and> has_flag p" for u by auto
  then show ?thesis using a by (simp only: claims_ok_def) auto
qed

lemma claims_ok_status: "claims_ok st pc \<Longrightarrow> bit st' 5 = bit st 5 \<Longrightarrow> bit st' 4 = bit st 4 \<Longrightarrow> claims_ok st' pc"
  by (simp add: claims_ok_def)

lemma refs_ok_status: "refs_ok s \<Longrightarrow> refs_ok (s\<lparr>l_status := st\<rparr>)"
  by (simp add: refs_ok_def holders_def)

lemma claims_bit: "claims_ok st pc \<Longrightarrow> has_claim (pc t) \<Longrightarrow> bit st 5" "claims_ok st pc \<Longrightarrow> has_flag (pc t) \<Longrightarrow> bit st 4"
  by (auto simp: claims_ok_def)

lemma claims_flag: "claims_ok st pc \<Longrightarrow> bit st 4 \<Longrightarrow> bit st 5"
  using has_flag_claim by (auto simp: claims_ok_def)

lemma base_mask_bits: "(st AND TP_CLEANABLE_BASE_MASK = 0) \<longleftrightarrow> (\<forall>k<6. \<not> bit st k)"
proof -
  have "(63 :: uint32) = mask 6" by (simp add: mask_eq_exp_minus_1)
  then have "st AND TP_CLEANABLE_BASE_MASK = take_bit 6 st" by (simp add: tp_flags take_bit_eq_mask)
  then show ?thesis by (auto simp: bit_eq_iff bit_take_bit_iff)
qed

lemma refs_step:
  assumes "lock_step ev s s'" "refs_ok s"
  shows "refs_ok s'"
  using assms(1)
proof cases
  case (read_inc t)
  show ?thesis by (rule refs_ok_change [OF assms(2), of _ t Read_free]) (use read_inc in \<open>auto simp: goto_def inc_stripe_def\<close>)
next
  case (read_undo t)
  show ?thesis by (rule refs_ok_change [OF assms(2), of _ t Idle]) (use read_undo in \<open>auto simp: goto_def dec_stripe_def\<close>)
next
  case (unget t)
  show ?thesis by (rule refs_ok_change [OF assms(2), of _ t Idle]) (use unget in \<open>auto simp: goto_def dec_stripe_def\<close>)
next
  case (evicted t)
  show ?thesis by (rule refs_ok_change [OF assms(2), of _ t Idle]) (use evicted in \<open>auto simp: goto_def dec_stripe_def\<close>)
next
  case (alloc_inc t)
  show ?thesis by (rule refs_ok_change [OF assms(2), of _ t Writing]) (use alloc_inc in \<open>auto simp: goto_def inc_stripe_def\<close>)
qed (use assms(2) in \<open>auto intro!: refs_ok_goto refs_ok_status\<close>)

lemma goto_simps [simp]:
  "l_status (goto s t p) = l_status s" "l_pc (goto s t p) = (l_pc s)(t := p)" "l_refs (goto s t p) = l_refs s"
  "l_status (inc_stripe s t) = l_status s" "l_pc (inc_stripe s t) = l_pc s"
  "l_status (dec_stripe s t) = l_status s" "l_pc (dec_stripe s t) = l_pc s"
  by (simp_all add: goto_def inc_stripe_def dec_stripe_def)

lemma claims_keep:
  "claims_ok st pc \<Longrightarrow> pc t = q \<Longrightarrow> has_claim p = has_claim q \<Longrightarrow> has_flag p = has_flag q \<Longrightarrow> claims_ok st (pc(t := p))"
  by (rule claims_ok_upd [of st]) simp_all

lemma claims_own:
  assumes "claims_ok st pc" "has_claim (pc t)" "bit st' 5 = has_claim p" "bit st' 4 = has_flag p"
  shows "claims_ok st' (pc(t := p))"
  by (rule claims_ok_upd [OF assms(1)]) (use assms in simp)

lemma claims_step:
  assumes "lock_step ev s s'" "claims_ok (l_status s) (l_pc s)"
  shows "claims_ok (l_status s') (l_pc s')"
  using assms(1)
proof cases
  case (claim t)
  then have "\<not> bit (l_status s) 4" "\<not> bit (l_status s) 5" using claims_flag [OF assms(2)] by (auto simp: lock_bits)
  then show ?thesis unfolding claim(1) by (auto simp: lock_bits intro!: claims_ok_upd [OF assms(2)])
next
  case (write_set t)
  then show ?thesis using claims_bit(1) [OF assms(2), of t] by (simp add: lock_bits claims_own [OF assms(2)])
next
  case (write_fail t k)
  then have "has_claim (l_pc s t)" by auto
  then show ?thesis using write_fail claims_bit(1) [OF assms(2), of t] by (simp add: lock_bits claims_own [OF assms(2)])
next
  case (unlock t)
  then show ?thesis using claims_bit(1) [OF assms(2), of t] by (simp add: lock_bits claims_own [OF assms(2)])
next
  case (unclaim t)
  have "\<not> bit (l_status s) 4"
  proof
    assume "bit (l_status s) 4"
    then obtain u where "has_flag (l_pc s u)" using assms(2) by (auto simp: claims_ok_def)
    then show False using unclaim assms(2) has_flag_claim [of "l_pc s u"] unfolding claims_ok_def
      by (metis has_claim.simps(1) has_flag.simps(5-))
  qed
  then show ?thesis using unclaim by (simp add: lock_bits claims_own [OF assms(2)])
next
  case (evict t)
  then show ?thesis by (simp add: lock_bits claims_own [OF assms(2)])
next
  case (alloc t)
  then have "\<not> bit (l_status s) 5" by (simp add: lock_bits)
  then show ?thesis using alloc by (auto simp: lock_bits intro!: claims_ok_upd [OF assms(2)])
next
  case (mark_dirty t)
  then show ?thesis by (simp add: lock_bits claims_ok_status [OF assms(2)])
next
  case set_writeback
  then show ?thesis by (simp add: lock_bits claims_ok_status [OF assms(2)])
next
  case written
  then show ?thesis by (simp add: lock_bits claims_ok_status [OF assms(2)])
next
  case (clock st)
  then show ?thesis using flags_eq_bits [OF clock(2)] by (simp add: claims_ok_status [OF assms(2)])
qed (simp_all add: claims_keep [OF assms(2)])

lemma lock_inv_reachable: "lock_reachable ev s \<Longrightarrow> lock_inv s"
proof (induction rule: lock_reachable.induct)
  case (start st)
  have "\<not> bit st 4" "\<not> bit st 5"
    using start by (metis bit_or_iff bit_and_iff bit_0_eq bot_apply bot_bool_def flag_bits(1,2))+
  then show ?case by (simp add: lock_inv_def refs_ok_def claims_ok_def holders_def)
next
  case (step s s')
  then show ?case using refs_step claims_step by (simp add: lock_inv_def)
qed

text \<open>How many stripes a thread has seen without other references.\<close>

fun scanned :: "lock_pc \<Rightarrow> nat option" where
  "scanned (Write_scan k) = Some k" | "scanned Writing = Some TP_RC_WIDTH" | "scanned Evicting = Some TP_RC_WIDTH" | "scanned _ = None"

definition scan_ok :: "uint32 \<Rightarrow> (nat \<Rightarrow> lock_pc) \<Rightarrow> bool" where
  "scan_ok st pc \<longleftrightarrow> (\<forall>t k. scanned (pc t) = Some k \<longrightarrow> \<not> bit st 2 \<and> (\<forall>u. u \<noteq> t \<and> u mod TP_RC_WIDTH < k \<longrightarrow> pc u \<noteq> Reading))
     \<and> (\<forall>t. pc t \<noteq> Alloc_inc)"

lemma scanned_flag: "scanned p = Some k \<Longrightarrow> has_flag p"
  by (cases p) simp_all

lemma scan_keep:
  assumes "scan_ok st pc" "p \<noteq> Reading \<or> pc t = Reading" "scanned p = None \<or> scanned p = scanned (pc t)" "bit st' 2 \<longrightarrow> bit st 2" "p \<noteq> Alloc_inc"
  shows "scan_ok st' (pc(t := p))"
proof -
  have s: "\<not> bit st 2 \<and> (\<forall>u. u \<noteq> t' \<and> u mod TP_RC_WIDTH < k \<longrightarrow> pc u \<noteq> Reading)" if "scanned (pc t') = Some k" for t' k
    using assms(1) that unfolding scan_ok_def by blast
  have "\<not> bit st' 2 \<and> (\<forall>u. u \<noteq> t' \<and> u mod TP_RC_WIDTH < k \<longrightarrow> (pc(t := p)) u \<noteq> Reading)" if "scanned ((pc(t := p)) t') = Some k" for t' k
  proof -
    have "scanned (pc t') = Some k" using that assms(3) by (cases "t' = t") simp_all
    from s [OF this] show ?thesis using assms(2,4) by (metis fun_upd_apply)
  qed
  moreover have "(pc(t := p)) t' \<noteq> Alloc_inc" for t' using assms(1,5) by (simp add: scan_ok_def)
  ultimately show ?thesis unfolding scan_ok_def by blast
qed

lemma scan_status: "scan_ok st pc \<Longrightarrow> bit st' 2 \<longrightarrow> bit st 2 \<Longrightarrow> scan_ok st' pc"
  by (auto simp: scan_ok_def)

lemma scan_only:
  assumes "scan_ok st pc" "\<And>u. u \<noteq> t \<Longrightarrow> scanned (pc u) = None" "p \<noteq> Alloc_inc"
    and "\<And>k. scanned p = Some k \<Longrightarrow> \<not> bit st' 2 \<and> (\<forall>u. u \<noteq> t \<and> u mod TP_RC_WIDTH < k \<longrightarrow> pc u \<noteq> Reading)"
  shows "scan_ok st' (pc(t := p))"
proof -
  have "\<not> bit st' 2 \<and> (\<forall>u. u \<noteq> t' \<and> u mod TP_RC_WIDTH < k \<longrightarrow> (pc(t := p)) u \<noteq> Reading)" if "scanned ((pc(t := p)) t') = Some k" for t' k
  proof (cases "t' = t")
    case True
    with that assms(4) [of k] show ?thesis by (metis fun_upd_apply)
  next
    case False
    with that assms(2) [OF False] show ?thesis by simp
  qed
  moreover have "(pc(t := p)) t' \<noteq> Alloc_inc" for t' using assms(1,3) by (simp add: scan_ok_def)
  ultimately show ?thesis unfolding scan_ok_def by blast
qed

lemma no_scan:
  assumes "claims_ok st pc" "\<not> bit st 4"
  shows "scanned (pc t) = None"
  using assms claims_bit(2) [OF assms(1), of t] scanned_flag [of "pc t"] by (cases "scanned (pc t)") auto

lemma others_not_scanning:
  assumes "claims_ok st pc" "has_claim (pc t)" "u \<noteq> t"
  shows "scanned (pc u) = None"
proof (rule ccontr)
  assume "scanned (pc u) \<noteq> None"
  then have "has_claim (pc u)" using scanned_flag has_flag_claim by blast
  then show False using assms unfolding claims_ok_def by blast
qed

lemma stripe_free_readers:
  assumes "refs_ok s" "stripe_free s t k" "has_ref (l_pc s t)" "u \<noteq> t" "u mod TP_RC_WIDTH = k"
  shows "\<not> has_ref (l_pc s u)"
proof
  assume "has_ref (l_pc s u)"
  then have u: "u \<in> holders s k" using assms(5) by (simp add: holders_def)
  have c: "l_refs s k = card (holders s k)" using assms(1) unfolding refs_ok_def by blast
  note f = finite_holders [OF assms(1), of k]
  show False
  proof (cases "t mod TP_RC_WIDTH = k")
    case True
    then have "{t, u} \<subseteq> holders s k" using u assms(3) by (simp add: holders_def)
    from card_mono [OF f this] have "2 \<le> l_refs s k" using assms(4) unfolding c by simp
    moreover have "l_refs s k \<le> 1" using assms(2) True unfolding stripe_free_def by presburger
    ultimately show False by linarith
  next
    case False
    then have "card (holders s k) = 0" using assms(2) c unfolding stripe_free_def by presburger
    then show False using u f by (metis card_0_eq empty_iff)
  qed
qed

lemma scan_step:
  assumes "lock_step False s s'" "lock_inv s" "scan_ok (l_status s) (l_pc s)"
  shows "scan_ok (l_status s') (l_pc s')"
proof -
  note sc = assms(3)
  have cl: "claims_ok (l_status s) (l_pc s)" and rf: "refs_ok s" using assms(2) by (simp_all add: lock_inv_def)
  from assms(1) show ?thesis
  proof cases
    case (read_ok t)
    then have "scanned (l_pc s u) = None" for u using no_scan [OF cl] by (simp add: lock_bits)
    then show ?thesis unfolding read_ok(1) goto_simps by (intro scan_only [OF sc]) simp_all
  next
    case (unclaim t)
    then have "scan_ok (l_status s AND NOT TP_CLAIMED) ((l_pc s)(t := Reading))"
      by (intro scan_only [OF sc] others_not_scanning [OF cl, of t]) simp_all
    then show ?thesis using unclaim(1) by simp
  next
    case (write_flushed t)
    then show ?thesis unfolding write_flushed(1) goto_simps
      by (intro scan_only [OF sc] others_not_scanning [OF cl, of t]) (simp_all add: lock_bits)
  next
    case (write_scan t k)
    have "l_pc s u \<noteq> Reading" if "u \<noteq> t" "u mod TP_RC_WIDTH < k + 1" for u
    proof (cases "u mod TP_RC_WIDTH = k")
      case True
      have "\<not> has_ref (l_pc s u)" by (rule stripe_free_readers [OF rf write_scan(4) _ that(1) True]) (simp add: write_scan)
      then show ?thesis by auto
    next
      case False
      then show ?thesis using that write_scan(2) sc unfolding scan_ok_def by (metis less_antisym scanned.simps(1) Suc_eq_plus1)
    qed
    moreover have "\<not> bit (l_status s) 2" using sc write_scan(2) unfolding scan_ok_def by (metis scanned.simps(1))
    ultimately show ?thesis using write_scan(2) unfolding write_scan(1) goto_simps
      by (intro scan_only [OF sc] others_not_scanning [OF cl, of t]) simp_all
  next
    case set_writeback
    then have "scanned (l_pc s u) = None" for u using no_scan [OF cl] by (simp add: base_mask_bits)
    then show ?thesis using sc unfolding set_writeback(1) scan_ok_def by simp
  next
    case (clock st)
    then show ?thesis using flags_eq_bits [OF clock(2), of 2] by (simp add: scan_status [OF sc])
  next
    case (alloc_inc t)
    then show ?thesis using sc by (simp add: scan_ok_def)
  next
    case (write_fail t k)
    then show ?thesis by (simp add: lock_bits scan_keep [OF sc])
  next
    case (unget t)
    then show ?thesis by (simp add: scan_keep [OF sc])
  qed (simp_all add: lock_bits scan_keep [OF sc] scan_status [OF sc])
qed

lemma scan_reachable: "lock_reachable False s \<Longrightarrow> scan_ok (l_status s) (l_pc s)"
proof (induction rule: lock_reachable.induct)
  case (step s s')
  then show ?case using scan_step lock_inv_reachable by blast
qed (simp add: scan_ok_def)


text \<open>
  C9: Mutual exclusion under every interleaving of the atomic accesses of the lock functions, as long as the
  entry is not freed: while a thread holds the write lock no other thread holds a read lock, a claim or the
  write lock, and no writeback of the page is under way.
\<close>

theorem lock_writer_alone:
  assumes "lock_reachable False s" "l_pc s t = Writing"
  shows "(\<forall>u. u = t \<or> l_pc s u \<notin> {Reading, Claimed, Write_wait, Writing}) \<and> l_status s AND TP_WRITEBACK = 0"
proof -
  have w: "scanned (l_pc s t) = Some TP_RC_WIDTH" using assms(2) by simp
  have s: "\<not> bit (l_status s) 2" "u \<noteq> t \<Longrightarrow> l_pc s u \<noteq> Reading" for u
    using scan_reachable [OF assms(1)] w unfolding scan_ok_def by (auto simp: TP_RC_WIDTH_def)
  have "has_claim (l_pc s t)" using assms(2) by simp
  then have "has_claim (l_pc s u) \<Longrightarrow> u = t" for u
    using lock_inv_reachable [OF assms(1)] unfolding lock_inv_def claims_ok_def by blast
  then have "u \<noteq> t \<Longrightarrow> l_pc s u \<notin> {Claimed, Write_wait, Writing}" for u by auto
  with s show ?thesis by (auto simp: lock_bits)
qed

section \<open>A read lock on a page that was evicted\<close>

text \<open>
  \<open>treepass_try_get_read\<close> loads \<open>TP_FREE\<close> and then \<open>TP_WRITELOCKED\<close>. An eviction that runs in between clears the write flag as
  it sets the free flag, so both loads see zero.
\<close>

lemma reachable_run: "lock_reachable ev s \<Longrightarrow> (lock_step ev)\<^sup>*\<^sup>* s s' \<Longrightarrow> lock_reachable ev s'"
  by (rotate_tac, induction rule: rtranclp_induct) (auto intro: lock_reachable.step)

text \<open>Three threads at one entry: a reader, the evictor and the thread that takes the entry over.\<close>

definition three_threads :: "uint32 \<Rightarrow> (nat \<Rightarrow> nat) \<Rightarrow> lock_pc \<Rightarrow> lock_pc \<Rightarrow> lock_pc \<Rightarrow> lock_state" where
  "three_threads st r a b c = \<lparr>l_status = st, l_refs = r, l_pc = (\<lambda>_. Idle)(0 := a, 1 := b, 2 := c)\<rparr>"

lemma three_threads_simps [simp]:
  "l_status (three_threads st r a b c) = st" "l_refs (three_threads st r a b c) = r"
  "l_pc (three_threads st r a b c) 0 = a" "l_pc (three_threads st r a b c) (Suc 0) = b" "l_pc (three_threads st r a b c) 2 = c"
  "goto (three_threads st r a b c) 0 p = three_threads st r p b c" "goto (three_threads st r a b c) (Suc 0) p = three_threads st r a p c"
  "goto (three_threads st r a b c) 2 p = three_threads st r a b p"
  "(three_threads st r a b c)\<lparr>l_status := st'\<rparr> = three_threads st' r a b c"
  "inc_stripe (three_threads st r a b c) t = three_threads st (r(t mod TP_RC_WIDTH := r (t mod TP_RC_WIDTH) + 1)) a b c"
  "dec_stripe (three_threads st r a b c) t = three_threads st (r(t mod TP_RC_WIDTH := r (t mod TP_RC_WIDTH) - 1)) a b c"
  by (simp_all add: three_threads_def goto_def inc_stripe_def dec_stripe_def fun_eq_iff)

lemma three_threads_start: "lock_reachable ev (three_threads TP_EVICTABLE_STATUS (\<lambda>_. 0) Idle Idle Idle)"
proof -
  have "lock_reachable ev \<lparr>l_status = TP_EVICTABLE_STATUS, l_refs = (\<lambda>_. 0), l_pc = (\<lambda>_. Idle)\<rparr>"
    by (rule lock_reachable.start) (simp add: tp_flags)
  moreover have "(\<lambda>_. Idle) = (\<lambda>_ :: nat. Idle)(0 := Idle, 1 := Idle, 2 := Idle)" by (simp add: fun_eq_iff)
  ultimately show ?thesis by (simp only: three_threads_def)
qed

lemma writer_locks:
  assumes "lock_reachable ev (three_threads TP_EVICTABLE_STATUS (\<lambda>_. 0) a Idle Idle)"
  shows "lock_reachable ev (three_threads TP_LOCKED_EVICTABLE_STATUS ((\<lambda>_. 0)(1 := 1)) a Writing Idle)"
proof -
  define r where "r = (\<lambda>_ :: nat. 0 :: nat)(1 := 1)"
  have f: "stripe_free (three_threads st r a b c) (Suc 0) k" if "k < 4" for st a b c k
    using that by (auto simp: stripe_free_def r_def TP_RC_WIDTH_def)
  let ?S = "three_threads"
  note st = lock_reachable.step
  have 1: "lock_reachable ev (?S TP_EVICTABLE_STATUS (\<lambda>_. 0) a Read_inc Idle)"
    using st [OF assms lock_step.read_test [of _ "Suc 0"]] by (simp add: tp_flags)
  have 2: "lock_reachable ev (?S TP_EVICTABLE_STATUS r a Read_free Idle)"
    using st [OF 1 lock_step.read_inc [of _ "Suc 0"]] by (simp add: TP_RC_WIDTH_def r_def)
  have 3: "lock_reachable ev (?S TP_EVICTABLE_STATUS r a (Read_write False) Idle)"
    using st [OF 2 lock_step.read_free [of _ "Suc 0"]] by (simp add: tp_flags)
  have 4: "lock_reachable ev (?S TP_EVICTABLE_STATUS r a Reading Idle)"
    using st [OF 3 lock_step.read_ok [of _ "Suc 0"]] by (simp add: tp_flags)
  have 5: "lock_reachable ev (?S (TP_EVICTABLE_STATUS OR TP_CLAIMED) r a Claimed Idle)"
    using st [OF 4 lock_step.claim [of _ "Suc 0"]] by (simp add: tp_flags)
  have 6: "lock_reachable ev (?S TP_LOCKED_EVICTABLE_STATUS r a Write_wait Idle)"
    using st [OF 5 lock_step.write_set [of _ "Suc 0"]] by (simp add: tp_flags)
  have 7: "lock_reachable ev (?S TP_LOCKED_EVICTABLE_STATUS r a (Write_scan 0) Idle)"
    using st [OF 6 lock_step.write_flushed [of _ "Suc 0"]] by (simp add: tp_flags)
  have 8: "k \<le> 4 \<Longrightarrow> lock_reachable ev (?S TP_LOCKED_EVICTABLE_STATUS r a (Write_scan k) Idle)" for k
  proof (induction k)
    case (Suc k)
    then show ?case using st [OF Suc.IH lock_step.write_scan [of _ "Suc 0" k]] f by (simp add: TP_RC_WIDTH_def)
  qed (rule 7)
  show ?thesis using st [OF 8 [of 4] lock_step.write_done [of _ "Suc 0"]] by (simp add: TP_RC_WIDTH_def r_def)
qed

text \<open>
  C11: A flaw of \<open>treepass_try_get_read\<close>: it loads TP_FREE and then TP_WRITELOCKED. If the store of
  TP_FREE_STATUS by an eviction falls between the two loads, the read lock is granted on a free entry, and
  an allocation then makes another thread writer of an entry that is still read.
\<close>

theorem read_lock_survives_eviction:
  "\<exists>s. lock_reachable True s \<and> l_pc s 0 = Reading \<and> l_pc s 2 = Writing"
proof -
  let ?S = "three_threads"
  note st = lock_reachable.step
  let ?r1 = "(\<lambda>_. 0)(1 := 1) :: nat \<Rightarrow> nat" and ?r2 = "(\<lambda>_. 0)(1 := 1, 0 := 1) :: nat \<Rightarrow> nat"
  have 1: "lock_reachable True (?S TP_EVICTABLE_STATUS (\<lambda>_. 0) Read_inc Idle Idle)"
    using st [OF three_threads_start lock_step.read_test [of _ 0]] by (simp add: tp_flags)
  note 2 = writer_locks [OF 1]
  have 3: "lock_reachable True (?S TP_LOCKED_EVICTABLE_STATUS ?r2 Read_free Writing Idle)"
    using st [OF 2 lock_step.read_inc [of _ 0]] by (simp add: TP_RC_WIDTH_def)
  have 4: "lock_reachable True (?S TP_LOCKED_EVICTABLE_STATUS ?r2 (Read_write False) Writing Idle)"
    using st [OF 3 lock_step.read_free [of _ 0]] by (simp add: tp_flags)
  have 5: "lock_reachable True (?S TP_LOCKED_EVICTABLE_STATUS ?r2 (Read_write False) Evicting Idle)"
    using st [OF 4 lock_step.evict_check [of _ _ "Suc 0"]] by simp
  have 6: "lock_reachable True (?S TP_FREE_STATUS ?r2 (Read_write False) Evicted Idle)"
    using st [OF 5 lock_step.evict [of _ "Suc 0"]] by simp
  have 7: "lock_reachable True (?S TP_FREE_STATUS ?r2 Reading Evicted Idle)"
    using st [OF 6 lock_step.read_ok [of _ 0]] by (simp add: tp_flags)
  have 8: "lock_reachable True (?S TP_ALLOC_STATUS ?r2 Reading Evicted Alloc_inc)"
    using st [OF 7 lock_step.alloc [of _ _ 2]] by simp
  have "lock_reachable True (?S TP_ALLOC_STATUS (?r2(2 := 1)) Reading Evicted Writing)"
    using st [OF 8 lock_step.alloc_inc [of _ 2]] by (simp add: TP_RC_WIDTH_def)
  then show ?thesis by (metis three_threads_simps(3,5))
qed

section \<open>A clock that two readers advance at once\<close>

text \<open>
  \<open>treepass_set_clock_accessed\<close> tests the clock and then adds to it. Two readers that both test it at six carry into bit 9.
\<close>

definition clock_fetch_add :: "'p treepass \<Rightarrow> nat \<Rightarrow> 'p treepass" where
  "clock_fetch_add cc e = upd_entry cc e (\<lambda>en. en\<lparr>status := status en + TP_CLOCK_ONE\<rparr>)"

text \<open>
  C12: A flaw of the clock: two readers that both see clock 6 before they add to it carry into an unused bit
  of the status, after which an eviction attempt of the clock pass fails and changes nothing, so that no
  number of passes evicts the page.
\<close>

theorem clock_overflow_never_evicted:
  assumes "treepass_get_ref_internal cfg e < page_capacity cfg"
    and "clock_of (status (tp_entry cc e)) = 6" "drop_bit 9 (status (tp_entry cc e)) = 0"
  shows "(let cc' = clock_fetch_add (clock_fetch_add cc e) e in treepass_try_evict cfg tid cc' e False = Some (False, cc'))"
proof -
  define cc' where "cc' = clock_fetch_add (clock_fetch_add cc e) e"
  obtain h c f where s: "unat (status (tp_entry cc e)) = 512 * h + 64 * c + f" "f < 64" "c < 8" by (rule status_split)
  have "h = 0" "c = 6" using status_eqI [OF s] assms(2,3) by simp_all
  then have "unat (status (tp_entry cc' e)) = 512 * 1 + 64 * 0 + f"
    using s by (simp add: cc'_def clock_fetch_add_def upd_entry_def tp_flags unat_word_ariths)
  note q = status_eqI [OF this s(2)]
  have "treepass_get_clock cc' e = 0" using q(1) by (simp add: treepass_get_clock_def treepass_get_status_def unat_eq_zero)
  moreover have "status (tp_entry cc' e) \<noteq> TP_EVICTABLE_STATUS" using q(3) by (auto simp: tp_flags)
  ultimately show ?thesis unfolding cc'_def [symmetric] Let_def
    by (simp add: try_evict_result [OF assms(1)] evictable_def evict_tick_def treepass_try_dec_clock_def)
qed

end
