(* ===== verification/RC_Allocator.thy ===== *)
theory RC_Allocator
  imports Prelude
begin

text \<open>
  The extent allocator of \<open>rc_allocator.c\<close> and \<open>allocator.h\<close>: a reference count per extent of the device, a hand
  that looks for free extents, and the meta page that names the super blocks of the tables. A count is 0 for a free extent,
  \<open>AL_NO_REFS\<close> or \<open>AL_ONE_REF\<close> or more for an allocated one. Addresses are byte offsets into the device; they
  stay below its capacity, so they are numbers. \<open>None\<close> is a failed \<open>platform_assert\<close> or an access outside an array.
\<close>

section \<open>Definitions\<close>

subsection \<open>Configuration\<close>

record io_config =
  io_page_size :: nat
  io_extent_size :: nat

record allocator_config =
  io_cfg :: io_config
  al_capacity :: nat
  al_page_capacity :: nat
  extent_capacity :: nat
  al_extent_mask :: uint64

definition LAIO_DEFAULT_PAGE_SIZE :: nat where "LAIO_DEFAULT_PAGE_SIZE = 4096"
definition LAIO_DEFAULT_PAGES_PER_EXTENT :: nat where "LAIO_DEFAULT_PAGES_PER_EXTENT = 32"
definition LAIO_DEFAULT_EXTENT_SIZE :: nat where
  "LAIO_DEFAULT_EXTENT_SIZE = LAIO_DEFAULT_PAGES_PER_EXTENT * LAIO_DEFAULT_PAGE_SIZE"

definition laio_config_valid :: "io_config \<Rightarrow> platform_status" where
  "laio_config_valid cfg =
     (if io_page_size cfg \<noteq> LAIO_DEFAULT_PAGE_SIZE then STATUS_BAD_PARAM
      else if io_extent_size cfg \<noteq> LAIO_DEFAULT_EXTENT_SIZE then STATUS_BAD_PARAM
      else STATUS_OK)"

text \<open>The position of the highest bit set, \<open>63 - __builtin_clzll x\<close>.\<close>

fun high_bit :: "nat \<Rightarrow> nat" where
  "high_bit n = (if n \<le> 1 then 0 else Suc (high_bit (n div 2)))"

declare high_bit.simps [simp del]

definition allocator_config_init :: "io_config \<Rightarrow> nat \<Rightarrow> allocator_config" where
  "allocator_config_init io cap =
     \<lparr>io_cfg = io, al_capacity = cap, al_page_capacity = cap div io_page_size io, extent_capacity = cap div io_extent_size io,
      al_extent_mask = NOT (push_bit (high_bit (io_extent_size io)) 1 - 1)\<rparr>"

definition allocator_config_extent_base_addr :: "allocator_config \<Rightarrow> nat \<Rightarrow> nat" where
  "allocator_config_extent_base_addr cfg addr = unat (word_of_nat addr AND al_extent_mask cfg)"

definition allocator_config_pages_share_extent :: "allocator_config \<Rightarrow> nat \<Rightarrow> nat \<Rightarrow> bool" where
  "allocator_config_pages_share_extent cfg addr1 addr2 \<longleftrightarrow>
     allocator_config_extent_base_addr cfg addr1 = allocator_config_extent_base_addr cfg addr2"

definition rc_allocator_valid_config :: "allocator_config \<Rightarrow> platform_status" where
  "rc_allocator_valid_config cfg =
     (let rc = laio_config_valid (io_cfg cfg)
      in if \<not> SUCCESS rc then rc
         else if al_capacity cfg = 0 then STATUS_BAD_PARAM
         else if extent_capacity cfg = 0 then STATUS_BAD_PARAM
         else if al_capacity cfg \<noteq> io_page_size (io_cfg cfg) * al_page_capacity cfg then STATUS_BAD_PARAM
         else if al_capacity cfg \<noteq> io_extent_size (io_cfg cfg) * extent_capacity cfg then STATUS_BAD_PARAM
         else rc)"

subsection \<open>State\<close>

type_synonym refcount = uint32
type_synonym allocator_root_id = uint64

definition INVALID_ALLOCATOR_ROOT_ID :: allocator_root_id where "INVALID_ALLOCATOR_ROOT_ID = 0"
definition RC_ALLOCATOR_MAX_ROOT_IDS :: nat where "RC_ALLOCATOR_MAX_ROOT_IDS = 30"
definition AL_ONE_REF :: refcount where "AL_ONE_REF = 2"
definition AL_NO_REFS :: refcount where "AL_NO_REFS = 1"
definition AL_FREE :: refcount where "AL_FREE = 0"

record rc_allocator_stats =
  curr_allocated :: int
  max_allocated :: int
  extent_allocs :: "page_type \<Rightarrow> int"
  extent_deallocs :: "page_type \<Rightarrow> int"

text \<open>
  The state: the allocator in memory, and what the device holds of it: the meta page with its checksum and the reference counts.
\<close>

record 'c rc_allocator =
  ref_count :: "refcount list"
  al_hand :: uint64
  splinters :: "allocator_root_id list"
  al_stats :: rc_allocator_stats
  disk_meta_page :: "allocator_root_id list \<times> 'c"
  disk_ref_count :: "refcount list"

definition roundup :: "nat \<Rightarrow> nat \<Rightarrow> nat" where
  "roundup x y = (x + y - 1) div y * y"

definition zero_stats :: rc_allocator_stats where
  "zero_stats = \<lparr>curr_allocated = 0, max_allocated = 0, extent_allocs = (\<lambda>_. 0), extent_deallocs = (\<lambda>_. 0)\<rparr>"

subsection \<open>Reference counts\<close>

definition rc_allocator_extent_number :: "allocator_config \<Rightarrow> nat \<Rightarrow> nat" where
  "rc_allocator_extent_number cfg addr = addr div io_extent_size (io_cfg cfg)"

definition rc_allocator_inc_ref ::
  "allocator_config \<Rightarrow> 'c rc_allocator \<Rightarrow> nat \<Rightarrow> (refcount \<times> 'c rc_allocator) option" where
  "rc_allocator_inc_ref cfg al addr =
     (let extent_no = addr div io_extent_size (io_cfg cfg)
      in if length (ref_count al) \<le> extent_no then None
         else
           let rc = ref_count al ! extent_no + 1
           in if rc \<noteq> 1 \<and> rc \<noteq> 0 then Some (rc, al\<lparr>ref_count := (ref_count al)[extent_no := rc]\<rparr>) else None)"

definition count_dealloc :: "page_type \<Rightarrow> rc_allocator_stats \<Rightarrow> rc_allocator_stats" where
  "count_dealloc type st =
     st\<lparr>curr_allocated := curr_allocated st - 1, extent_deallocs := (extent_deallocs st)(type := extent_deallocs st type + 1)\<rparr>"

definition rc_allocator_dec_ref ::
  "allocator_config \<Rightarrow> 'c rc_allocator \<Rightarrow> nat \<Rightarrow> page_type \<Rightarrow> (refcount \<times> 'c rc_allocator) option" where
  "rc_allocator_dec_ref cfg al addr type =
     (let extent_no = addr div io_extent_size (io_cfg cfg)
      in if length (ref_count al) \<le> extent_no then None
         else
           let rc = ref_count al ! extent_no - 1;
               al1 = al\<lparr>ref_count := (ref_count al)[extent_no := rc]\<rparr>
           in if rc = - 1 then None
              else if rc = 0 then
                (if type = PAGE_TYPE_INVALID then None
                 else Some (rc, al1\<lparr>al_stats := count_dealloc type (al_stats al)\<rparr>))
              else Some (rc, al1))"

definition rc_allocator_get_ref :: "allocator_config \<Rightarrow> 'c rc_allocator \<Rightarrow> nat \<Rightarrow> refcount option" where
  "rc_allocator_get_ref cfg al addr =
     (let extent_no = rc_allocator_extent_number cfg addr
      in if extent_no < length (ref_count al) then Some (ref_count al ! extent_no) else None)"

definition rc_allocator_in_use :: "'c rc_allocator \<Rightarrow> int" where
  "rc_allocator_in_use al = curr_allocated (al_stats al)"

subsection \<open>Allocation\<close>

text \<open>
  The search for a free extent: whether one was found, the last value of the hand. Twice the number of extents is enough
  fuel, also when the hand wraps around at \<open>2 ^ 64\<close>.
\<close>

fun alloc_search :: "nat \<Rightarrow> allocator_config \<Rightarrow> nat \<Rightarrow> 'c rc_allocator \<Rightarrow> (bool \<times> nat \<times> 'c rc_allocator) option" where
  "alloc_search 0 cfg first_hand al = None"
| "alloc_search (Suc fuel) cfg first_hand al =
     (let h = unat (al_hand al) mod extent_capacity cfg;
          al1 = al\<lparr>al_hand := al_hand al + 1\<rparr>
      in if length (ref_count al1) \<le> h then None
         else if ref_count al1 ! h = 0 then Some (True, h, al1\<lparr>ref_count := (ref_count al1)[h := 2]\<rparr>)
         else if (h + 1) mod extent_capacity cfg \<noteq> first_hand then alloc_search fuel cfg first_hand al1
         else Some (False, h, al1))"

definition count_alloc :: "page_type \<Rightarrow> rc_allocator_stats \<Rightarrow> rc_allocator_stats" where
  "count_alloc type st =
     (let curr = curr_allocated st + 1
      in st\<lparr>curr_allocated := curr, max_allocated := max curr (max_allocated st),
            extent_allocs := (extent_allocs st)(type := extent_allocs st type + 1)\<rparr>)"

definition rc_allocator_alloc ::
  "allocator_config \<Rightarrow> 'c rc_allocator \<Rightarrow> page_type \<Rightarrow> (platform_status \<times> nat \<times> 'c rc_allocator) option" where
  "rc_allocator_alloc cfg al type =
     (let first_hand = unat (al_hand al) mod extent_capacity cfg
      in map_option (\<lambda>(extent_is_free, h, al1).
           if \<not> extent_is_free then (STATUS_NO_SPACE, 0, al1)
           else (STATUS_OK, h * io_extent_size (io_cfg cfg), al1\<lparr>al_stats := count_alloc type (al_stats al1)\<rparr>))
         (alloc_search (2 * extent_capacity cfg) cfg first_hand al))"

subsection \<open>Super blocks\<close>

text \<open>The index of the first slot of the meta page that holds an id.\<close>

fun find_slot :: "allocator_root_id list \<Rightarrow> allocator_root_id \<Rightarrow> nat option" where
  "find_slot [] spl_id = None"
| "find_slot (s # ss) spl_id = (if s = spl_id then Some 0 else map_option Suc (find_slot ss spl_id))"

definition write_meta_page ::
  "(allocator_root_id list \<Rightarrow> 'c) \<Rightarrow> 'c rc_allocator \<Rightarrow> nat \<Rightarrow> allocator_root_id \<Rightarrow> 'c rc_allocator" where
  "write_meta_page checksum al idx spl_id =
     (let ss = (splinters al)[idx := spl_id] in al\<lparr>splinters := ss, disk_meta_page := (ss, checksum ss)\<rparr>)"

definition rc_allocator_get_super_addr ::
  "allocator_config \<Rightarrow> 'c rc_allocator \<Rightarrow> allocator_root_id \<Rightarrow> platform_status \<times> nat option" where
  "rc_allocator_get_super_addr cfg al spl_id =
     (case find_slot (splinters al) spl_id of
        None \<Rightarrow> (STATUS_NOT_FOUND, None)
      | Some idx \<Rightarrow> (STATUS_OK, Some ((1 + idx) * io_page_size (io_cfg cfg))))"

definition rc_allocator_alloc_super_addr ::
  "(allocator_root_id list \<Rightarrow> 'c) \<Rightarrow> allocator_config \<Rightarrow> 'c rc_allocator \<Rightarrow> allocator_root_id
     \<Rightarrow> platform_status \<times> nat option \<times> 'c rc_allocator" where
  "rc_allocator_alloc_super_addr checksum cfg al spl_id =
     (case find_slot (splinters al) INVALID_ALLOCATOR_ROOT_ID of
        None \<Rightarrow> (STATUS_NOT_FOUND, None, al)
      | Some idx \<Rightarrow> (STATUS_OK, Some ((1 + idx) * io_page_size (io_cfg cfg)), write_meta_page checksum al idx spl_id))"

definition rc_allocator_remove_super_addr ::
  "(allocator_root_id list \<Rightarrow> 'c) \<Rightarrow> 'c rc_allocator \<Rightarrow> allocator_root_id \<Rightarrow> 'c rc_allocator option" where
  "rc_allocator_remove_super_addr checksum al spl_id =
     map_option (\<lambda>idx. write_meta_page checksum al idx INVALID_ALLOCATOR_ROOT_ID) (find_slot (splinters al) spl_id)"

subsection \<open>Creation, mount and unmount\<close>

definition meta_page_fits :: "allocator_config \<Rightarrow> bool" where
  "meta_page_fits cfg \<longleftrightarrow> 8 * RC_ALLOCATOR_MAX_ROOT_IDS + 16 \<le> io_page_size (io_cfg cfg)
     \<and> (1 + RC_ALLOCATOR_MAX_ROOT_IDS) * io_page_size (io_cfg cfg) \<le> io_extent_size (io_cfg cfg)"

definition ref_count_buffer_size :: "allocator_config \<Rightarrow> nat" where
  "ref_count_buffer_size cfg = roundup (extent_capacity cfg * 4) (io_page_size (io_cfg cfg))"

text \<open>Allocates extents that must come out in order.\<close>

fun alloc_in_order :: "allocator_config \<Rightarrow> nat list \<Rightarrow> 'c rc_allocator \<Rightarrow> 'c rc_allocator option" where
  "alloc_in_order cfg [] al = Some al"
| "alloc_in_order cfg (n # ns) al =
     Option.bind (rc_allocator_alloc cfg al PAGE_TYPE_SUPERBLOCK) (\<lambda>(rc, addr, al1).
       if SUCCESS rc \<and> addr = io_extent_size (io_cfg cfg) * n then alloc_in_order cfg ns al1 else None)"

text \<open>
  \<open>dev\<close> is what the device holds; \<open>mem_ok\<close> says whether the three resources (mutex, meta page, count buffer) can be had.
\<close>

definition rc_allocator_init ::
  "allocator_config \<Rightarrow> bool \<times> bool \<times> bool \<Rightarrow> (allocator_root_id list \<times> 'c) \<Rightarrow> refcount list
     \<Rightarrow> (platform_status \<times> 'c rc_allocator option) option" where
  "rc_allocator_init cfg mem_ok dev_meta dev_refs =
     (let rc = rc_allocator_valid_config cfg; (mutex_ok, meta_ok, buffer_ok) = mem_ok
      in if \<not> SUCCESS rc then Some (rc, None)
         else if \<not> mutex_ok then Some (STATUS_NO_MEMORY, None)
         else if \<not> meta_page_fits cfg then None
         else if \<not> meta_ok then Some (STATUS_NO_MEMORY, None)
         else if \<not> buffer_ok then Some (STATUS_NO_MEMORY, None)
         else
           let size = ref_count_buffer_size cfg;
               al = \<lparr>ref_count = replicate (size div 4) 0, al_hand = 0,
                     splinters = replicate RC_ALLOCATOR_MAX_ROOT_IDS INVALID_ALLOCATOR_ROOT_ID,
                     al_stats = zero_stats, disk_meta_page = dev_meta, disk_ref_count = dev_refs\<rparr>;
               rc_extent_count = (size + io_extent_size (io_cfg cfg) - 1) div io_extent_size (io_cfg cfg)
           in map_option (\<lambda>al1. (STATUS_OK, Some al1)) (alloc_in_order cfg [0..<rc_extent_count + 1] al))"

definition rc_allocator_unmount :: "allocator_config \<Rightarrow> 'c rc_allocator \<Rightarrow> (allocator_root_id list \<times> 'c) \<times> refcount list" where
  "rc_allocator_unmount cfg al =
     (let io_size = ref_count_buffer_size cfg mod 2 ^ 32
      in (disk_meta_page al, memcpy (disk_ref_count al) 0 (take (io_size div 4) (ref_count al))))"

definition rc_allocator_mount ::
  "(allocator_root_id list \<Rightarrow> 'c) \<Rightarrow> allocator_config \<Rightarrow> bool \<times> bool \<times> bool \<Rightarrow> (allocator_root_id list \<times> 'c) \<Rightarrow> refcount list
     \<Rightarrow> (platform_status \<times> 'c rc_allocator option) option" where
  "rc_allocator_mount checksum cfg mem_ok dev_meta dev_refs =
     (let (mutex_ok, meta_ok, buffer_ok) = mem_ok
      in if \<not> mutex_ok then Some (STATUS_NO_MEMORY, None)
         else if \<not> meta_page_fits cfg then None
         else if \<not> meta_ok then Some (STATUS_NO_MEMORY, None)
         else if io_page_size (io_cfg cfg) mod 4096 \<noteq> 0 \<or> al_capacity cfg \<noteq> io_extent_size (io_cfg cfg) * extent_capacity cfg
                 \<or> al_capacity cfg \<noteq> io_page_size (io_cfg cfg) * al_page_capacity cfg then None
         else if \<not> buffer_ok then Some (STATUS_NO_MEMORY, None)
         else if snd dev_meta \<noteq> checksum (fst dev_meta) then None
         else
           let refs = take (ref_count_buffer_size cfg div 4) dev_refs;
               used = length (filter (\<lambda>c. c \<noteq> 0) (take (extent_capacity cfg) refs))
           in Some (STATUS_OK, Some
                \<lparr>ref_count = refs, al_hand = 0, splinters = fst dev_meta,
                 al_stats = zero_stats\<lparr>curr_allocated := int used\<rparr>, disk_meta_page = dev_meta, disk_ref_count = dev_refs\<rparr>))"

subsection \<open>Checks\<close>

definition rc_allocator_assert_noleaks :: "'c rc_allocator \<Rightarrow> bool" where
  "rc_allocator_assert_noleaks al \<longleftrightarrow>
     (\<forall>type \<in> {PAGE_TYPE_TRUNK, PAGE_TYPE_BRANCH, PAGE_TYPE_MEMTABLE, PAGE_TYPE_FILTER, PAGE_TYPE_MISC}.
        extent_allocs (al_stats al) type = extent_deallocs (al_stats al) type)"

definition allocator_page_valid :: "allocator_config \<Rightarrow> 'c rc_allocator \<Rightarrow> nat \<Rightarrow> bool option" where
  "allocator_page_valid cfg al addr =
     (if addr mod io_page_size (io_cfg cfg) \<noteq> 0 then Some False
      else
        let base = allocator_config_extent_base_addr cfg addr
        in if base \<noteq> 0 \<and> addr < al_capacity cfg
           then map_option (\<lambda>rfc. rfc \<noteq> 0) (rc_allocator_get_ref cfg al base)
           else Some False)"

section \<open>The search for a free extent\<close>

text \<open>What the search changes: the hand, and the count of the extent it found.\<close>

lemma alloc_search_safe:
  assumes "alloc_search fuel cfg f al = Some (b, e, al')" "0 < extent_capacity cfg"
  shows "ref_count al' = (if b then (ref_count al)[e := 2] else ref_count al) \<and> splinters al' = splinters al \<and> al_stats al' = al_stats al
    \<and> disk_meta_page al' = disk_meta_page al \<and> disk_ref_count al' = disk_ref_count al
    \<and> (b \<longrightarrow> e < extent_capacity cfg \<and> e < length (ref_count al) \<and> ref_count al ! e = 0)"
  using assms(1)
proof (induction fuel arbitrary: al)
  case (Suc fuel)
  let ?h = "unat (al_hand al) mod extent_capacity cfg" and ?al = "al\<lparr>al_hand := al_hand al + 1\<rparr>"
  consider (found) "b" "e = ?h" "?h < length (ref_count al)" "ref_count al ! ?h = 0" "al' = ?al\<lparr>ref_count := (ref_count al)[?h := 2]\<rparr>"
    | (more) "alloc_search fuel cfg f ?al = Some (b, e, al')"
    | (last) "\<not> b" "al' = ?al"
    using Suc.prems by (auto simp: Let_def split: if_splits)
  then show ?case
  proof cases
    case more
    from Suc.IH [OF this] show ?thesis by simp
  qed (use assms(2) in simp_all)
qed simp

text \<open>Without a wrap-around of the hand, \<open>d\<close> further extents are looked at after the one under the hand.\<close>

lemma alloc_search_sweep:
  assumes "extent_capacity cfg \<le> length (ref_count al)" "d < extent_capacity cfg" "d < fuel"
    and "unat (al_hand al) + d < 2 ^ 64" "(unat (al_hand al) + d + 1) mod extent_capacity cfg = f"
  shows "\<exists>b e al'. alloc_search fuel cfg f al = Some (b, e, al')
    \<and> (b \<or> (\<forall>j\<le>d. ref_count al ! ((unat (al_hand al) + j) mod extent_capacity cfg) \<noteq> 0))"
  using assms
proof (induction fuel arbitrary: d al)
  case (Suc fuel)
  let ?c = "extent_capacity cfg" and ?u = "unat (al_hand al)"
  let ?h = "?u mod ?c" and ?al = "al\<lparr>al_hand := al_hand al + 1\<rparr>"
  have l: "?h < length (ref_count al)" using Suc.prems(1,2) mod_less_divisor [of ?c ?u] by linarith
  have e: "(?h + 1) mod ?c = (?u + 1) mod ?c" by (simp add: mod_Suc_eq)
  show ?case
  proof (cases "ref_count al ! ?h = 0")
    case True
    then have "alloc_search (Suc fuel) cfg f al = Some (True, ?h, ?al\<lparr>ref_count := (ref_count al)[?h := 2]\<rparr>)" using l by (simp add: Let_def)
    then show ?thesis by blast
  next
    case used: False
    show ?thesis
    proof (cases d)
      case 0
      then have "alloc_search (Suc fuel) cfg f al = Some (False, ?h, ?al)" using used l e Suc.prems(5) by (simp add: Let_def)
      then show ?thesis using 0 used by auto
    next
      case (Suc d')
      have "(?u + 1) mod ?c \<noteq> f"
      proof
        assume "(?u + 1) mod ?c = f"
        then have "(?u + 1 + d) mod ?c = (?u + 1) mod ?c" using Suc.prems(5) by (simp add: ac_simps)
        then have "d mod ?c = 0" by (metis add.right_neutral mod_add_left_eq add_diff_cancel_left' mod_eq_dvd_iff_nat le_add1 dvd_imp_mod_0)
        then show False using Suc Suc.prems(2) by simp
      qed
      moreover have u: "unat (al_hand ?al) = ?u + 1" using Suc Suc.prems(4) by (simp add: unat_word_ariths)
      moreover have "\<exists>b e al'. alloc_search fuel cfg f ?al = Some (b, e, al')
          \<and> (b \<or> (\<forall>j\<le>d'. ref_count ?al ! ((unat (al_hand ?al) + j) mod ?c) \<noteq> 0))"
        by (rule Suc.IH) (use Suc Suc.prems u in \<open>simp_all add: ac_simps\<close>)
      ultimately obtain b x al' where r: "alloc_search fuel cfg f ?al = Some (b, x, al')"
        "b \<or> (\<forall>j\<le>d'. ref_count al ! ((?u + 1 + j) mod ?c) \<noteq> 0)" by auto
      have "b \<or> (\<forall>j\<le>d. ref_count al ! ((?u + j) mod ?c) \<noteq> 0)"
        using r(2) used unfolding Suc by (metis add.assoc add.right_neutral add_le_cancel_left le_Suc_eq not0_implies_Suc plus_1_eq_Suc Suc_le_mono)
      moreover have "alloc_search (Suc fuel) cfg f al = Some (b, x, al')"
        using r(1) used l e \<open>(?u + 1) mod ?c \<noteq> f\<close> by (simp add: Let_def)
      ultimately show ?thesis by blast
    qed
  qed
qed simp

text \<open>The hand may wrap around during the search, which then ends before it has seen all extents.\<close>

lemma alloc_search_wrap:
  assumes "extent_capacity cfg \<le> length (ref_count al)" "f < extent_capacity cfg" "extent_capacity cfg < 2 ^ 64"
    and "2 ^ 64 - unat (al_hand al) + extent_capacity cfg \<le> fuel"
  shows "\<exists>r. alloc_search fuel cfg f al = Some r"
  using assms(1,4)
proof (induction fuel arbitrary: al)
  case 0
  then show ?case using assms(2) by simp
next
  case (Suc fuel)
  let ?c = "extent_capacity cfg" and ?al = "al\<lparr>al_hand := al_hand al + 1\<rparr>"
  have l: "unat (al_hand al) mod ?c < length (ref_count al)" using Suc.prems(1) assms(2) mod_less_divisor [of ?c "unat (al_hand al)"] by linarith
  have u: "unat (al_hand al) < 2 ^ 64" using unsigned_less [of "al_hand al", where ?'a = nat] by simp
  have "\<exists>r. alloc_search fuel cfg f ?al = Some r"
  proof (cases "unat (al_hand al) + 1 = 2 ^ 64")
    case True
    then have w: "unat (al_hand ?al) = 0" by (simp add: unat_word_ariths)
    define d where "d = (f + ?c - 1) mod ?c"
    have "(d + 1) mod ?c = f" 
    proof -
      have "(d + 1) mod ?c = (f + ?c - 1 + 1) mod ?c" unfolding d_def by (rule mod_add_left_eq)
      also have "f + ?c - 1 + 1 = f + ?c" using assms(2) by simp
      finally show ?thesis using assms(2) by simp
    qed
    moreover have "d < ?c" using assms(2) by (simp add: d_def)
    moreover have "?c \<le> fuel" using Suc.prems(2) u by linarith
    ultimately have "\<exists>b e al'. alloc_search fuel cfg f ?al = Some (b, e, al')
        \<and> (b \<or> (\<forall>j\<le>d. ref_count ?al ! ((unat (al_hand ?al) + j) mod ?c) \<noteq> 0))"
      by (intro alloc_search_sweep) (use Suc.prems w assms(3) in simp_all)
    then show ?thesis by blast
  next
    case False
    then have "unat (al_hand ?al) = unat (al_hand al) + 1" using u by (simp add: unat_word_ariths)
    then show ?thesis using Suc.prems u by (intro Suc.IH) simp_all
  qed
  then show ?case using l by (simp add: Let_def) blast
qed

lemma alloc_search_total:
  assumes "extent_capacity cfg \<le> length (ref_count al)" "0 < extent_capacity cfg" "extent_capacity cfg < 2 ^ 64"
  shows "\<exists>r. alloc_search (2 * extent_capacity cfg) cfg (unat (al_hand al) mod extent_capacity cfg) al = Some r"
proof (cases "unat (al_hand al) + (extent_capacity cfg - 1) < 2 ^ 64")
  case True
  have "(unat (al_hand al) + (extent_capacity cfg - 1) + 1) mod extent_capacity cfg = unat (al_hand al) mod extent_capacity cfg"
    using assms(2) by simp
  moreover have "extent_capacity cfg - 1 < extent_capacity cfg" "extent_capacity cfg - 1 < 2 * extent_capacity cfg" using assms(2) by simp_all
  ultimately show ?thesis using alloc_search_sweep [OF assms(1) _ _ True] by blast
next
  case False
  then show ?thesis using assms by (intro alloc_search_wrap) simp_all
qed

section \<open>The invariant\<close>

text \<open>The counts cover the device, and the statistics count the extents in use.\<close>

definition used_extents :: "allocator_config \<Rightarrow> 'c rc_allocator \<Rightarrow> nat set" where
  "used_extents cfg al = {e. e < extent_capacity cfg \<and> ref_count al ! e \<noteq> AL_FREE}"

definition al_inv :: "allocator_config \<Rightarrow> 'c rc_allocator \<Rightarrow> bool" where
  "al_inv cfg al \<longleftrightarrow> 0 < extent_capacity cfg \<and> extent_capacity cfg < 2 ^ 64 \<and> 0 < io_extent_size (io_cfg cfg)
     \<and> extent_capacity cfg \<le> length (ref_count al) \<and> length (splinters al) = RC_ALLOCATOR_MAX_ROOT_IDS
     \<and> curr_allocated (al_stats al) = int (card (used_extents cfg al))"

lemma finite_used [simp]: "finite (used_extents cfg al)"
  by (rule finite_subset [of _ "{..<extent_capacity cfg}"]) (auto simp: used_extents_def)

lemma used_free:
  assumes "al_inv cfg al" "e < extent_capacity cfg" "ref_count al' = (ref_count al)[e := rc]"
  shows "used_extents cfg al' = (if rc = AL_FREE then used_extents cfg al - {e} else insert e (used_extents cfg al))"
  using assms by (auto simp: used_extents_def al_inv_def nth_list_update)

lemma alloc_cases:
  assumes "al_inv cfg al"
  obtains (no_space) h al1 where "alloc_search (2 * extent_capacity cfg) cfg (unat (al_hand al) mod extent_capacity cfg) al = Some (False, h, al1)"
      "rc_allocator_alloc cfg al type = Some (STATUS_NO_SPACE, 0, al1)"
    | (ok) e al1 where "alloc_search (2 * extent_capacity cfg) cfg (unat (al_hand al) mod extent_capacity cfg) al = Some (True, e, al1)"
      "rc_allocator_alloc cfg al type = Some (STATUS_OK, e * io_extent_size (io_cfg cfg), al1\<lparr>al_stats := count_alloc type (al_stats al1)\<rparr>)"
proof -
  obtain b e al1 where "alloc_search (2 * extent_capacity cfg) cfg (unat (al_hand al) mod extent_capacity cfg) al = Some (b, e, al1)"
    using alloc_search_total [of cfg al] assms by (auto simp: al_inv_def)
  then show thesis using that by (cases b) (simp_all add: rc_allocator_alloc_def Let_def)
qed

text \<open>What an allocation does to the counts, in either case.\<close>

definition alloc_effect :: "allocator_config \<Rightarrow> 'c rc_allocator \<Rightarrow> platform_status \<Rightarrow> nat \<Rightarrow> 'c rc_allocator \<Rightarrow> bool" where
  "alloc_effect cfg al rc addr al' \<longleftrightarrow>
     rc = STATUS_NO_SPACE \<and> ref_count al' = ref_count al
     \<or> rc = STATUS_OK \<and> (\<exists>e < extent_capacity cfg. addr = e * io_extent_size (io_cfg cfg) \<and> ref_count al ! e = AL_FREE
         \<and> ref_count al' = (ref_count al)[e := AL_ONE_REF])"

lemma alloc_result:
  assumes "al_inv cfg al"
  obtains rc addr al' where "rc_allocator_alloc cfg al type = Some (rc, addr, al')" "al_inv cfg al'" "alloc_effect cfg al rc addr al'"
    "splinters al' = splinters al" "disk_meta_page al' = disk_meta_page al" "disk_ref_count al' = disk_ref_count al"
    "unat (al_hand al) + extent_capacity cfg \<le> 2 ^ 64 \<Longrightarrow> rc = STATUS_NO_SPACE \<longleftrightarrow> used_extents cfg al = {..<extent_capacity cfg}"
proof -
  let ?c = "extent_capacity cfg"
  have c: "0 < ?c" "?c \<le> length (ref_count al)" using assms by (simp_all add: al_inv_def)
  from assms show thesis
  proof (cases rule: alloc_cases [where type = type])
    case (no_space h al1)
    note q = alloc_search_safe [OF no_space(1) c(1), simplified]
    then have "used_extents cfg al1 = used_extents cfg al" by (simp add: used_extents_def)
    then have i: "al_inv cfg al1" using q assms by (simp add: al_inv_def)
    have "used_extents cfg al = {..<?c}" if w: "unat (al_hand al) + ?c \<le> 2 ^ 64"
    proof -
      have l: "?c - 1 < ?c" "?c - 1 < 2 * ?c" "unat (al_hand al) + (?c - 1) < 2 ^ 64"
        "(unat (al_hand al) + (?c - 1) + 1) mod ?c = unat (al_hand al) mod ?c" using c w by simp_all
      have "\<forall>j\<le>?c - 1. ref_count al ! ((unat (al_hand al) + j) mod ?c) \<noteq> 0"
        using alloc_search_sweep [OF c(2) l] no_space(1) by auto
      moreover have "\<exists>j\<le>?c - 1. (unat (al_hand al) + j) mod ?c = e" if "e < ?c" for e
      proof (intro exI conjI)
        let ?j = "(e + (?c - unat (al_hand al) mod ?c)) mod ?c"
        show "?j \<le> ?c - 1" using c(1) mod_less_divisor [of ?c] by (simp add: less_Suc_eq_le [symmetric])
        have "(unat (al_hand al) + ?j) mod ?c = (unat (al_hand al) mod ?c + (e + (?c - unat (al_hand al) mod ?c))) mod ?c"
          by (simp add: mod_simps)
        also have "unat (al_hand al) mod ?c + (e + (?c - unat (al_hand al) mod ?c)) = e + ?c"
          using mod_less_divisor [OF c(1), of "unat (al_hand al)"] by linarith
        finally show "(unat (al_hand al) + ?j) mod ?c = e" using that by simp
      qed
      ultimately show ?thesis by (fastforce simp: used_extents_def AL_FREE_def)
    qed
    then show thesis using that [OF no_space(2) i] q by (simp add: alloc_effect_def)
  next
    case (ok e al1)
    note q = alloc_search_safe [OF ok(1) c(1), simplified]
    let ?al = "al1\<lparr>al_stats := count_alloc type (al_stats al1)\<rparr>"
    have n: "e \<notin> used_extents cfg al" using q by (simp add: used_extents_def AL_FREE_def)
    have "used_extents cfg ?al = insert e (used_extents cfg al)"
      using used_free [OF assms, of e ?al 2] q by (simp add: AL_FREE_def)
    then have "al_inv cfg ?al" using assms q n by (simp add: al_inv_def count_alloc_def Let_def)
    moreover have "used_extents cfg al \<noteq> {..<?c}" using n q by auto
    moreover have "alloc_effect cfg al STATUS_OK (e * io_extent_size (io_cfg cfg)) ?al"
      using q by (auto simp: alloc_effect_def AL_FREE_def AL_ONE_REF_def)
    ultimately show thesis using that [OF ok(2)] q by simp
  qed
qed

text \<open>
  C33: The search of \<open>rc_allocator_alloc\<close> for a free extent ends, also when the hand wraps around at 2^64.
\<close>

theorem rc_allocator_alloc_returns:
  assumes "al_inv cfg al"
  shows "\<exists>rc addr al'. rc_allocator_alloc cfg al type = Some (rc, addr, al')"
  using alloc_result [OF assms] by metis

text \<open>
  C32: \<open>rc_allocator_alloc\<close> keeps the invariant of the allocator and takes one extent that was free, setting
  its count to 2, or reports that there is no space and takes none; while the hand does not wrap around at
  2^64 it reports this exactly when all extents are in use.
\<close>

theorem rc_allocator_alloc_spec:
  assumes "al_inv cfg al" "rc_allocator_alloc cfg al type = Some (rc, addr, al')"
  shows "al_inv cfg al' \<and> alloc_effect cfg al rc addr al' \<and> splinters al' = splinters al
    \<and> (unat (al_hand al) + extent_capacity cfg \<le> 2 ^ 64 \<longrightarrow> (rc = STATUS_NO_SPACE \<longleftrightarrow> used_extents cfg al = {..<extent_capacity cfg}))"
  using alloc_result [OF assms(1), of type] assms(2) by (metis Pair_inject option.inject)

section \<open>Reference counts\<close>

text \<open>The counts as the clients see them: zero outside the device.\<close>

definition extent_refs :: "allocator_config \<Rightarrow> 'c rc_allocator \<Rightarrow> nat \<Rightarrow> nat" where
  "extent_refs cfg al e = (if e < extent_capacity cfg then unat (ref_count al ! e) else 0)"

lemma extent_refs_upd:
  assumes "al_inv cfg al" "e < extent_capacity cfg" "ref_count al' = (ref_count al)[e := rc]"
  shows "extent_refs cfg al' = (extent_refs cfg al)(e := unat rc)"
  using assms by (auto simp: extent_refs_def al_inv_def nth_list_update fun_eq_iff)

lemma inc_ref_result:
  assumes "al_inv cfg al" "0 < extent_refs cfg al (addr div io_extent_size (io_cfg cfg))"
    and "extent_refs cfg al (addr div io_extent_size (io_cfg cfg)) < 2 ^ 32 - 1"
  obtains al' where
    "rc_allocator_inc_ref cfg al addr = Some (word_of_nat (extent_refs cfg al (addr div io_extent_size (io_cfg cfg)) + 1), al')"
    "al_inv cfg al'" "splinters al' = splinters al"
    "extent_refs cfg al' = (extent_refs cfg al)(addr div io_extent_size (io_cfg cfg) :=
       extent_refs cfg al (addr div io_extent_size (io_cfg cfg)) + 1)"
proof -
  define e where "e = addr div io_extent_size (io_cfg cfg)"
  define rc where "rc = ref_count al ! e + 1"
  have e: "e < extent_capacity cfg" using assms(2) by (auto simp: extent_refs_def e_def split: if_splits)
  have l: "e < length (ref_count al)" using e assms(1) by (simp add: al_inv_def)
  have u: "unat (ref_count al ! e) = extent_refs cfg al e" using e by (simp add: extent_refs_def)
  then have rc: "unat rc = extent_refs cfg al e + 1" using assms(3) unfolding rc_def e_def by (simp add: unat_word_ariths)
  then have w: "rc = word_of_nat (extent_refs cfg al e + 1)" unfolding rc [symmetric] by simp
  have n: "rc \<noteq> 0" "rc \<noteq> 1" using rc assms(2) by (auto simp: e_def)
  let ?al = "al\<lparr>ref_count := (ref_count al)[e := rc]\<rparr>"
  have "used_extents cfg ?al = used_extents cfg al"
  proof -
    have "e \<in> used_extents cfg al" using e u assms(2) by (auto simp: used_extents_def AL_FREE_def e_def)
    then show ?thesis using used_free [OF assms(1) e, of ?al rc] n by (auto simp: AL_FREE_def)
  qed
  then have "al_inv cfg ?al" using assms(1) by (simp add: al_inv_def)
  moreover have "rc_allocator_inc_ref cfg al addr = Some (rc, ?al)"
    unfolding rc_allocator_inc_ref_def Let_def e_def [symmetric] rc_def [symmetric] using l n by (simp add: not_le)
  moreover have "extent_refs cfg ?al = (extent_refs cfg al)(e := extent_refs cfg al e + 1)"
    using extent_refs_upd [OF assms(1) e, of ?al rc] rc by simp
  ultimately show thesis using that [of ?al] w unfolding e_def [symmetric] by simp
qed

lemma dec_ref_result:
  assumes "al_inv cfg al" "0 < extent_refs cfg al (addr div io_extent_size (io_cfg cfg))" "type \<noteq> PAGE_TYPE_INVALID"
  obtains al' where
    "rc_allocator_dec_ref cfg al addr type = Some (word_of_nat (extent_refs cfg al (addr div io_extent_size (io_cfg cfg)) - 1), al')"
    "al_inv cfg al'" "splinters al' = splinters al"
    "extent_refs cfg al' = (extent_refs cfg al)(addr div io_extent_size (io_cfg cfg) :=
       extent_refs cfg al (addr div io_extent_size (io_cfg cfg)) - 1)"
proof -
  define e where "e = addr div io_extent_size (io_cfg cfg)"
  define rc where "rc = ref_count al ! e - 1"
  have e: "e < extent_capacity cfg" using assms(2) by (auto simp: extent_refs_def e_def split: if_splits)
  have l: "e < length (ref_count al)" using e assms(1) by (simp add: al_inv_def)
  have u: "unat (ref_count al ! e) = extent_refs cfg al e" using e by (simp add: extent_refs_def)
  have p: "ref_count al ! e \<noteq> 0" using u assms(2) by (auto simp: e_def)
  then have rc: "unat rc = extent_refs cfg al e - 1" unfolding rc_def using u by (simp add: unat_minus_one)
  then have w: "rc = word_of_nat (extent_refs cfg al e - 1)" unfolding rc [symmetric] by simp
  have "ref_count al ! e = rc + 1" unfolding rc_def by (rule diff_add_cancel [symmetric])
  then have n: "rc \<noteq> - 1" using p by force
  let ?al = "al\<lparr>ref_count := (ref_count al)[e := rc]\<rparr>"
  define al' where "al' = (if rc = 0 then ?al\<lparr>al_stats := count_dealloc type (al_stats al)\<rparr> else ?al)"
  have r: "ref_count al' = (ref_count al)[e := rc]" by (simp add: al'_def)
  have m: "e \<in> used_extents cfg al" using e p by (simp add: used_extents_def AL_FREE_def)
  then have "card (used_extents cfg al) = Suc (card (used_extents cfg al - {e}))" by (rule card.remove [OF finite_used])
  moreover have "used_extents cfg al' = (if rc = 0 then used_extents cfg al - {e} else used_extents cfg al)"
    using used_free [OF assms(1) e r] m by (simp add: AL_FREE_def insert_absorb)
  moreover have "curr_allocated (al_stats al') = (if rc = 0 then curr_allocated (al_stats al) - 1 else curr_allocated (al_stats al))"
    "splinters al' = splinters al" by (simp_all add: al'_def count_dealloc_def)
  ultimately have "al_inv cfg al'" using assms(1) by (simp add: al_inv_def r split: if_splits)
  moreover have "rc_allocator_dec_ref cfg al addr type = Some (rc, al')"
    unfolding rc_allocator_dec_ref_def Let_def e_def [symmetric] rc_def [symmetric] al'_def using l n assms(3) by (simp add: not_le)
  moreover have "extent_refs cfg al' = (extent_refs cfg al)(e := extent_refs cfg al e - 1)"
    using extent_refs_upd [OF assms(1) e r] rc by simp
  moreover have "splinters al' = splinters al" by (simp add: al'_def)
  ultimately show thesis using that [of al'] w unfolding e_def [symmetric] by simp
qed

lemma dec_ref_free:
  assumes "extent_refs cfg al (addr div io_extent_size (io_cfg cfg)) = 0" "addr div io_extent_size (io_cfg cfg) < extent_capacity cfg"
  shows "rc_allocator_dec_ref cfg al addr type = None"
  using assms by (auto simp: rc_allocator_dec_ref_def extent_refs_def Let_def unat_eq_zero)

section \<open>Interface: an extent allocator\<close>

text \<open>
  What the clients of \<open>allocator.h\<close> rely on: \<open>refs\<close> maps an extent to its count. An allocation takes a free extent or fails,
  references are counted, and an extent with one reference is free again after two decrements.
\<close>

locale extent_allocator =
  fixes ok :: "'s \<Rightarrow> bool" and refs :: "'s \<Rightarrow> nat \<Rightarrow> nat" and size :: nat
    and alloc :: "'s \<Rightarrow> page_type \<Rightarrow> (platform_status \<times> nat \<times> 's) option"
    and inc :: "'s \<Rightarrow> nat \<Rightarrow> (refcount \<times> 's) option"
    and dec :: "'s \<Rightarrow> nat \<Rightarrow> page_type \<Rightarrow> (refcount \<times> 's) option"
  assumes size_pos: "ok s \<Longrightarrow> 0 < size"
    and alloc_law: "ok s \<Longrightarrow> \<exists>rc addr s'. alloc s type = Some (rc, addr, s') \<and> ok s' \<and>
      (rc = STATUS_NO_SPACE \<and> refs s' = refs s \<or> rc = STATUS_OK \<and> size dvd addr \<and> refs s (addr div size) = 0 \<and> refs s' = (refs s)(addr div size := 2))"
    and inc_law: "ok s \<Longrightarrow> 0 < refs s (addr div size) \<Longrightarrow> refs s (addr div size) < 2 ^ 32 - 1 \<Longrightarrow>
      \<exists>s'. inc s addr = Some (word_of_nat (refs s (addr div size) + 1), s') \<and> ok s' \<and> refs s' = (refs s)(addr div size := refs s (addr div size) + 1)"
    and dec_law: "ok s \<Longrightarrow> 0 < refs s (addr div size) \<Longrightarrow> type \<noteq> PAGE_TYPE_INVALID \<Longrightarrow>
      \<exists>s'. dec s addr type = Some (word_of_nat (refs s (addr div size) - 1), s') \<and> ok s' \<and> refs s' = (refs s)(addr div size := refs s (addr div size) - 1)"
begin

lemma alloc_ok:
  assumes "ok s" "alloc s type = Some (STATUS_OK, addr, s')"
  shows "ok s'" "size dvd addr" "refs s (addr div size) = 0" "refs s' = (refs s)(addr div size := 2)"
  using alloc_law [OF assms(1), of type] assms(2) by auto

text \<open>Dropping the one reference and then the allocation itself, as clients free an extent.\<close>

lemma free_extent:
  assumes "ok s" "refs s (addr div size) = 2" "type \<noteq> PAGE_TYPE_INVALID"
  obtains s1 s2 where "dec s addr type = Some (AL_NO_REFS, s1)" "dec s1 addr type = Some (AL_FREE, s2)" "ok s1" "ok s2"
    "refs s2 = (refs s)(addr div size := 0)"
proof -
  obtain s1 where 1: "dec s addr type = Some (AL_NO_REFS, s1)" "ok s1" "refs s1 = (refs s)(addr div size := 1)"
    using dec_law [OF assms(1), of addr type] assms by (auto simp: AL_NO_REFS_def)
  obtain s2 where 2: "dec s1 addr type = Some (AL_FREE, s2)" "ok s2" "refs s2 = (refs s1)(addr div size := 0)"
    using dec_law [OF 1(2), of addr type] assms 1(3) by (auto simp: AL_FREE_def)
  show thesis using that [OF 1(1) 2(1) 1(2) 2(2)] 1(3) 2(3) by simp
qed

text \<open>An extent that is allocated and freed again leaves all counts as they were.\<close>

lemma alloc_free:
  assumes "ok s" "alloc s type = Some (STATUS_OK, addr, s')" "type \<noteq> PAGE_TYPE_INVALID"
  obtains s1 s2 where "dec s' addr type = Some (AL_NO_REFS, s1)" "dec s1 addr type = Some (AL_FREE, s2)" "ok s2" "refs s2 = refs s"
proof -
  note a = alloc_ok [OF assms(1,2)]
  have "refs s' (addr div size) = 2" using a(4) by simp
  from free_extent [OF a(1) this assms(3)] obtain s1 s2 where
    "dec s' addr type = Some (AL_NO_REFS, s1)" "dec s1 addr type = Some (AL_FREE, s2)" "ok s2" "refs s2 = (refs s')(addr div size := 0)" by metis
  then show thesis using that a(3,4) by (metis fun_upd_triv fun_upd_upd)
qed

end

text \<open>The allocator of the program.\<close>

interpretation rc: extent_allocator "al_inv cfg" "extent_refs cfg" "io_extent_size (io_cfg cfg)"
  "rc_allocator_alloc cfg" "rc_allocator_inc_ref cfg" "rc_allocator_dec_ref cfg" for cfg
proof
  fix al type
  assume i: "al_inv cfg (al :: 'a rc_allocator)"
  from alloc_result [OF i, of type] obtain rc addr al' where r: "rc_allocator_alloc cfg al type = Some (rc, addr, al')"
    "al_inv cfg al'" "alloc_effect cfg al rc addr al'" by metis
  have "extent_refs cfg al' = extent_refs cfg al" if "ref_count al' = ref_count al" using that by (simp add: extent_refs_def fun_eq_iff)
  moreover have "extent_refs cfg al' = (extent_refs cfg al)(e := 2)" if "ref_count al' = (ref_count al)[e := AL_ONE_REF]" "e < extent_capacity cfg" for e
    using extent_refs_upd [OF i that(2,1)] by (simp add: AL_ONE_REF_def)
  ultimately have "rc = STATUS_NO_SPACE \<and> extent_refs cfg al' = extent_refs cfg al \<or> rc = STATUS_OK \<and> io_extent_size (io_cfg cfg) dvd addr
       \<and> extent_refs cfg al (addr div io_extent_size (io_cfg cfg)) = 0
       \<and> extent_refs cfg al' = (extent_refs cfg al)(addr div io_extent_size (io_cfg cfg) := 2)"
    using r(3) i by (auto simp: alloc_effect_def AL_FREE_def al_inv_def extent_refs_def)
  then show "\<exists>rc addr s'. rc_allocator_alloc cfg al type = Some (rc, addr, s') \<and> al_inv cfg s' \<and>
      (rc = STATUS_NO_SPACE \<and> extent_refs cfg s' = extent_refs cfg al \<or> rc = STATUS_OK \<and> io_extent_size (io_cfg cfg) dvd addr
       \<and> extent_refs cfg al (addr div io_extent_size (io_cfg cfg)) = 0
       \<and> extent_refs cfg s' = (extent_refs cfg al)(addr div io_extent_size (io_cfg cfg) := 2))"
    using r(1,2) by blast
next
  fix al addr
  assume "al_inv cfg (al :: 'a rc_allocator)" "0 < extent_refs cfg al (addr div io_extent_size (io_cfg cfg))"
    "extent_refs cfg al (addr div io_extent_size (io_cfg cfg)) < 2 ^ 32 - 1"
  from inc_ref_result [OF this] show "\<exists>s'. rc_allocator_inc_ref cfg al addr
      = Some (word_of_nat (extent_refs cfg al (addr div io_extent_size (io_cfg cfg)) + 1), s') \<and> al_inv cfg s'
    \<and> extent_refs cfg s' = (extent_refs cfg al)(addr div io_extent_size (io_cfg cfg) := extent_refs cfg al (addr div io_extent_size (io_cfg cfg)) + 1)"
    by metis
next
  fix al addr type
  assume "al_inv cfg (al :: 'a rc_allocator)" "0 < extent_refs cfg al (addr div io_extent_size (io_cfg cfg))" "type \<noteq> PAGE_TYPE_INVALID"
  from dec_ref_result [OF this] show "\<exists>s'. rc_allocator_dec_ref cfg al addr type
      = Some (word_of_nat (extent_refs cfg al (addr div io_extent_size (io_cfg cfg)) - 1), s') \<and> al_inv cfg s'
    \<and> extent_refs cfg s' = (extent_refs cfg al)(addr div io_extent_size (io_cfg cfg) := extent_refs cfg al (addr div io_extent_size (io_cfg cfg)) - 1)"
    by metis
qed (simp add: al_inv_def)

section \<open>Super blocks\<close>

lemma find_slot_Some: "find_slot ss s = Some i \<Longrightarrow> i < length ss \<and> ss ! i = s"
  by (induction ss arbitrary: i) (auto split: if_splits)

lemma find_slot_None: "find_slot ss s = None \<longleftrightarrow> s \<notin> set ss"
  by (induction ss) auto

lemma find_slot_other:
  assumes "s \<noteq> a" "s \<noteq> b" "ss ! i = b"
  shows "find_slot (ss[i := a]) s = find_slot ss s"
  using assms
proof (induction ss arbitrary: i)
  case (Cons x ss)
  then show ?case by (cases i) auto
qed simp

lemma find_slot_new:
  assumes "find_slot ss z = Some i" "s \<notin> set ss"
  shows "find_slot (ss[i := s]) s = Some i"
  using assms
proof (induction ss arbitrary: i)
  case (Cons x ss)
  then show ?case by (cases i) (auto split: if_splits)
qed simp

lemma find_slot_removed:
  assumes "find_slot ss s = Some i" "count_list ss s = 1" "z \<noteq> s"
  shows "find_slot (ss[i := z]) s = None"
  using assms
proof (induction ss arbitrary: i)
  case (Cons x ss)
  then show ?case by (cases i) (auto simp: find_slot_None count_list_0_iff split: if_splits)
qed simp

text \<open>The meta page on the device is the one in memory, with its checksum.\<close>

definition meta_ok :: "(allocator_root_id list \<Rightarrow> 'c) \<Rightarrow> 'c rc_allocator \<Rightarrow> bool" where
  "meta_ok checksum al \<longleftrightarrow> disk_meta_page al = (splinters al, checksum (splinters al))"

lemma super_addr_spec:
  assumes "spl_id \<noteq> INVALID_ALLOCATOR_ROOT_ID" "spl_id \<notin> set (splinters al)" "other \<noteq> spl_id" "other \<noteq> INVALID_ALLOCATOR_ROOT_ID"
    and "rc_allocator_alloc_super_addr checksum cfg al spl_id = (rc, addr, al')"
  shows "rc = STATUS_OK \<and> rc_allocator_get_super_addr cfg al' spl_id = (STATUS_OK, addr) \<and> meta_ok checksum al'
      \<and> rc_allocator_get_super_addr cfg al' other = rc_allocator_get_super_addr cfg al other
      \<and> map_option splinters (rc_allocator_remove_super_addr checksum al' spl_id) = Some (splinters al)
    \<or> rc = STATUS_NOT_FOUND \<and> al' = al \<and> INVALID_ALLOCATOR_ROOT_ID \<notin> set (splinters al)"
proof (cases "find_slot (splinters al) INVALID_ALLOCATOR_ROOT_ID")
  case None
  moreover have "INVALID_ALLOCATOR_ROOT_ID \<notin> set (splinters al)" using None by (simp add: find_slot_None)
  ultimately show ?thesis using assms(5) by (simp add: rc_allocator_alloc_super_addr_def del: not_None_eq)
next
  case (Some i)
  note i = find_slot_Some [OF Some]
  have n: "find_slot ((splinters al)[i := spl_id]) spl_id = Some i" by (rule find_slot_new [OF Some assms(2)])
  have o: "find_slot ((splinters al)[i := spl_id]) other = find_slot (splinters al) other"
    by (rule find_slot_other) (use assms i in auto)
  have "(splinters al)[i := INVALID_ALLOCATOR_ROOT_ID] = splinters al" using i by (metis list_update_id)
  then show ?thesis using assms(5) Some n o
    by (auto simp: rc_allocator_alloc_super_addr_def rc_allocator_get_super_addr_def rc_allocator_remove_super_addr_def
        write_meta_page_def meta_ok_def Let_def split: option.splits)
qed

theorem rc_allocator_super_addr_spec:
  assumes "spl_id \<noteq> INVALID_ALLOCATOR_ROOT_ID" "spl_id \<notin> set (splinters al)" "other \<noteq> spl_id" "other \<noteq> INVALID_ALLOCATOR_ROOT_ID"
    and "rc_allocator_alloc_super_addr checksum cfg al spl_id = (rc, addr, al')"
  shows "rc = STATUS_OK \<and> rc_allocator_get_super_addr cfg al' spl_id = (STATUS_OK, addr) \<and> meta_ok checksum al'
      \<and> rc_allocator_get_super_addr cfg al' other = rc_allocator_get_super_addr cfg al other
      \<and> map_option splinters (rc_allocator_remove_super_addr checksum al' spl_id) = Some (splinters al)
    \<or> rc = STATUS_NOT_FOUND \<and> al' = al \<and> INVALID_ALLOCATOR_ROOT_ID \<notin> set (splinters al)"
  using super_addr_spec [OF assms] .

text \<open>Different tables have different super blocks, all in the first extent.\<close>

lemma super_addr_inj:
  assumes "rc_allocator_get_super_addr cfg al a = (STATUS_OK, Some x)" "rc_allocator_get_super_addr cfg al b = (STATUS_OK, Some x)"
    "0 < io_page_size (io_cfg cfg)"
  shows "a = b"
  using assms find_slot_Some [of "splinters al" a] find_slot_Some [of "splinters al" b]
  by (auto simp: rc_allocator_get_super_addr_def split: option.splits)

section \<open>Mount and unmount\<close>

lemma roundup_ge: "0 < y \<Longrightarrow> x \<le> roundup x y"
proof -
  assume y: "0 < y"
  have "x + y - 1 = (x + y - 1) div y * y + (x + y - 1) mod y" by simp
  moreover have "(x + y - 1) mod y \<le> y - 1" using y by (simp add: less_Suc_eq_le [symmetric])
  ultimately show ?thesis unfolding roundup_def using y by linarith
qed


section \<open>A new allocator\<close>

lemma alloc_at_hand:
  assumes "n < extent_capacity cfg" "unat (al_hand al) = n" "n < length (ref_count al)" "ref_count al ! n = 0"
  shows "rc_allocator_alloc cfg al type = Some (STATUS_OK, n * io_extent_size (io_cfg cfg),
    al\<lparr>al_hand := al_hand al + 1, ref_count := (ref_count al)[n := 2], al_stats := count_alloc type (al_stats al)\<rparr>)"
proof -
  obtain k where "2 * extent_capacity cfg = Suc k" using assms(1) by (cases "2 * extent_capacity cfg") auto
  then show ?thesis using assms by (simp add: rc_allocator_alloc_def Let_def)
qed

lemma alloc_in_order_result:
  assumes "al_inv cfg al" "used_extents cfg al = {..<a}" "unat (al_hand al) = a" "a \<le> b" "b \<le> extent_capacity cfg"
  obtains al' where "alloc_in_order cfg [a..<b] al = Some al'" "al_inv cfg al'" "used_extents cfg al' = {..<b}"
    "splinters al' = splinters al" "length (ref_count al') = length (ref_count al)"
  using assms
proof (induction "b - a" arbitrary: a al thesis)
  case 0
  then show thesis by simp
next
  case (Suc k)
  have a: "a < b" "a < extent_capacity cfg" using Suc.hyps(2) Suc.prems(6) by linarith+
  moreover have "extent_capacity cfg \<le> length (ref_count al)" using Suc.prems(2) by (simp add: al_inv_def)
  ultimately have l: "a < length (ref_count al)" by linarith
  have "a \<notin> used_extents cfg al" by (simp add: Suc.prems(3))
  then have f: "ref_count al ! a = 0" using a by (simp add: used_extents_def AL_FREE_def)
  note r = alloc_at_hand [OF a(2) Suc.prems(4) l f, of PAGE_TYPE_SUPERBLOCK]
  define al1 where "al1 = al\<lparr>al_hand := al_hand al + 1, ref_count := (ref_count al)[a := 2], al_stats := count_alloc PAGE_TYPE_SUPERBLOCK (al_stats al)\<rparr>"
  have i: "al_inv cfg al1" by (rule alloc_result [OF Suc.prems(2), of PAGE_TYPE_SUPERBLOCK]) (use r in \<open>simp add: al1_def\<close>)
  have u: "used_extents cfg al1 = {..<Suc a}"
    using used_free [OF Suc.prems(2) a(2), of al1 2] Suc.prems(3) by (auto simp: al1_def AL_FREE_def)
  have "a + 1 < 2 ^ 64" using Suc.prems(2) a(2) by (simp add: al_inv_def)
  then have h: "unat (al_hand al1) = Suc a" using Suc.prems(4) by (simp add: al1_def unat_word_ariths)
  have "k = b - Suc a" "Suc a \<le> b" using Suc.hyps(2) by linarith+
  from Suc.hyps(1) [OF this(1) _ i u h this(2) Suc.prems(6)] obtain al' where
    "alloc_in_order cfg [Suc a..<b] al1 = Some al'" "al_inv cfg al'" "used_extents cfg al' = {..<b}" "splinters al' = splinters al1"
    "length (ref_count al') = length (ref_count al1)" by metis
  moreover have "alloc_in_order cfg [a..<b] al = alloc_in_order cfg [Suc a..<b] al1"
    using a(1) r by (simp add: upt_conv_Cons al1_def mult.commute)
  ultimately show thesis using Suc.prems(1) [of al'] by (simp add: al1_def)
qed

theorem rc_allocator_init_ok:
  assumes "SUCCESS (rc_allocator_valid_config cfg)" "extent_capacity cfg < 2 ^ 64"
    and "(ref_count_buffer_size cfg + io_extent_size (io_cfg cfg) - 1) div io_extent_size (io_cfg cfg) < extent_capacity cfg"
  shows "\<exists>al. rc_allocator_init cfg (True, True, True) dev_meta dev_refs = Some (STATUS_OK, Some al) \<and> al_inv cfg al
    \<and> used_extents cfg al = {..(ref_count_buffer_size cfg + io_extent_size (io_cfg cfg) - 1) div io_extent_size (io_cfg cfg)}
    \<and> splinters al = replicate RC_ALLOCATOR_MAX_ROOT_IDS INVALID_ALLOCATOR_ROOT_ID"
proof -
  let ?k = "(ref_count_buffer_size cfg + io_extent_size (io_cfg cfg) - 1) div io_extent_size (io_cfg cfg)"
  have v: "io_page_size (io_cfg cfg) = 4096" "io_extent_size (io_cfg cfg) = 131072" "0 < extent_capacity cfg"
    using assms(1) by (auto simp: rc_allocator_valid_config_def laio_config_valid_def Let_def LAIO_DEFAULT_PAGE_SIZE_def
        LAIO_DEFAULT_EXTENT_SIZE_def LAIO_DEFAULT_PAGES_PER_EXTENT_def split: if_splits)
  define al where "al = \<lparr>ref_count = replicate (ref_count_buffer_size cfg div 4) 0, al_hand = 0,
                     splinters = replicate RC_ALLOCATOR_MAX_ROOT_IDS INVALID_ALLOCATOR_ROOT_ID,
                     al_stats = zero_stats, disk_meta_page = dev_meta, disk_ref_count = dev_refs\<rparr>"
  have "extent_capacity cfg * 4 \<le> ref_count_buffer_size cfg" unfolding ref_count_buffer_size_def v by (rule roundup_ge) simp
  then have l: "extent_capacity cfg \<le> ref_count_buffer_size cfg div 4" by simp
  have u: "used_extents cfg al = {..<0}" using l by (auto simp: used_extents_def al_def AL_FREE_def)
  then have i: "al_inv cfg al" using v l assms(2) unfolding al_inv_def u by (simp add: al_def zero_stats_def)
  have "unat (al_hand al) = 0" by (simp add: al_def)
  from alloc_in_order_result [OF i u this, of "?k + 1"] assms(3) obtain al' where
    r: "alloc_in_order cfg [0..<?k + 1] al = Some al'" "al_inv cfg al'" "used_extents cfg al' = {..<?k + 1}" "splinters al' = splinters al" by auto
  have "rc_allocator_init cfg (True, True, True) dev_meta dev_refs = map_option (\<lambda>al1. (STATUS_OK, Some al1)) (alloc_in_order cfg [0..<?k + 1] al)"
    using assms(1) v by (simp add: rc_allocator_init_def Let_def meta_page_fits_def RC_ALLOCATOR_MAX_ROOT_IDS_def al_def del: upt.upt_Suc)
  then show ?thesis using r by (simp add: al_def lessThan_Suc_atMost del: upt.upt_Suc)
qed

end
