(* ===== verification/Mini_Allocator.thy ===== *)
theory Mini_Allocator
  imports RC_Allocator "HOL-Library.Monad_Syntax" "HOL-Library.Multiset"
begin

text \<open>
  The mini allocator of \<open>mini_allocator.c\<close>: it hands out pages from extents, in batches, and records the extents in a linked list
  of meta pages, so that they can be refs_freed together when the last reference to the list goes. The state is the mini allocator, the
  extent allocator and the contents of the meta pages, which the page cache keeps. \<open>None\<close> is a failed \<open>platform_assert\<close>, a page that is
  not there, or a wait for another thread.
\<close>

section \<open>Definitions\<close>

definition MINI_MAX_BATCHES :: nat where "MINI_MAX_BATCHES = 8"
definition MINI_WAIT :: nat where "MINI_WAIT = 1"
definition MINI_NO_REFS :: refcount where "MINI_NO_REFS = 2"

record mini_meta_hdr =
  next_meta_addr :: nat
  meta_pos :: nat
  num_entries :: nat
  entry_buffer :: "nat list"

record mini_allocator =
  mini_pinned :: bool
  meta_head :: nat
  meta_tail :: nat
  mini_type :: page_type
  num_extents :: nat
  num_batches :: nat
  mini_next_addr :: "nat list"
  mini_next_extent :: "nat list"

record 'c mini_world =
  w_al :: "'c rc_allocator"
  w_mem :: "nat \<Rightarrow> mini_meta_hdr option"

definition sizeof_meta_entry :: nat where "sizeof_meta_entry = 8"
definition offsetof_entry_buffer :: nat where "offsetof_entry_buffer = 20"

definition mini_init_meta_page :: mini_meta_hdr where
  "mini_init_meta_page = \<lparr>next_meta_addr = 0, meta_pos = offsetof_entry_buffer, num_entries = 0, entry_buffer = []\<rparr>"

definition base_addr :: "allocator_config \<Rightarrow> nat \<Rightarrow> nat" where
  "base_addr cfg addr = allocator_config_extent_base_addr cfg addr"

text \<open>The cache drops the pages of an extent.\<close>

definition cache_extent_discard :: "allocator_config \<Rightarrow> 'c mini_world \<Rightarrow> nat \<Rightarrow> 'c mini_world" where
  "cache_extent_discard cfg w addr =
     w\<lparr>w_mem := (\<lambda>a. if addr \<le> a \<and> a < addr + io_extent_size (io_cfg cfg) then None else w_mem w a)\<rparr>"

definition mini_allocator_get_new_extent ::
  "allocator_config \<Rightarrow> mini_allocator \<Rightarrow> 'c mini_world \<Rightarrow> (platform_status \<times> nat \<times> mini_allocator \<times> 'c mini_world) option" where
  "mini_allocator_get_new_extent cfg mini w = do {
     (rc, addr, al) \<leftarrow> rc_allocator_alloc cfg (w_al w) (mini_type mini);
     Some (rc, addr, if SUCCESS rc then mini\<lparr>num_extents := num_extents mini + 1\<rparr> else mini, w\<lparr>w_al := al\<rparr>)
   }"

text \<open>A new extent, under the assertion that there is one.\<close>

definition must_get_new_extent ::
  "allocator_config \<Rightarrow> mini_allocator \<Rightarrow> 'c mini_world \<Rightarrow> (nat \<times> mini_allocator \<times> 'c mini_world) option" where
  "must_get_new_extent cfg mini w = do {
     (rc, addr, mini1, w1) \<leftarrow> mini_allocator_get_new_extent cfg mini w;
     if SUCCESS rc then Some (addr, mini1, w1) else None
   }"

fun mini_init_batches :: "allocator_config \<Rightarrow> nat list \<Rightarrow> mini_allocator \<Rightarrow> 'c mini_world \<Rightarrow> (mini_allocator \<times> 'c mini_world) option" where
  "mini_init_batches cfg [] mini w = Some (mini, w)"
| "mini_init_batches cfg (b # bs) mini w = do {
     (addr, mini1, w1) \<leftarrow> must_get_new_extent cfg mini w;
     mini_init_batches cfg bs (mini1\<lparr>mini_next_extent := (mini_next_extent mini1)[b := addr]\<rparr>) w1
   }"

definition mini_init ::
  "allocator_config \<Rightarrow> 'c mini_world \<Rightarrow> nat \<Rightarrow> nat \<Rightarrow> nat \<Rightarrow> page_type \<Rightarrow> (nat \<times> mini_allocator \<times> 'c mini_world) option" where
  "mini_init cfg w head tail batches type =
     (if \<not> batches \<le> MINI_MAX_BATCHES \<or> batches = 0 then None
      else
        let mini = \<lparr>mini_pinned = (type = PAGE_TYPE_MEMTABLE), meta_head = head, meta_tail = 0, mini_type = type, num_extents = 1,
                    num_batches = batches, mini_next_addr = replicate MINI_MAX_BATCHES 0,
                    mini_next_extent = replicate MINI_MAX_BATCHES 0\<rparr>
        in do {
          (mini1, w1) \<leftarrow>
            (if tail = 0 then do {
               (ref, al) \<leftarrow> rc_allocator_inc_ref cfg (w_al w) (base_addr cfg head);
               if ref = MINI_NO_REFS + 1
               then Some (mini\<lparr>meta_tail := head\<rparr>, \<lparr>w_al = al, w_mem = (w_mem w)(head \<mapsto> mini_init_meta_page)\<rparr>)
               else None
             }
             else Some (mini\<lparr>meta_tail := tail\<rparr>, w));
          (mini2, w2) \<leftarrow> mini_init_batches cfg [0..<batches] mini1 w1;
          Some (mini_next_extent mini2 ! 0, mini2, w2)
        })"

definition entry_fits_in_page :: "nat \<Rightarrow> nat \<Rightarrow> nat \<Rightarrow> bool" where
  "entry_fits_in_page page_size start entry_size \<longleftrightarrow> start + entry_size \<le> page_size"

definition mini_append_entry_to_page :: "allocator_config \<Rightarrow> mini_meta_hdr \<Rightarrow> nat \<Rightarrow> bool \<times> mini_meta_hdr" where
  "mini_append_entry_to_page cfg hdr extent_addr =
     (if \<not> entry_fits_in_page (io_page_size (io_cfg cfg)) (meta_pos hdr) sizeof_meta_entry then (False, hdr)
      else (True, hdr\<lparr>entry_buffer := entry_buffer hdr @ [extent_addr], meta_pos := meta_pos hdr + sizeof_meta_entry,
                      num_entries := num_entries hdr + 1\<rparr>))"

definition mini_lock_batch_get_next_addr :: "mini_allocator \<Rightarrow> nat \<Rightarrow> (nat \<times> mini_allocator) option" where
  "mini_lock_batch_get_next_addr mini batch =
     (if mini_next_addr mini ! batch = MINI_WAIT then None
      else Some (mini_next_addr mini ! batch, mini\<lparr>mini_next_addr := (mini_next_addr mini)[batch := MINI_WAIT]\<rparr>))"

definition mini_unlock_batch_set_next_addr :: "mini_allocator \<Rightarrow> nat \<Rightarrow> nat \<Rightarrow> mini_allocator" where
  "mini_unlock_batch_set_next_addr mini batch addr = mini\<lparr>mini_next_addr := (mini_next_addr mini)[batch := addr]\<rparr>"

definition mini_append_entry ::
  "allocator_config \<Rightarrow> mini_allocator \<Rightarrow> 'c mini_world \<Rightarrow> nat \<Rightarrow> (mini_allocator \<times> 'c mini_world) option" where
  "mini_append_entry cfg mini w addr = do {
     hdr \<leftarrow> w_mem w (meta_tail mini);
     let (success, hdr1) = mini_append_entry_to_page cfg hdr addr;
     if success then Some (mini, w\<lparr>w_mem := (w_mem w)(meta_tail mini \<mapsto> hdr1)\<rparr>)
     else do {
       let new_meta_tail = meta_tail mini + io_page_size (io_cfg cfg);
       (new_meta_tail, mini1, w1) \<leftarrow>
         (if new_meta_tail mod io_extent_size (io_cfg cfg) = 0 then must_get_new_extent cfg mini w
          else Some (new_meta_tail, mini, w));
       let mem = (w_mem w1)(meta_tail mini \<mapsto> hdr1\<lparr>next_meta_addr := new_meta_tail\<rparr>);
       let (success, hdr2) = mini_append_entry_to_page cfg mini_init_meta_page addr;
       Some (mini1\<lparr>meta_tail := new_meta_tail\<rparr>, w1\<lparr>w_mem := mem(new_meta_tail \<mapsto> hdr2)\<rparr>)
     }
   }"

definition mini_alloc ::
  "allocator_config \<Rightarrow> mini_allocator \<Rightarrow> 'c mini_world \<Rightarrow> nat \<Rightarrow> (nat \<times> nat \<times> mini_allocator \<times> 'c mini_world) option" where
  "mini_alloc cfg mini w batch = do {
     (addr, mini1) \<leftarrow> mini_lock_batch_get_next_addr mini batch;
     (addr, mini2, w2) \<leftarrow>
       (if addr mod io_extent_size (io_cfg cfg) = 0 then do {
          let extent_addr = mini_next_extent mini1 ! batch;
          (new, mini2, w2) \<leftarrow> must_get_new_extent cfg mini1 w;
          (mini3, w3) \<leftarrow> mini_append_entry cfg (mini2\<lparr>mini_next_extent := (mini_next_extent mini2)[batch := new]\<rparr>) w2 extent_addr;
          Some (extent_addr, mini3, w3)
        }
        else Some (addr, mini1, w));
     Some (addr, mini_next_extent mini2 ! batch,
           mini_unlock_batch_set_next_addr mini2 batch (addr + io_page_size (io_cfg cfg)), w2)
   }"

text \<open>An extent whose last reference is dropped, without and with its pages in the cache.\<close>

definition release_extent :: "allocator_config \<Rightarrow> page_type \<Rightarrow> nat \<Rightarrow> 'c mini_world \<Rightarrow> 'c mini_world option" where
  "release_extent cfg type addr w = do {
     (ref, al) \<leftarrow> rc_allocator_dec_ref cfg (w_al w) addr type;
     if ref \<noteq> AL_NO_REFS then None
     else do {
       (ref, al) \<leftarrow> rc_allocator_dec_ref cfg al addr type;
       if ref \<noteq> AL_FREE then None else Some (w\<lparr>w_al := al\<rparr>)
     }
   }"

fun mini_release_batches :: "allocator_config \<Rightarrow> page_type \<Rightarrow> nat list \<Rightarrow> 'c mini_world \<Rightarrow> 'c mini_world option" where
  "mini_release_batches cfg type [] w = Some w"
| "mini_release_batches cfg type (a # as) w = Option.bind (release_extent cfg type a w) (mini_release_batches cfg type as)"

definition mini_release :: "allocator_config \<Rightarrow> mini_allocator \<Rightarrow> 'c mini_world \<Rightarrow> 'c mini_world option" where
  "mini_release cfg mini w = mini_release_batches cfg (mini_type mini) (take (num_batches mini) (mini_next_extent mini)) w"

definition mini_dealloc_extent :: "allocator_config \<Rightarrow> page_type \<Rightarrow> nat \<Rightarrow> 'c mini_world \<Rightarrow> 'c mini_world option" where
  "mini_dealloc_extent cfg type addr w = do {
     (ref, al) \<leftarrow> rc_allocator_dec_ref cfg (w_al w) addr type;
     if ref \<noteq> AL_NO_REFS then None
     else do {
       let w1 = cache_extent_discard cfg (w\<lparr>w_al := al\<rparr>) addr;
       (ref, al) \<leftarrow> rc_allocator_dec_ref cfg (w_al w1) addr type;
       if ref \<noteq> AL_FREE then None else Some (w1\<lparr>w_al := al\<rparr>)
     }
   }"

text \<open>The walks along the meta pages; a list has at most as many as the device has pages.\<close>

fun mini_for_each_meta_page ::
  "nat \<Rightarrow> (mini_meta_hdr \<Rightarrow> 'a \<times> 'c mini_world \<Rightarrow> ('a \<times> 'c mini_world) option) \<Rightarrow> nat \<Rightarrow> 'a \<times> 'c mini_world \<Rightarrow> ('a \<times> 'c mini_world) option" where
  "mini_for_each_meta_page 0 func addr s = None"
| "mini_for_each_meta_page (Suc fuel) func addr s =
     (if addr = 0 then Some s
      else do {
        hdr \<leftarrow> w_mem (snd s) addr;
        s1 \<leftarrow> func hdr s;
        hdr1 \<leftarrow> w_mem (snd s1) addr;
        mini_for_each_meta_page fuel func (next_meta_addr hdr1) s1
      })"

fun for_each_entry :: "(nat \<Rightarrow> 's \<Rightarrow> 's option) \<Rightarrow> nat list \<Rightarrow> 's \<Rightarrow> 's option" where
  "for_each_entry func [] s = Some s"
| "for_each_entry func (e # es) s = Option.bind (func e s) (for_each_entry func es)"

definition mini_for_each_meta_page_func ::
  "(nat \<Rightarrow> 'a \<times> 'c mini_world \<Rightarrow> ('a \<times> 'c mini_world) option) \<Rightarrow> mini_meta_hdr \<Rightarrow> 'a \<times> 'c mini_world \<Rightarrow> ('a \<times> 'c mini_world) option" where
  "mini_for_each_meta_page_func func hdr s = for_each_entry func (take (num_entries hdr) (entry_buffer hdr)) s"

definition mini_for_each ::
  "allocator_config \<Rightarrow> (nat \<Rightarrow> 'a \<times> 'c mini_world \<Rightarrow> ('a \<times> 'c mini_world) option) \<Rightarrow> nat \<Rightarrow> 'a \<times> 'c mini_world \<Rightarrow> ('a \<times> 'c mini_world) option" where
  "mini_for_each cfg func head s = mini_for_each_meta_page (al_page_capacity cfg + 1) (mini_for_each_meta_page_func func) head s"

fun mini_deinit_loop :: "nat \<Rightarrow> allocator_config \<Rightarrow> page_type \<Rightarrow> nat \<Rightarrow> 'c mini_world \<Rightarrow> 'c mini_world option" where
  "mini_deinit_loop 0 cfg type addr w = None"
| "mini_deinit_loop (Suc fuel) cfg type addr w = do {
     hdr \<leftarrow> w_mem w addr;
     let next = next_meta_addr hdr;
     w1 \<leftarrow> (if \<not> allocator_config_pages_share_extent cfg addr next then mini_dealloc_extent cfg type (base_addr cfg addr) w else Some w);
     if next \<noteq> 0 then mini_deinit_loop fuel cfg type next w1 else Some w1
   }"

definition mini_deinit :: "allocator_config \<Rightarrow> page_type \<Rightarrow> nat \<Rightarrow> 'c mini_world \<Rightarrow> 'c mini_world option" where
  "mini_deinit cfg type head w = mini_deinit_loop (al_page_capacity cfg) cfg type head w"

definition mini_inc_ref :: "allocator_config \<Rightarrow> 'c mini_world \<Rightarrow> nat \<Rightarrow> (refcount \<times> 'c mini_world) option" where
  "mini_inc_ref cfg w head = do {
     (ref, al) \<leftarrow> rc_allocator_inc_ref cfg (w_al w) (base_addr cfg head);
     if ref > MINI_NO_REFS then Some (ref - MINI_NO_REFS, w\<lparr>w_al := al\<rparr>) else None
   }"

definition mini_dec_ref :: "allocator_config \<Rightarrow> 'c mini_world \<Rightarrow> nat \<Rightarrow> page_type \<Rightarrow> (refcount \<times> 'c mini_world) option" where
  "mini_dec_ref cfg w head type = do {
     (ref, al) \<leftarrow> rc_allocator_dec_ref cfg (w_al w) (base_addr cfg head) type;
     if ref \<noteq> MINI_NO_REFS then Some (ref - MINI_NO_REFS, w\<lparr>w_al := al\<rparr>)
     else do {
       (_, w1) \<leftarrow> mini_for_each cfg (\<lambda>addr (u, w). map_option (Pair u) (mini_dealloc_extent cfg type addr w)) head ((), w\<lparr>w_al := al\<rparr>);
       w2 \<leftarrow> mini_deinit cfg type head w1;
       Some (0, w2)
     }
   }"

definition mini_space_use_bytes :: "allocator_config \<Rightarrow> 'c mini_world \<Rightarrow> nat \<Rightarrow> nat option" where
  "mini_space_use_bytes cfg w head = do {
     (total, w1) \<leftarrow> mini_for_each cfg (\<lambda>addr (sum, w). Some (sum + io_extent_size (io_cfg cfg), w)) head (0, w);
     (total, w2) \<leftarrow> mini_for_each_meta_page (al_page_capacity cfg + 1) (\<lambda>hdr (sum, w). Some (sum + io_page_size (io_cfg cfg), w)) head (total, w1);
     Some total
   }"

section \<open>Extents and pages\<close>

text \<open>A configuration as \<open>allocator_config_init\<close> makes it: extents are a power of two of bytes and a whole number of pages.\<close>

definition mini_cfg_ok :: "allocator_config \<Rightarrow> bool" where
  "mini_cfg_ok cfg \<longleftrightarrow> (\<exists>k<64. io_extent_size (io_cfg cfg) = 2 ^ k \<and> al_extent_mask cfg = NOT (mask k))
     \<and> io_page_size (io_cfg cfg) dvd io_extent_size (io_cfg cfg) \<and> offsetof_entry_buffer + sizeof_meta_entry \<le> io_page_size (io_cfg cfg)
     \<and> io_extent_size (io_cfg cfg) * extent_capacity cfg < 2 ^ 64
     \<and> io_page_size (io_cfg cfg) * al_page_capacity cfg = io_extent_size (io_cfg cfg) * extent_capacity cfg"

abbreviation extent_of :: "allocator_config \<Rightarrow> nat \<Rightarrow> nat" where
  "extent_of cfg addr \<equiv> addr div io_extent_size (io_cfg cfg)"

lemma high_bit_exp: "high_bit (2 ^ k) = k"
proof (induction k)
  case 0
  then show ?case by (simp add: high_bit.simps)
next
  case (Suc k)
  have "1 < (2 :: nat) ^ Suc k" by (rule one_less_power) simp_all
  then have "high_bit (2 ^ Suc k) = Suc (high_bit (2 ^ Suc k div 2))" by (subst high_bit.simps) (simp add: not_le)
  then show ?case using Suc by simp
qed

lemma allocator_config_init_ok:
  assumes "io_page_size io = LAIO_DEFAULT_PAGE_SIZE" "io_extent_size io = LAIO_DEFAULT_EXTENT_SIZE"
    and "LAIO_DEFAULT_EXTENT_SIZE dvd cap" "cap < 2 ^ 64"
  shows "mini_cfg_ok (allocator_config_init io cap)"
proof -
  have e: "LAIO_DEFAULT_EXTENT_SIZE = 2 ^ 17" "LAIO_DEFAULT_PAGE_SIZE = 2 ^ 12"
    by (simp_all add: LAIO_DEFAULT_EXTENT_SIZE_def LAIO_DEFAULT_PAGES_PER_EXTENT_def LAIO_DEFAULT_PAGE_SIZE_def)
  have "high_bit 131072 = 17" using high_bit_exp [of 17] by simp
  then have m: "al_extent_mask (allocator_config_init io cap) = NOT (mask 17)"
    using assms(2) by (simp add: allocator_config_init_def e push_bit_eq_mult mask_eq_exp_minus_1)
  obtain c where c: "cap = 131072 * c" using assms(3) by (auto simp: e elim: dvdE)
  have "\<exists>k<64. io_extent_size (io_cfg (allocator_config_init io cap)) = 2 ^ k \<and> al_extent_mask (allocator_config_init io cap) = NOT (mask k)"
    by (rule exI [of _ 17]) (use m in \<open>simp add: allocator_config_init_def assms(2) e\<close>)
  then show ?thesis using assms(4) unfolding mini_cfg_ok_def c
    by (simp add: allocator_config_init_def assms(1,2) e offsetof_entry_buffer_def sizeof_meta_entry_def)
qed

lemma base_addr_div:
  assumes "mini_cfg_ok cfg" "addr < 2 ^ 64"
  shows "base_addr cfg addr = extent_of cfg addr * io_extent_size (io_cfg cfg)"
proof -
  from assms(1) obtain k where k: "k < 64" "io_extent_size (io_cfg cfg) = 2 ^ k" "al_extent_mask cfg = NOT (mask k)" by (auto simp: mini_cfg_ok_def)
  let ?w = "word_of_nat addr :: uint64"
  have b: "?w AND NOT (mask k) = push_bit k (drop_bit k ?w)" by (rule bit_eqI) (auto simp: bit_simps)
  have "unat (push_bit k (drop_bit k ?w)) = take_bit 64 (push_bit k (drop_bit k (take_bit 64 addr)))"
    by (simp add: unsigned_push_bit_eq unsigned_drop_bit_eq unsigned_of_nat)
  also have "take_bit 64 addr = addr" using assms(2) by (simp add: take_bit_nat_eq_self)
  also have "take_bit 64 (push_bit k (drop_bit k addr)) = push_bit k (drop_bit k addr)"
  proof (rule take_bit_nat_eq_self)
    have "push_bit k (drop_bit k addr) \<le> addr" by (simp add: push_bit_nat_def drop_bit_nat_def div_times_less_eq_dividend)
    then show "push_bit k (drop_bit k addr) < 2 ^ 64" using assms(2) by linarith
  qed
  finally show ?thesis unfolding base_addr_def allocator_config_extent_base_addr_def k b by (simp add: push_bit_nat_def drop_bit_nat_def)
qed

lemma cfg_sizes:
  assumes "mini_cfg_ok cfg"
  shows "0 < io_extent_size (io_cfg cfg)" "0 < io_page_size (io_cfg cfg)" "io_page_size (io_cfg cfg) \<le> io_extent_size (io_cfg cfg)"
    "28 \<le> io_page_size (io_cfg cfg)" "io_page_size (io_cfg cfg) dvd io_extent_size (io_cfg cfg)"
proof -
  show e: "0 < io_extent_size (io_cfg cfg)" using assms by (auto simp: mini_cfg_ok_def)
  show d: "io_page_size (io_cfg cfg) dvd io_extent_size (io_cfg cfg)" using assms by (simp add: mini_cfg_ok_def)
  show "io_page_size (io_cfg cfg) \<le> io_extent_size (io_cfg cfg)" using d e by (rule dvd_imp_le)
  show "28 \<le> io_page_size (io_cfg cfg)" using assms by (simp add: mini_cfg_ok_def offsetof_entry_buffer_def sizeof_meta_entry_def)
  then show "0 < io_page_size (io_cfg cfg)" by simp
qed

text \<open>The next page is in the same extent unless it starts one.\<close>

lemma next_page_extent:
  assumes "mini_cfg_ok cfg" "io_page_size (io_cfg cfg) dvd a" "(a + io_page_size (io_cfg cfg)) mod io_extent_size (io_cfg cfg) \<noteq> 0"
  shows "extent_of cfg (a + io_page_size (io_cfg cfg)) = extent_of cfg a"
proof -
  define p e where "p = io_page_size (io_cfg cfg)" and "e = io_extent_size (io_cfg cfg)"
  note s = cfg_sizes [OF assms(1), folded p_def e_def]
  obtain n where n: "e = p * n" using s(5) by (rule dvdE)
  have n0: "0 < n" using n s(1) by (cases n) auto
  obtain i where i: "a = p * i" using assms(2) unfolding p_def [symmetric] by (rule dvdE)
  have "Suc i mod n \<noteq> 0"
  proof
    assume "Suc i mod n = 0"
    then have "n dvd Suc i" by (rule dvd_eq_mod_eq_0 [THEN iffD2])
    then have "e dvd p * Suc i" unfolding n by (rule mult_dvd_mono [OF dvd_refl])
    then show False using assms(3) unfolding p_def [symmetric] e_def [symmetric] i by (simp add: dvd_eq_mod_eq_0 add.commute)
  qed
  then have "Suc i div n = i div n" by (simp add: div_Suc split: if_splits)
  moreover have "(p * j) div e = j div n" for j unfolding n using s(2) by simp
  moreover have "a + p = p * Suc i" using i by simp
  ultimately show ?thesis unfolding p_def [symmetric] e_def [symmetric] by (simp only: i)
qed

lemma must_get_new_extent_ok:
  assumes "al_inv cfg (w_al w)" "must_get_new_extent cfg mini w = Some (addr, mini1, w1)"
  shows "mini1 = mini\<lparr>num_extents := num_extents mini + 1\<rparr>" "w_mem w1 = w_mem w" "al_inv cfg (w_al w1)"
    "io_extent_size (io_cfg cfg) dvd addr" "extent_refs cfg (w_al w) (extent_of cfg addr) = 0"
    "extent_refs cfg (w_al w1) = (extent_refs cfg (w_al w))(extent_of cfg addr := 2)"
proof -
  obtain al where a: "rc_allocator_alloc cfg (w_al w) (mini_type mini) = Some (STATUS_OK, addr, al)"
    "mini1 = mini\<lparr>num_extents := num_extents mini + 1\<rparr>" "w1 = w\<lparr>w_al := al\<rparr>"
  proof -
    obtain rc addr0 al where "rc_allocator_alloc cfg (w_al w) (mini_type mini) = Some (rc, addr0, al)"
      using rc.alloc_law [OF assms(1)] by blast
    then show thesis using assms(2) that by (simp add: must_get_new_extent_def mini_allocator_get_new_extent_def SUCCESS_def split: if_splits)
  qed
  note r = rc.alloc_ok [OF assms(1) a(1)]
  show "mini1 = mini\<lparr>num_extents := num_extents mini + 1\<rparr>" "w_mem w1 = w_mem w" "al_inv cfg (w_al w1)"
    "io_extent_size (io_cfg cfg) dvd addr" "extent_refs cfg (w_al w) (extent_of cfg addr) = 0"
    "extent_refs cfg (w_al w1) = (extent_refs cfg (w_al w))(extent_of cfg addr := 2)"
    using a r by simp_all
qed

section \<open>The list of extents\<close>

definition hdr_ok :: "allocator_config \<Rightarrow> mini_meta_hdr \<Rightarrow> bool" where
  "hdr_ok cfg h \<longleftrightarrow> num_entries h = length (entry_buffer h) \<and> meta_pos h = offsetof_entry_buffer + sizeof_meta_entry * num_entries h
     \<and> meta_pos h \<le> io_page_size (io_cfg cfg)"

text \<open>The meta pages, in the order of the list.\<close>

fun meta_chain :: "allocator_config \<Rightarrow> (nat \<Rightarrow> mini_meta_hdr option) \<Rightarrow> nat list \<Rightarrow> bool" where
  "meta_chain cfg mem [] \<longleftrightarrow> False"
| "meta_chain cfg mem (a # as) \<longleftrightarrow> (case mem a of None \<Rightarrow> False | Some h \<Rightarrow> hdr_ok cfg h \<and> next_meta_addr h = (case as of [] \<Rightarrow> 0 | b # bs \<Rightarrow> b))
     \<and> (as \<noteq> [] \<longrightarrow> meta_chain cfg mem as)"

definition page_entries :: "(nat \<Rightarrow> mini_meta_hdr option) \<Rightarrow> nat \<Rightarrow> nat list" where
  "page_entries mem a = (case mem a of None \<Rightarrow> [] | Some h \<Rightarrow> entry_buffer h)"

definition data_extents :: "(nat \<Rightarrow> mini_meta_hdr option) \<Rightarrow> nat list \<Rightarrow> nat list" where
  "data_extents mem chain = concat (map (page_entries mem) chain)"

definition meta_extents :: "allocator_config \<Rightarrow> nat list \<Rightarrow> nat list" where
  "meta_extents cfg chain = remdups_adj (map (extent_of cfg) chain)"

text \<open>
  All extents the mini allocator owns: those of its meta pages, those it recorded, and the reserved ones \<open>N\<close>. Each has one reference,
  the first meta extent \<open>r\<close> more.
\<close>

definition meta_chain_ok :: "allocator_config \<Rightarrow> (nat \<Rightarrow> mini_meta_hdr option) \<Rightarrow> nat list \<Rightarrow> bool" where
  "meta_chain_ok cfg mem chain \<longleftrightarrow> meta_chain cfg mem chain \<and> distinct chain
     \<and> (\<forall>a\<in>set chain. io_page_size (io_cfg cfg) dvd a \<and> (extent_of cfg a = extent_of cfg (last chain) \<longrightarrow> a \<le> last chain))"

definition owned_ok :: "(nat \<Rightarrow> nat) \<Rightarrow> nat list \<Rightarrow> nat \<Rightarrow> nat \<Rightarrow> bool" where
  "owned_ok refs L h r \<longleftrightarrow> 0 < refs 0 \<and> 0 \<notin> set L \<and> distinct L \<and> (\<forall>e\<in>set L. refs e = 2 + (if e = h then r else 0))"

definition owned :: "allocator_config \<Rightarrow> (nat \<Rightarrow> mini_meta_hdr option) \<Rightarrow> nat list \<Rightarrow> nat list \<Rightarrow> nat list" where
  "owned cfg mem chain N = meta_extents cfg chain @ map (extent_of cfg) (data_extents mem chain @ N)"

definition store_ok :: "allocator_config \<Rightarrow> 'c mini_world \<Rightarrow> nat list \<Rightarrow> nat list \<Rightarrow> nat \<Rightarrow> bool" where
  "store_ok cfg w chain N r \<longleftrightarrow> mini_cfg_ok cfg \<and> al_inv cfg (w_al w) \<and> meta_chain_ok cfg (w_mem w) chain
     \<and> (\<forall>a\<in>set (data_extents (w_mem w) chain @ N). io_extent_size (io_cfg cfg) dvd a)
     \<and> owned_ok (extent_refs cfg (w_al w)) (owned cfg (w_mem w) chain N) (extent_of cfg (hd chain)) r"

lemma owned_ok_mset: "mset L' = mset L \<Longrightarrow> owned_ok refs L' h r = owned_ok refs L h r"
  unfolding owned_ok_def using mset_eq_setD mset_eq_imp_distinct_iff by blast

text \<open>A free extent joins the owned ones.\<close>

lemma owned_ok_add:
  assumes "owned_ok refs L h r" "refs e = 0" "h \<in> set L"
  shows "owned_ok (refs(e := 2)) (e # L) h r"
proof -
  have "e \<notin> set L" using assms(1,2) unfolding owned_ok_def by fastforce
  moreover have "e \<noteq> 0" using assms(1,2) unfolding owned_ok_def by (intro notI) simp
  moreover have "h \<noteq> e" using assms(3) calculation by blast
  ultimately show ?thesis using assms(1) unfolding owned_ok_def by simp
qed

text \<open>How the counts and the owned extents change together: only owned counts change, and new extents were free.\<close>

definition acct :: "(nat \<Rightarrow> nat) \<Rightarrow> nat list \<Rightarrow> (nat \<Rightarrow> nat) \<Rightarrow> nat list \<Rightarrow> bool" where
  "acct refs L refs' L' \<longleftrightarrow> (\<forall>e. e \<notin> set L' \<longrightarrow> refs' e = refs e) \<and> set L \<subseteq> set L' \<and> (\<forall>e\<in>set L'. e \<in> set L \<or> refs e = 0)"

lemma acct_trans: "acct r1 L1 r2 L2 \<Longrightarrow> acct r2 L2 r3 L3 \<Longrightarrow> acct r1 L1 r3 L3"
  unfolding acct_def by (metis subset_eq)

lemma acct_same: "set L' = set L \<Longrightarrow> acct r L r L'"
  by (simp add: acct_def)

lemma acct_add: "r e = 0 \<Longrightarrow> set L' = insert e (set L) \<Longrightarrow> acct r L (r(e := x)) L'"
  by (auto simp: acct_def)

lemma meta_chain_get: "meta_chain cfg mem chain \<Longrightarrow> a \<in> set chain \<Longrightarrow> \<exists>h. mem a = Some h \<and> hdr_ok cfg h"
  by (induction chain) (auto split: option.splits)

lemma meta_chain_cong: "(\<And>a. a \<in> set chain \<Longrightarrow> mem' a = mem a) \<Longrightarrow> meta_chain cfg mem' chain = meta_chain cfg mem chain"
  by (induction chain) auto

lemma data_extents_cong: "(\<And>a. a \<in> set chain \<Longrightarrow> mem' a = mem a) \<Longrightarrow> data_extents mem' chain = data_extents mem chain"
  by (induction chain) (auto simp: data_extents_def page_entries_def)

lemma meta_chain_last:
  assumes "meta_chain cfg mem (as @ [t])" "distinct (as @ [t])" "hdr_ok cfg h" "next_meta_addr h = 0"
  shows "meta_chain cfg (mem(t \<mapsto> h)) (as @ [t])"
  using assms
proof (induction as)
  case (Cons a as)
  define m where "m = mem(t \<mapsto> h)"
  have "meta_chain cfg m (as @ [t])" unfolding m_def using Cons by (simp del: fun_upd_apply)
  moreover have "m a = mem a" using Cons.prems by (auto simp: m_def)
  ultimately show ?case unfolding m_def [symmetric] using Cons.prems by (cases as) (auto split: option.splits)
qed simp

lemma meta_chain_snoc:
  assumes "meta_chain cfg mem (as @ [t])" "distinct (as @ [t])" "b \<notin> set (as @ [t])" "mem t = Some h" "hdr_ok cfg h'" "next_meta_addr h' = 0"
  shows "meta_chain cfg (mem(t \<mapsto> h\<lparr>next_meta_addr := b\<rparr>, b \<mapsto> h')) (as @ [t] @ [b])"
  using assms
proof (induction as)
  case Nil
  then show ?case by (auto simp: hdr_ok_def)
next
  case (Cons a as)
  define m where "m = mem(t \<mapsto> h\<lparr>next_meta_addr := b\<rparr>, b \<mapsto> h')"
  have "meta_chain cfg m (as @ [t] @ [b])" unfolding m_def using Cons by (simp del: fun_upd_apply)
  moreover have "m a = mem a" using Cons.prems by (auto simp: m_def)
  ultimately show ?case unfolding m_def [symmetric] using Cons.prems by (cases as) (auto split: option.splits)
qed

lemma data_extents_append: "data_extents mem (as @ bs) = data_extents mem as @ data_extents mem bs"
  by (simp add: data_extents_def)

lemma meta_extents_snoc:
  assumes "as \<noteq> []"
  shows "meta_extents cfg (as @ [b]) = (if extent_of cfg b = extent_of cfg (last as) then meta_extents cfg as else meta_extents cfg as @ [extent_of cfg b])"
  using assms by (simp add: meta_extents_def remdups_adj_append'' last_map)

lemma set_meta_extents [simp]: "set (meta_extents cfg as) = extent_of cfg ` set as"
  by (simp add: meta_extents_def)

lemma append_entry_page:
  assumes "hdr_ok cfg h" "mini_cfg_ok cfg"
  shows "mini_append_entry_to_page cfg h a = (False, h) \<or>
     (\<exists>h'. mini_append_entry_to_page cfg h a = (True, h') \<and> hdr_ok cfg h' \<and> next_meta_addr h' = next_meta_addr h \<and> entry_buffer h' = entry_buffer h @ [a])"
    "\<exists>h'. mini_append_entry_to_page cfg mini_init_meta_page a = (True, h') \<and> hdr_ok cfg h' \<and> next_meta_addr h' = 0 \<and> entry_buffer h' = [a]"
  using assms by (auto simp: mini_append_entry_to_page_def hdr_ok_def entry_fits_in_page_def mini_init_meta_page_def mini_cfg_ok_def)

text \<open>Recording a reserved extent moves it to the list, which may need another meta page and, for it, another extent.\<close>

lemma extend_chain:
  assumes "store_ok cfg w chain (addr # N) r" "w_mem w (last chain) = Some h" "b \<notin> set chain" "io_page_size (io_cfg cfg) dvd b"
    and "extent_of cfg b = extent_of cfg (last chain) \<and> last chain \<le> b \<and> al = w_al w
      \<or> extent_refs cfg (w_al w) (extent_of cfg b) = 0 \<and> extent_refs cfg al = (extent_refs cfg (w_al w))(extent_of cfg b := 2) \<and> al_inv cfg al"
    and "hdr_ok cfg h'" "next_meta_addr h' = 0" "entry_buffer h' = [addr]"
  defines "mem \<equiv> (w_mem w)(last chain \<mapsto> h\<lparr>next_meta_addr := b\<rparr>, b \<mapsto> h')"
  shows "store_ok cfg \<lparr>w_al = al, w_mem = mem\<rparr> (chain @ [b]) N r \<and> data_extents mem (chain @ [b]) = data_extents (w_mem w) chain @ [addr]
    \<and> acct (extent_refs cfg (w_al w)) (owned cfg (w_mem w) chain (addr # N)) (extent_refs cfg al) (owned cfg mem (chain @ [b]) N)"
proof -
  let ?D = "data_extents (w_mem w) chain" and ?R = "extent_refs cfg (w_al w)"
  have ch: "meta_chain_ok cfg (w_mem w) chain" and al: "al_inv cfg (w_al w)" and cfg: "mini_cfg_ok cfg"
    and o: "owned_ok ?R (owned cfg (w_mem w) chain (addr # N)) (extent_of cfg (hd chain)) r" using assms(1) by (simp_all add: store_ok_def)
  obtain as t where c: "chain = as @ [t]" using ch by (cases chain rule: rev_cases) (auto simp: meta_chain_ok_def)
  have ne: "chain \<noteq> []" using c by simp
  have mc: "meta_chain cfg mem (chain @ [b])"
    using meta_chain_snoc [of cfg "w_mem w" as t b h h'] ch assms(2,3,6,7) unfolding mem_def c by (simp add: meta_chain_ok_def)
  have "page_entries mem a = page_entries (w_mem w) a" if "a \<in> set chain" for a
    using that assms(2,3) by (auto simp: page_entries_def mem_def)
  then have "data_extents mem chain = ?D" unfolding data_extents_def by (metis (no_types, lifting) map_eq_conv)
  moreover have "data_extents mem [b] = [addr]" using assms(8) by (simp add: data_extents_def page_entries_def mem_def)
  ultimately have d: "data_extents mem (chain @ [b]) = ?D @ [addr]" by (simp add: data_extents_append)
  have hd: "hd (chain @ [b]) = hd chain" using ne by simp
  have hin: "extent_of cfg (hd chain) \<in> set (owned cfg (w_mem w) chain (addr # N))" using ne by (simp add: owned_def)
  have dv: "\<forall>a\<in>set ((?D @ [addr]) @ N). io_extent_size (io_cfg cfg) dvd a" using assms(1) by (auto simp: store_ok_def)
  have "al_inv cfg al \<and> meta_chain_ok cfg mem (chain @ [b]) \<and> owned_ok (extent_refs cfg al) (owned cfg mem (chain @ [b]) N) (extent_of cfg (hd chain)) r
    \<and> acct ?R (owned cfg (w_mem w) chain (addr # N)) (extent_refs cfg al) (owned cfg mem (chain @ [b]) N)"
    using assms(5)
  proof
    assume s: "extent_of cfg b = extent_of cfg (last chain) \<and> last chain \<le> b \<and> al = w_al w"
    then have "owned cfg mem (chain @ [b]) N = owned cfg (w_mem w) chain (addr # N)" unfolding owned_def d using meta_extents_snoc [OF ne] by simp
    moreover have "meta_chain_ok cfg mem (chain @ [b])" using ch mc assms(3,4) s by (auto simp: meta_chain_ok_def intro: order_trans)
    ultimately show ?thesis using o al s by (simp add: acct_same)
  next
    assume s: "?R (extent_of cfg b) = 0 \<and> extent_refs cfg al = ?R(extent_of cfg b := 2) \<and> al_inv cfg al"
    then have b: "extent_of cfg b \<notin> set (owned cfg (w_mem w) chain (addr # N))" using o unfolding owned_ok_def by fastforce
    then have l: "extent_of cfg a \<noteq> extent_of cfg b" if "a \<in> set chain" for a using that by (auto simp: owned_def rev_image_eqI)
    have "extent_of cfg b \<noteq> extent_of cfg (last chain)" using l [of "last chain"] ne by simp
    then have ms: "mset (owned cfg mem (chain @ [b]) N) = mset (extent_of cfg b # owned cfg (w_mem w) chain (addr # N))"
      unfolding owned_def d using meta_extents_snoc [OF ne, of cfg b] by simp
    have "meta_chain_ok cfg mem (chain @ [b])" using ch mc assms(3,4) l by (auto simp: meta_chain_ok_def)
    moreover have "owned_ok (extent_refs cfg al) (owned cfg mem (chain @ [b]) N) (extent_of cfg (hd chain)) r"
      using owned_ok_add [OF o _ hin] s unfolding owned_ok_mset [OF ms] by simp
    moreover have "acct ?R (owned cfg (w_mem w) chain (addr # N)) (extent_refs cfg al) (owned cfg mem (chain @ [b]) N)"
      using s acct_add [of ?R "extent_of cfg b"] mset_eq_setD [OF ms] by simp
    ultimately show ?thesis using s by blast
  qed
  then show ?thesis using cfg d hd dv by (simp add: store_ok_def)
qed

lemma append_to_tail:
  assumes "store_ok cfg w chain (addr # N) r" "w_mem w (last chain) = Some h" "hdr_ok cfg h'" "next_meta_addr h' = next_meta_addr h" "entry_buffer h' = entry_buffer h @ [addr]"
  shows "store_ok cfg (w\<lparr>w_mem := (w_mem w)(last chain \<mapsto> h')\<rparr>) chain N r
    \<and> data_extents ((w_mem w)(last chain \<mapsto> h')) chain = data_extents (w_mem w) chain @ [addr]
    \<and> owned cfg ((w_mem w)(last chain \<mapsto> h')) chain N = owned cfg (w_mem w) chain (addr # N)"
proof -
  let ?m = "(w_mem w)(last chain \<mapsto> h')"
  have ch: "meta_chain_ok cfg (w_mem w) chain" using assms(1) by (simp add: store_ok_def)
  obtain as t where c: "chain = as @ [t]" using ch by (cases chain rule: rev_cases) (auto simp: meta_chain_ok_def)
  have n0: "next_meta_addr h = 0"
  proof -
    have "meta_chain cfg (w_mem w) (as @ [t])" using ch c by (simp add: meta_chain_ok_def)
    then have "meta_chain cfg (w_mem w) [t]" by (induction as) (auto split: if_splits)
    then show ?thesis using assms(2) c by simp
  qed
  have "data_extents ?m as = data_extents (w_mem w) as" by (rule data_extents_cong) (use ch c in \<open>auto simp: meta_chain_ok_def\<close>)
  then have d: "data_extents ?m chain = data_extents (w_mem w) chain @ [addr]"
    using assms(2,5) by (simp add: c data_extents_append) (simp add: data_extents_def page_entries_def)
  have "meta_chain_ok cfg ?m chain" using ch meta_chain_last [of cfg "w_mem w" as t h'] assms(3,4) n0 by (simp add: meta_chain_ok_def c)
  then show ?thesis using assms(1) d by (simp add: store_ok_def owned_def)
qed

lemma mini_append_entry_ok:
  assumes "store_ok cfg w chain (addr # N) r" "meta_tail mini = last chain" "mini_append_entry cfg mini w addr = Some (mini', w')"
  obtains chain' where "store_ok cfg w' chain' N r" "hd chain' = hd chain" "meta_tail mini' = last chain'"
    "data_extents (w_mem w') chain' = data_extents (w_mem w) chain @ [addr]"
    "mini' = mini\<lparr>meta_tail := meta_tail mini', num_extents := num_extents mini'\<rparr>"
    "acct (extent_refs cfg (w_al w)) (owned cfg (w_mem w) chain (addr # N)) (extent_refs cfg (w_al w')) (owned cfg (w_mem w') chain' N)"
proof -
  have ch: "meta_chain_ok cfg (w_mem w) chain" and al: "al_inv cfg (w_al w)" and cfg: "mini_cfg_ok cfg" using assms(1) by (simp_all add: store_ok_def)
  have ne: "chain \<noteq> []" using ch by (auto simp: meta_chain_ok_def)
  let ?t = "last chain" and ?p = "io_page_size (io_cfg cfg)"
  obtain h where h: "w_mem w ?t = Some h" "hdr_ok cfg h" using ch ne meta_chain_get [of cfg "w_mem w" chain ?t] by (auto simp: meta_chain_ok_def)
  from append_entry_page(1) [OF h(2) cfg, of addr] show thesis
  proof
    assume "\<exists>h'. mini_append_entry_to_page cfg h addr = (True, h') \<and> hdr_ok cfg h' \<and> next_meta_addr h' = next_meta_addr h \<and> entry_buffer h' = entry_buffer h @ [addr]"
    then obtain h' where h': "mini_append_entry_to_page cfg h addr = (True, h')" "hdr_ok cfg h'" "next_meta_addr h' = next_meta_addr h"
      "entry_buffer h' = entry_buffer h @ [addr]" by blast
    have "mini' = mini" "w' = w\<lparr>w_mem := (w_mem w)(?t \<mapsto> h')\<rparr>" using assms(2,3) h(1) h'(1) by (simp_all add: mini_append_entry_def)
    then show thesis using that [of chain] append_to_tail [OF assms(1) h(1) h'(2-4)] assms(2) by (simp add: acct_same)
  next
    assume full: "mini_append_entry_to_page cfg h addr = (False, h)"
    obtain h' where h': "mini_append_entry_to_page cfg mini_init_meta_page addr = (True, h')" "hdr_ok cfg h'" "next_meta_addr h' = 0" "entry_buffer h' = [addr]"
      using append_entry_page(2) [OF h(2) cfg, of addr] by blast
    obtain b mini1 w1 where b: "(if (?t + ?p) mod io_extent_size (io_cfg cfg) = 0 then must_get_new_extent cfg mini w else Some (?t + ?p, mini, w)) = Some (b, mini1, w1)"
      and r: "mini' = mini1\<lparr>meta_tail := b\<rparr>" "w' = w1\<lparr>w_mem := (w_mem w1)(?t \<mapsto> h\<lparr>next_meta_addr := b\<rparr>, b \<mapsto> h')\<rparr>"
      using assms(2,3) h(1) h'(1) full by (auto simp: mini_append_entry_def Let_def bind_eq_Some_conv)
    have dv: "?p dvd ?t" and mx: "a \<in> set chain \<Longrightarrow> extent_of cfg a = extent_of cfg ?t \<Longrightarrow> a \<le> ?t" for a
      using ch ne by (auto simp: meta_chain_ok_def)
    define al where "al = w_al w1"
    have "b \<notin> set chain \<and> ?p dvd b \<and> w_mem w1 = w_mem w \<and> mini1 = mini\<lparr>num_extents := num_extents mini1\<rparr> \<and>
      (extent_of cfg b = extent_of cfg ?t \<and> ?t \<le> b \<and> al = w_al w
       \<or> extent_refs cfg (w_al w) (extent_of cfg b) = 0 \<and> extent_refs cfg al = (extent_refs cfg (w_al w))(extent_of cfg b := 2) \<and> al_inv cfg al)"
    proof (cases "(?t + ?p) mod io_extent_size (io_cfg cfg) = 0")
      case True
      then have g: "must_get_new_extent cfg mini w = Some (b, mini1, w1)" using b by simp
      note q = must_get_new_extent_ok [OF al g]
      have "b \<notin> set chain"
      proof
        assume "b \<in> set chain"
        then have "extent_of cfg b \<in> set (owned cfg (w_mem w) chain (addr # N))" by (simp add: owned_def)
        then show False using assms(1) q(5) unfolding store_ok_def owned_ok_def by fastforce
      qed
      moreover have "?p dvd b" using q(4) cfg_sizes(5) [OF cfg] by (rule dvd_trans [rotated])
      ultimately show ?thesis using q by (simp add: al_def)
    next
      case False
      then have e: "b = ?t + ?p" "mini1 = mini" "w1 = w" using b by simp_all
      have "extent_of cfg b = extent_of cfg ?t" unfolding e by (rule next_page_extent [OF cfg dv False])
      moreover have "b \<notin> set chain" using mx [of b] calculation cfg_sizes(2) [OF cfg] e(1) by force
      ultimately show ?thesis using e dv by (simp add: al_def)
    qed
    then have x: "b \<notin> set chain" "?p dvd b" "w_mem w1 = w_mem w" "mini1 = mini\<lparr>num_extents := num_extents mini1\<rparr>"
      "extent_of cfg b = extent_of cfg ?t \<and> ?t \<le> b \<and> al = w_al w
       \<or> extent_refs cfg (w_al w) (extent_of cfg b) = 0 \<and> extent_refs cfg al = (extent_refs cfg (w_al w))(extent_of cfg b := 2) \<and> al_inv cfg al" by blast+
    have "w' = \<lparr>w_al = al, w_mem = (w_mem w)(?t \<mapsto> h\<lparr>next_meta_addr := b\<rparr>, b \<mapsto> h')\<rparr>" using r(2) x(3) by (simp add: al_def)
    moreover note extend_chain [OF assms(1) h(1) x(1,2,5) h'(2-4)]
    moreover have "mini' = mini\<lparr>meta_tail := meta_tail mini', num_extents := num_extents mini'\<rparr>"
    proof -
      have "mini1\<lparr>meta_tail := b\<rparr> = (mini\<lparr>num_extents := num_extents mini1\<rparr>)\<lparr>meta_tail := b\<rparr>" using x(4) by (rule arg_cong)
      then show ?thesis using r(1) by simp
    qed
    ultimately show thesis using that [of "chain @ [b]"] ne r(1) by simp
  qed
qed

section \<open>Allocation of pages\<close>

text \<open>The pages of a batch that are still to be handed out.\<close>

definition avail :: "allocator_config \<Rightarrow> nat \<Rightarrow> nat \<Rightarrow> bool" where
  "avail cfg next p \<longleftrightarrow> next mod io_extent_size (io_cfg cfg) \<noteq> 0 \<and> extent_of cfg p = extent_of cfg next \<and> next \<le> p"

text \<open>Each batch is at a page of a recorded extent of its own, or has to open one.\<close>

definition batches_ok :: "allocator_config \<Rightarrow> nat list \<Rightarrow> nat list \<Rightarrow> bool" where
  "batches_ok cfg D as \<longleftrightarrow>
     (\<forall>a\<in>set as. io_page_size (io_cfg cfg) dvd a \<and> (a mod io_extent_size (io_cfg cfg) \<noteq> 0 \<longrightarrow> extent_of cfg a \<in> extent_of cfg ` set D))
     \<and> (\<forall>b<length as. \<forall>c<length as. b \<noteq> c \<longrightarrow> as ! b mod io_extent_size (io_cfg cfg) \<noteq> 0 \<longrightarrow> as ! c mod io_extent_size (io_cfg cfg) \<noteq> 0
          \<longrightarrow> extent_of cfg (as ! b) \<noteq> extent_of cfg (as ! c))"

definition mini_ok :: "allocator_config \<Rightarrow> mini_allocator \<Rightarrow> 'c mini_world \<Rightarrow> nat list \<Rightarrow> nat \<Rightarrow> bool" where
  "mini_ok cfg mini w chain r \<longleftrightarrow> store_ok cfg w chain (take (num_batches mini) (mini_next_extent mini)) r
     \<and> hd chain = meta_head mini \<and> last chain = meta_tail mini \<and> mini_type mini \<noteq> PAGE_TYPE_INVALID
     \<and> num_batches mini \<le> length (mini_next_extent mini) \<and> num_batches mini \<le> length (mini_next_addr mini)
     \<and> batches_ok cfg (data_extents (w_mem w) chain) (take (num_batches mini) (mini_next_addr mini))"

text \<open>The pages that were handed out.\<close>

definition pages_out :: "allocator_config \<Rightarrow> nat list \<Rightarrow> nat list \<Rightarrow> nat set" where
  "pages_out cfg D as = {p. io_page_size (io_cfg cfg) dvd p \<and> extent_of cfg p \<in> extent_of cfg ` set D \<and> (\<forall>b<length as. \<not> avail cfg (as ! b) p)}"

lemma same_meta_page:
  fixes p a s :: nat
  assumes "s dvd p" "s dvd a" "a \<le> p" "p < a + s"
  shows "p = a"
proof -
  have "s dvd p - a" using assms by (simp add: dvd_diff_nat)
  moreover have "p - a < s" using assms by linarith
  ultimately have "p - a = 0" by (metis dvd_imp_le gr_zeroI not_le)
  then show ?thesis using assms(3) by simp
qed

lemma avail_next:
  assumes "mini_cfg_ok cfg" "io_page_size (io_cfg cfg) dvd a"
  shows "avail cfg (a + io_page_size (io_cfg cfg)) p \<longleftrightarrow> extent_of cfg p = extent_of cfg a \<and> a + io_page_size (io_cfg cfg) \<le> p"
proof (cases "(a + io_page_size (io_cfg cfg)) mod io_extent_size (io_cfg cfg) = 0")
  case True
  let ?e = "io_extent_size (io_cfg cfg)" and ?p = "io_page_size (io_cfg cfg)"
  have "\<not> (extent_of cfg p = extent_of cfg a \<and> a + ?p \<le> p)"
  proof
    assume h: "extent_of cfg p = extent_of cfg a \<and> a + ?p \<le> p"
    then have "extent_of cfg (a + ?p) \<le> extent_of cfg a" by (metis div_le_mono)
    then have "extent_of cfg (a + ?p) * ?e \<le> extent_of cfg a * ?e" by (rule mult_le_mono1)
    moreover have "extent_of cfg (a + ?p) * ?e = a + ?p" using True by (metis add.right_neutral div_mult_mod_eq)
    moreover have "extent_of cfg a * ?e \<le> a" by (rule div_times_less_eq_dividend)
    ultimately show False using cfg_sizes(2) [OF assms(1)] by linarith
  qed
  then show ?thesis using True by (simp add: avail_def)
next
  case False
  then show ?thesis using next_page_extent [OF assms False] by (auto simp: avail_def)
qed

text \<open>The page \<open>a\<close> that batch \<open>b\<close> hands out: the next one, or the first of an extent that is recorded for it.\<close>

definition hands_out :: "allocator_config \<Rightarrow> nat list \<Rightarrow> nat list \<Rightarrow> nat \<Rightarrow> nat \<Rightarrow> nat list \<Rightarrow> bool" where
  "hands_out cfg D as b a D' \<longleftrightarrow> io_page_size (io_cfg cfg) dvd a \<and> b < length as \<and>
     (as ! b = a \<and> a mod io_extent_size (io_cfg cfg) \<noteq> 0 \<and> D' = D
      \<or> as ! b mod io_extent_size (io_cfg cfg) = 0 \<and> a mod io_extent_size (io_cfg cfg) = 0 \<and> extent_of cfg a \<notin> extent_of cfg ` set D \<and> D' = D @ [a])"

lemma other_batches:
  assumes "batches_ok cfg D as" "hands_out cfg D as b a D'" "c < length as" "c \<noteq> b" "as ! c mod io_extent_size (io_cfg cfg) \<noteq> 0"
  shows "extent_of cfg (as ! c) \<noteq> extent_of cfg a"
proof -
  let ?e = "io_extent_size (io_cfg cfg)"
  have "extent_of cfg (as ! c) \<in> extent_of cfg ` set D" using assms(1,3,5) unfolding batches_ok_def by (metis nth_mem)
  moreover have "as ! b mod ?e \<noteq> 0 \<Longrightarrow> extent_of cfg (as ! c) \<noteq> extent_of cfg (as ! b)"
    using assms unfolding batches_ok_def hands_out_def by blast
  ultimately show ?thesis using assms(2) unfolding hands_out_def by metis
qed

lemma hands_out_recorded:
  assumes "batches_ok cfg D as" "hands_out cfg D as b a D'"
  shows "extent_of cfg a \<in> extent_of cfg ` set D'" "extent_of cfg ` set D' = insert (extent_of cfg a) (extent_of cfg ` set D)"
proof -
  have "extent_of cfg a \<in> extent_of cfg ` set D" if "as ! b = a" "a mod io_extent_size (io_cfg cfg) \<noteq> 0"
    using assms that unfolding batches_ok_def hands_out_def by (metis nth_mem)
  then show "extent_of cfg a \<in> extent_of cfg ` set D'" "extent_of cfg ` set D' = insert (extent_of cfg a) (extent_of cfg ` set D)"
    using assms(2) unfolding hands_out_def by (auto simp: insert_absorb)
qed

lemma batches_ok_step:
  assumes "mini_cfg_ok cfg" "batches_ok cfg D as" "hands_out cfg D as b a D'"
  shows "batches_ok cfg D' (as[b := a + io_page_size (io_cfg cfg)])"
proof -
  let ?p = "io_page_size (io_cfg cfg)" and ?e = "io_extent_size (io_cfg cfg)"
  define as' where "as' = as[b := a + ?p]"
  have b: "b < length as" "?p dvd a" using assms(3) by (simp_all add: hands_out_def)
  have nx: "extent_of cfg (a + ?p) = extent_of cfg a" if "(a + ?p) mod ?e \<noteq> 0" by (rule next_page_extent [OF assms(1) b(2) that])
  note r = hands_out_recorded [OF assms(2,3)]
  have 1: "?p dvd x \<and> (x mod ?e \<noteq> 0 \<longrightarrow> extent_of cfg x \<in> extent_of cfg ` set D')" if "x \<in> set as'" for x
  proof -
    have "x = a + ?p \<or> x \<in> set as" using that set_update_subset_insert [of as b] by (auto simp: as'_def)
    then show ?thesis
    proof
      assume "x = a + ?p"
      then show ?thesis using nx r(1) b(2) by simp
    next
      assume "x \<in> set as"
      then show ?thesis using assms(2) r(2) unfolding batches_ok_def by blast
    qed
  qed
  have o: "extent_of cfg (as' ! c) \<noteq> extent_of cfg (as' ! b)" if "c < length as" "c \<noteq> b" "as' ! c mod ?e \<noteq> 0" "as' ! b mod ?e \<noteq> 0" for c
    using other_batches [OF assms(2,3) that(1,2)] that nx b(1) by (simp add: as'_def)
  have "extent_of cfg (as' ! c) \<noteq> extent_of cfg (as' ! d)"
    if "c < length as'" "d < length as'" "c \<noteq> d" "as' ! c mod ?e \<noteq> 0" "as' ! d mod ?e \<noteq> 0" for c d
  proof -
    consider "c = b" | "d = b" | "c \<noteq> b" "d \<noteq> b" by blast
    then show ?thesis
    proof cases
      case 3
      then show ?thesis using that assms(2) unfolding batches_ok_def as'_def by simp
    qed (use that o in \<open>fastforce simp: as'_def\<close>)+
  qed
  then show ?thesis using 1 unfolding batches_ok_def as'_def [symmetric] by blast
qed

lemma pages_out_member:
  assumes "mini_cfg_ok cfg" "batches_ok cfg D as" "hands_out cfg D as b a D'" "io_page_size (io_cfg cfg) dvd p" "extent_of cfg p = extent_of cfg a"
  shows "p \<in> pages_out cfg D as \<longleftrightarrow> p < a" "p \<in> pages_out cfg D' (as[b := a + io_page_size (io_cfg cfg)]) \<longleftrightarrow> p \<le> a"
proof -
  let ?p = "io_page_size (io_cfg cfg)" and ?e = "io_extent_size (io_cfg cfg)"
  have b: "b < length as" "?p dvd a" using assms(3) by (simp_all add: hands_out_def)
  have other: "\<not> avail cfg (as ! c) p" if "c < length as" "c \<noteq> b" for c
    using other_batches [OF assms(2,3) that] assms(5) unfolding avail_def by metis
  show "p \<in> pages_out cfg D as \<longleftrightarrow> p < a"
  proof (cases "as ! b = a \<and> a mod ?e \<noteq> 0 \<and> D' = D")
    case True
    have "(\<forall>c<length as. \<not> avail cfg (as ! c) p) \<longleftrightarrow> \<not> avail cfg a p" using other b(1) True by metis
    then show ?thesis using True assms(4,5) hands_out_recorded(1) [OF assms(2,3)] by (auto simp: pages_out_def avail_def)
  next
    case False
    then have s: "a mod ?e = 0" "extent_of cfg a \<notin> extent_of cfg ` set D" using assms(3) by (auto simp: hands_out_def)
    have "a = extent_of cfg p * ?e" unfolding assms(5) using s(1) by (metis add.right_neutral div_mult_mod_eq)
    then have "a \<le> p" by (metis div_times_less_eq_dividend)
    moreover have "p \<notin> pages_out cfg D as" using s(2) assms(5) by (simp add: pages_out_def)
    ultimately show ?thesis by simp
  qed
  have "avail cfg (as[b := a + ?p] ! c) p \<longleftrightarrow> c = b \<and> a + ?p \<le> p" if "c < length as" for c
    using avail_next [OF assms(1) b(2)] other [OF that] assms(5) b(1) that by (cases "c = b") simp_all
  then have "(\<forall>c<length (as[b := a + ?p]). \<not> avail cfg (as[b := a + ?p] ! c) p) \<longleftrightarrow> p < a + ?p" using b(1) by auto
  moreover have "p < a + ?p \<longleftrightarrow> p \<le> a" using same_meta_page [OF assms(4) b(2)] cfg_sizes(2) [OF assms(1)] by fastforce
  ultimately show "p \<in> pages_out cfg D' (as[b := a + ?p]) \<longleftrightarrow> p \<le> a"
    unfolding pages_out_def using assms(4,5) hands_out_recorded(1) [OF assms(2,3)] by simp
qed

lemma pages_out_step:
  assumes "mini_cfg_ok cfg" "batches_ok cfg D as" "hands_out cfg D as b a D'"
  shows "a \<notin> pages_out cfg D as" "pages_out cfg D' (as[b := a + io_page_size (io_cfg cfg)]) = insert a (pages_out cfg D as)"
proof -
  let ?p = "io_page_size (io_cfg cfg)" and ?e = "io_extent_size (io_cfg cfg)"
  have b: "b < length as" "?p dvd a" using assms(3) by (simp_all add: hands_out_def)
  show "a \<notin> pages_out cfg D as" using pages_out_member(1) [OF assms b(2)] by simp
  have "p \<in> pages_out cfg D' (as[b := a + ?p]) \<longleftrightarrow> p = a \<or> p \<in> pages_out cfg D as" if dv: "?p dvd p" for p
  proof (cases "extent_of cfg p = extent_of cfg a")
    case True
    then show ?thesis using pages_out_member [OF assms dv True] by auto
  next
    case False
    have "avail cfg (as[b := a + ?p] ! c) p = avail cfg (as ! c) p" if "c < length as" for c
    proof (cases "c = b")
      case True
      have "\<not> avail cfg (as ! b) p" using assms(3) False unfolding hands_out_def avail_def by metis
      then show ?thesis using True avail_next [OF assms(1) b(2)] False b(1) by simp
    qed (use that in simp)
    moreover have "extent_of cfg p \<in> extent_of cfg ` set D' \<longleftrightarrow> extent_of cfg p \<in> extent_of cfg ` set D"
      using hands_out_recorded(2) [OF assms(2,3)] False by simp
    ultimately show ?thesis using False unfolding pages_out_def by auto
  qed
  moreover have "?p dvd p" if "p \<in> pages_out cfg E xs" for p E xs using that by (simp add: pages_out_def)
  ultimately show "pages_out cfg D' (as[b := a + ?p]) = insert a (pages_out cfg D as)" using b(2) by blast
qed

lemma store_ok_add:
  assumes "store_ok cfg w chain N r" "w_mem w' = w_mem w" "al_inv cfg (w_al w')" "io_extent_size (io_cfg cfg) dvd a"
    "extent_refs cfg (w_al w) (extent_of cfg a) = 0" "extent_refs cfg (w_al w') = (extent_refs cfg (w_al w))(extent_of cfg a := 2)"
  shows "store_ok cfg w' chain (a # N) r
    \<and> acct (extent_refs cfg (w_al w)) (owned cfg (w_mem w) chain N) (extent_refs cfg (w_al w')) (owned cfg (w_mem w') chain (a # N))"
proof -
  have "chain \<noteq> []" using assms(1) by (auto simp: store_ok_def meta_chain_ok_def)
  then have "extent_of cfg (hd chain) \<in> set (owned cfg (w_mem w) chain N)" by (simp add: owned_def)
  then have o: "owned_ok (extent_refs cfg (w_al w')) (extent_of cfg a # owned cfg (w_mem w) chain N) (extent_of cfg (hd chain)) r"
    using owned_ok_add [of "extent_refs cfg (w_al w)" "owned cfg (w_mem w) chain N"] assms(1,5,6) by (simp add: store_ok_def)
  have ms: "mset (owned cfg (w_mem w') chain (a # N)) = mset (extent_of cfg a # owned cfg (w_mem w) chain N)"
    by (simp add: owned_def assms(2))
  have "acct (extent_refs cfg (w_al w)) (owned cfg (w_mem w) chain N) (extent_refs cfg (w_al w')) (owned cfg (w_mem w') chain (a # N))"
    unfolding assms(6) by (rule acct_add) (use assms(5) mset_eq_setD [OF ms] in simp_all)
  then show ?thesis using o [folded owned_ok_mset [OF ms]] assms(1-4) by (simp add: store_ok_def)
qed

lemma store_ok_mset:
  assumes "store_ok cfg w chain N r" "mset N' = mset N"
  shows "store_ok cfg w chain N' r"
proof -
  have "mset (owned cfg (w_mem w) chain N') = mset (owned cfg (w_mem w) chain N)" using assms(2) by (simp add: owned_def)
  then have "owned_ok (extent_refs cfg (w_al w)) (owned cfg (w_mem w) chain N') (extent_of cfg (hd chain)) r"
    using assms(1) unfolding store_ok_def by (metis owned_ok_mset)
  then show ?thesis using assms(1) mset_eq_setD [OF assms(2)] by (simp add: store_ok_def)
qed

lemma swap_reserved:
  assumes "b < length N"
  shows "mset (N ! b # N[b := x]) = mset (x # N)"
  using assms by (simp add: mset_update)

lemma mini_alloc_ok:
  assumes "mini_ok cfg mini w chain r" "batch < num_batches mini" "mini_alloc cfg mini w batch = Some (addr, next, mini', w')"
  obtains chain' where "mini_ok cfg mini' w' chain' r" "meta_head mini' = meta_head mini" "num_batches mini' = num_batches mini"
    "hands_out cfg (data_extents (w_mem w) chain) (take (num_batches mini) (mini_next_addr mini)) batch addr (data_extents (w_mem w') chain')"
    "take (num_batches mini) (mini_next_addr mini') = (take (num_batches mini) (mini_next_addr mini))[batch := addr + io_page_size (io_cfg cfg)]"
    "next = mini_next_extent mini' ! batch" "mini_type mini' = mini_type mini"
    "acct (extent_refs cfg (w_al w)) (owned cfg (w_mem w) chain (take (num_batches mini) (mini_next_extent mini)))
       (extent_refs cfg (w_al w')) (owned cfg (w_mem w') chain' (take (num_batches mini') (mini_next_extent mini')))"
proof -
  let ?n = "num_batches mini" and ?p = "io_page_size (io_cfg cfg)" and ?e = "io_extent_size (io_cfg cfg)"
  let ?N = "take ?n (mini_next_extent mini)" and ?as = "take ?n (mini_next_addr mini)" and ?D = "data_extents (w_mem w) chain"
  define a where "a = mini_next_addr mini ! batch"
  have st: "store_ok cfg w chain ?N r" and hd: "hd chain = meta_head mini" and la: "last chain = meta_tail mini"
    and ty: "mini_type mini \<noteq> PAGE_TYPE_INVALID" and len: "?n \<le> length (mini_next_extent mini)" "?n \<le> length (mini_next_addr mini)"
    and bt: "batches_ok cfg ?D ?as" using assms(1) by (simp_all add: mini_ok_def)
  have cfg: "mini_cfg_ok cfg" and al: "al_inv cfg (w_al w)" using st by (simp_all add: store_ok_def)
  have a: "a = ?as ! batch" "batch < length ?as" "a \<in> set ?as" using assms(2) len by (simp_all add: a_def in_set_conv_nth) (metis assms(2) nth_take)
  have dva: "?p dvd a" using bt a(3) by (simp add: batches_ok_def)
  define mini1 where "mini1 = mini\<lparr>mini_next_addr := (mini_next_addr mini)[batch := MINI_WAIT]\<rparr>"
  obtain mini2 w2 where m: "addr = a \<and> mini2 = mini1 \<and> w2 = w \<and> a mod ?e \<noteq> 0 \<or>
      (\<exists>new mini3 w3. a mod ?e = 0 \<and> addr = mini_next_extent mini ! batch \<and> must_get_new_extent cfg mini1 w = Some (new, mini3, w3)
        \<and> mini_append_entry cfg (mini3\<lparr>mini_next_extent := (mini_next_extent mini3)[batch := new]\<rparr>) w3 addr = Some (mini2, w2))"
    and r: "next = mini_next_extent mini2 ! batch" "mini' = mini_unlock_batch_set_next_addr mini2 batch (addr + ?p)" "w' = w2"
    using assms(3) by (auto simp: mini_alloc_def mini_lock_batch_get_next_addr_def mini1_def a_def bind_eq_Some_conv Let_def split: if_splits)
  from m show thesis
  proof
    assume s: "addr = a \<and> mini2 = mini1 \<and> w2 = w \<and> a mod ?e \<noteq> 0"
    have h: "hands_out cfg ?D ?as batch addr ?D" using s a dva by (simp add: hands_out_def)
    note b = batches_ok_step [OF cfg bt h]
    have "mini_ok cfg mini' w' chain r" using s st hd la ty len b r
      by (simp add: mini_ok_def mini_unlock_batch_set_next_addr_def mini1_def take_update_swap)
    then show thesis using that [of chain] h s r by (simp add: mini_unlock_batch_set_next_addr_def mini1_def take_update_swap acct_same)
  next
    assume "\<exists>new mini3 w3. a mod ?e = 0 \<and> addr = mini_next_extent mini ! batch \<and> must_get_new_extent cfg mini1 w = Some (new, mini3, w3)
        \<and> mini_append_entry cfg (mini3\<lparr>mini_next_extent := (mini_next_extent mini3)[batch := new]\<rparr>) w3 addr = Some (mini2, w2)"
    then obtain new mini3 w3 where a0: "a mod ?e = 0" and ad: "addr = mini_next_extent mini ! batch"
      and g: "must_get_new_extent cfg mini1 w = Some (new, mini3, w3)"
      and ap: "mini_append_entry cfg (mini3\<lparr>mini_next_extent := (mini_next_extent mini3)[batch := new]\<rparr>) w3 addr = Some (mini2, w2)" by (elim exE conjE) (rule that)
    note q = must_get_new_extent_ok [OF al g]
    have N: "addr = ?N ! batch" "batch < length ?N" using ad assms(2) len by simp_all
    note add = store_ok_add [OF st q(2-6)]
    have sw: "set (?N ! batch # ?N[batch := new]) = set (new # ?N)" by (rule mset_eq_setD) (rule swap_reserved [OF N(2)])
    have st3: "store_ok cfg w3 chain (addr # ?N[batch := new]) r"
      unfolding N(1) by (rule store_ok_mset [OF add [THEN conjunct1]]) (rule swap_reserved [OF N(2)])
    have "meta_tail (mini3\<lparr>mini_next_extent := (mini_next_extent mini3)[batch := new]\<rparr>) = last chain" using q(1) la by (simp add: mini1_def)
    from mini_append_entry_ok [OF st3 this ap] obtain chain' where c: "store_ok cfg w2 chain' (?N[batch := new]) r" "hd chain' = hd chain"
      "meta_tail mini2 = last chain'" "data_extents (w_mem w2) chain' = data_extents (w_mem w3) chain @ [addr]"
      "mini2 = (mini3\<lparr>mini_next_extent := (mini_next_extent mini3)[batch := new]\<rparr>)\<lparr>meta_tail := meta_tail mini2, num_extents := num_extents mini2\<rparr>"
      "acct (extent_refs cfg (w_al w3)) (owned cfg (w_mem w3) chain (addr # ?N[batch := new])) (extent_refs cfg (w_al w2)) (owned cfg (w_mem w2) chain' (?N[batch := new]))"
      by metis
    have "set (owned cfg (w_mem w3) chain (addr # ?N[batch := new])) = set (owned cfg (w_mem w3) chain (new # ?N))"
      using sw unfolding N(1) owned_def by (simp only: set_append set_map)
    then have ac: "acct (extent_refs cfg (w_al w)) (owned cfg (w_mem w) chain ?N) (extent_refs cfg (w_al w2)) (owned cfg (w_mem w2) chain' (?N[batch := new]))"
      using acct_trans [OF acct_trans [OF add [THEN conjunct2] acct_same] c(6)] by simp
    have f: "mini_next_addr mini2 = (mini_next_addr mini)[batch := MINI_WAIT]" "mini_next_extent mini2 = (mini_next_extent mini)[batch := new]"
      "num_batches mini2 = ?n" "meta_head mini2 = meta_head mini" "mini_type mini2 = mini_type mini"
      by (subst c(5), simp add: q(1) mini1_def)+
    have D: "data_extents (w_mem w2) chain' = ?D @ [addr]" using c(4) q(2) by simp
    have inN: "addr \<in> set ?N" using N by (metis nth_mem)
    then have o: "owned_ok (extent_refs cfg (w_al w)) (owned cfg (w_mem w) chain ?N) (extent_of cfg (hd chain)) r"
      "io_extent_size (io_cfg cfg) dvd addr" using st by (simp_all add: store_ok_def)
    have "extent_of cfg addr \<notin> extent_of cfg ` set ?D" using o(1) inN unfolding owned_ok_def owned_def by auto
    moreover have "?p dvd addr" using o(2) cfg_sizes(5) [OF cfg] by (rule dvd_trans [rotated])
    ultimately have h: "hands_out cfg ?D ?as batch addr (data_extents (w_mem w2) chain')"
      unfolding hands_out_def D using a a0 o(2) by (simp add: dvd_eq_mod_eq_0)
    note b = batches_ok_step [OF cfg bt h]
    have "take ?n (mini_next_extent mini2) = ?N[batch := new]" by (simp add: f take_update_swap)
    then have "mini_ok cfg mini' w' chain' r" using c(1-3) hd ty len b r
      by (simp add: mini_ok_def mini_unlock_batch_set_next_addr_def f take_update_swap)
    then show thesis using that [of chain'] h r ac by (simp add: mini_unlock_batch_set_next_addr_def f take_update_swap)
  qed
qed

text \<open>
  C31: \<open>mini_alloc\<close> returns a page that was not handed out before, keeps the invariant of the mini
  allocator, and adds exactly this page to those handed out.
\<close>

theorem mini_alloc_fresh:
  assumes "mini_ok cfg mini w chain r" "batch < num_batches mini" "mini_alloc cfg mini w batch = Some (addr, next, mini', w')"
  shows "addr \<notin> pages_out cfg (data_extents (w_mem w) chain) (take (num_batches mini) (mini_next_addr mini))
    \<and> (\<exists>chain'. mini_ok cfg mini' w' chain' r
      \<and> pages_out cfg (data_extents (w_mem w') chain') (take (num_batches mini') (mini_next_addr mini'))
        = insert addr (pages_out cfg (data_extents (w_mem w) chain) (take (num_batches mini) (mini_next_addr mini))))"
proof -
  have "mini_cfg_ok cfg" "batches_ok cfg (data_extents (w_mem w) chain) (take (num_batches mini) (mini_next_addr mini))"
    using assms(1) by (simp_all add: mini_ok_def store_ok_def)
  note s = pages_out_step [OF this]
  obtain chain' where "mini_ok cfg mini' w' chain' r" "num_batches mini' = num_batches mini"
    "hands_out cfg (data_extents (w_mem w) chain) (take (num_batches mini) (mini_next_addr mini)) batch addr (data_extents (w_mem w') chain')"
    "take (num_batches mini) (mini_next_addr mini') = (take (num_batches mini) (mini_next_addr mini))[batch := addr + io_page_size (io_cfg cfg)]"
    by (rule mini_alloc_ok [OF assms])
  then show ?thesis using s by metis
qed

section \<open>Freeing\<close>

text \<open>The counts with some extents set free.\<close>

definition refs_freed :: "(nat \<Rightarrow> nat) \<Rightarrow> nat set \<Rightarrow> nat \<Rightarrow> nat" where
  "refs_freed refs E = (\<lambda>e. if e \<in> E then 0 else refs e)"

lemma refs_freed_simps [simp]: "refs_freed refs {} = refs" "refs_freed (refs_freed refs A) B = refs_freed refs (A \<union> B)" "(refs_freed refs A)(e := 0) = refs_freed refs (insert e A)"
  "e \<notin> A \<Longrightarrow> refs_freed refs A e = refs e"
  by (auto simp: refs_freed_def)

lemma freed_single: "refs(e := 0) = refs_freed refs {e}"
  by (auto simp: refs_freed_def)

lemma release_extent_ok:
  assumes "al_inv cfg (w_al w)" "extent_refs cfg (w_al w) (extent_of cfg a) = 2" "type \<noteq> PAGE_TYPE_INVALID"
  obtains al where "release_extent cfg type a w = Some (w\<lparr>w_al := al\<rparr>)" "al_inv cfg al"
    "extent_refs cfg al = refs_freed (extent_refs cfg (w_al w)) {extent_of cfg a}"
proof -
  from rc.free_extent [OF assms] obtain s1 s2 where "rc_allocator_dec_ref cfg (w_al w) a type = Some (AL_NO_REFS, s1)"
    "rc_allocator_dec_ref cfg s1 a type = Some (AL_FREE, s2)" "al_inv cfg s2" "extent_refs cfg s2 = (extent_refs cfg (w_al w))(extent_of cfg a := 0)" by metis
  then show thesis using that [of s2] by (simp add: release_extent_def freed_single)
qed

lemma mini_dealloc_extent_ok:
  assumes "al_inv cfg (w_al w)" "extent_refs cfg (w_al w) (extent_of cfg a) = 2" "type \<noteq> PAGE_TYPE_INVALID" "io_extent_size (io_cfg cfg) dvd a"
  obtains w' where "mini_dealloc_extent cfg type a w = Some w'" "al_inv cfg (w_al w')"
    "extent_refs cfg (w_al w') = refs_freed (extent_refs cfg (w_al w)) {extent_of cfg a}" "\<And>x. extent_of cfg x \<noteq> extent_of cfg a \<Longrightarrow> w_mem w' x = w_mem w x"
proof -
  let ?e = "io_extent_size (io_cfg cfg)"
  have e: "0 < ?e" using assms(1) by (simp add: al_inv_def)
  from rc.free_extent [OF assms(1-3)] obtain s1 s2 where "rc_allocator_dec_ref cfg (w_al w) a type = Some (AL_NO_REFS, s1)"
    "rc_allocator_dec_ref cfg s1 a type = Some (AL_FREE, s2)" "al_inv cfg s2" "extent_refs cfg s2 = (extent_refs cfg (w_al w))(extent_of cfg a := 0)" by metis
  moreover have out: "\<not> (a \<le> x \<and> x < a + ?e)" if "extent_of cfg x \<noteq> extent_of cfg a" for x
  proof
    assume x: "a \<le> x \<and> x < a + ?e"
    obtain k where "a = ?e * k" using assms(4) by (rule dvdE)
    then have "?e * k \<le> x" "x < ?e * Suc k" using x by simp_all
    then have "x div ?e = k" by (rule div_nat_eqI)
    then show False using that \<open>a = ?e * k\<close> e by simp
  qed
  moreover define w' where "w' = (cache_extent_discard cfg (w\<lparr>w_al := s1\<rparr>) a)\<lparr>w_al := s2\<rparr>"
  moreover have "w_al w' = s2" by (simp add: w'_def)
  moreover have "w_mem w' x = w_mem w x" if "extent_of cfg x \<noteq> extent_of cfg a" for x
    using out [OF that] by (auto simp: w'_def cache_extent_discard_def)
  moreover have "w_al (cache_extent_discard cfg (w\<lparr>w_al := s1\<rparr>) a) = s1" by (simp add: cache_extent_discard_def)
  ultimately show thesis by (intro that [of w']) (simp_all add: mini_dealloc_extent_def freed_single)
qed

lemma mini_release_batches_ok:
  assumes "al_inv cfg (w_al w)" "type \<noteq> PAGE_TYPE_INVALID" "distinct (map (extent_of cfg) as)"
    "\<forall>a\<in>set as. extent_refs cfg (w_al w) (extent_of cfg a) = 2"
  obtains al where "mini_release_batches cfg type as w = Some (w\<lparr>w_al := al\<rparr>)" "al_inv cfg al"
    "extent_refs cfg al = refs_freed (extent_refs cfg (w_al w)) (extent_of cfg ` set as)"
  using assms
proof (induction as arbitrary: w thesis)
  case Nil
  then show ?case by (simp add: Nil.prems(1) [of "w_al w"])
next
  case (Cons a as)
  from release_extent_ok [OF Cons.prems(2) _ Cons.prems(3)] Cons.prems(5) obtain al where
    r: "release_extent cfg type a w = Some (w\<lparr>w_al := al\<rparr>)" "al_inv cfg al" "extent_refs cfg al = refs_freed (extent_refs cfg (w_al w)) {extent_of cfg a}" by (metis list.set_intros(1))
  have "\<forall>x\<in>set as. extent_refs cfg (w_al (w\<lparr>w_al := al\<rparr>)) (extent_of cfg x) = 2" using Cons.prems(4,5) r(3) by (auto simp: image_iff)
  from Cons.IH [OF _ _ Cons.prems(3) _ this] r(2) Cons.prems(4) obtain al' where
    "mini_release_batches cfg type as (w\<lparr>w_al := al\<rparr>) = Some (w\<lparr>w_al := al'\<rparr>)" "al_inv cfg al'"
    "extent_refs cfg al' = refs_freed (extent_refs cfg al) (extent_of cfg ` set as)" by auto
  then show ?case using r Cons.prems(1) [of al'] by simp
qed

lemma dealloc_entries_ok:
  assumes "al_inv cfg (w_al w)" "type \<noteq> PAGE_TYPE_INVALID" "distinct (map (extent_of cfg) as)"
    "\<forall>a\<in>set as. extent_refs cfg (w_al w) (extent_of cfg a) = 2 \<and> io_extent_size (io_cfg cfg) dvd a"
  obtains w' where "for_each_entry (\<lambda>addr (u, w). map_option (Pair u) (mini_dealloc_extent cfg type addr w)) as (u, w) = Some (u, w')"
    "al_inv cfg (w_al w')" "extent_refs cfg (w_al w') = refs_freed (extent_refs cfg (w_al w)) (extent_of cfg ` set as)"
    "\<And>x. extent_of cfg x \<notin> extent_of cfg ` set as \<Longrightarrow> w_mem w' x = w_mem w x"
  using assms
proof (induction as arbitrary: w thesis)
  case (Cons a as)
  from mini_dealloc_extent_ok [OF Cons.prems(2) _ Cons.prems(3)] Cons.prems(5) obtain w1 where
    r: "mini_dealloc_extent cfg type a w = Some w1" "al_inv cfg (w_al w1)" "extent_refs cfg (w_al w1) = refs_freed (extent_refs cfg (w_al w)) {extent_of cfg a}"
      "\<And>x. extent_of cfg x \<noteq> extent_of cfg a \<Longrightarrow> w_mem w1 x = w_mem w x" by (metis list.set_intros(1))
  have "\<forall>x\<in>set as. extent_refs cfg (w_al w1) (extent_of cfg x) = 2 \<and> io_extent_size (io_cfg cfg) dvd x"
    using Cons.prems(4,5) r(3) by (auto simp: image_iff)
  from Cons.IH [OF _ r(2) Cons.prems(3) _ this] Cons.prems(4) obtain w' where
    "for_each_entry (\<lambda>addr (u, w). map_option (Pair u) (mini_dealloc_extent cfg type addr w)) as (u, w1) = Some (u, w')"
    "al_inv cfg (w_al w')" "extent_refs cfg (w_al w') = refs_freed (extent_refs cfg (w_al w1)) (extent_of cfg ` set as)"
    "\<And>x. extent_of cfg x \<notin> extent_of cfg ` set as \<Longrightarrow> w_mem w' x = w_mem w1 x" by auto
  then show ?case using r Cons.prems(1) [of w'] by simp
qed simp

lemma for_each_chain_ok:
  assumes "meta_chain cfg (w_mem w) chain" "0 \<notin> set chain" "length chain < fuel" "al_inv cfg (w_al w)" "type \<noteq> PAGE_TYPE_INVALID"
    and "distinct (map (extent_of cfg) (data_extents (w_mem w) chain))"
    and "\<forall>a\<in>set (data_extents (w_mem w) chain). extent_refs cfg (w_al w) (extent_of cfg a) = 2 \<and> io_extent_size (io_cfg cfg) dvd a"
    and "extent_of cfg ` set chain \<inter> extent_of cfg ` set (data_extents (w_mem w) chain) = {}"
  obtains w' where "mini_for_each_meta_page fuel (mini_for_each_meta_page_func (\<lambda>addr (u, w). map_option (Pair u) (mini_dealloc_extent cfg type addr w)))
      (hd chain) ((), w) = Some ((), w')" "al_inv cfg (w_al w')"
    "extent_refs cfg (w_al w') = refs_freed (extent_refs cfg (w_al w)) (extent_of cfg ` set (data_extents (w_mem w) chain))"
    "\<And>x. extent_of cfg x \<notin> extent_of cfg ` set (data_extents (w_mem w) chain) \<Longrightarrow> w_mem w' x = w_mem w x"
  using assms
proof (induction chain arbitrary: w fuel thesis)
  case (Cons a as)
  let ?f = "\<lambda>addr (u :: unit, w). map_option (Pair u) (mini_dealloc_extent cfg type addr w)"
  let ?F = "mini_for_each_meta_page_func ?f"
  obtain h where h: "w_mem w a = Some h" "hdr_ok cfg h" "next_meta_addr h = (case as of [] \<Rightarrow> 0 | b # bs \<Rightarrow> b)"
    using Cons.prems(2) by (auto split: option.splits)
  have d: "data_extents (w_mem w) (a # as) = entry_buffer h @ data_extents (w_mem w) as" using h(1) by (simp add: data_extents_def page_entries_def)
  obtain f where f: "fuel = Suc f" using Cons.prems(4) by (cases fuel) auto
  obtain w1 where w1: "for_each_entry ?f (entry_buffer h) ((), w) = Some ((), w1)" "al_inv cfg (w_al w1)"
      "extent_refs cfg (w_al w1) = refs_freed (extent_refs cfg (w_al w)) (extent_of cfg ` set (entry_buffer h))"
      "\<And>x. extent_of cfg x \<notin> extent_of cfg ` set (entry_buffer h) \<Longrightarrow> w_mem w1 x = w_mem w x"
    using dealloc_entries_ok [OF Cons.prems(5,6), of "entry_buffer h" "()"] Cons.prems(7,8) unfolding d by auto
  have m: "w_mem w1 x = w_mem w x" if "x \<in> set (a # as)" for x
    by (rule w1(4)) (use Cons.prems(9) that in \<open>auto simp: d\<close>)
  have F: "?F h ((), w) = Some ((), w1)" using h(2) w1(1) by (simp add: mini_for_each_meta_page_func_def hdr_ok_def)
  have step: "mini_for_each_meta_page fuel ?F a ((), w) = mini_for_each_meta_page f ?F (next_meta_addr h) ((), w1)"
    using h(1) F m [of a] Cons.prems(3) by (simp add: f)
  show ?case
  proof (cases as)
    case Nil
    then obtain g where "f = Suc g" using Cons.prems(4) f by (cases f) auto
    then show ?thesis using Cons.prems(1) [of w1] step w1 h(3) Nil d by (simp add: data_extents_def)
  next
    case (Cons b bs)
    then have ne: "as \<noteq> []" and nx: "next_meta_addr h = hd as" using h(3) by simp_all
    have dd: "data_extents (w_mem w1) as = data_extents (w_mem w) as" by (rule data_extents_cong) (use m in simp)
    have mc: "meta_chain cfg (w_mem w1) as" using Cons.prems(2) ne meta_chain_cong [of as "w_mem w1" "w_mem w" cfg] m by simp
    have "\<forall>x\<in>set (data_extents (w_mem w) as). extent_refs cfg (w_al w1) (extent_of cfg x) = 2 \<and> io_extent_size (io_cfg cfg) dvd x"
    proof
      fix x
      assume x: "x \<in> set (data_extents (w_mem w) as)"
      have "extent_of cfg x \<notin> extent_of cfg ` set (entry_buffer h)" using x Cons.prems(7) unfolding d by auto
      then show "extent_refs cfg (w_al w1) (extent_of cfg x) = 2 \<and> io_extent_size (io_cfg cfg) dvd x"
        using x Cons.prems(8) w1(3) unfolding d by simp
    qed
    moreover have "distinct (map (extent_of cfg) (data_extents (w_mem w) as))" "extent_of cfg ` set as \<inter> extent_of cfg ` set (data_extents (w_mem w) as) = {}"
      "0 \<notin> set as" "length as < f" using Cons.prems(3,4,7,9) f unfolding d by auto
    ultimately obtain w' where "mini_for_each_meta_page f ?F (hd as) ((), w1) = Some ((), w')" "al_inv cfg (w_al w')"
      "extent_refs cfg (w_al w') = refs_freed (extent_refs cfg (w_al w1)) (extent_of cfg ` set (data_extents (w_mem w) as))"
      "\<And>x. extent_of cfg x \<notin> extent_of cfg ` set (data_extents (w_mem w) as) \<Longrightarrow> w_mem w' x = w_mem w1 x"
      using Cons.IH [OF _ mc _ _ w1(2) Cons.prems(6)] unfolding dd by metis
    then show ?thesis using Cons.prems(1) [of w'] step nx w1(3,4) unfolding d by (simp add: image_Un)
  qed
qed simp

lemma page_in_device:
  assumes "mini_cfg_ok cfg" "0 < extent_refs cfg al (extent_of cfg a)"
  shows "a < io_extent_size (io_cfg cfg) * extent_capacity cfg" "a < 2 ^ 64"
proof -
  have "extent_of cfg a < extent_capacity cfg" using assms(2) by (auto simp: extent_refs_def split: if_splits)
  then show d: "a < io_extent_size (io_cfg cfg) * extent_capacity cfg" using cfg_sizes(1) [OF assms(1)] by (simp add: div_less_iff_less_mult mult.commute)
  then show "a < 2 ^ 64" using assms(1) by (simp add: mini_cfg_ok_def)
qed

lemma chain_length:
  assumes "mini_cfg_ok cfg" "distinct chain" "0 \<notin> set chain" "\<forall>a\<in>set chain. io_page_size (io_cfg cfg) dvd a \<and> a < io_extent_size (io_cfg cfg) * extent_capacity cfg"
  shows "length chain \<le> al_page_capacity cfg"
proof -
  let ?p = "io_page_size (io_cfg cfg)"
  have "set chain \<subseteq> (\<lambda>i. ?p * i) ` {..<al_page_capacity cfg}"
  proof
    fix a
    assume "a \<in> set chain"
    then obtain i where i: "a = ?p * i" "a < ?p * al_page_capacity cfg" using assms(1,4) by (auto simp: mini_cfg_ok_def elim!: dvdE)
    then have "i < al_page_capacity cfg" by simp
    then show "a \<in> (\<lambda>i. ?p * i) ` {..<al_page_capacity cfg}" using i(1) by (intro image_eqI) simp_all
  qed
  then have "card (set chain) \<le> card ((\<lambda>i. ?p * i) ` {..<al_page_capacity cfg})" by (rule card_mono [rotated]) simp
  also have "\<dots> \<le> al_page_capacity cfg" using card_image_le [of "{..<al_page_capacity cfg}"] by fastforce
  finally show ?thesis using assms(2) by (simp add: distinct_card)
qed

lemma mini_deinit_loop_ok:
  assumes "mini_cfg_ok cfg" "type \<noteq> PAGE_TYPE_INVALID" "meta_chain cfg (w_mem w) chain" "distinct (meta_extents cfg chain)" "length chain \<le> fuel" "al_inv cfg (w_al w)"
    and "\<forall>a\<in>set chain. extent_refs cfg (w_al w) (extent_of cfg a) = 2 \<and> extent_of cfg a \<noteq> 0 \<and> a \<noteq> 0"
  obtains w' where "mini_deinit_loop fuel cfg type (hd chain) w = Some w'" "al_inv cfg (w_al w')"
    "extent_refs cfg (w_al w') = refs_freed (extent_refs cfg (w_al w)) (extent_of cfg ` set chain)"
  using assms(3-)
proof (induction chain arbitrary: w fuel thesis)
  case (Cons a as)
  let ?e = "io_extent_size (io_cfg cfg)"
  obtain h where h: "w_mem w a = Some h" "next_meta_addr h = (case as of [] \<Rightarrow> 0 | b # bs \<Rightarrow> b)"
    using Cons.prems(2) by (auto split: option.splits)
  obtain f where f: "fuel = Suc f" using Cons.prems(4) by (cases fuel) auto
  have base: "base_addr cfg x = extent_of cfg x * ?e" if "x \<in> set (a # as)" for x
    using base_addr_div [OF assms(1)] page_in_device(2) [OF assms(1), of "w_al w" x] Cons.prems(6) that by fastforce
  have e0: "0 < ?e" by (rule cfg_sizes(1) [OF assms(1)])
  have b0: "base_addr cfg 0 = 0" using base_addr_div [OF assms(1), of 0] by simp
  have ea: "extent_of cfg (base_addr cfg a) = extent_of cfg a" "?e dvd base_addr cfg a" using base [of a] e0 by simp_all
  obtain w1 where w1: "mini_dealloc_extent cfg type (base_addr cfg a) w = Some w1" "al_inv cfg (w_al w1)"
    "extent_refs cfg (w_al w1) = refs_freed (extent_refs cfg (w_al w)) {extent_of cfg a}" "\<And>x. extent_of cfg x \<noteq> extent_of cfg a \<Longrightarrow> w_mem w1 x = w_mem w x"
    using mini_dealloc_extent_ok [OF Cons.prems(5) _ assms(2) ea(2)] Cons.prems(6) ea(1) by (metis list.set_intros(1))
  show ?case
  proof (cases as)
    case Nil
    have "\<not> allocator_config_pages_share_extent cfg a 0"
      using b0 base [of a] Cons.prems(6) e0 unfolding allocator_config_pages_share_extent_def base_addr_def by simp
    then show ?thesis using Cons.prems(1) [of w1] h Nil w1 by (simp add: f)
  next
    case (Cons b bs)
    then have ne: "as \<noteq> []" and nx: "next_meta_addr h = b" and b: "b \<in> set as" "b = hd as" using h(2) by simp_all
    have mc: "meta_chain cfg (w_mem w) as" using Cons.prems(2) ne by simp
    have me: "meta_extents cfg (a # as) = (if extent_of cfg a = extent_of cfg b then meta_extents cfg as else extent_of cfg a # meta_extents cfg as)"
      using Cons by (simp add: meta_extents_def)
    have sh: "allocator_config_pages_share_extent cfg a b \<longleftrightarrow> extent_of cfg a = extent_of cfg b"
      using base [of a] base [of b] b(1) e0 unfolding allocator_config_pages_share_extent_def base_addr_def by simp
    have bz: "b \<noteq> 0" using Cons.prems(6) b(1) by simp
    show ?thesis
    proof (cases "extent_of cfg a = extent_of cfg b")
      case True
      have "distinct (meta_extents cfg as)" "length as \<le> f" using Cons.prems(3,4) me True f by simp_all
      from Cons.IH [OF _ mc this Cons.prems(5)] Cons.prems(6) obtain w' where
        "mini_deinit_loop f cfg type (hd as) w = Some w'" "al_inv cfg (w_al w')"
        "extent_refs cfg (w_al w') = refs_freed (extent_refs cfg (w_al w)) (extent_of cfg ` set as)" by auto
      moreover have "extent_of cfg ` set (a # as) = extent_of cfg ` set as" using b(1) True by auto
      ultimately show ?thesis using Cons.prems(1) [of w'] h nx sh True bz b(2) by (simp add: f)
    next
      case False
      have dis: "extent_of cfg a \<notin> extent_of cfg ` set as" "distinct (meta_extents cfg as)" "length as \<le> f"
        using Cons.prems(3,4) me False f by simp_all
      then have "meta_chain cfg (w_mem w1) as" using mc meta_chain_cong [of as "w_mem w1" "w_mem w" cfg] w1(4) by (metis imageI)
      moreover have "\<forall>x\<in>set as. extent_refs cfg (w_al w1) (extent_of cfg x) = 2 \<and> extent_of cfg x \<noteq> 0 \<and> x \<noteq> 0"
      proof
        fix x
        assume x: "x \<in> set as"
        then have "extent_of cfg x \<noteq> extent_of cfg a" using dis(1) by (metis imageI)
        then show "extent_refs cfg (w_al w1) (extent_of cfg x) = 2 \<and> extent_of cfg x \<noteq> 0 \<and> x \<noteq> 0"
          using x Cons.prems(6) w1(3) by simp
      qed
      ultimately obtain w' where
        "mini_deinit_loop f cfg type (hd as) w1 = Some w'" "al_inv cfg (w_al w')"
        "extent_refs cfg (w_al w') = refs_freed (extent_refs cfg (w_al w1)) (extent_of cfg ` set as)" using Cons.IH [OF _ _ dis(2,3) w1(2)] by metis
      then show ?thesis using Cons.prems(1) [of w'] h nx sh False bz b(2) w1(1,3) by (simp add: f)
    qed
  qed
qed simp

lemma unat_of_nat_less: "n < 2 ^ 32 \<Longrightarrow> unat (word_of_nat n :: refcount) = n"
  by (simp add: unsigned_of_nat take_bit_nat_eq_self)

section \<open>References to a mini allocator, and its life\<close>

lemma head_extent:
  assumes "store_ok cfg w chain N r"
  shows "chain \<noteq> []" "extent_of cfg (hd chain) \<noteq> 0" "extent_refs cfg (w_al w) (extent_of cfg (hd chain)) = 2 + r"
    "extent_of cfg (base_addr cfg (hd chain)) = extent_of cfg (hd chain)"
proof -
  show ne: "chain \<noteq> []" using assms by (auto simp: store_ok_def meta_chain_ok_def)
  then have "extent_of cfg (hd chain) \<in> set (owned cfg (w_mem w) chain N)" by (simp add: owned_def)
  then show 1: "extent_of cfg (hd chain) \<noteq> 0" "extent_refs cfg (w_al w) (extent_of cfg (hd chain)) = 2 + r"
    using assms unfolding store_ok_def owned_ok_def by metis+
  have "mini_cfg_ok cfg" using assms by (simp add: store_ok_def)
  then show "extent_of cfg (base_addr cfg (hd chain)) = extent_of cfg (hd chain)"
    using base_addr_div page_in_device(2) [of cfg "w_al w" "hd chain"] 1(2) cfg_sizes(1) by fastforce
qed

lemma store_ok_refs:
  assumes "store_ok cfg w chain N r" "al_inv cfg al"
    "extent_refs cfg al = (extent_refs cfg (w_al w))(extent_of cfg (hd chain) := 2 + r')"
  shows "store_ok cfg (w\<lparr>w_al := al\<rparr>) chain N r'"
  using assms head_extent(2) [OF assms(1)] by (auto simp: store_ok_def owned_ok_def)

theorem mini_inc_ref_spec:
  assumes "store_ok cfg w chain N r" "0 < r" "2 + r < 2 ^ 32 - 1"
  shows "\<exists>w'. mini_inc_ref cfg w (hd chain) = Some (word_of_nat (r + 1), w') \<and> store_ok cfg w' chain N (r + 1)"
proof -
  note h = head_extent [OF assms(1)]
  have al: "al_inv cfg (w_al w)" using assms(1) by (simp add: store_ok_def)
  obtain al where a: "rc_allocator_inc_ref cfg (w_al w) (base_addr cfg (hd chain)) = Some (word_of_nat (2 + r + 1), al)" "al_inv cfg al"
    "extent_refs cfg al = (extent_refs cfg (w_al w))(extent_of cfg (hd chain) := 2 + (r + 1))"
    using rc.inc_law [OF al, of "base_addr cfg (hd chain)"] h assms(3) by auto
  have "unat (word_of_nat (2 + r + 1) :: refcount) = 2 + r + 1" using assms(3) by (intro unat_of_nat_less) simp
  then have "word_of_nat (2 + r + 1) > MINI_NO_REFS" using assms(2) by (simp add: MINI_NO_REFS_def word_less_nat_alt)
  moreover have "word_of_nat (2 + r + 1) - MINI_NO_REFS = word_of_nat (r + 1)" by (simp add: MINI_NO_REFS_def)
  ultimately show ?thesis unfolding mini_inc_ref_def a(1) using store_ok_refs [OF assms(1) a(2,3)]
    by (simp only: bind.bind_lunit prod.case if_True option.inject prod.inject) blast
qed

lemma mini_dec_ref_more:
  assumes "store_ok cfg w chain N (Suc (Suc r))" "r + 4 < 2 ^ 32" "type \<noteq> PAGE_TYPE_INVALID"
  shows "\<exists>w'. mini_dec_ref cfg w (hd chain) type = Some (word_of_nat (Suc r), w') \<and> store_ok cfg w' chain N (Suc r)"
proof -
  note h = head_extent [OF assms(1)]
  have al: "al_inv cfg (w_al w)" using assms(1) by (simp add: store_ok_def)
  obtain al where a: "rc_allocator_dec_ref cfg (w_al w) (base_addr cfg (hd chain)) type = Some (word_of_nat (r + 3), al)" "al_inv cfg al"
    "extent_refs cfg al = (extent_refs cfg (w_al w))(extent_of cfg (hd chain) := 2 + Suc r)"
    using rc.dec_law [OF al, of "base_addr cfg (hd chain)" type] h assms(3) by (auto simp: eval_nat_numeral)
  have "unat (word_of_nat (r + 3) :: refcount) = r + 3" using assms(2) by (intro unat_of_nat_less) simp
  moreover have "unat MINI_NO_REFS = 2" by (simp add: MINI_NO_REFS_def)
  ultimately have "(word_of_nat (r + 3) :: refcount) \<noteq> MINI_NO_REFS" by (metis Suc_eq_plus1 add_diff_cancel_left' diff_add_inverse2 numeral_3_eq_3 numeral_2_eq_2 n_not_Suc_n add_Suc_right not_add_less2 less_add_same_cancel2 zero_less_Suc)
  moreover have "(word_of_nat (r + 3) :: refcount) - MINI_NO_REFS = word_of_nat (Suc r)" by (simp add: MINI_NO_REFS_def)
  ultimately show ?thesis using a(1) store_ok_refs [OF assms(1) a(2,3)] by (simp add: mini_dec_ref_def)
qed

lemma mini_dec_ref_last:
  assumes "store_ok cfg w chain N 1" "type \<noteq> PAGE_TYPE_INVALID"
  shows "\<exists>w'. mini_dec_ref cfg w (hd chain) type = Some (0, w') \<and> al_inv cfg (w_al w')
    \<and> extent_refs cfg (w_al w') = refs_freed (extent_refs cfg (w_al w)) (set (owned cfg (w_mem w) chain []))"
proof -
  let ?D = "data_extents (w_mem w) chain"
  note h = head_extent [OF assms(1)]
  have cfg: "mini_cfg_ok cfg" and al: "al_inv cfg (w_al w)" using assms(1) by (simp_all add: store_ok_def)
  obtain al where a: "rc_allocator_dec_ref cfg (w_al w) (base_addr cfg (hd chain)) type = Some (MINI_NO_REFS, al)" "al_inv cfg al"
    "extent_refs cfg al = (extent_refs cfg (w_al w))(extent_of cfg (hd chain) := 2 + 0)"
    using rc.dec_law [OF al, of "base_addr cfg (hd chain)" type] h assms(2) by (auto simp: MINI_NO_REFS_def)
  define w0 where "w0 = w\<lparr>w_al := al\<rparr>"
  have s0: "store_ok cfg w0 chain N 0" unfolding w0_def by (rule store_ok_refs [OF assms(1) a(2,3)])
  have m0: "w_mem w0 = w_mem w" "w_al w0 = al" by (simp_all add: w0_def)
  have ch: "meta_chain_ok cfg (w_mem w) chain" and o: "owned_ok (extent_refs cfg al) (owned cfg (w_mem w) chain N) (extent_of cfg (hd chain)) 0"
    and dv: "\<forall>a\<in>set ?D. io_extent_size (io_cfg cfg) dvd a" using s0 by (simp_all add: store_ok_def m0)
  have r2: "extent_refs cfg al (extent_of cfg a) = 2 \<and> extent_of cfg a \<noteq> 0" if "a \<in> set chain \<or> a \<in> set ?D" for a
    using o that unfolding owned_ok_def owned_def by auto
  have dis: "distinct (meta_extents cfg chain)" "distinct (map (extent_of cfg) ?D)" "extent_of cfg ` set chain \<inter> extent_of cfg ` set ?D = {}"
    using o unfolding owned_ok_def owned_def by auto
  have nz: "0 \<notin> set chain" using r2 by force
  have "length chain \<le> al_page_capacity cfg"
  proof (rule chain_length [OF cfg])
    show "\<forall>a\<in>set chain. io_page_size (io_cfg cfg) dvd a \<and> a < io_extent_size (io_cfg cfg) * extent_capacity cfg"
      using ch r2 page_in_device(1) [OF cfg, of al] by (fastforce simp: meta_chain_ok_def)
  qed (use ch nz in \<open>simp_all add: meta_chain_ok_def\<close>)
  then have len: "length chain < al_page_capacity cfg + 1" "length chain \<le> al_page_capacity cfg" by simp_all
  have mc: "meta_chain cfg (w_mem w0) chain" using ch by (simp add: meta_chain_ok_def m0)
  obtain w1 where w1: "mini_for_each cfg (\<lambda>addr (u, w). map_option (Pair u) (mini_dealloc_extent cfg type addr w)) (hd chain) ((), w0) = Some ((), w1)"
    "al_inv cfg (w_al w1)" "extent_refs cfg (w_al w1) = refs_freed (extent_refs cfg al) (extent_of cfg ` set ?D)"
    "\<And>x. extent_of cfg x \<notin> extent_of cfg ` set ?D \<Longrightarrow> w_mem w1 x = w_mem w x"
    using for_each_chain_ok [OF mc nz len(1) _ assms(2)] a(2) dis(2,3) r2 dv unfolding m0 mini_for_each_def by blast
  have cm: "extent_of cfg x \<notin> extent_of cfg ` set ?D" if "x \<in> set chain" for x using dis(3) that by blast
  have mc1: "meta_chain cfg (w_mem w1) chain" using mc meta_chain_cong [of chain "w_mem w1" "w_mem w" cfg] w1(4) cm by (simp add: m0)
  have "\<forall>a\<in>set chain. extent_refs cfg (w_al w1) (extent_of cfg a) = 2 \<and> extent_of cfg a \<noteq> 0 \<and> a \<noteq> 0"
    using r2 cm w1(3) nz by (metis refs_freed_simps(4))
  then obtain w2 where w2: "mini_deinit cfg type (hd chain) w1 = Some w2" "al_inv cfg (w_al w2)"
    "extent_refs cfg (w_al w2) = refs_freed (extent_refs cfg (w_al w1)) (extent_of cfg ` set chain)"
    using mini_deinit_loop_ok [OF cfg assms(2) mc1 dis(1) len(2) w1(2)] unfolding mini_deinit_def by blast
  have "mini_dec_ref cfg w (hd chain) type = Some (0, w2)" using a(1) w1(1) w2(1) by (simp add: mini_dec_ref_def w0_def)
  moreover have "extent_refs cfg (w_al w2) = refs_freed (extent_refs cfg (w_al w)) (set (owned cfg (w_mem w) chain []))"
  proof -
    have "extent_refs cfg (w_al w2) = refs_freed (extent_refs cfg al) (extent_of cfg ` set ?D \<union> extent_of cfg ` set chain)" using w1(3) w2(3) by simp
    also have "\<dots> = refs_freed (extent_refs cfg (w_al w)) (extent_of cfg ` set ?D \<union> extent_of cfg ` set chain)"
      using h(1) unfolding a(3) by (auto simp: refs_freed_def fun_eq_iff)
    finally show ?thesis by (simp add: owned_def Un_commute)
  qed
  ultimately show ?thesis using w2(2) by blast
qed

lemma init_batches_ok:
  assumes "store_ok cfg w chain (take a (mini_next_extent mini)) r" "a \<le> b" "b \<le> length (mini_next_extent mini)"
    "mini_init_batches cfg [a..<b] mini w = Some (mini', w')"
  shows "store_ok cfg w' chain (take b (mini_next_extent mini')) r \<and> w_mem w' = w_mem w \<and> length (mini_next_extent mini') = length (mini_next_extent mini)
    \<and> mini' = mini\<lparr>mini_next_extent := mini_next_extent mini', num_extents := num_extents mini'\<rparr>
    \<and> acct (extent_refs cfg (w_al w)) (owned cfg (w_mem w) chain (take a (mini_next_extent mini)))
         (extent_refs cfg (w_al w')) (owned cfg (w_mem w') chain (take b (mini_next_extent mini')))"
  using assms
proof (induction "b - a" arbitrary: a mini w)
  case 0
  then show ?case by (simp add: acct_same)
next
  case (Suc k)
  let ?N = "take a (mini_next_extent mini)"
  have ab: "a < b" using Suc.hyps(2) by linarith
  obtain addr mini1 w1 where g: "must_get_new_extent cfg mini w = Some (addr, mini1, w1)"
    and rest: "mini_init_batches cfg [Suc a..<b] (mini1\<lparr>mini_next_extent := (mini_next_extent mini1)[a := addr]\<rparr>) w1 = Some (mini', w')"
    using Suc.prems(4) ab by (auto simp: upt_conv_Cons bind_eq_Some_conv)
  have al: "al_inv cfg (w_al w)" using Suc.prems(1) by (simp add: store_ok_def)
  note q = must_get_new_extent_ok [OF al g]
  define mini2 where "mini2 = mini1\<lparr>mini_next_extent := (mini_next_extent mini1)[a := addr]\<rparr>"
  have N: "take (Suc a) (mini_next_extent mini2) = ?N @ [addr]"
    using ab Suc.prems(3) by (simp add: mini2_def q(1) take_Suc_conv_app_nth)
  note add = store_ok_add [OF Suc.prems(1) q(2-6)]
  have st: "store_ok cfg w1 chain (take (Suc a) (mini_next_extent mini2)) r" unfolding N by (rule store_ok_mset [OF add [THEN conjunct1]]) simp
  have ac: "acct (extent_refs cfg (w_al w)) (owned cfg (w_mem w) chain ?N) (extent_refs cfg (w_al w1)) (owned cfg (w_mem w1) chain (take (Suc a) (mini_next_extent mini2)))"
    unfolding N by (rule acct_trans [OF add [THEN conjunct2] acct_same]) (simp add: owned_def)
  have "k = b - Suc a" "Suc a \<le> b" "b \<le> length (mini_next_extent mini2)" using Suc.hyps(2) Suc.prems(3) by (simp_all add: mini2_def q(1))
  note ih = Suc.hyps(1) [OF this(1) st this(2,3) rest [folded mini2_def]]
  then have "mini' = mini2\<lparr>mini_next_extent := mini_next_extent mini', num_extents := num_extents mini'\<rparr>" by blast
  also have "\<dots> = mini\<lparr>mini_next_extent := mini_next_extent mini', num_extents := num_extents mini'\<rparr>" by (simp add: mini2_def q(1))
  finally have e: "mini' = mini\<lparr>mini_next_extent := mini_next_extent mini', num_extents := num_extents mini'\<rparr>" .
  have l: "length (mini_next_extent mini2) = length (mini_next_extent mini)" by (simp add: mini2_def q(1))
  from ih [THEN conjunct2, THEN conjunct2, THEN conjunct2, THEN conjunct2] have A: "acct (extent_refs cfg (w_al w)) (owned cfg (w_mem w) chain ?N)
      (extent_refs cfg (w_al w')) (owned cfg (w_mem w') chain (take b (mini_next_extent mini')))" by (rule acct_trans [OF ac])
  show ?case by (intro conjI A e) (use ih q(2) l in presburger)+
qed

lemma mini_init_ok:
  assumes "mini_cfg_ok cfg" "al_inv cfg (w_al w)" "0 < extent_refs cfg (w_al w) 0" "io_page_size (io_cfg cfg) dvd head" "extent_of cfg head \<noteq> 0"
    "extent_refs cfg (w_al w) (extent_of cfg head) = 2" "type \<noteq> PAGE_TYPE_INVALID" "mini_init cfg w head 0 n type = Some (a0, mini, w')"
  shows "mini_ok cfg mini w' [head] 1 \<and> data_extents (w_mem w') [head] = [] \<and> num_batches mini = n \<and> mini_type mini = type \<and> meta_head mini = head
    \<and> a0 = mini_next_extent mini ! 0
    \<and> acct (extent_refs cfg (w_al w)) [extent_of cfg head] (extent_refs cfg (w_al w')) (owned cfg (w_mem w') [head] (take n (mini_next_extent mini)))"
proof -
  have b: "base_addr cfg head = extent_of cfg head * io_extent_size (io_cfg cfg)"
    using base_addr_div [OF assms(1)] page_in_device(2) [OF assms(1), of "w_al w" head] assms(6) by simp
  then have eb: "extent_of cfg (base_addr cfg head) = extent_of cfg head" using cfg_sizes(1) [OF assms(1)] by simp
  obtain al where a: "rc_allocator_inc_ref cfg (w_al w) (base_addr cfg head) = Some (MINI_NO_REFS + 1, al)" "al_inv cfg al"
    "extent_refs cfg al = (extent_refs cfg (w_al w))(extent_of cfg head := 3)"
    using rc.inc_law [OF assms(2), of "base_addr cfg head"] eb assms(6) by (auto simp: MINI_NO_REFS_def)
  define w1 where "w1 = \<lparr>w_al = al, w_mem = (w_mem w)(head \<mapsto> mini_init_meta_page)\<rparr>"
  define mini1 where "mini1 = \<lparr>mini_pinned = (type = PAGE_TYPE_MEMTABLE), meta_head = head, meta_tail = head, mini_type = type, num_extents = 1,
                    num_batches = n, mini_next_addr = replicate MINI_MAX_BATCHES 0, mini_next_extent = replicate MINI_MAX_BATCHES 0\<rparr>"
  have n: "n \<le> MINI_MAX_BATCHES" and i: "mini_init_batches cfg [0..<n] mini1 w1 = Some (mini, w')" and a0: "a0 = mini_next_extent mini ! 0"
    using assms(8) a(1) by (auto simp: mini_init_def Let_def w1_def mini1_def bind_eq_Some_conv split: if_splits)
  have d: "data_extents (w_mem w1) [head] = []" by (simp add: w1_def data_extents_def page_entries_def mini_init_meta_page_def)
  have "meta_chain_ok cfg (w_mem w1) [head]" using assms(4) cfg_sizes(4) [OF assms(1)]
    by (simp add: meta_chain_ok_def w1_def hdr_ok_def mini_init_meta_page_def offsetof_entry_buffer_def)
  moreover have "owned cfg (w_mem w1) [head] [] = [extent_of cfg head]" by (simp add: owned_def meta_extents_def d)
  ultimately have st: "store_ok cfg w1 [head] (take 0 (mini_next_extent mini1)) 1"
    using assms(1,3,5) a(2,3) d by (simp add: store_ok_def owned_ok_def) (simp add: w1_def)
  have "n \<le> length (mini_next_extent mini1)" using n by (simp add: mini1_def)
  note r' = init_batches_ok [OF st le0 this i, unfolded take_0]
  have f: "mini_type mini = type" "meta_head mini = head" "meta_tail mini = head" "num_batches mini = n" "mini_next_addr mini = replicate MINI_MAX_BATCHES 0"
    using r' by (metis mini1_def mini_allocator.simps)+
  have "batches_ok cfg [] (take n (replicate MINI_MAX_BATCHES 0))" by (auto simp: batches_ok_def)
  then have "mini_ok cfg mini w' [head] 1" using r' f n assms(7) d by (simp add: mini_ok_def) (simp add: mini1_def)
  moreover have "acct (extent_refs cfg (w_al w)) [extent_of cfg head] (extent_refs cfg (w_al w1)) (owned cfg (w_mem w1) [head] [])"
    using a(3) by (simp add: acct_def owned_def meta_extents_def d) (simp add: w1_def)
  ultimately show ?thesis using r' f a0 d acct_trans by auto
qed

text \<open>Allocations from any batches, one after the other.\<close>

fun mini_alloc_seq ::
  "allocator_config \<Rightarrow> mini_allocator \<Rightarrow> 'c mini_world \<Rightarrow> nat list \<Rightarrow> (nat list \<times> mini_allocator \<times> 'c mini_world) option" where
  "mini_alloc_seq cfg mini w [] = Some ([], mini, w)"
| "mini_alloc_seq cfg mini w (b # bs) = do {
     (addr, next, mini1, w1) \<leftarrow> mini_alloc cfg mini w b;
     (addrs, mini2, w2) \<leftarrow> mini_alloc_seq cfg mini1 w1 bs;
     Some (addr # addrs, mini2, w2)
   }"

abbreviation mini_owned :: "allocator_config \<Rightarrow> mini_allocator \<Rightarrow> 'c mini_world \<Rightarrow> nat list \<Rightarrow> nat list" where
  "mini_owned cfg mini w chain \<equiv> owned cfg (w_mem w) chain (take (num_batches mini) (mini_next_extent mini))"

lemma mini_alloc_seq_ok:
  assumes "mini_ok cfg mini w chain r" "\<forall>b\<in>set bs. b < num_batches mini" "mini_alloc_seq cfg mini w bs = Some (addrs, mini', w')"
  shows "distinct addrs \<and> set addrs \<inter> pages_out cfg (data_extents (w_mem w) chain) (take (num_batches mini) (mini_next_addr mini)) = {}
    \<and> (\<exists>chain'. mini_ok cfg mini' w' chain' r \<and> meta_head mini' = meta_head mini \<and> mini_type mini' = mini_type mini
        \<and> acct (extent_refs cfg (w_al w)) (mini_owned cfg mini w chain) (extent_refs cfg (w_al w')) (mini_owned cfg mini' w' chain'))"
  using assms
proof (induction bs arbitrary: mini w chain addrs)
  case Nil
  then show ?case using acct_same by auto
next
  case (Cons b bs)
  obtain addr nx mini1 w1 addrs1 where a: "mini_alloc cfg mini w b = Some (addr, nx, mini1, w1)"
    and s: "mini_alloc_seq cfg mini1 w1 bs = Some (addrs1, mini', w')" "addrs = addr # addrs1"
    using Cons.prems(3) by (auto simp: bind_eq_Some_conv)
  let ?P = "\<lambda>mini w chain. pages_out cfg (data_extents (w_mem w) chain) (take (num_batches mini) (mini_next_addr mini))"
  have b: "b < num_batches mini" using Cons.prems(2) by simp
  have ok: "mini_cfg_ok cfg" "batches_ok cfg (data_extents (w_mem w) chain) (take (num_batches mini) (mini_next_addr mini))"
    using Cons.prems(1) by (simp_all add: mini_ok_def store_ok_def)
  obtain chain1 where c: "mini_ok cfg mini1 w1 chain1 r" "meta_head mini1 = meta_head mini" "num_batches mini1 = num_batches mini" "mini_type mini1 = mini_type mini"
    "hands_out cfg (data_extents (w_mem w) chain) (take (num_batches mini) (mini_next_addr mini)) b addr (data_extents (w_mem w1) chain1)"
    "take (num_batches mini) (mini_next_addr mini1) = (take (num_batches mini) (mini_next_addr mini))[b := addr + io_page_size (io_cfg cfg)]"
    "acct (extent_refs cfg (w_al w)) (mini_owned cfg mini w chain) (extent_refs cfg (w_al w1)) (mini_owned cfg mini1 w1 chain1)"
    by (rule mini_alloc_ok [OF Cons.prems(1) b a])
  note p = pages_out_step [OF ok c(5)]
  have P1: "?P mini1 w1 chain1 = insert addr (?P mini w chain)" using p(2) c(3,6) by simp
  from Cons.IH [OF c(1) _ s(1)] Cons.prems(2) c(3) obtain chain' where
    ih: "distinct addrs1" "set addrs1 \<inter> ?P mini1 w1 chain1 = {}" "mini_ok cfg mini' w' chain' r" "meta_head mini' = meta_head mini1" "mini_type mini' = mini_type mini1"
      "acct (extent_refs cfg (w_al w1)) (mini_owned cfg mini1 w1 chain1) (extent_refs cfg (w_al w')) (mini_owned cfg mini' w' chain')" by auto
  have "distinct addrs" "set addrs \<inter> ?P mini w chain = {}" using ih(1,2) p(1) unfolding P1 s(2) by auto
  then show ?case using ih(3-5) c(2,4) acct_trans [OF c(7) ih(6)] by metis
qed

lemma mini_release_ok:
  assumes "mini_ok cfg mini w chain r"
  obtains w' where "mini_release cfg mini w = Some w'" "store_ok cfg w' chain [] r" "w_mem w' = w_mem w"
    "extent_refs cfg (w_al w') = refs_freed (extent_refs cfg (w_al w)) (extent_of cfg ` set (take (num_batches mini) (mini_next_extent mini)))"
proof -
  let ?N = "take (num_batches mini) (mini_next_extent mini)"
  have st: "store_ok cfg w chain ?N r" and ty: "mini_type mini \<noteq> PAGE_TYPE_INVALID" using assms by (simp_all add: mini_ok_def)
  have al: "al_inv cfg (w_al w)" and o: "owned_ok (extent_refs cfg (w_al w)) (owned cfg (w_mem w) chain ?N) (extent_of cfg (hd chain)) r"
    using st by (simp_all add: store_ok_def)
  have h: "extent_of cfg (hd chain) \<in> extent_of cfg ` set chain" using head_extent(1) [OF st] by simp
  have dz: "distinct (owned cfg (w_mem w) chain ?N)" "0 \<notin> set (owned cfg (w_mem w) chain ?N)" using o by (simp_all add: owned_ok_def)
  have d: "distinct (map (extent_of cfg) ?N)" "0 \<notin> extent_of cfg ` set ?N"
    "extent_of cfg ` set ?N \<inter> (extent_of cfg ` set chain \<union> extent_of cfg ` set (data_extents (w_mem w) chain)) = {}"
    using dz by (auto simp: owned_def)
  have "\<forall>a\<in>set ?N. extent_refs cfg (w_al w) (extent_of cfg a) = 2"
  proof
    fix a
    assume a: "a \<in> set ?N"
    then have "extent_of cfg a \<in> extent_of cfg ` set ?N" by (rule imageI)
    then have "extent_of cfg a \<notin> extent_of cfg ` set chain" using d(3) unfolding disjoint_iff by (metis UnI1)
    then have "extent_of cfg a \<noteq> extent_of cfg (hd chain)" using h by metis
    moreover have "extent_of cfg a \<in> set (owned cfg (w_mem w) chain ?N)" using a by (simp add: owned_def)
    ultimately show "extent_refs cfg (w_al w) (extent_of cfg a) = 2" using o unfolding owned_ok_def by simp
  qed
  then obtain al' where
    r: "mini_release cfg mini w = Some (w\<lparr>w_al := al'\<rparr>)" "al_inv cfg al'" "extent_refs cfg al' = refs_freed (extent_refs cfg (w_al w)) (extent_of cfg ` set ?N)"
    unfolding mini_release_def by (rule mini_release_batches_ok [OF al ty d(1)])
  have sub: "set (owned cfg (w_mem w) chain []) \<subseteq> set (owned cfg (w_mem w) chain ?N)" "distinct (owned cfg (w_mem w) chain [])"
    using dz(1) unfolding owned_def by (simp_all add: image_Un Un_assoc [symmetric] Int_Un_distrib)
  have "set (owned cfg (w_mem w) chain []) \<inter> extent_of cfg ` set ?N = {}"
    using d(3) unfolding owned_def by (simp add: Int_commute)
  note sub = sub this
  have "owned_ok (extent_refs cfg al') (owned cfg (w_mem w) chain []) (extent_of cfg (hd chain)) r"
  proof -
    have "extent_refs cfg al' e = extent_refs cfg (w_al w) e" if "e \<in> set (owned cfg (w_mem w) chain [])" for e 
    proof -
      have "e \<notin> extent_of cfg ` set ?N" using sub(3) that by blast
      then show ?thesis unfolding r(3) by (rule refs_freed_simps(4))
    qed
    moreover have "extent_refs cfg al' 0 = extent_refs cfg (w_al w) 0" using r(3) d(2) by simp
    moreover have "\<forall>e\<in>set (owned cfg (w_mem w) chain []). extent_refs cfg (w_al w) e = 2 + (if e = extent_of cfg (hd chain) then r else 0)"
      "0 < extent_refs cfg (w_al w) 0" "0 \<notin> set (owned cfg (w_mem w) chain [])"
      using o sub(1) unfolding owned_ok_def by blast+
    ultimately show ?thesis using sub(2) unfolding owned_ok_def by simp
  qed
  then have "store_ok cfg (w\<lparr>w_al := al'\<rparr>) chain [] r" using st r(2) by (simp add: store_ok_def)
  then show thesis using that [OF r(1)] r(3) by simp
qed


end
