(* ===== verification/Merge.thy ===== *)
theory Merge
  imports Data "HOL-Library.Monad_Syntax"
begin

text \<open>
  The merge iterator of \<open>merge.c\<close>: it merges the tuples of several iterators into one sequence in key order. The iterators are behind
  the function table of \<open>iterator.h\<close>, a record of functions on an arbitrary type of iterators. The pointers of
  \<open>ordered_iterators\<close> are a permutation of the stored iterators, so the list of the iterators in the order of the pointers is the
  state. \<open>data_in_buffer\<close> says that the current message is the one in the merge buffer, which the source tells by comparing pointers.
\<close>

section \<open>Definitions\<close>

subsection \<open>Iterators\<close>

record 'i iterator_ops =
  it_curr :: "'i \<Rightarrow> key \<times> message"
  it_can_prev :: "'i \<Rightarrow> bool"
  it_can_next :: "'i \<Rightarrow> bool"
  it_next :: "'i \<Rightarrow> platform_status \<times> 'i"
  it_prev :: "'i \<Rightarrow> platform_status \<times> 'i"

definition iterator_can_curr :: "'i iterator_ops \<Rightarrow> 'i \<Rightarrow> bool" where
  "iterator_can_curr ops i \<longleftrightarrow> it_can_next ops i \<and> it_can_prev ops i"

subsection \<open>State\<close>

definition MAX_MERGE_ARITY :: nat where "MAX_MERGE_ARITY = 1024"

datatype merge_behavior = MERGE_RAW | MERGE_INTERMEDIATE | MERGE_FULL

record 'i ordered_iterator =
  oi_itor :: 'i
  oi_seq :: int
  oi_key :: key
  oi_data :: message
  next_key_equal :: bool

record 'i merge_iterator =
  num_trees :: nat
  merge_messages :: bool
  finalize_updates :: bool
  emit_deletes :: bool
  mi_can_prev :: bool
  mi_can_next :: bool
  num_remaining :: nat
  mi_curr_key :: key
  mi_curr_data :: message
  data_in_buffer :: bool
  mi_forwards :: bool
  ordered_iterators :: "'i ordered_iterator list"
  discarded_deletes :: nat
  merge_buffer :: merge_accumulator

subsection \<open>Order of the iterators\<close>

definition bsearch_comp :: "data_config \<Rightarrow> bool \<Rightarrow> 'i ordered_iterator \<Rightarrow> 'i ordered_iterator \<Rightarrow> int \<times> bool" where
  "bsearch_comp cfg forwards one two =
     (let cmp0 = data_key_compare cfg (oi_key one) (oi_key two);
          cmp = (if forwards then cmp0 else - cmp0)
      in (if cmp = 0 then oi_seq two - oi_seq one else cmp, cmp = 0))"

definition merge_comp :: "data_config \<Rightarrow> bool \<Rightarrow> 'i ordered_iterator \<Rightarrow> 'i ordered_iterator \<Rightarrow> int" where
  "merge_comp cfg forwards one two = fst (bsearch_comp cfg forwards one two)"

fun bsearch_insert_loop ::
  "data_config \<Rightarrow> bool \<Rightarrow> 'i ordered_iterator \<Rightarrow> 'i ordered_iterator list \<Rightarrow> nat \<Rightarrow> nat \<Rightarrow> int \<times> bool \<times> bool \<Rightarrow> int \<times> bool \<times> bool" where
  "bsearch_insert_loop cfg forwards it arr base lim (r, prev_equal, next_equal) =
     (if lim = 0 then (r, prev_equal, next_equal)
      else
        let p = base + lim div 2;
            (cmp, keys_equal) = bsearch_comp cfg forwards it (arr ! p);
            next_equal' = (next_equal \<or> cmp < 0 \<and> keys_equal);
            r' = int p - (if cmp < 0 then 1 else 0)
        in if cmp > 0 then bsearch_insert_loop cfg forwards it arr (p + 1) ((lim - 1) div 2) (r', prev_equal \<or> keys_equal, next_equal')
           else bsearch_insert_loop cfg forwards it arr base (lim div 2) (r', prev_equal, next_equal'))"

declare bsearch_insert_loop.simps [simp del]

text \<open>The index of the element before the place of the key, and whether the neighbours have the same key.\<close>

definition bsearch_insert ::
  "data_config \<Rightarrow> bool \<Rightarrow> 'i ordered_iterator \<Rightarrow> 'i ordered_iterator list \<Rightarrow> int \<times> bool \<times> bool" where
  "bsearch_insert cfg forwards it arr = bsearch_insert_loop cfg forwards it arr 0 (length arr) (0, False, False)"

definition set_curr_ordered_iterator :: "'i iterator_ops \<Rightarrow> 'i ordered_iterator \<Rightarrow> 'i ordered_iterator" where
  "set_curr_ordered_iterator ops it = (let (k, m) = it_curr ops (oi_itor it) in it\<lparr>oi_key := k, oi_data := m\<rparr>)"

subsection \<open>Advancing\<close>

definition advance_and_resort_min_ritor ::
  "'i iterator_ops \<Rightarrow> data_config \<Rightarrow> 'i merge_iterator \<Rightarrow> platform_status \<times> 'i merge_iterator" where
  "advance_and_resort_min_ritor ops cfg mi =
     (let os = ordered_iterators mi;
          n = num_remaining mi;
          first = (hd os)\<lparr>next_key_equal := False, oi_key := NULL_KEY, oi_data := NULL_MESSAGE\<rparr>;
          (rc, i) = (if mi_forwards mi then it_next ops (oi_itor first) else it_prev ops (oi_itor first));
          first = first\<lparr>oi_itor := i\<rparr>
      in if \<not> SUCCESS rc then (rc, mi\<lparr>ordered_iterators := first # tl os\<rparr>)
         else if \<not> iterator_can_curr ops i
         then (STATUS_OK, mi\<lparr>num_remaining := n - 1, ordered_iterators := take (n - 1) (tl os) @ [first] @ drop n os\<rparr>)
         else
           let first = set_curr_ordered_iterator ops first
           in if n = 1 then (STATUS_OK, mi\<lparr>ordered_iterators := first # tl os\<rparr>)
              else
                let (r, prev_equal, next_equal) = bsearch_insert cfg (mi_forwards mi) first (take (n - 1) (tl os));
                    index = nat (1 + r);
                    os1 = take index (tl os) @ [first] @ drop index (tl os);
                    os2 = (if index = 0 then os1 else os1[index - 1 := (os1 ! (index - 1))\<lparr>next_key_equal := prev_equal\<rparr>])
                in (STATUS_OK, mi\<lparr>ordered_iterators := os2[index := (os2 ! index)\<lparr>next_key_equal := next_equal\<rparr>]\<rparr>))"

text \<open>
  The loops below consume a tuple of some iterator in every round; \<open>fuel\<close> bounds the rounds, \<open>None\<close> is a failed assertion of a
  callback or the fuel running out.
\<close>

fun resolve_loop ::
  "nat \<Rightarrow> malloc_fn \<Rightarrow> 'i iterator_ops \<Rightarrow> data_config \<Rightarrow> 'i merge_iterator \<Rightarrow> (platform_status \<times> 'i merge_iterator) option" where
  "resolve_loop 0 malloc ops cfg mi = None"
| "resolve_loop (Suc fuel) malloc ops cfg mi = do {
     let second = ordered_iterators mi ! 1;
     (r, ma) \<leftarrow> data_merge_tuples malloc cfg (mi_curr_key mi) (oi_data second) (merge_buffer mi);
     let mi1 = mi\<lparr>merge_buffer := ma\<rparr>;
     if r \<noteq> 0 then Some (STATUS_NO_MEMORY, mi1)
     else do {
       let (rc, mi2) = advance_and_resort_min_ritor ops cfg (mi1\<lparr>mi_curr_key := oi_key second\<rparr>);
       if \<not> SUCCESS rc then Some (rc, mi2)
       else if next_key_equal (hd (ordered_iterators mi2)) then resolve_loop fuel malloc ops cfg mi2
       else Some (STATUS_OK, mi2\<lparr>mi_curr_data := merge_accumulator_to_message (merge_buffer mi2), data_in_buffer := True\<rparr>)
     }
   }"

definition merge_resolve_equal_keys ::
  "nat \<Rightarrow> malloc_fn \<Rightarrow> 'i iterator_ops \<Rightarrow> data_config \<Rightarrow> 'i merge_iterator \<Rightarrow> (platform_status \<times> 'i merge_iterator) option" where
  "merge_resolve_equal_keys fuel malloc ops cfg mi = do {
     (success, ma) \<leftarrow> merge_accumulator_copy_message malloc (merge_buffer mi) (mi_curr_data mi);
     let mi1 = mi\<lparr>merge_buffer := ma\<rparr>;
     if \<not> success then Some (STATUS_NO_MEMORY, mi1) else resolve_loop fuel malloc ops cfg mi1
   }"

definition merge_finalize_updates_and_discard_deletes ::
  "malloc_fn \<Rightarrow> data_config \<Rightarrow> 'i merge_iterator \<Rightarrow> (platform_status \<times> bool \<times> 'i merge_iterator) option" where
  "merge_finalize_updates_and_discard_deletes malloc cfg mi = do {
     (rc, mi3) \<leftarrow>
       (if message_class (mi_curr_data mi) \<noteq> MESSAGE_TYPE_INSERT \<and> finalize_updates mi then do {
          (success, ma) \<leftarrow> (if data_in_buffer mi then Some (True, merge_buffer mi)
                             else merge_accumulator_copy_message malloc (merge_buffer mi) (mi_curr_data mi));
          let mi1 = mi\<lparr>merge_buffer := ma\<rparr>;
          if \<not> success then Some (STATUS_NO_MEMORY, mi1)
          else do {
            (r, ma) \<leftarrow> data_merge_tuples_final malloc cfg (mi_curr_key mi1) (merge_buffer mi1);
            let mi2 = mi1\<lparr>merge_buffer := ma\<rparr>;
            Some (if r \<noteq> 0 then (STATUS_NO_MEMORY, mi2)
                  else (STATUS_OK, mi2\<lparr>mi_curr_data := merge_accumulator_to_message ma, data_in_buffer := True\<rparr>))
          }
        }
        else Some (STATUS_OK, mi));
     if \<not> SUCCESS rc then Some (rc, False, mi3)
     else if message_class (mi_curr_data mi3) = MESSAGE_TYPE_DELETE \<and> \<not> emit_deletes mi3
     then Some (STATUS_OK, True, mi3\<lparr>discarded_deletes := discarded_deletes mi3 + 1\<rparr>)
     else Some (STATUS_OK, False, mi3)
   }"

definition advance_one_loop ::
  "nat \<Rightarrow> malloc_fn \<Rightarrow> 'i iterator_ops \<Rightarrow> data_config \<Rightarrow> 'i merge_iterator \<Rightarrow> (platform_status \<times> bool \<times> 'i merge_iterator) option" where
  "advance_one_loop fuel malloc ops cfg mi =
     (if num_remaining mi = 0
      then Some (STATUS_OK, False, if mi_forwards mi then mi\<lparr>mi_can_next := False\<rparr> else mi\<lparr>mi_can_prev := False\<rparr>)
      else
        let first = hd (ordered_iterators mi);
            mi1 = mi\<lparr>mi_curr_key := oi_key first, mi_curr_data := oi_data first, data_in_buffer := False\<rparr>
        in if \<not> merge_messages mi1 then Some (STATUS_OK, False, mi1)
           else do {
             (rc, mi2) \<leftarrow> (if next_key_equal first then merge_resolve_equal_keys fuel malloc ops cfg mi1 else Some (STATUS_OK, mi1));
             if \<not> SUCCESS rc then Some (rc, False, mi2)
             else merge_finalize_updates_and_discard_deletes malloc cfg mi2
           })"

fun merge_advance_helper ::
  "nat \<Rightarrow> malloc_fn \<Rightarrow> 'i iterator_ops \<Rightarrow> data_config \<Rightarrow> 'i merge_iterator \<Rightarrow> (platform_status \<times> 'i merge_iterator) option" where
  "merge_advance_helper 0 malloc ops cfg mi = None"
| "merge_advance_helper (Suc fuel) malloc ops cfg mi =
     (let (rc, mi1) = advance_and_resort_min_ritor ops cfg (mi\<lparr>mi_curr_key := NULL_KEY, mi_curr_data := NULL_MESSAGE, data_in_buffer := False\<rparr>)
      in if \<not> SUCCESS rc then Some (rc, mi1)
         else do {
           (rc, retry, mi2) \<leftarrow> advance_one_loop fuel malloc ops cfg mi1;
           if \<not> SUCCESS rc then Some (rc, mi2)
           else if retry then merge_advance_helper fuel malloc ops cfg mi2
           else Some (rc, mi2)
         })"

subsection \<open>Creation and direction\<close>

fun split_live :: "nat \<Rightarrow> 'i iterator_ops \<Rightarrow> nat \<Rightarrow> 'i merge_iterator \<Rightarrow> 'i merge_iterator" where
  "split_live 0 ops i mi = mi"
| "split_live (Suc fuel) ops i mi =
     (if i < num_remaining mi then
        let os = ordered_iterators mi;
            it = os ! i;
            mi1 = mi\<lparr>mi_can_prev := mi_can_prev mi \<or> it_can_prev ops (oi_itor it), mi_can_next := mi_can_next mi \<or> it_can_next ops (oi_itor it)\<rparr>;
            last = num_remaining mi - 1
        in if \<not> iterator_can_curr ops (oi_itor it)
           then split_live fuel ops i (mi1\<lparr>ordered_iterators := os[i := os ! last, last := it], num_remaining := last\<rparr>)
           else split_live fuel ops (i + 1) (mi1\<lparr>ordered_iterators := os[i := set_curr_ordered_iterator ops it]\<rparr>)
      else mi)"

text \<open>\<open>platform_sort_slow\<close>, by insertion.\<close>

fun sort_insert :: "('a \<Rightarrow> 'a \<Rightarrow> int) \<Rightarrow> 'a \<Rightarrow> 'a list \<Rightarrow> 'a list" where
  "sort_insert cmp x [] = [x]"
| "sort_insert cmp x (y # ys) = (if cmp x y \<le> 0 then x # y # ys else y # sort_insert cmp x ys)"

fun platform_sort_slow :: "('a \<Rightarrow> 'a \<Rightarrow> int) \<Rightarrow> 'a list \<Rightarrow> 'a list" where
  "platform_sort_slow cmp [] = []"
| "platform_sort_slow cmp (x # xs) = sort_insert cmp x (platform_sort_slow cmp xs)"

fun set_equal_flags :: "data_config \<Rightarrow> 'i ordered_iterator list \<Rightarrow> 'i ordered_iterator list" where
  "set_equal_flags cfg (x # y # os) = x\<lparr>next_key_equal := (data_key_compare cfg (oi_key x) (oi_key y) = 0)\<rparr> # set_equal_flags cfg (y # os)"
| "set_equal_flags cfg os = os"

definition setup_ordered_iterators ::
  "nat \<Rightarrow> malloc_fn \<Rightarrow> 'i iterator_ops \<Rightarrow> data_config \<Rightarrow> 'i merge_iterator \<Rightarrow> (platform_status \<times> 'i merge_iterator) option" where
  "setup_ordered_iterators fuel malloc ops cfg mi = do {
     let mi1 = split_live (num_trees mi) ops 0 (mi\<lparr>mi_can_prev := False, mi_can_next := False, num_remaining := num_trees mi\<rparr>);
     let n = num_remaining mi1;
     let live = platform_sort_slow (merge_comp cfg (mi_forwards mi1)) (take n (ordered_iterators mi1));
     let mi2 = mi1\<lparr>ordered_iterators := set_equal_flags cfg live @ drop n (ordered_iterators mi1)\<rparr>;
     (rc, retry, mi3) \<leftarrow> advance_one_loop fuel malloc ops cfg mi2;
     if retry \<and> SUCCESS rc then merge_advance_helper fuel malloc ops cfg mi3 else Some (rc, mi3)
   }"

definition merge_iterator_create ::
  "nat \<Rightarrow> malloc_fn \<Rightarrow> 'i iterator_ops \<Rightarrow> data_config \<Rightarrow> 'i list \<Rightarrow> merge_behavior \<Rightarrow> bool
     \<Rightarrow> (platform_status \<times> 'i merge_iterator option) option" where
  "merge_iterator_create fuel malloc ops cfg itors merge_mode forwards =
     (if length itors \<ge> MAX_MERGE_ARITY then Some (STATUS_BAD_PARAM, None)
      else
        let mi = \<lparr>num_trees = length itors, merge_messages = (merge_mode \<noteq> MERGE_RAW), finalize_updates = (merge_mode = MERGE_FULL),
                  emit_deletes = (merge_mode \<noteq> MERGE_FULL), mi_can_prev = False, mi_can_next = False, num_remaining = 0,
                  mi_curr_key = NULL_KEY, mi_curr_data = NULL_MESSAGE, data_in_buffer = False, mi_forwards = forwards,
                  ordered_iterators = map (\<lambda>i. \<lparr>oi_itor = itors ! i, oi_seq = int i, oi_key = NULL_KEY, oi_data = NULL_MESSAGE,
                    next_key_equal = False\<rparr>) [0..<length itors],
                  discarded_deletes = 0, merge_buffer = merge_accumulator_init\<rparr>
        in map_option (\<lambda>(rc, mi1). if SUCCESS rc then (rc, Some mi1) else (rc, None)) (setup_ordered_iterators fuel malloc ops cfg mi))"

definition merge_iterator_set_direction ::
  "nat \<Rightarrow> malloc_fn \<Rightarrow> 'i iterator_ops \<Rightarrow> data_config \<Rightarrow> 'i merge_iterator \<Rightarrow> bool \<Rightarrow> (platform_status \<times> 'i merge_iterator) option" where
  "merge_iterator_set_direction fuel malloc ops cfg mi forwards =
     setup_ordered_iterators fuel malloc ops cfg (mi\<lparr>mi_forwards := forwards, ordered_iterators :=
       map (\<lambda>it. it\<lparr>oi_itor := (let i = oi_itor it in
              if forwards \<and> it_can_next ops i then snd (it_next ops i)
              else if \<not> forwards \<and> it_can_prev ops i then snd (it_prev ops i) else i)\<rparr>) (ordered_iterators mi)\<rparr>)"

definition merge_curr :: "'i merge_iterator \<Rightarrow> key \<times> message" where
  "merge_curr mi = (mi_curr_key mi, mi_curr_data mi)"

definition merge_next ::
  "nat \<Rightarrow> malloc_fn \<Rightarrow> 'i iterator_ops \<Rightarrow> data_config \<Rightarrow> 'i merge_iterator \<Rightarrow> (platform_status \<times> 'i merge_iterator) option" where
  "merge_next fuel malloc ops cfg mi =
     (if \<not> mi_forwards mi then merge_iterator_set_direction fuel malloc ops cfg mi True else merge_advance_helper fuel malloc ops cfg mi)"

definition merge_prev ::
  "nat \<Rightarrow> malloc_fn \<Rightarrow> 'i iterator_ops \<Rightarrow> data_config \<Rightarrow> 'i merge_iterator \<Rightarrow> (platform_status \<times> 'i merge_iterator) option" where
  "merge_prev fuel malloc ops cfg mi =
     (if mi_forwards mi then merge_iterator_set_direction fuel malloc ops cfg mi False else merge_advance_helper fuel malloc ops cfg mi)"

section \<open>Interface: the merged iterators\<close>

text \<open>
  What the merge relies on of an iterator that moves forward: \<open>view\<close> is the list of tuples from its position on, \<open>ok\<close> an invariant of
  its own. The keys are compared by a total order on \<open>kdom\<close>.
\<close>

locale forward_iterator =
  fixes ops :: "'i iterator_ops" and ok :: "'i \<Rightarrow> bool" and view :: "'i \<Rightarrow> (key \<times> message) list"
  assumes can_curr_law: "ok i \<Longrightarrow> iterator_can_curr ops i \<longleftrightarrow> view i \<noteq> []"
    and curr_law: "ok i \<Longrightarrow> view i = x # xs \<Longrightarrow> it_curr ops i = x"
    and next_law: "ok i \<Longrightarrow> view i = x # xs \<Longrightarrow> \<exists>i'. it_next ops i = (STATUS_OK, i') \<and> ok i' \<and> view i' = xs"

locale merge_inputs = forward_iterator ops ok view + total_compare kdom "data_key_compare cfg"
  for ops :: "'i iterator_ops" and ok view and kdom :: "key \<Rightarrow> bool" and cfg :: data_config
begin

abbreviation klt :: "key \<Rightarrow> key \<Rightarrow> bool" where "klt a b \<equiv> data_key_compare cfg a b < 0"

text \<open>Iterators with different numbers are ordered by key, newer ones first.\<close>

definition oi_lt :: "'i ordered_iterator \<Rightarrow> 'i ordered_iterator \<Rightarrow> bool" where
  "oi_lt a b \<longleftrightarrow> klt (oi_key a) (oi_key b) \<or> oi_key a = oi_key b \<and> oi_seq b < oi_seq a"

lemma bsearch_comp_forward:
  assumes "kdom (oi_key a)" "kdom (oi_key b)" "oi_seq a \<noteq> oi_seq b"
  shows "bsearch_comp cfg True a b = (fst (bsearch_comp cfg True a b), oi_key a = oi_key b)"
    "fst (bsearch_comp cfg True a b) < 0 \<longleftrightarrow> oi_lt a b" "fst (bsearch_comp cfg True a b) > 0 \<longleftrightarrow> oi_lt b a"
  using cmp_eq [OF assms(1,2)] cmp_sym [OF assms(1,2)] cmp_sym [OF assms(2,1)] cmp_refl [OF assms(1)] assms
  by (auto simp: bsearch_comp_def oi_lt_def Let_def)

lemma oi_lt_total: "kdom (oi_key a) \<Longrightarrow> kdom (oi_key b) \<Longrightarrow> oi_seq a \<noteq> oi_seq b \<Longrightarrow> oi_lt a b \<or> oi_lt b a"
  using cmp_not_less by (auto simp: oi_lt_def)

lemma klt_asym: "kdom a \<Longrightarrow> kdom b \<Longrightarrow> klt a b \<Longrightarrow> \<not> klt b a"
  using cmp_sym [of a b] by simp

lemma oi_lt_asym: "kdom (oi_key a) \<Longrightarrow> kdom (oi_key b) \<Longrightarrow> oi_lt a b \<Longrightarrow> \<not> oi_lt b a"
  using klt_asym [of "oi_key a" "oi_key b"] cmp_refl [of "oi_key a"] unfolding oi_lt_def by (metis less_asym less_irrefl)

lemma oi_lt_trans: "kdom (oi_key a) \<Longrightarrow> kdom (oi_key b) \<Longrightarrow> kdom (oi_key c) \<Longrightarrow> oi_lt a b \<Longrightarrow> oi_lt b c \<Longrightarrow> oi_lt a c"
  using cmp_trans [of "oi_key a" "oi_key b" "oi_key c"] by (auto simp: oi_lt_def)

text \<open>Between two iterators with the same key all have that key.\<close>

lemma oi_lt_between:
  assumes "kdom (oi_key a)" "kdom (oi_key b)" "oi_lt a b" "oi_lt b c" "oi_key a = oi_key c"
  shows "oi_key b = oi_key a"
  using assms klt_asym [of "oi_key a" "oi_key b"] unfolding oi_lt_def by metis

text \<open>The search in a sorted array: the place of the new iterator, and whether its neighbours have its key.\<close>

definition arr_ok :: "'i ordered_iterator list \<Rightarrow> 'i ordered_iterator \<Rightarrow> bool" where
  "arr_ok arr x \<longleftrightarrow> sorted_wrt oi_lt arr \<and> (\<forall>y\<in>set arr. kdom (oi_key y) \<and> oi_seq y \<noteq> oi_seq x) \<and> kdom (oi_key x)"

definition search_inv :: "'i ordered_iterator list \<Rightarrow> 'i ordered_iterator \<Rightarrow> nat \<Rightarrow> nat \<Rightarrow> bool \<Rightarrow> bool \<Rightarrow> bool" where
  "search_inv arr x lo hi pe ne \<longleftrightarrow> hi \<le> length arr \<and> (\<forall>j<lo. oi_lt (arr ! j) x) \<and> (\<forall>j<length arr. hi \<le> j \<longrightarrow> oi_lt x (arr ! j))
     \<and> (pe \<longleftrightarrow> 0 < lo \<and> oi_key (arr ! (lo - 1)) = oi_key x) \<and> (ne \<longleftrightarrow> hi < length arr \<and> oi_key (arr ! hi) = oi_key x)"

lemma arr_okD:
  assumes "arr_ok arr x" "j < length arr"
  shows "kdom (oi_key (arr ! j))" "oi_seq x \<noteq> oi_seq (arr ! j)" "kdom (oi_key x)" "k < j \<Longrightarrow> oi_lt (arr ! k) (arr ! j)"
  using assms sorted_wrt_nth_less [of oi_lt arr k j] nth_mem [of j arr] unfolding arr_ok_def by metis+

lemma search_right:
  assumes ok: "arr_ok arr x" and inv: "search_inv arr x lo hi pe ne" and p: "lo \<le> p" "p < hi" and lt: "oi_lt (arr ! p) x"
  shows "search_inv arr x (p + 1) hi (pe \<or> oi_key x = oi_key (arr ! p)) ne"
proof -
  have pl: "p < length arr" using p inv by (simp add: search_inv_def)
  note d = arr_okD [OF ok]
  have b: "oi_lt (arr ! j) x" if "j < p + 1" for j
  proof (cases "j = p")
    case False
    then have "j < p" "j < length arr" using that pl by simp_all
    then show ?thesis using oi_lt_trans [OF d(1) d(1) d(3) d(4) lt, of j p] pl by blast
  qed (use lt in simp)
  have "oi_key (arr ! p) = oi_key x" if pe
  proof -
    have z: "0 < lo" "oi_key (arr ! (lo - 1)) = oi_key x" using that inv by (simp_all add: search_inv_def)
    then have "oi_lt (arr ! (lo - 1)) (arr ! p)" "kdom (oi_key (arr ! (lo - 1)))" using d(3,4) [OF pl] p by simp_all
    then show ?thesis using oi_lt_between [of "arr ! (lo - 1)" "arr ! p" x] d(1) [OF pl] lt z(2) by simp
  qed
  then have pe': "(pe \<or> oi_key x = oi_key (arr ! p)) = (oi_key (arr ! p) = oi_key x)" by metis
  show ?thesis using inv b unfolding search_inv_def pe' by simp
qed

lemma search_left:
  assumes ok: "arr_ok arr x" and inv: "search_inv arr x lo hi pe ne" and p: "lo \<le> p" "p < hi" and lt: "oi_lt x (arr ! p)"
  shows "search_inv arr x lo p pe (ne \<or> oi_key x = oi_key (arr ! p))"
proof -
  have pl: "p < length arr" using p inv by (simp add: search_inv_def)
  note d = arr_okD [OF ok]
  have b: "oi_lt x (arr ! j)" if "j < length arr" "p \<le> j" for j
  proof (cases "j = p")
    case False
    then have "p < j" using that by simp
    then show ?thesis using oi_lt_trans [OF d(3) [OF pl] d(1) [OF pl] d(1) [OF that(1)] lt] d(4) [OF that(1)] by metis
  qed (use lt in simp)
  have "oi_key (arr ! p) = oi_key x" if ne
  proof -
    have z: "hi < length arr" "oi_key (arr ! hi) = oi_key x" using that inv by (simp_all add: search_inv_def)
    show ?thesis using oi_lt_between [OF d(3) [OF pl] d(1) [OF pl] lt d(4) [OF z(1) p(2)]] z(2) by simp
  qed
  then have ne': "(ne \<or> oi_key x = oi_key (arr ! p)) = (oi_key (arr ! p) = oi_key x)" by metis
  show ?thesis using inv b pl unfolding search_inv_def ne' by simp
qed

lemma bsearch_insert_loop_spec:
  assumes "arr_ok arr x" "search_inv arr x base (base + lim) pe ne" "lim = 0 \<Longrightarrow> r = int base - 1"
  shows "\<exists>i pe' ne'. bsearch_insert_loop cfg True x arr base lim (r, pe, ne) = (int i - 1, pe', ne') \<and> search_inv arr x i i pe' ne'"
  using assms(2,3)
proof (induction lim arbitrary: base r pe ne rule: less_induct)
  case (less lim)
  show ?case
  proof (cases "lim = 0")
    case True
    then have "bsearch_insert_loop cfg True x arr base lim (r, pe, ne) = (int base - 1, pe, ne)" using less.prems(2)
      by (simp add: bsearch_insert_loop.simps)
    then show ?thesis using True less.prems(1) by auto
  next
    case False
    let ?p = "base + lim div 2"
    have "base + lim \<le> length arr" using less.prems(1) unfolding search_inv_def by blast
    then have p: "base \<le> ?p" "?p < base + lim" "?p < length arr" using False by linarith+
    define cmp where "cmp = fst (bsearch_comp cfg True x (arr ! ?p))"
    note c = bsearch_comp_forward [OF arr_okD(3,1,2) [OF assms(1) p(3)], folded cmp_def]
    define r' where "r' = int ?p - (if cmp < 0 then 1 else 0)"
    define eq where "eq = (oi_key x = oi_key (arr ! ?p))"
    have un: "bsearch_insert_loop cfg True x arr base lim (r, pe, ne) =
        (if cmp > 0 then bsearch_insert_loop cfg True x arr (?p + 1) ((lim - 1) div 2) (r', pe \<or> eq, ne \<or> cmp < 0 \<and> eq)
         else bsearch_insert_loop cfg True x arr base (lim div 2) (r', pe, ne \<or> cmp < 0 \<and> eq))"
      using False by (subst bsearch_insert_loop.simps) (simp add: c(1) r'_def eq_def Let_def)
    have "cmp \<noteq> 0" using c(2,3) oi_lt_total [OF arr_okD(3,1,2) [OF assms(1) p(3)]] by linarith
    then consider (right) "cmp > 0" | (left) "cmp < 0" by linarith
    then show ?thesis
    proof cases
      case right
      have hi: "?p + 1 + (lim - 1) div 2 = base + lim" using False by presburger
      have "search_inv arr x (?p + 1) (?p + 1 + (lim - 1) div 2) (pe \<or> eq) ne"
        unfolding hi eq_def by (rule search_right [OF assms(1) less.prems(1) p(1,2)]) (use c(3) right in simp)
      from less.IH [OF _ this, of r'] show ?thesis using False right un by (simp add: r'_def)
    next
      case left
      have "search_inv arr x base (base + lim div 2) pe (ne \<or> eq)"
        unfolding eq_def by (rule search_left [OF assms(1) less.prems(1) p(1,2)]) (use c(2) left in simp)
      from less.IH [OF _ this, of r'] show ?thesis using False left un by (simp add: r'_def)
    qed
  qed
qed

end

context merge_inputs
begin

text \<open>
  The tuples ahead: those the iterators of a list have from their positions on, with the number of the iterator. They are ordered by
  key, newer iterators first.
\<close>

definition tup :: "'i ordered_iterator \<Rightarrow> key \<times> int \<times> message" where
  "tup it = (oi_key it, oi_seq it, oi_data it)"

definition tuples :: "'i ordered_iterator list \<Rightarrow> (key \<times> int \<times> message) set" where
  "tuples os = {(k, s, m). \<exists>it\<in>set os. oi_seq it = s \<and> (k, m) \<in> set (view (oi_itor it))}"

definition tlt :: "key \<times> int \<times> message \<Rightarrow> key \<times> int \<times> message \<Rightarrow> bool" where
  "tlt x y \<longleftrightarrow> klt (fst x) (fst y) \<or> fst x = fst y \<and> fst (snd y) < fst (snd x)"

definition item_ok :: "'i ordered_iterator \<Rightarrow> bool" where
  "item_ok it \<longleftrightarrow> ok (oi_itor it) \<and> sorted_wrt (\<lambda>a b. klt (fst a) (fst b)) (view (oi_itor it)) \<and> (\<forall>x\<in>set (view (oi_itor it)). kdom (fst x))"

definition cur_ok :: "'i ordered_iterator \<Rightarrow> bool" where
  "cur_ok it \<longleftrightarrow> (\<exists>xs. view (oi_itor it) = (oi_key it, oi_data it) # xs)"

definition live_core :: "'i ordered_iterator list \<Rightarrow> bool" where
  "live_core os \<longleftrightarrow> sorted_wrt oi_lt os \<and> distinct (map oi_seq os) \<and> (\<forall>it\<in>set os. item_ok it \<and> cur_ok it)"

definition flags_ok :: "'i ordered_iterator list \<Rightarrow> bool" where
  "flags_ok os \<longleftrightarrow> (\<forall>j<length os. next_key_equal (os ! j) \<longleftrightarrow> Suc j < length os \<and> oi_key (os ! j) = oi_key (os ! Suc j))"

definition live_ok :: "'i ordered_iterator list \<Rightarrow> bool" where
  "live_ok os \<longleftrightarrow> live_core os \<and> flags_ok os"

definition erase :: "'i ordered_iterator \<Rightarrow> 'i ordered_iterator" where
  "erase it = it\<lparr>next_key_equal := False\<rparr>"

lemma erase_simps [simp]: "oi_key (erase it) = oi_key it" "oi_seq (erase it) = oi_seq it" "oi_itor (erase it) = oi_itor it"
  "oi_data (erase it) = oi_data it" "erase (it\<lparr>next_key_equal := b\<rparr>) = erase it"
  by (simp_all add: erase_def)

lemma live_core_erase: "live_core (map erase os) = live_core os"
proof -
  have "oi_lt (erase a) (erase b) = oi_lt a b" for a b by (simp add: oi_lt_def)
  then show ?thesis by (simp add: live_core_def sorted_wrt_map item_ok_def cur_ok_def comp_def)
qed

lemma tuples_erase: "tuples (map erase os) = tuples os"
  by (auto simp: tuples_def)

lemma erase_update: "map erase (os[i := (os ! i)\<lparr>next_key_equal := b\<rparr>]) = map erase os"
  by (cases "i < length os") (simp_all add: map_update list_update_same_conv list_update_beyond)

lemma erased_eq:
  assumes "map erase os = map erase os'"
  shows "live_core os = live_core os'" "tuples os = tuples os'" "length os = length os'"
    "i < length os \<Longrightarrow> oi_key (os ! i) = oi_key (os' ! i)"
proof -
  show "live_core os = live_core os'" "tuples os = tuples os'" using assms live_core_erase tuples_erase by metis+
  show l: "length os = length os'" using assms by (metis length_map)
  show "i < length os \<Longrightarrow> oi_key (os ! i) = oi_key (os' ! i)" using assms l by (metis nth_map erase_simps(1))
qed

lemma cur_in: "cur_ok it \<Longrightarrow> (oi_key it, oi_data it) \<in> set (view (oi_itor it))"
  by (auto simp: cur_ok_def)

lemma cur_dom: "item_ok it \<Longrightarrow> cur_ok it \<Longrightarrow> kdom (oi_key it)"
  using cur_in by (force simp: item_ok_def)

lemma cur_least:
  assumes "item_ok it" "cur_ok it" "(k, m) \<in> set (view (oi_itor it))"
  shows "(k, m) = (oi_key it, oi_data it) \<or> klt (oi_key it) k" "kdom k"
proof -
  obtain xs where "view (oi_itor it) = (oi_key it, oi_data it) # xs" using assms(2) by (auto simp: cur_ok_def)
  then show "(k, m) = (oi_key it, oi_data it) \<or> klt (oi_key it) k" "kdom k" using assms(1,3) by (force simp: item_ok_def)+
qed

lemma live_coreD:
  assumes "live_core (h # t)"
  shows "item_ok h" "cur_ok h" "live_core t" "\<forall>it\<in>set t. item_ok it \<and> cur_ok it \<and> oi_lt h it \<and> oi_seq it \<noteq> oi_seq h"
  using assms by (auto simp: live_core_def image_iff)

text \<open>The first iterator has the least tuple, and its flag says whether the next tuple has the same key.\<close>

lemma tuples_least:
  assumes "live_core (h # t)"
  shows "tup h \<in> tuples (h # t)" "x \<in> tuples (h # t) \<Longrightarrow> x = tup h \<or> tlt (tup h) x" "x \<in> tuples (h # t) \<Longrightarrow> kdom (fst x)"
proof -
  note d = live_coreD [OF assms]
  show "tup h \<in> tuples (h # t)" using cur_in [OF d(2)] by (auto simp: tuples_def tup_def)
  assume "x \<in> tuples (h # t)"
  then obtain it where it: "it \<in> set (h # t)" "oi_seq it = fst (snd x)" "(fst x, snd (snd x)) \<in> set (view (oi_itor it))"
    by (force simp: tuples_def)
  have io: "item_ok it" "cur_ok it" using it(1) d by auto
  note c = cur_least [OF io it(3)]
  show "kdom (fst x)" by (rule c(2))
  show "x = tup h \<or> tlt (tup h) x"
  proof (cases "it = h")
    case True
    then show ?thesis using c(1) it(2) by (cases x) (auto simp: tup_def tlt_def)
  next
    case False
    then have lt: "oi_lt h it" using it(1) d(4) by auto
    have "klt (oi_key h) (oi_key it) \<Longrightarrow> klt (oi_key it) (fst x) \<Longrightarrow> klt (oi_key h) (fst x)"
      using cmp_trans [OF cur_dom [OF d(1,2)] cur_dom [OF io] c(2)] .
    then show ?thesis using c(1) lt it(2) unfolding oi_lt_def tlt_def tup_def by auto
  qed
qed

lemma flags_okD: "flags_ok (h # t) \<Longrightarrow> flags_ok t" "flags_ok (h # t) \<Longrightarrow> next_key_equal h \<longleftrightarrow> t \<noteq> [] \<and> oi_key h = oi_key (hd t)"
proof -
  assume f: "flags_ok (h # t)"
  show "flags_ok t" using f unfolding flags_ok_def by (metis Suc_less_eq length_Cons nth_Cons_Suc)
  show "next_key_equal h \<longleftrightarrow> t \<noteq> [] \<and> oi_key h = oi_key (hd t)" using f [unfolded flags_ok_def, rule_format, of 0] by (cases t) simp_all
qed

lemma next_key_equal_iff:
  assumes "live_ok (h # t)"
  shows "next_key_equal h \<longleftrightarrow> (\<exists>x\<in>tuples (h # t). x \<noteq> tup h \<and> fst x = oi_key h)"
proof -
  have lc: "live_core (h # t)" and f: "flags_ok (h # t)" using assms by (simp_all add: live_ok_def)
  note d = live_coreD [OF lc] and n = flags_okD(2) [OF f]
  show ?thesis
  proof
    assume "next_key_equal h"
    then obtain h2 t' where t: "t = h2 # t'" "oi_key h = oi_key h2" using n by (cases t) auto
    have "tup h2 \<in> tuples (h # t)" using tuples_least(1) [of h2 t'] d(3) t by (auto simp: tuples_def)
    moreover have "tup h2 \<noteq> tup h" using d(4) t by (auto simp: tup_def)
    moreover have "fst (tup h2) = oi_key h" using t(2) by (simp add: tup_def)
    ultimately show "\<exists>x\<in>tuples (h # t). x \<noteq> tup h \<and> fst x = oi_key h" by blast
  next
    assume "\<exists>x\<in>tuples (h # t). x \<noteq> tup h \<and> fst x = oi_key h"
    then obtain it m where it: "it \<in> set (h # t)" "(oi_key h, m) \<in> set (view (oi_itor it))" "(oi_key h, oi_seq it, m) \<noteq> tup h"
      by (auto simp: tuples_def)
    have dh: "kdom (oi_key h)" by (rule cur_dom [OF d(1,2)])
    have ne: "it \<noteq> h"
    proof
      assume e: "it = h"
      then show False using cur_least(1) [OF d(1,2) it(2) [unfolded e]] it(3) cmp_refl [OF dh] by (simp add: tup_def)
    qed
    then have io: "it \<in> set t" "item_ok it" "cur_ok it" "oi_lt h it" using it(1) d(4) by auto
    have di: "kdom (oi_key it)" by (rule cur_dom [OF io(2,3)])
    have k: "oi_key it = oi_key h" using cur_least(1) [OF io(2,3) it(2)] io(4) klt_asym [OF dh di] unfolding oi_lt_def by auto
    obtain h2 t' where t: "t = h2 # t'" using io(1) by (cases t) auto
    have "oi_key h2 = oi_key h"
    proof (cases "it = h2")
      case False
      then have "oi_lt h2 it" using d(3) t io(1) by (auto simp: live_core_def)
      then show ?thesis using oi_lt_between [OF dh, of h2 it] k d(4) t cur_dom [of h2] by simp
    qed (use k in simp)
    then show "next_key_equal h" using n t by simp
  qed
qed

end

context merge_inputs
begin

text \<open>Putting an iterator at the place the search found.\<close>

definition place :: "nat \<Rightarrow> 'i ordered_iterator \<Rightarrow> 'i ordered_iterator list \<Rightarrow> bool \<Rightarrow> bool \<Rightarrow> 'i ordered_iterator list" where
  "place i x t pe ne = (let os1 = take i t @ [x] @ drop i t;
     os2 = (if i = 0 then os1 else os1[i - 1 := (os1 ! (i - 1))\<lparr>next_key_equal := pe\<rparr>])
   in os2[i := (os2 ! i)\<lparr>next_key_equal := ne\<rparr>])"

lemma place_erase: "map erase (place i x t pe ne) = map erase (take i t @ [x] @ drop i t)"
  unfolding place_def Let_def erase_update by (simp only: erase_update split: if_split) simp

lemma arr_ok_live:
  assumes "live_core t" "item_ok x" "cur_ok x" "oi_seq x \<notin> oi_seq ` set t"
  shows "arr_ok t x"
  using assms cur_dom unfolding arr_ok_def live_core_def by (auto simp: image_iff)

lemma insert_core:
  assumes "live_core t" "item_ok x" "cur_ok x" "oi_seq x \<notin> oi_seq ` set t" "search_inv t x i i pe ne"
  shows "live_core (take i t @ [x] @ drop i t)"
proof -
  have i: "i \<le> length t" "\<And>j. j < i \<Longrightarrow> oi_lt (t ! j) x" "\<And>j. j < length t \<Longrightarrow> i \<le> j \<Longrightarrow> oi_lt x (t ! j)"
    using assms(5) unfolding search_inv_def by blast+
  have a: "\<forall>y\<in>set (take i t). oi_lt y x" using i(1,2) by (auto simp: set_conv_nth)
  have b: "\<forall>y\<in>set (drop i t). oi_lt x y" using i(3) by (auto simp: set_conv_nth)
  have s: "sorted_wrt oi_lt (take i t @ drop i t)" using assms(1) by (simp add: live_core_def)
  have "distinct (map oi_seq (take i t @ drop i t))" using assms(1) by (simp add: live_core_def)
  then have d: "distinct (map oi_seq (take i t)) \<and> distinct (map oi_seq (drop i t)) \<and> oi_seq ` set (take i t) \<inter> oi_seq ` set (drop i t) = {}"
    by (simp only: map_append distinct_append set_map)
  have "oi_seq x \<notin> oi_seq ` set (take i t)" "oi_seq x \<notin> oi_seq ` set (drop i t)" using assms(4) set_take_subset [of i t] set_drop_subset [of i t] by blast+
  then have "distinct (map oi_seq (take i t @ [x] @ drop i t))" using d by simp
  moreover have "sorted_wrt oi_lt (take i t @ [x] @ drop i t)" using s [unfolded sorted_wrt_append] a b by (simp add: sorted_wrt_append)
  moreover have "\<forall>it\<in>set (take i t @ [x] @ drop i t). item_ok it \<and> cur_ok it"
    using assms(1-3) in_set_takeD [of _ i t] in_set_dropD [of _ i t] by (auto simp: live_core_def)
  ultimately show ?thesis by (simp add: live_core_def)
qed

lemma place_flag:
  assumes "i \<le> length t" "j < Suc (length t)"
  shows "next_key_equal (place i x t pe ne ! j) = (if j = i then ne else if Suc j = i then pe else if j < i then next_key_equal (t ! j)
    else next_key_equal (t ! (j - 1)))"
  using assms by (auto simp: place_def Let_def nth_list_update nth_append min_def nth_Cons' not_less)

lemma insert_key:
  assumes "i \<le> length t" "j < Suc (length t)"
  shows "oi_key ((take i t @ [x] @ drop i t) ! j) = (if j = i then oi_key x else if j < i then oi_key (t ! j) else oi_key (t ! (j - 1)))"
  using assms by (auto simp: nth_append min_def nth_Cons' not_less)

lemma place_flags:
  assumes f: "flags_ok t" and s: "search_inv t x i i pe ne"
  shows "flags_ok (place i x t pe ne)"
proof -
  let ?l = "place i x t pe ne"
  note e = erased_eq(3,4) [OF place_erase [of i x t pe ne]]
  have i: "i \<le> length t" and pe: "pe \<longleftrightarrow> 0 < i \<and> oi_key (t ! (i - 1)) = oi_key x" and ne: "ne \<longleftrightarrow> i < length t \<and> oi_key (t ! i) = oi_key x"
    using s unfolding search_inv_def by blast+
  have l: "length ?l = Suc (length t)" using e(1) i by simp
  have k: "j < Suc (length t) \<Longrightarrow> oi_key (?l ! j) = (if j = i then oi_key x else if j < i then oi_key (t ! j) else oi_key (t ! (j - 1)))" for j
    using e(2) [of j] l insert_key [OF i, of j x] by simp
  have "next_key_equal (?l ! j) \<longleftrightarrow> Suc j < length ?l \<and> oi_key (?l ! j) = oi_key (?l ! Suc j)" if j: "j < length ?l" for j
  proof -
    have g: "j' < length t \<Longrightarrow> next_key_equal (t ! j') \<longleftrightarrow> Suc j' < length t \<and> oi_key (t ! j') = oi_key (t ! Suc j')" for j'
      using f unfolding flags_ok_def by blast
    consider "Suc j < i" | "Suc j = i" | "j = i" | "i < j" by linarith
    then show ?thesis
    proof cases
      case 1
      then show ?thesis using k [of j] k [of "Suc j"] g [of j] place_flag [OF i, of j x pe ne] i l by simp
    next
      case 2
      then show ?thesis using k [of j] k [of "Suc j"] pe place_flag [OF i, of j x pe ne] i l by auto
    next
      case 3
      then show ?thesis using k [of j] k [of "Suc j"] ne place_flag [OF i, of j x pe ne] i l by auto
    next
      case 4
      then obtain j' where "j = Suc j'" by (cases j) auto
      then show ?thesis using 4 j k [of j] k [of "Suc j"] g [of j'] place_flag [OF i, of j x pe ne] i l by auto
    qed
  qed
  then show ?thesis unfolding flags_ok_def by blast
qed

lemma place_ok:
  assumes "live_ok t" "item_ok x" "cur_ok x" "oi_seq x \<notin> oi_seq ` set t" "search_inv t x i i pe ne"
  shows "live_ok (place i x t pe ne)" "tuples (place i x t pe ne) = tuples (x # t)" "length (place i x t pe ne) = Suc (length t)"
proof -
  note e = erased_eq [OF place_erase [of i x t pe ne]]
  have i: "i \<le> length t" using assms(5) by (simp add: search_inv_def)
  show "live_ok (place i x t pe ne)"
    using insert_core [OF _ assms(2-5)] place_flags [OF _ assms(5)] assms(1) e(1) unfolding live_ok_def by blast
  have "set (take i t @ [x] @ drop i t) = set (x # t)" using set_append [of "take i t" "drop i t"] by auto
  then have "tuples (take i t @ [x] @ drop i t) = tuples (x # t)" unfolding tuples_def by simp
  then show "tuples (place i x t pe ne) = tuples (x # t)" using e(2) by simp
  show "length (place i x t pe ne) = Suc (length t)" using e(3) i by simp
qed

lemma bsearch_insert_spec:
  assumes "arr_ok arr x" "arr \<noteq> []"
  obtains i pe ne where "bsearch_insert cfg True x arr = (int i - 1, pe, ne)" "search_inv arr x i i pe ne"
  using bsearch_insert_loop_spec [of arr x 0 "length arr" False False 0] assms unfolding bsearch_insert_def search_inv_def by auto

end

context merge_inputs
begin

text \<open>The state of an iterator that moves forward.\<close>

definition live :: "'i merge_iterator \<Rightarrow> 'i ordered_iterator list" where
  "live mi = take (num_remaining mi) (ordered_iterators mi)"

definition mi_inv :: "'i merge_iterator \<Rightarrow> bool" where
  "mi_inv mi \<longleftrightarrow> mi_forwards mi \<and> num_remaining mi \<le> length (ordered_iterators mi) \<and> live_ok (live mi) \<and> ma_inv (merge_buffer mi)"

lemma tuples_Cons: "tuples (h # t) = tuples [h] \<union> tuples t"
  by (auto simp: tuples_def)

lemma tuples_next:
  assumes "item_ok h" "cur_ok h" "ok i" "view (oi_itor h) = (oi_key h, oi_data h) # view i" "oi_seq h \<notin> oi_seq ` set t"
    "oi_itor h' = i" "oi_seq h' = oi_seq h"
  shows "tuples (h # t) - {tup h} = tuples (h' # t)"
proof -
  have "kdom (oi_key h)" by (rule cur_dom [OF assms(1,2)])
  then have "(oi_key h, oi_data h) \<notin> set (view i)" using assms(1,4) cmp_refl unfolding item_ok_def by fastforce
  moreover have "tup h \<notin> tuples t" using assms(5) unfolding tuples_def tup_def by clarsimp (metis imageI)
  ultimately show ?thesis using assms(4,6,7) by (auto simp: tuples_def tup_def)
qed

lemma advance_spec:
  assumes inv: "mi_inv mi" and l: "live mi = h # t"
  obtains mi' where "advance_and_resort_min_ritor ops cfg mi = (STATUS_OK, mi')" "mi_inv mi'" "tuples (live mi') = tuples (h # t) - {tup h}"
    "mi' = mi\<lparr>num_remaining := num_remaining mi', ordered_iterators := ordered_iterators mi'\<rparr>"
proof -
  define dead where "dead = drop (num_remaining mi) (ordered_iterators mi)"
  have fw: "mi_forwards mi" and lo: "live_ok (h # t)" and ma: "ma_inv (merge_buffer mi)" and nl: "num_remaining mi \<le> length (ordered_iterators mi)"
    using inv l by (simp_all add: mi_inv_def)
  have os: "ordered_iterators mi = h # t @ dead" using append_take_drop_id [of "num_remaining mi" "ordered_iterators mi"] l
    unfolding live_def dead_def by simp
  have n: "num_remaining mi = Suc (length t)" using arg_cong [OF l, of length] nl by (simp add: live_def)
  have lc: "live_core (h # t)" using lo by (simp add: live_ok_def)
  note d = live_coreD [OF lc]
  have lt: "live_ok t" using lo d(3) flags_okD(1) [of h t] by (simp add: live_ok_def)
  have seqs: "oi_seq h \<notin> oi_seq ` set t" using d(4) by force
  have okh: "ok (oi_itor h)" using d(1) by (simp add: item_ok_def)
  obtain xs where xs: "view (oi_itor h) = (oi_key h, oi_data h) # xs" using d(2) by (auto simp: cur_ok_def)
  obtain i where i: "it_next ops (oi_itor h) = (STATUS_OK, i)" "ok i" "view i = xs" using next_law [OF okh xs] by blast
  define f where "f = h\<lparr>next_key_equal := False, oi_key := NULL_KEY, oi_data := NULL_MESSAGE, oi_itor := i\<rparr>"
  have T: "tuples (h # t) - {tup h} = tuples (f # t)" by (rule tuples_next [OF d(1,2) i(2)]) (use xs i seqs in \<open>simp_all add: f_def\<close>)
  have f0: "item_ok f" using d(1) i xs by (simp add: f_def item_ok_def)
  show thesis
  proof (cases xs)
    case Nil
    define mi' where "mi' = mi\<lparr>num_remaining := num_remaining mi - 1, ordered_iterators := t @ [f] @ dead\<rparr>"
    have nc: "\<not> iterator_can_curr ops i" using can_curr_law [OF i(2)] i(3) Nil by simp
    have e: "advance_and_resort_min_ritor ops cfg mi = (STATUS_OK, mi')"
      using i(1) nc fw by (simp add: advance_and_resort_min_ritor_def os n mi'_def f_def)
    have lv: "live mi' = t" by (simp add: live_def mi'_def n)
    have "tuples (f # t) = tuples t" using i(3) Nil by (auto simp: tuples_def f_def)
    then show thesis using that [OF e] T lv lt fw ma by (simp add: mi_inv_def mi'_def n)
  next
    case (Cons y ys)
    have c: "iterator_can_curr ops i" "it_curr ops i = y" using can_curr_law [OF i(2)] curr_law [OF i(2)] i(3) Cons by simp_all
    define x where "x = set_curr_ordered_iterator ops f"
    have xd: "oi_itor x = i" "oi_seq x = oi_seq h" "oi_key x = fst y" "oi_data x = snd y" "\<not> next_key_equal x"
      using c(2) by (simp_all add: x_def set_curr_ordered_iterator_def f_def split: prod.split)
    have xo: "item_ok x" "cur_ok x" "oi_seq x \<notin> oi_seq ` set t"
      using f0 xd i(3) Cons seqs by (simp_all add: item_ok_def cur_ok_def f_def)
    have T': "tuples (f # t) = tuples (x # t)" using xd by (simp add: tuples_def f_def)
    show thesis
    proof (cases "t = []")
      case True
      define mi' where "mi' = mi\<lparr>ordered_iterators := x # dead\<rparr>"
      have e: "advance_and_resort_min_ritor ops cfg mi = (STATUS_OK, mi')"
        using i(1) c fw True by (simp add: advance_and_resort_min_ritor_def os n mi'_def x_def f_def Let_def)
      have lv: "live mi' = [x]" using True by (simp add: live_def mi'_def n)
      have "live_ok [x]" using xo xd(5) by (simp add: live_ok_def live_core_def flags_ok_def)
      then show thesis using that [OF e] T T' lv fw ma True by (simp add: mi_inv_def mi'_def n)
    next
      case False
      obtain j pe ne where j: "bsearch_insert cfg True x t = (int j - 1, pe, ne)" "search_inv t x j j pe ne"
        using bsearch_insert_spec [OF arr_ok_live [OF d(3) xo] False] by blast
      have jl: "j \<le> length t" using j(2) by (simp add: search_inv_def)
      define mi' where "mi' = mi\<lparr>ordered_iterators := place j x t pe ne @ dead\<rparr>"
      have e: "advance_and_resort_min_ritor ops cfg mi = (STATUS_OK, mi')"
        using i(1) c fw False j(1) jl by (simp add: advance_and_resort_min_ritor_def os n mi'_def Let_def place_def f_def [symmetric] x_def [symmetric]
          list_update_append nth_append)
      note p = place_ok [OF lt xo j(2)]
      have lv: "live mi' = place j x t pe ne" using p(3) by (simp add: live_def mi'_def n)
      show thesis using that [OF e] T T' lv p fw ma by (simp add: mi_inv_def mi'_def n)
    qed
  qed
qed

end

text \<open>A failed copy means that \<open>malloc\<close> failed.\<close>

lemma ensure_space_fails: "writable_buffer_ensure_space malloc wb n = (rc, wb') \<Longrightarrow> rc \<noteq> STATUS_OK \<Longrightarrow> \<exists>sz. malloc sz = None"
  by (auto simp: writable_buffer_ensure_space_def platform_realloc_def Let_def split: if_splits option.splits)

lemma copy_fails:
  assumes "merge_accumulator_copy_message malloc ma msg = Some (False, ma')"
  shows "\<exists>sz. malloc sz = None"
proof (rule ccontr)
  assume n: "\<nexists>sz. malloc sz = None"
  obtain rc wb where r: "writable_buffer_ensure_space malloc (ma_data ma) (word_of_nat (slice_length (msg_data msg))) = (rc, wb)" by fastforce
  then have "rc = STATUS_OK" using ensure_space_fails n by blast
  then show False using assms r
    by (auto simp: merge_accumulator_copy_message_def writable_buffer_copy_slice_def writable_buffer_resize_def split: option.splits if_splits)
qed

definition good_message :: "message \<Rightarrow> bool" where
  "good_message m \<longleftrightarrow> message_is_definitive m \<and> message_length m < 2 ^ 64 - 1"

definition same_params :: "'i merge_iterator \<Rightarrow> 'i merge_iterator \<Rightarrow> bool" where
  "same_params mi mi' \<longleftrightarrow> mi_forwards mi' = mi_forwards mi \<and> merge_messages mi' = merge_messages mi \<and> finalize_updates mi' = finalize_updates mi
     \<and> emit_deletes mi' = emit_deletes mi \<and> num_trees mi' = num_trees mi \<and> mi_can_next mi' = mi_can_next mi \<and> mi_can_prev mi' = mi_can_prev mi"

lemma same_params_trans: "same_params a b \<Longrightarrow> same_params b c \<Longrightarrow> same_params a c"
  by (simp add: same_params_def)

context merge_inputs
begin

definition later :: "key \<Rightarrow> (key \<times> int \<times> message) set \<Rightarrow> (key \<times> int \<times> message) set" where
  "later k T = {x\<in>T. klt k (fst x)}"

definition pending :: "'i merge_iterator \<Rightarrow> (key \<times> int \<times> message) set" where
  "pending mi = tuples (live mi) - {tup (hd (live mi))}"

lemma finite_tuples: "finite (tuples os)"
proof -
  have "tuples os \<subseteq> (\<Union>it\<in>set os. (\<lambda>(k, m). (k, oi_seq it, m)) ` set (view (oi_itor it)))" by (force simp: tuples_def)
  then show ?thesis by (rule finite_subset) simp
qed

lemma mi_inv_cong:
  "mi_inv mi \<Longrightarrow> mi_forwards mi' = mi_forwards mi \<Longrightarrow> num_remaining mi' = num_remaining mi \<Longrightarrow> ordered_iterators mi' = ordered_iterators mi
     \<Longrightarrow> ma_inv (merge_buffer mi') \<Longrightarrow> mi_inv mi'"
  by (simp add: mi_inv_def live_def)

lemma live_cong: "num_remaining mi' = num_remaining mi \<Longrightarrow> ordered_iterators mi' = ordered_iterators mi \<Longrightarrow> live mi' = live mi"
  by (simp add: live_def)

lemma live_empty: "mi_inv mi \<Longrightarrow> live mi = [] \<longleftrightarrow> num_remaining mi = 0"
  by (auto simp: mi_inv_def live_def)

lemma tuples_empty: "live_ok os \<Longrightarrow> tuples os = {} \<longleftrightarrow> os = []"
proof (cases os)
  case (Cons h t)
  then show "live_ok os \<Longrightarrow> ?thesis" using tuples_least(1) [of h t] unfolding live_ok_def by blast
qed (simp add: tuples_def)

lemma key_cases:
  assumes "live_ok (h # t)" "x \<in> tuples (h # t)"
  shows "fst x = oi_key h \<or> klt (oi_key h) (fst x)" "kdom (fst x)" "kdom (oi_key h)"
proof -
  have lc: "live_core (h # t)" using assms(1) by (simp add: live_ok_def)
  show "fst x = oi_key h \<or> klt (oi_key h) (fst x)" using tuples_least(2) [OF lc assms(2)] by (cases x) (auto simp: tlt_def tup_def)
  show "kdom (fst x)" by (rule tuples_least(3) [OF lc assms(2)])
  show "kdom (oi_key h)" by (rule cur_dom [OF live_coreD(1,2) [OF lc]])
qed

lemma pending_later:
  assumes "live_ok (h # t)" "\<not> next_key_equal h"
  shows "tuples (h # t) - {tup h} = later (oi_key h) (tuples (h # t))"
proof -
  have "tup h \<in> tuples (h # t)" using tuples_least(1) [of h t] assms(1) by (simp add: live_ok_def)
  from cmp_refl [OF key_cases(3) [OF assms(1) this]] have "\<not> klt (oi_key h) (fst (tup h))" by (simp add: tup_def)
  then show ?thesis using next_key_equal_iff [OF assms(1)] assms(2) key_cases(1) [OF assms(1)] unfolding later_def by blast
qed

lemma next_same_key:
  assumes "live_ok (h # t)" "next_key_equal h" "live_ok os" "tuples os = tuples (h # t) - {tup h}"
  obtains h' t' where "os = h' # t'" "oi_key h' = oi_key h" "later (oi_key h) (tuples os) = later (oi_key h) (tuples (h # t))"
proof -
  obtain x where x: "x \<in> tuples (h # t)" "x \<noteq> tup h" "fst x = oi_key h" using next_key_equal_iff [OF assms(1)] assms(2) by blast
  then have xi: "x \<in> tuples os" using assms(4) by simp
  then obtain h' t' where os: "os = h' # t'" using tuples_empty [OF assms(3)] by (cases os) auto
  have lo: "live_ok (h' # t')" using assms(3) os by simp
  have "tup h' \<in> tuples os" using tuples_least(1) [of h' t'] lo os by (simp add: live_ok_def)
  then have "tup h' \<in> tuples (h # t)" unfolding assms(4) by blast
  then have a: "oi_key h' = oi_key h \<or> klt (oi_key h) (oi_key h')" using key_cases(1) [OF assms(1), of "tup h'"] by (simp add: tup_def)
  have b: "oi_key h = oi_key h' \<or> klt (oi_key h') (oi_key h)" "kdom (oi_key h')" using key_cases(1,3) [OF lo, of x] xi x(3) os by simp_all
  have c: "kdom (oi_key h)" using key_cases(3) [OF assms(1) x(1)] .
  have k: "oi_key h' = oi_key h" using a b(1) klt_asym [OF c b(2)] by metis
  have "\<not> klt (oi_key h) (fst (tup h))" using cmp_refl [OF c] by (simp add: tup_def)
  then show thesis using that [OF os k] unfolding assms(4) later_def by blast
qed

lemma resolve_loop_spec:
  assumes "mi_inv mi" "live mi = h # t" "next_key_equal h" "mi_curr_key mi = oi_key h" "merge_accumulator_is_definitive (merge_buffer mi)"
    "card (tuples (live mi)) \<le> fuel"
  obtains mi' h' t' where "resolve_loop fuel malloc ops cfg mi = Some (STATUS_OK, mi')" "mi_inv mi'" "live mi' = h' # t'"
    "\<not> next_key_equal h'" "oi_key h' = oi_key h" "later (oi_key h) (tuples (live mi')) = later (oi_key h) (tuples (live mi))"
    "tuples (live mi') \<subseteq> tuples (live mi)"
    "mi_curr_key mi' = oi_key h" "mi_curr_data mi' = merge_accumulator_to_message (merge_buffer mi)" "data_in_buffer mi'"
    "merge_buffer mi' = merge_buffer mi" "same_params mi mi'"
  using assms
proof (induction fuel arbitrary: mi h t thesis)
  case 0
  then have "live_ok (live mi)" by (simp add: mi_inv_def)
  then show ?case using "0.prems"(7) tuples_empty [of "live mi"] finite_tuples [of "live mi"] "0.prems"(3) by simp
next
  case (Suc fuel)
  have lo: "live_ok (h # t)" using Suc.prems(2,3) by (simp add: mi_inv_def)
  have nk: "t \<noteq> []" "oi_key h = oi_key (hd t)" using lo flags_okD(2) [of h t] Suc.prems(4) by (simp_all add: live_ok_def)
  obtain h2 t2 where t: "t = h2 # t2" using nk(1) by (cases t) auto
  have o1: "ordered_iterators mi ! Suc 0 = h2"
  proof -
    have "live mi ! 1 = h2" "1 < length (live mi)" using Suc.prems(3) t by simp_all
    then show ?thesis by (simp add: live_def)
  qed
  let ?m = "mi\<lparr>merge_buffer := merge_buffer mi, mi_curr_key := oi_key h\<rparr>"
  have m: "mi_inv ?m" "live ?m = h # t" using mi_inv_cong [OF Suc.prems(2), of ?m] Suc.prems(2,3) by (simp_all add: mi_inv_def live_def)
  obtain mi2 where a: "advance_and_resort_min_ritor ops cfg ?m = (STATUS_OK, mi2)" "mi_inv mi2" "tuples (live mi2) = tuples (h # t) - {tup h}"
    "mi2 = ?m\<lparr>num_remaining := num_remaining mi2, ordered_iterators := ordered_iterators mi2\<rparr>"
    by (rule advance_spec [OF m]) blast
  have f: "mi_curr_key mi2 = oi_key h" "merge_buffer mi2 = merge_buffer mi" "same_params mi mi2"
    by (subst a(4), simp add: same_params_def)+
  have lo2: "live_ok (live mi2)" using a(2) by (simp add: mi_inv_def)
  obtain h' t' where n: "live mi2 = h' # t'" "oi_key h' = oi_key h" "later (oi_key h) (tuples (live mi2)) = later (oi_key h) (tuples (h # t))"
    using next_same_key [OF lo Suc.prems(4) lo2 a(3)] by metis
  have hd2: "hd (ordered_iterators mi2) = h'" using n(1) unfolding live_def by (metis hd_take list.sel(1) list.distinct(1) take_0 gr0I)
  have un: "resolve_loop (Suc fuel) malloc ops cfg mi = (if next_key_equal h' then resolve_loop fuel malloc ops cfg mi2
      else Some (STATUS_OK, mi2\<lparr>mi_curr_data := merge_accumulator_to_message (merge_buffer mi2), data_in_buffer := True\<rparr>))"
    using a(1) Suc.prems(6) nk(2) t by (simp add: o1 data_merge_definitive hd2)
  show ?case
  proof (cases "next_key_equal h'")
    case True
    have "card (tuples (live mi2)) \<le> fuel" using a(3) Suc.prems(3,7) tuples_least(1) [of h t] lo finite_tuples [of "h # t"]
      by (simp add: live_ok_def)
    from Suc.IH [OF _ a(2) n(1) True _ _ this] obtain mi' h'' t'' where
      "resolve_loop fuel malloc ops cfg mi2 = Some (STATUS_OK, mi')" "mi_inv mi'" "live mi' = h'' # t''"
      "\<not> next_key_equal h''" "oi_key h'' = oi_key h'" "later (oi_key h') (tuples (live mi')) = later (oi_key h') (tuples (live mi2))"
      "tuples (live mi') \<subseteq> tuples (live mi2)"
      "mi_curr_key mi' = oi_key h'" "mi_curr_data mi' = merge_accumulator_to_message (merge_buffer mi2)" "data_in_buffer mi'"
      "merge_buffer mi' = merge_buffer mi2" "same_params mi2 mi'" using f n(2) Suc.prems(6) by metis
    then show ?thesis using Suc.prems(1) [of mi' h'' t''] True un f n Suc.prems(3) a(3) same_params_trans [OF f(3)] by auto
  next
    case False
    let ?r = "mi2\<lparr>mi_curr_data := merge_accumulator_to_message (merge_buffer mi2), data_in_buffer := True\<rparr>"
    have "mi_inv ?r" "live ?r = h' # t'" using mi_inv_cong [OF a(2), of ?r] a(2) n(1) by (simp_all add: mi_inv_def live_def)
    then show ?thesis using Suc.prems(1) [of ?r h' t'] False un f n Suc.prems(3) a(3) by (auto simp: same_params_def)
  qed
qed

end

context merge_inputs
begin

text \<open>
  What the merged sequence holds of a set of tuples: for each key the message of the newest iterator, unless it is a delete and deletes
  are discarded.
\<close>

definition newest :: "(key \<times> int \<times> message) set \<Rightarrow> key \<Rightarrow> message \<Rightarrow> bool" where
  "newest T k m \<longleftrightarrow> (\<exists>s. (k, s, m) \<in> T \<and> (\<forall>s' m'. (k, s', m') \<in> T \<longrightarrow> (s', m') = (s, m) \<or> s' < s))"

definition emits :: "bool \<Rightarrow> (key \<times> int \<times> message) set \<Rightarrow> key \<Rightarrow> message \<Rightarrow> bool" where
  "emits dels T k m \<longleftrightarrow> newest T k m \<and> (dels \<or> msg_type m \<noteq> MESSAGE_TYPE_DELETE)"

definition good_tuples :: "(key \<times> int \<times> message) set \<Rightarrow> bool" where
  "good_tuples T \<longleftrightarrow> (\<forall>x\<in>T. good_message (snd (snd x)))"

definition no_memory :: "malloc_fn \<Rightarrow> platform_status \<Rightarrow> bool" where
  "no_memory malloc rc \<longleftrightarrow> rc = STATUS_NO_MEMORY \<and> (\<exists>n. malloc n = None)"

lemma newest_head: "live_ok (h # t) \<Longrightarrow> newest (tuples (h # t)) (oi_key h) (oi_data h)"
proof -
  assume lo: "live_ok (h # t)"
  then have lc: "live_core (h # t)" by (simp add: live_ok_def)
  have n: "\<not> klt (oi_key h) (oi_key h)" using cmp_refl [OF cur_dom [OF live_coreD(1,2) [OF lc]]] by simp
  have "(s', m') = (oi_seq h, oi_data h) \<or> s' < oi_seq h" if "(oi_key h, s', m') \<in> tuples (h # t)" for s' m'
    using tuples_least(2) [OF lc that] n by (auto simp: tlt_def tup_def)
  then show ?thesis using tuples_least(1) [OF lc] unfolding newest_def tup_def by blast
qed

text \<open>A state between calls: the current tuple is the merged tuple of the first key, whose last copy is at the first iterator.\<close>

definition shows_tuple :: "(key \<times> int \<times> message) set \<Rightarrow> 'i merge_iterator \<Rightarrow> message \<Rightarrow> bool" where
  "shows_tuple T mi m \<longleftrightarrow> num_remaining mi \<noteq> 0 \<and> newest T (mi_curr_key mi) m \<and> msg_view (mi_curr_data mi) = msg_view m
     \<and> (\<forall>x\<in>T. fst x = mi_curr_key mi \<or> klt (mi_curr_key mi) (fst x)) \<and> pending mi = later (mi_curr_key mi) T
     \<and> kdom (mi_curr_key mi)"

lemma finalize_spec:
  assumes inv: "mi_inv mi" and m: "malloc_ok malloc" and g: "good_message m" and v: "msg_view (mi_curr_data mi) = msg_view m"
    and b: "if data_in_buffer mi then mi_curr_data mi = merge_accumulator_to_message (merge_buffer mi) else mi_curr_data mi = m"
  shows "(\<exists>rc b mi'. merge_finalize_updates_and_discard_deletes malloc cfg mi = Some (rc, b, mi') \<and> no_memory malloc rc)
    \<or> (\<exists>mi'. merge_finalize_updates_and_discard_deletes malloc cfg mi = Some (STATUS_OK, msg_type m = MESSAGE_TYPE_DELETE \<and> \<not> emit_deletes mi, mi')
          \<and> mi_inv mi' \<and> live mi' = live mi \<and> mi_curr_key mi' = mi_curr_key mi \<and> msg_view (mi_curr_data mi') = msg_view m
          \<and> same_params mi mi' \<and> num_remaining mi' = num_remaining mi)"
proof -
  have ma: "ma_inv (merge_buffer mi)" using inv by (simp add: mi_inv_def)
  have mt: "msg_type (mi_curr_data mi) = msg_type m" using v by (simp add: msg_view_def)
  show ?thesis
  proof (cases "msg_type m \<noteq> MESSAGE_TYPE_INSERT \<and> finalize_updates mi")
    case False
    let ?r = "mi\<lparr>discarded_deletes := discarded_deletes mi + 1\<rparr>"
    have "mi_inv ?r" "live ?r = live mi" using inv by (simp_all add: mi_inv_def live_def)
    then show ?thesis using False mt v inv
      by (cases "msg_type m = MESSAGE_TYPE_DELETE \<and> \<not> emit_deletes mi")
        (auto simp: merge_finalize_updates_and_discard_deletes_def message_class_def same_params_def)
  next
    case True
    then have t: "message_class (mi_curr_data mi) \<noteq> MESSAGE_TYPE_INSERT" "finalize_updates mi" "msg_type m = MESSAGE_TYPE_DELETE"
      using mt g by (auto simp: message_class_def good_message_def message_is_definitive_def)
    define cp where "cp = (if data_in_buffer mi then Some (True, merge_buffer mi)
                             else merge_accumulator_copy_message malloc (merge_buffer mi) (mi_curr_data mi))"
    obtain sc ma' where c: "cp = Some (sc, ma')" "ma_inv ma'" "sc \<Longrightarrow> ma_view ma' = msg_view m" "\<not> sc \<Longrightarrow> \<exists>n. malloc n = None"
    proof (cases "data_in_buffer mi")
      case True
      then show thesis using that [of True "merge_buffer mi"] ma b v msg_view_ma [of "merge_buffer mi"] by (simp add: cp_def)
    next
      case False
      then have l: "mi_curr_data mi = m" using b by simp
      have "message_length m < 2 ^ 64 - 1" using g by (simp add: good_message_def)
      from ma_copy_ok [OF ma m this] obtain sc ma' where "merge_accumulator_copy_message malloc (merge_buffer mi) m = Some (sc, ma')" "ma_inv ma'"
        "sc \<and> ma_view ma' = msg_view m \<and> \<not> merge_accumulator_is_null ma' \<or> \<not> sc \<and> ma' = merge_buffer mi" by metis
      then show thesis using that [of sc ma'] False l copy_fails [of malloc "merge_buffer mi" m ma'] by (auto simp: cp_def)
    qed
    show ?thesis
    proof (cases sc)
      case False
      then show ?thesis using c(1,4) t by (auto simp: merge_finalize_updates_and_discard_deletes_def cp_def [symmetric] no_memory_def)
    next
      case True
      have mv: "ma_type ma' = MESSAGE_TYPE_DELETE" using c(3) [OF True] t(3) by (simp add: ma_view_def msg_view_def)
      then have d: "merge_accumulator_is_definitive ma'" by (simp add: merge_accumulator_is_definitive_def)
      let ?q = "mi\<lparr>merge_buffer := ma', mi_curr_data := merge_accumulator_to_message ma', data_in_buffer := True\<rparr>"
      let ?r = "if emit_deletes mi then ?q else ?q\<lparr>discarded_deletes := discarded_deletes mi + 1\<rparr>"
      have cl: "message_class (merge_accumulator_to_message ma') = MESSAGE_TYPE_DELETE"
        using mv by (simp add: message_class_def merge_accumulator_to_message_def message_create_def)
      have e: "merge_finalize_updates_and_discard_deletes malloc cfg mi = Some (STATUS_OK, msg_type m = MESSAGE_TYPE_DELETE \<and> \<not> emit_deletes mi, ?r)"
        using c(1) True t cl data_merge_definitive(2) [OF d]
        by (simp add: merge_finalize_updates_and_discard_deletes_def cp_def [symmetric])
      have "mi_inv ?r" "live ?r = live mi" using inv c(2) by (simp_all add: mi_inv_def live_def)
      then show ?thesis using e c(3) [OF True] msg_view_ma [of ma'] by (auto simp: same_params_def)
    qed
  qed
qed

end

context merge_inputs
begin

lemma resolve_equal_keys_spec:
  assumes inv: "mi_inv mi" and m: "malloc_ok malloc" and g: "good_tuples (tuples (live mi))" and l: "live mi = h # t"
    and c: "mi_curr_key mi = oi_key h" "mi_curr_data mi = oi_data h" and f: "card (tuples (live mi)) \<le> fuel" and nk: "next_key_equal h"
  shows "(\<exists>rc mi'. merge_resolve_equal_keys fuel malloc ops cfg mi = Some (rc, mi') \<and> no_memory malloc rc)
    \<or> (\<exists>mi' h' t'. merge_resolve_equal_keys fuel malloc ops cfg mi = Some (STATUS_OK, mi') \<and> mi_inv mi' \<and> live mi' = h' # t'
          \<and> \<not> next_key_equal h' \<and> oi_key h' = oi_key h \<and> later (oi_key h) (tuples (live mi')) = later (oi_key h) (tuples (live mi))
          \<and> tuples (live mi') \<subseteq> tuples (live mi) \<and> mi_curr_key mi' = oi_key h \<and> msg_view (mi_curr_data mi') = msg_view (oi_data h)
          \<and> data_in_buffer mi' \<and> mi_curr_data mi' = merge_accumulator_to_message (merge_buffer mi') \<and> same_params mi mi')"
proof -
  have ma: "ma_inv (merge_buffer mi)" and lc: "live_core (h # t)" using inv l by (simp_all add: mi_inv_def live_ok_def)
  have gm: "good_message (oi_data h)" using g tuples_least(1) [OF lc] l by (force simp: good_tuples_def tup_def)
  then have len: "message_length (oi_data h) < 2 ^ 64 - 1" by (simp add: good_message_def)
  from ma_copy_ok [OF ma m len] obtain sc ma' where cp: "merge_accumulator_copy_message malloc (merge_buffer mi) (oi_data h) = Some (sc, ma')"
    "ma_inv ma'" "sc \<and> ma_view ma' = msg_view (oi_data h) \<and> \<not> merge_accumulator_is_null ma' \<or> \<not> sc \<and> ma' = merge_buffer mi" by metis
  show ?thesis
  proof (cases sc)
    case False
    then show ?thesis using cp(1) copy_fails [of malloc "merge_buffer mi" "oi_data h" ma'] c(2)
      by (simp add: merge_resolve_equal_keys_def no_memory_def)
  next
    case True
    let ?m = "mi\<lparr>merge_buffer := ma'\<rparr>"
    have e: "merge_resolve_equal_keys fuel malloc ops cfg mi = resolve_loop fuel malloc ops cfg ?m"
      using cp(1) True c(2) by (simp add: merge_resolve_equal_keys_def)
    have i: "mi_inv ?m" "live ?m = h # t" "card (tuples (live ?m)) \<le> fuel" using inv l cp(2) f by (simp_all add: mi_inv_def live_def)
    have v: "ma_view ma' = msg_view (oi_data h)" using cp(3) True by simp
    then have d: "merge_accumulator_is_definitive (merge_buffer ?m)" using gm
      by (simp add: good_message_def message_is_definitive_def merge_accumulator_is_definitive_def ma_view_def msg_view_def)
    have k: "mi_curr_key ?m = oi_key h" using c(1) by simp
    obtain mi' h' t' where r: "resolve_loop fuel malloc ops cfg ?m = Some (STATUS_OK, mi')" "mi_inv mi'" "live mi' = h' # t'"
      "\<not> next_key_equal h'" "oi_key h' = oi_key h" "later (oi_key h) (tuples (live mi')) = later (oi_key h) (tuples (live ?m))"
      "tuples (live mi') \<subseteq> tuples (live ?m)" "mi_curr_key mi' = oi_key h" "mi_curr_data mi' = merge_accumulator_to_message (merge_buffer ?m)"
      "data_in_buffer mi'" "merge_buffer mi' = merge_buffer ?m" "same_params ?m mi'"
      using resolve_loop_spec [OF i(1,2) nk k d i(3)] by metis
    have "live ?m = live mi" "same_params mi ?m" by (simp_all add: live_def same_params_def)
    then have "later (oi_key h) (tuples (live mi')) = later (oi_key h) (tuples (live mi))" "tuples (live mi') \<subseteq> tuples (live mi)" "same_params mi mi'"
      using r(6,7,12) same_params_trans by metis+
    moreover have "msg_view (mi_curr_data mi') = msg_view (oi_data h)" using r(9) msg_view_ma [of ma'] v by simp
    moreover have "mi_curr_data mi' = merge_accumulator_to_message (merge_buffer mi')" using r(9,11) by simp
    ultimately show ?thesis using e r(1-5,8,10) by metis
  qed
qed

lemma advance_one_loop_spec:
  assumes inv: "mi_inv mi" and m: "malloc_ok malloc" and g: "good_tuples (tuples (live mi))" and mm: "merge_messages mi"
    and f: "card (tuples (live mi)) \<le> fuel" and ne: "num_remaining mi \<noteq> 0"
  shows "(\<exists>rc b mi'. advance_one_loop fuel malloc ops cfg mi = Some (rc, b, mi') \<and> no_memory malloc rc)
    \<or> (\<exists>mi' msg. advance_one_loop fuel malloc ops cfg mi = Some (STATUS_OK, msg_type msg = MESSAGE_TYPE_DELETE \<and> \<not> emit_deletes mi, mi')
          \<and> mi_inv mi' \<and> shows_tuple (tuples (live mi)) mi' msg \<and> same_params mi mi')"
proof -
  obtain h t where l: "live mi = h # t" using live_empty [OF inv] ne by (cases "live mi") auto
  have hd1: "hd (ordered_iterators mi) = h" using l unfolding live_def by (metis hd_take list.sel(1) list.distinct(1) take_0 gr0I)
  let ?m1 = "mi\<lparr>mi_curr_key := oi_key h, mi_curr_data := oi_data h, data_in_buffer := False\<rparr>"
  have lo: "live_ok (h # t)" using inv l by (simp add: mi_inv_def)
  have i1: "mi_inv ?m1" "live ?m1 = live mi" "same_params mi ?m1" "emit_deletes ?m1 = emit_deletes mi"
    using inv by (simp_all add: mi_inv_def live_def same_params_def)
  have lc: "live_core (h # t)" using lo by (simp add: live_ok_def)
  have gm: "good_message (oi_data h)" using g tuples_least(1) [OF lc] l by (force simp: good_tuples_def tup_def)
  have kd: "kdom (oi_key h)" by (rule cur_dom [OF live_coreD(1,2) [OF lc]])
  define st where "st = (if next_key_equal h then merge_resolve_equal_keys fuel malloc ops cfg ?m1 else Some (STATUS_OK, ?m1))"
  have un: "advance_one_loop fuel malloc ops cfg mi = Option.bind st (\<lambda>(rc, mi2). if \<not> SUCCESS rc then Some (rc, False, mi2)
      else merge_finalize_updates_and_discard_deletes malloc cfg mi2)"
    using ne mm by (simp add: advance_one_loop_def hd1 st_def)
  have fm: "card (tuples (live ?m1)) \<le> fuel" "good_tuples (tuples (live ?m1))" "live ?m1 = h # t" using f g i1(2) l by simp_all
  have st: "(\<exists>rc mi2. st = Some (rc, mi2) \<and> no_memory malloc rc) \<or>
    (\<exists>mi2 h2 t2. st = Some (STATUS_OK, mi2) \<and> mi_inv mi2 \<and> live mi2 = h2 # t2 \<and> \<not> next_key_equal h2 \<and> oi_key h2 = oi_key h
      \<and> later (oi_key h) (tuples (live mi2)) = later (oi_key h) (tuples (live mi)) \<and> mi_curr_key mi2 = oi_key h
      \<and> msg_view (mi_curr_data mi2) = msg_view (oi_data h)
      \<and> (if data_in_buffer mi2 then mi_curr_data mi2 = merge_accumulator_to_message (merge_buffer mi2) else mi_curr_data mi2 = oi_data h)
      \<and> same_params ?m1 mi2)"
  proof (cases "next_key_equal h")
    case True
    have "mi_curr_key ?m1 = oi_key h" "mi_curr_data ?m1 = oi_data h" by simp_all
    from resolve_equal_keys_spec [OF i1(1) m fm(2,3) this fm(1) True] show ?thesis unfolding st_def i1(2) using True by simp metis
  next
    case False
    then show ?thesis using i1(1) fm(3) l by (simp add: st_def same_params_def)
  qed
  then consider (fail) rc mi2 where "st = Some (rc, mi2)" "no_memory malloc rc"
    | (ok) mi2 h2 t2 where "st = Some (STATUS_OK, mi2)" "mi_inv mi2" "live mi2 = h2 # t2" "\<not> next_key_equal h2" "oi_key h2 = oi_key h"
      "later (oi_key h) (tuples (live mi2)) = later (oi_key h) (tuples (live mi))" "mi_curr_key mi2 = oi_key h"
      "msg_view (mi_curr_data mi2) = msg_view (oi_data h)"
      "if data_in_buffer mi2 then mi_curr_data mi2 = merge_accumulator_to_message (merge_buffer mi2) else mi_curr_data mi2 = oi_data h"
      "same_params ?m1 mi2" by metis
  then show ?thesis
  proof cases
    case fail
    then show ?thesis unfolding un by (auto simp: no_memory_def)
  next
    case ok
    have ed: "emit_deletes mi2 = emit_deletes mi" using ok(10) by (simp add: same_params_def)
    have e: "advance_one_loop fuel malloc ops cfg mi = merge_finalize_updates_and_discard_deletes malloc cfg mi2" unfolding un ok(1) by simp
    show ?thesis using finalize_spec [OF ok(2) m gm ok(8,9)]
    proof (elim disjE exE conjE)
      fix rc b mi'
      assume "merge_finalize_updates_and_discard_deletes malloc cfg mi2 = Some (rc, b, mi')" "no_memory malloc rc"
      then show ?thesis using e by metis
    next
      fix mi'
      assume q: "merge_finalize_updates_and_discard_deletes malloc cfg mi2
          = Some (STATUS_OK, msg_type (oi_data h) = MESSAGE_TYPE_DELETE \<and> \<not> emit_deletes mi2, mi')"
        "mi_inv mi'" "live mi' = live mi2" "mi_curr_key mi' = mi_curr_key mi2" "msg_view (mi_curr_data mi') = msg_view (oi_data h)"
        "same_params mi2 mi'" "num_remaining mi' = num_remaining mi2"
      have lo2: "live_ok (h2 # t2)" using ok(2,3) by (simp add: mi_inv_def)
      have "pending mi' = later (oi_key h) (tuples (live mi))" using pending_later [OF lo2 ok(4)] ok(3,5,6) q(3) by (simp add: pending_def)
      moreover have "num_remaining mi' \<noteq> 0" using live_empty [OF q(2)] q(3) ok(3) by simp
      moreover have "\<forall>x\<in>tuples (live mi). fst x = oi_key h \<or> klt (oi_key h) (fst x)" using key_cases(1) [OF lo] l by simp
      ultimately have "shows_tuple (tuples (live mi)) mi' (oi_data h)"
        using newest_head [OF lo] l q(4,5) ok(7) kd by (simp add: shows_tuple_def)
      moreover have "same_params mi mi'" using same_params_trans i1(3) ok(10) q(6) by blast
      ultimately show ?thesis using e q(1,2) ed by (intro disjI2 exI [of _ mi'] exI [of _ "oi_data h"]) simp
    qed
  qed
qed

end

context merge_inputs
begin

text \<open>The next tuple of the merged sequence of the tuples \<open>P\<close>, or its end.\<close>

definition shows_next :: "bool \<Rightarrow> (key \<times> int \<times> message) set \<Rightarrow> 'i merge_iterator \<Rightarrow> bool" where
  "shows_next dels P mi \<longleftrightarrow>
     (if mi_can_next mi
      then num_remaining mi \<noteq> 0 \<and> kdom (mi_curr_key mi) \<and> (\<exists>m. emits dels P (mi_curr_key mi) m \<and> msg_view (mi_curr_data mi) = msg_view m)
        \<and> (\<forall>k m. emits dels P k m \<longrightarrow> k = mi_curr_key mi \<or> klt (mi_curr_key mi) k) \<and> pending mi = later (mi_curr_key mi) P
      else \<forall>k m. \<not> emits dels P k m)"

lemma newest_later: "newest (later k P) k' m \<longleftrightarrow> newest P k' m \<and> klt k k'"
  unfolding newest_def later_def by (rule iffI; clarsimp; blast)

lemma newest_unique: "newest P k m \<Longrightarrow> newest P k m' \<Longrightarrow> m = m'"
  unfolding newest_def by (metis less_asym prod.inject)

lemma emits_later: "emits dels (later k P) k' m \<longleftrightarrow> emits dels P k' m \<and> klt k k'"
  by (auto simp: emits_def newest_later)

lemma emits_dom: "emits dels P k m \<Longrightarrow> \<forall>x\<in>P. kdom (fst x) \<Longrightarrow> kdom k"
  by (fastforce simp: emits_def newest_def)

lemma later_later: "kdom a \<Longrightarrow> kdom b \<Longrightarrow> klt a b \<Longrightarrow> \<forall>x\<in>P. kdom (fst x) \<Longrightarrow> later b (later a P) = later b P"
  unfolding later_def using cmp_trans by blast

text \<open>A discarded delete has no part in the sequence.\<close>

lemma shows_next_skip:
  assumes s: "shows_tuple P mi1 m" and d: "msg_type m = MESSAGE_TYPE_DELETE" "\<not> dels" and p: "\<forall>x\<in>P. kdom (fst x)"
    and n: "shows_next dels (later (mi_curr_key mi1) P) mi2"
  shows "shows_next dels P mi2"
proof -
  let ?k = "mi_curr_key mi1"
  have s': "newest P ?k m" "\<forall>x\<in>P. fst x = ?k \<or> klt ?k (fst x)" "kdom ?k" using s by (auto simp: shows_tuple_def)
  have "emits dels P k m' \<Longrightarrow> klt ?k k" for k m'
  proof -
    assume e: "emits dels P k m'"
    then have nw: "newest P k m'" "msg_type m' \<noteq> MESSAGE_TYPE_DELETE" using d(2) by (auto simp: emits_def)
    then have "k \<noteq> ?k" using newest_unique [OF s'(1)] d(1) by auto
    moreover have "\<exists>x\<in>P. fst x = k" using nw(1) by (force simp: newest_def)
    ultimately show "klt ?k k" using s'(2) by auto
  qed
  then have e: "emits dels (later ?k P) k m' \<longleftrightarrow> emits dels P k m'" for k m' using emits_later by blast
  show ?thesis
  proof (cases "mi_can_next mi2")
    case True
    have q: "kdom (mi_curr_key mi2)" "\<exists>m. emits dels (later ?k P) (mi_curr_key mi2) m" "pending mi2 = later (mi_curr_key mi2) (later ?k P)"
      using n True by (auto simp: shows_next_def)
    have "klt ?k (mi_curr_key mi2)" using q(2) emits_later by blast
    then have "pending mi2 = later (mi_curr_key mi2) P" using later_later [OF s'(3) q(1) _ p] q(3) by simp
    then show ?thesis using n True unfolding shows_next_def e by simp
  qed (use n in \<open>simp add: shows_next_def e\<close>)
qed

lemma shows_next_tuple:
  assumes "shows_tuple P mi m" "\<not> (msg_type m = MESSAGE_TYPE_DELETE \<and> \<not> dels)" "mi_can_next mi"
  shows "shows_next dels P mi"
proof -
  have "k = mi_curr_key mi \<or> klt (mi_curr_key mi) k" if "emits dels P k m'" for k m'
  proof -
    have "\<exists>x\<in>P. fst x = k" using that by (force simp: emits_def newest_def)
    then show ?thesis using assms(1) by (auto simp: shows_tuple_def)
  qed
  then show ?thesis using assms unfolding shows_next_def shows_tuple_def emits_def by auto
qed

lemma live_doms: "mi_inv mi \<Longrightarrow> \<forall>x\<in>tuples (live mi). kdom (fst x)"
proof (cases "live mi")
  case (Cons h t)
  then show "mi_inv mi \<Longrightarrow> ?thesis" using key_cases(2) [of h t] by (simp add: mi_inv_def)
qed (simp add: tuples_def)

lemma card_shows:
  assumes "mi_inv mi" "shows_tuple P mi m" "finite P"
  shows "card (tuples (live mi)) \<le> card P"
proof -
  have n: "num_remaining mi \<noteq> 0" "pending mi = later (mi_curr_key mi) P" "newest P (mi_curr_key mi) m" "kdom (mi_curr_key mi)"
    using assms(2) by (simp_all add: shows_tuple_def)
  obtain x where x: "x \<in> P" "fst x = mi_curr_key mi" using n(3) by (force simp: newest_def)
  then have sub: "later (mi_curr_key mi) P \<subseteq> P - {x}" using cmp_refl [OF n(4)] by (auto simp: later_def)
  have "tuples (live mi) \<subseteq> insert (tup (hd (live mi))) (later (mi_curr_key mi) P)" using n(2) by (auto simp: pending_def)
  then have "card (tuples (live mi)) \<le> card (insert (tup (hd (live mi))) (later (mi_curr_key mi) P))"
    using assms(3) by (intro card_mono) (simp_all add: later_def)
  also have "\<dots> \<le> Suc (card (later (mi_curr_key mi) P))" by (rule card_insert_le_m1) simp_all
  also have "\<dots> \<le> Suc (card (P - {x}))" using sub assms(3) by (simp add: card_mono)
  also have "\<dots> = card P" using x(1) assms(3) by (rule card_Suc_Diff1 [rotated])
  finally show ?thesis .
qed

end

definition same_mode :: "'i merge_iterator \<Rightarrow> 'i merge_iterator \<Rightarrow> bool" where
  "same_mode mi mi' \<longleftrightarrow> mi_forwards mi' = mi_forwards mi \<and> merge_messages mi' = merge_messages mi \<and> emit_deletes mi' = emit_deletes mi"

lemma same_mode_params: "same_params mi mi' \<Longrightarrow> same_mode mi mi'" "same_mode a b \<Longrightarrow> same_mode b c \<Longrightarrow> same_mode a c"
  by (simp_all add: same_mode_def same_params_def)

context merge_inputs
begin

text \<open>One step of the merge: the status of a failed allocation, or the next tuple of the tuples ahead.\<close>

definition step_result :: "malloc_fn \<Rightarrow> bool \<Rightarrow> (key \<times> int \<times> message) set \<Rightarrow> 'i merge_iterator \<Rightarrow> (platform_status \<times> 'i merge_iterator) option \<Rightarrow> bool" where
  "step_result malloc dels P mi res \<longleftrightarrow>
     (\<exists>rc mi'. res = Some (rc, mi') \<and> (no_memory malloc rc \<or> rc = STATUS_OK \<and> mi_inv mi' \<and> same_mode mi mi' \<and> shows_next dels P mi'))"

text \<open>Processing the first key and retrying after a discarded delete, the common part of creation and of a step.\<close>

lemma one_loop_result:
  assumes inv: "mi_inv mi" and m: "malloc_ok malloc" and g: "good_tuples (tuples (live mi))" and mm: "merge_messages mi"
    and f: "card (tuples (live mi)) \<le> fuel" and cn: "num_remaining mi \<noteq> 0 \<Longrightarrow> mi_can_next mi"
    and retry: "\<And>mi2. mi_inv mi2 \<Longrightarrow> good_tuples (pending mi2) \<Longrightarrow> merge_messages mi2 \<Longrightarrow> card (tuples (live mi2)) \<le> fuel \<Longrightarrow> mi_can_next mi2
      \<Longrightarrow> num_remaining mi2 \<noteq> 0 \<Longrightarrow> step_result malloc (emit_deletes mi2) (pending mi2) mi2 (k mi2)"
  shows "step_result malloc (emit_deletes mi) (tuples (live mi)) mi (Option.bind (advance_one_loop fuel malloc ops cfg mi)
    (\<lambda>(rc, retry, mi2). if \<not> SUCCESS rc then Some (rc, mi2) else if retry then k mi2 else Some (rc, mi2)))"
proof (cases "num_remaining mi = 0")
  case True
  have fw: "mi_forwards mi" using inv by (simp add: mi_inv_def)
  have "tuples (live mi) = {}" using live_empty [OF inv] True by (simp add: tuples_def)
  then have "\<not> emits (emit_deletes mi) (tuples (live mi)) k m" for k m by (simp add: emits_def newest_def)
  moreover have "mi_inv (mi\<lparr>mi_can_next := False\<rparr>)" using inv by (simp add: mi_inv_def live_def)
  ultimately show ?thesis using True fw by (simp add: step_result_def advance_one_loop_def shows_next_def same_mode_def)
next
  case False
  let ?P = "tuples (live mi)"
  show ?thesis using advance_one_loop_spec [OF inv m g mm f False]
  proof (elim disjE exE conjE)
    fix rc b mi'
    assume "advance_one_loop fuel malloc ops cfg mi = Some (rc, b, mi')" "no_memory malloc rc"
    then show ?thesis by (auto simp: step_result_def no_memory_def)
  next
    fix mi' msg
    assume a: "advance_one_loop fuel malloc ops cfg mi = Some (STATUS_OK, msg_type msg = MESSAGE_TYPE_DELETE \<and> \<not> emit_deletes mi, mi')"
      "mi_inv mi'" "shows_tuple ?P mi' msg" "same_params mi mi'"
    have cn': "mi_can_next mi'" "emit_deletes mi' = emit_deletes mi" "merge_messages mi'" using a(4) cn [OF False] mm by (simp_all add: same_params_def)
    have sm: "same_mode mi mi'" by (rule same_mode_params(1) [OF a(4)])
    show ?thesis
    proof (cases "msg_type msg = MESSAGE_TYPE_DELETE \<and> \<not> emit_deletes mi")
      case False
      then have "shows_next (emit_deletes mi) ?P mi'" using shows_next_tuple [OF a(3) _ cn'(1)] by blast
      then show ?thesis using a(1,2) sm False by (auto simp: step_result_def)
    next
      case True
      have pe: "pending mi' = later (mi_curr_key mi') ?P" "num_remaining mi' \<noteq> 0" using a(3) by (simp_all add: shows_tuple_def)
      have c: "card (tuples (live mi')) \<le> fuel" using card_shows [OF a(2,3) finite_tuples] f by simp
      have g': "good_tuples (pending mi')" using g unfolding pe(1) good_tuples_def later_def by blast
      from retry [OF a(2) g' cn'(3) c cn'(1) pe(2)] obtain rc mi2 where r: "k mi' = Some (rc, mi2)"
        "no_memory malloc rc \<or> rc = STATUS_OK \<and> mi_inv mi2 \<and> same_mode mi' mi2 \<and> shows_next (emit_deletes mi) (later (mi_curr_key mi') ?P) mi2"
        unfolding step_result_def pe(1) cn'(2) by blast
      then have "no_memory malloc rc \<or> rc = STATUS_OK \<and> mi_inv mi2 \<and> same_mode mi mi2 \<and> shows_next (emit_deletes mi) ?P mi2"
        using shows_next_skip [OF a(3) conjunct1 [OF True] conjunct2 [OF True] live_doms [OF inv]] same_mode_params(2) [OF sm] by blast
      then show ?thesis using a(1) True r(1) by (simp add: step_result_def)
    qed
  qed
qed

theorem merge_advance_spec:
  assumes "mi_inv mi" "malloc_ok malloc" "good_tuples (pending mi)" "merge_messages mi" "card (tuples (live mi)) \<le> fuel" "mi_can_next mi" "num_remaining mi \<noteq> 0"
  shows "step_result malloc (emit_deletes mi) (pending mi) mi (merge_advance_helper fuel malloc ops cfg mi)"
  using assms
proof (induction fuel arbitrary: mi)
  case 0
  then have "live mi \<noteq> []" "live_ok (live mi)" using live_empty by (simp_all add: mi_inv_def)
  then show ?case using "0.prems"(5) tuples_empty finite_tuples by simp
next
  case (Suc fuel)
  obtain h t where l: "live mi = h # t" using live_empty [OF Suc.prems(1)] Suc.prems(7) by (cases "live mi") auto
  let ?m = "mi\<lparr>mi_curr_key := NULL_KEY, mi_curr_data := NULL_MESSAGE, data_in_buffer := False\<rparr>"
  have m: "mi_inv ?m" "live ?m = h # t" using Suc.prems(1) l by (simp_all add: mi_inv_def live_def)
  obtain mi1 where a: "advance_and_resort_min_ritor ops cfg ?m = (STATUS_OK, mi1)" "mi_inv mi1" "tuples (live mi1) = tuples (h # t) - {tup h}"
    "mi1 = ?m\<lparr>num_remaining := num_remaining mi1, ordered_iterators := ordered_iterators mi1\<rparr>"
    by (rule advance_spec [OF m]) blast
  have f: "emit_deletes mi1 = emit_deletes mi" "merge_messages mi1 = merge_messages mi" "mi_can_next mi1 = mi_can_next mi" "same_mode mi mi1"
    by (subst a(4), simp add: same_mode_def)+
  have pe: "pending mi = tuples (live mi1)" using a(3) l by (simp add: pending_def)
  have lc: "live_core (h # t)" using Suc.prems(1) l by (simp add: mi_inv_def live_ok_def)
  have c: "card (tuples (live mi1)) \<le> fuel" using a(3) Suc.prems(5) l tuples_least(1) [OF lc] finite_tuples [of "h # t"] by simp
  have un: "merge_advance_helper (Suc fuel) malloc ops cfg mi = Option.bind (advance_one_loop fuel malloc ops cfg mi1)
    (\<lambda>(rc, retry, mi2). if \<not> SUCCESS rc then Some (rc, mi2) else if retry then merge_advance_helper fuel malloc ops cfg mi2 else Some (rc, mi2))"
    using a(1) by simp
  have g: "good_tuples (tuples (live mi1))" using Suc.prems(3) pe by simp
  have "step_result malloc (emit_deletes mi1) (tuples (live mi1)) mi1 (merge_advance_helper (Suc fuel) malloc ops cfg mi)"
    unfolding un
  proof (rule one_loop_result [OF a(2) Suc.prems(2) g _ c])
    show "merge_messages mi1" "num_remaining mi1 \<noteq> 0 \<Longrightarrow> mi_can_next mi1" using f(2,3) Suc.prems(4,6) by simp_all
  qed (rule Suc.IH [OF _ Suc.prems(2)])
  then obtain rc mi' where "merge_advance_helper (Suc fuel) malloc ops cfg mi = Some (rc, mi')"
    "no_memory malloc rc \<or> rc = STATUS_OK \<and> mi_inv mi' \<and> same_mode mi1 mi' \<and> shows_next (emit_deletes mi) (pending mi) mi'"
    unfolding step_result_def f(1) pe by blast
  then show ?case unfolding step_result_def using same_mode_params(2) [OF f(4)] by blast
qed

end

lemma sort_insert_set [simp]: "set (sort_insert c x ys) = insert x (set ys)"
  by (induction ys) auto

lemma sort_set [simp]: "set (platform_sort_slow c xs) = set xs"
  by (induction xs) auto

lemma sort_insert_length [simp]: "length (sort_insert c x ys) = Suc (length ys)"
  by (induction ys) auto

lemma sort_length [simp]: "length (platform_sort_slow c xs) = length xs"
  by (induction xs) auto

context merge_inputs
begin

definition split_inv :: "nat \<Rightarrow> 'i merge_iterator \<Rightarrow> bool" where
  "split_inv i mi \<longleftrightarrow> i \<le> num_remaining mi \<and> num_remaining mi \<le> length (ordered_iterators mi)
     \<and> (\<forall>j<i. cur_ok (ordered_iterators mi ! j)) \<and> (\<forall>j<length (ordered_iterators mi). num_remaining mi \<le> j \<longrightarrow> view (oi_itor (ordered_iterators mi ! j)) = [])
     \<and> (\<forall>it\<in>set (ordered_iterators mi). item_ok it \<and> \<not> next_key_equal it) \<and> distinct (map oi_seq (ordered_iterators mi)) \<and> (0 < i \<longrightarrow> mi_can_next mi)"

lemma tuples_update:
  assumes "oi_itor x = oi_itor (os ! i)" "oi_seq x = oi_seq (os ! i)" "i < length os"
  shows "tuples (os[i := x]) = tuples os"
proof -
  have e: "tuples l = {(k, s, m). \<exists>p\<in>set (map (\<lambda>it. (oi_itor it, oi_seq it)) l). snd p = s \<and> (k, m) \<in> set (view (fst p))}" for l :: "'i ordered_iterator list"
    by (auto simp: tuples_def)
  have "map (\<lambda>it. (oi_itor it, oi_seq it)) (os[i := x]) = map (\<lambda>it. (oi_itor it, oi_seq it)) os"
    using assms by (simp add: map_update list_update_same_conv)
  then show ?thesis unfolding e by simp
qed

lemma tuples_cong_set: "set os = set os' \<Longrightarrow> tuples os = tuples os'"
  by (simp add: tuples_def)

text \<open>Both moves of the loop that parts the live iterators from the exhausted ones.\<close>

lemma split_dead:
  assumes inv: "split_inv i mi" and i: "i < num_remaining mi" and nc: "\<not> iterator_can_curr ops (oi_itor (ordered_iterators mi ! i))"
  defines "os \<equiv> ordered_iterators mi" and "e \<equiv> num_remaining mi - 1"
  shows "split_inv i (mi\<lparr>mi_can_prev := a, mi_can_next := mi_can_next mi \<or> b, ordered_iterators := os[i := os ! e, e := os ! i], num_remaining := e\<rparr>)"
    "tuples (os[i := os ! e, e := os ! i]) = tuples os"
proof -
  note I = inv [unfolded split_inv_def, folded os_def]
  have l: "e < length os" "i < length os" "i \<le> e" using I i by (auto simp: e_def)
  have "ok (oi_itor (os ! i))" using I l by (simp add: item_ok_def)
  then have v: "view (oi_itor (os ! i)) = []" using can_curr_law nc by (auto simp: os_def)
  have s: "set (os[i := os ! e, e := os ! i]) = set os" by (rule set_swap [OF l(2,1)])
  show "tuples (os[i := os ! e, e := os ! i]) = tuples os" by (rule tuples_cong_set [OF s])
  have d: "distinct (map oi_seq (os[i := os ! e, e := os ! i]))"
    using I l distinct_swap [of i "map oi_seq os" e] by (simp add: map_update)
  show "split_inv i (mi\<lparr>mi_can_prev := a, mi_can_next := mi_can_next mi \<or> b, ordered_iterators := os[i := os ! e, e := os ! i], num_remaining := e\<rparr>)"
    unfolding split_inv_def using I l d s v i by (auto simp: nth_list_update e_def)
qed

lemma split_live_one:
  assumes inv: "split_inv i mi" and i: "i < num_remaining mi" and cc: "iterator_can_curr ops (oi_itor (ordered_iterators mi ! i))"
  defines "os \<equiv> ordered_iterators mi"
  shows "split_inv (i + 1) (mi\<lparr>mi_can_prev := a, mi_can_next := True, ordered_iterators := os[i := set_curr_ordered_iterator ops (os ! i)]\<rparr>)"
    "tuples (os[i := set_curr_ordered_iterator ops (os ! i)]) = tuples os"
proof -
  note I = inv [unfolded split_inv_def, folded os_def]
  let ?x = "set_curr_ordered_iterator ops (os ! i)"
  have l: "i < length os" using I i by simp
  have o: "ok (oi_itor (os ! i))" using I l by (simp add: item_ok_def)
  obtain y ys where v: "view (oi_itor (os ! i)) = y # ys" using can_curr_law [OF o] cc by (cases "view (oi_itor (os ! i))") (auto simp: os_def)
  have x: "oi_itor ?x = oi_itor (os ! i)" "oi_seq ?x = oi_seq (os ! i)" "next_key_equal ?x = next_key_equal (os ! i)" "cur_ok ?x" "item_ok ?x"
  proof -
    have io: "item_ok (os ! i)" using I l by simp
    show "oi_itor ?x = oi_itor (os ! i)" "oi_seq ?x = oi_seq (os ! i)" "next_key_equal ?x = next_key_equal (os ! i)" "cur_ok ?x"
      using curr_law [OF o v] v by (simp_all add: set_curr_ordered_iterator_def cur_ok_def split: prod.split)
    then show "item_ok ?x" using io unfolding item_ok_def by metis
  qed
  show "tuples (os[i := ?x]) = tuples os" by (rule tuples_update [OF x(1,2) l])
  have "map oi_seq (os[i := ?x]) = map oi_seq os" using x(2) l by (simp add: map_update list_update_same_conv)
  then have d: "distinct (map oi_seq (os[i := ?x]))" using I by simp
  have st: "\<forall>it\<in>set (os[i := ?x]). item_ok it \<and> \<not> next_key_equal it" using I x l set_update_subset_insert [of os i ?x] by auto
  show "split_inv (i + 1) (mi\<lparr>mi_can_prev := a, mi_can_next := True, ordered_iterators := os[i := ?x]\<rparr>)"
    unfolding split_inv_def using I d st i x l by (auto simp: nth_list_update less_Suc_eq)
qed

lemma split_live_spec:
  assumes "split_inv i mi" "num_remaining mi - i \<le> fuel"
  obtains mi' where "split_live fuel ops i mi = mi'" "split_inv (num_remaining mi') mi'" "tuples (ordered_iterators mi') = tuples (ordered_iterators mi)"
    "same_mode mi mi'" "merge_buffer mi' = merge_buffer mi"
  using assms
proof (induction fuel arbitrary: i mi thesis)
  case 0
  then have "i = num_remaining mi" by (auto simp: split_inv_def)
  then show ?case using 0 by (simp add: same_mode_def)
next
  case (Suc fuel)
  let ?os = "ordered_iterators mi" and ?last = "num_remaining mi - 1"
  let ?it = "?os ! i"
  let ?a = "mi_can_prev mi \<or> it_can_prev ops (oi_itor ?it)" and ?b = "it_can_next ops (oi_itor ?it)"
  consider (fin) "\<not> i < num_remaining mi" | (dead) "i < num_remaining mi" "\<not> iterator_can_curr ops (oi_itor ?it)"
    | (live) "i < num_remaining mi" "iterator_can_curr ops (oi_itor ?it)" by blast
  then show ?case
  proof cases
    case fin
    then have "i = num_remaining mi" using Suc.prems(2) by (auto simp: split_inv_def)
    then show ?thesis using Suc.prems by (simp add: same_mode_def)
  next
    case dead
    let ?m = "mi\<lparr>mi_can_prev := ?a, mi_can_next := mi_can_next mi \<or> ?b, ordered_iterators := ?os[i := ?os ! ?last, ?last := ?it], num_remaining := ?last\<rparr>"
    note s = split_dead(1) [OF Suc.prems(2) dead, of ?b ?a] split_dead(2) [OF Suc.prems(2) dead]
    have "num_remaining ?m - i \<le> fuel" using Suc.prems(3) by simp
    from Suc.IH [OF _ s(1) this] obtain mi' where r: "split_live fuel ops i ?m = mi'" "split_inv (num_remaining mi') mi'"
      "tuples (ordered_iterators mi') = tuples (ordered_iterators ?m)" "same_mode ?m mi'" "merge_buffer mi' = merge_buffer ?m" by blast
    have "split_live (Suc fuel) ops i mi = mi'" using dead r(1) by (simp add: Let_def)
    then show ?thesis using Suc.prems(1) [of mi'] r s(2) by (simp add: same_mode_def)
  next
    case live
    let ?m = "mi\<lparr>mi_can_prev := ?a, mi_can_next := True, ordered_iterators := ?os[i := set_curr_ordered_iterator ops ?it]\<rparr>"
    note s = split_live_one(1) [OF Suc.prems(2) live, of ?a] split_live_one(2) [OF Suc.prems(2) live]
    have "num_remaining ?m - (i + 1) \<le> fuel" using Suc.prems(3) by simp
    from Suc.IH [OF _ s(1) this] obtain mi' where r: "split_live fuel ops (i + 1) ?m = mi'" "split_inv (num_remaining mi') mi'"
      "tuples (ordered_iterators mi') = tuples (ordered_iterators ?m)" "same_mode ?m mi'" "merge_buffer mi' = merge_buffer ?m" by blast
    have "?b" using live(2) by (simp add: iterator_can_curr_def)
    then have "split_live (Suc fuel) ops i mi = mi'" using live r(1) by (simp add: Let_def)
    then show ?thesis using Suc.prems(1) [of mi'] r s(2) by (simp add: same_mode_def)
  qed
qed

end

context merge_inputs
begin

lemma sort_insert_ok:
  assumes "sorted_wrt oi_lt ys" "\<forall>y\<in>set (x # ys). kdom (oi_key y)" "distinct (map oi_seq (x # ys))"
  shows "sorted_wrt oi_lt (sort_insert (merge_comp cfg True) x ys) \<and> distinct (map oi_seq (sort_insert (merge_comp cfg True) x ys))"
  using assms
proof (induction ys)
  case (Cons y ys)
  have k: "kdom (oi_key x)" "kdom (oi_key y)" "oi_seq x \<noteq> oi_seq y" using Cons.prems(2,3) by auto
  have c: "merge_comp cfg True x y \<le> 0 \<longleftrightarrow> oi_lt x y" "\<not> oi_lt x y \<Longrightarrow> oi_lt y x"
    using bsearch_comp_forward(2,3) [OF k] oi_lt_total [OF k] oi_lt_asym [OF k(1,2)] unfolding merge_comp_def by linarith+
  show ?case
  proof (cases "oi_lt x y")
    case True
    then have "\<forall>z\<in>set ys. oi_lt x z" using oi_lt_trans [OF k(1,2) _ True] Cons.prems(1,2) by simp
    then show ?thesis using True c Cons.prems by simp
  next
    case False
    then show ?thesis using c Cons by auto
  qed
qed simp

lemma sort_ok:
  assumes "\<forall>y\<in>set xs. kdom (oi_key y)" "distinct (map oi_seq xs)"
  shows "sorted_wrt oi_lt (platform_sort_slow (merge_comp cfg True) xs) \<and> distinct (map oi_seq (platform_sort_slow (merge_comp cfg True) xs))"
  using assms
proof (induction xs)
  case (Cons x xs)
  let ?s = "platform_sort_slow (merge_comp cfg True) xs"
  have "oi_seq x \<notin> oi_seq ` set ?s" using Cons.prems(2) by simp
  then have "distinct (map oi_seq (x # ?s))" using Cons by simp
  then show ?case using sort_insert_ok [of ?s x] Cons by simp
qed simp

lemma flags_ok_Cons: "flags_ok (x # l) \<longleftrightarrow> (next_key_equal x \<longleftrightarrow> l \<noteq> [] \<and> oi_key x = oi_key (hd l)) \<and> flags_ok l"
  unfolding flags_ok_def by (cases l) (simp_all add: All_less_Suc2)

lemma set_equal_flags_erase: "map erase (set_equal_flags cfg os) = map erase os"
  by (induction os rule: induct_list012) simp_all

lemma set_equal_flags_ok:
  assumes "\<forall>y\<in>set os. kdom (oi_key y) \<and> \<not> next_key_equal y"
  shows "flags_ok (set_equal_flags cfg os)"
  using assms
proof (induction os rule: induct_list012)
  case (3 x y os)
  let ?l = "set_equal_flags cfg (y # os)"
  have l: "?l \<noteq> []" "oi_key (hd ?l) = oi_key y" by (cases os, simp_all)+
  show ?case using 3 l cmp_eq [of "oi_key x" "oi_key y"] by (simp add: flags_ok_Cons)
qed (simp_all add: flags_ok_def)

text \<open>Setting up the iterators and showing the first tuple.\<close>

lemma setup_result:
  assumes "split_inv 0 (mi\<lparr>mi_can_prev := False, mi_can_next := False, num_remaining := num_trees mi\<rparr>)" "num_trees mi = length (ordered_iterators mi)"
    and fw: "mi_forwards mi" and m: "malloc_ok malloc" and g: "good_tuples (tuples (ordered_iterators mi))" and mm: "merge_messages mi"
    and f: "card (tuples (ordered_iterators mi)) \<le> fuel" and ma: "ma_inv (merge_buffer mi)"
  shows "step_result malloc (emit_deletes mi) (tuples (ordered_iterators mi)) mi (setup_ordered_iterators fuel malloc ops cfg mi)"
proof -
  let ?m0 = "mi\<lparr>mi_can_prev := False, mi_can_next := False, num_remaining := num_trees mi\<rparr>"
  have le: "num_remaining ?m0 - 0 \<le> num_trees mi" by simp
  obtain mi1 where s: "split_live (num_trees mi) ops 0 ?m0 = mi1" "split_inv (num_remaining mi1) mi1"
    "tuples (ordered_iterators mi1) = tuples (ordered_iterators ?m0)" "same_mode ?m0 mi1" "merge_buffer mi1 = merge_buffer ?m0"
    by (rule split_live_spec [OF assms(1) le]) blast
  define n where "n = num_remaining mi1"
  note I = s(2) [unfolded split_inv_def, folded n_def]
  let ?os = "ordered_iterators mi1"
  define l0 where "l0 = take n ?os"
  have fw1: "mi_forwards mi1" using s(4) fw by (simp add: same_mode_def)
  have it: "\<forall>it\<in>set l0. item_ok it \<and> cur_ok it \<and> \<not> next_key_equal it"
    using I by (auto simp: l0_def in_set_conv_nth dest: in_set_takeD)
  then have kd: "\<forall>it\<in>set l0. kdom (oi_key it)" using cur_dom by blast
  have ds: "distinct (map oi_seq l0)" using I by (simp add: l0_def take_map [symmetric])
  define l1 where "l1 = platform_sort_slow (merge_comp cfg True) l0"
  have so: "sorted_wrt oi_lt l1" "distinct (map oi_seq l1)" "set l1 = set l0" "length l1 = n"
    using sort_ok [OF kd ds] I by (simp_all add: l1_def l0_def)
  define l2 where "l2 = set_equal_flags cfg l1"
  have "live_core l1" using so it by (simp add: live_core_def)
  then have lo: "live_ok l2" using erased_eq(1) [OF set_equal_flags_erase [of l1]] set_equal_flags_ok [of l1] kd it so(3)
    by (simp add: live_ok_def l2_def)
  have ln: "length l2 = n" using erased_eq(3) [OF set_equal_flags_erase [of l1]] so(4) by (simp add: l2_def)
  have tl2: "tuples l2 = tuples (ordered_iterators mi)"
  proof -
    have "view (oi_itor it) = []" if "it \<in> set (drop n ?os)" for it using that I by (auto simp: in_set_conv_nth)
    then have "tuples (drop n ?os) = {}" by (auto simp: tuples_def)
    moreover have "tuples (take n ?os @ drop n ?os) = tuples (take n ?os) \<union> tuples (drop n ?os)" unfolding tuples_def set_append by blast
    ultimately have "tuples l0 = tuples ?os" by (simp add: l0_def)
    moreover have "tuples l2 = tuples l1" using erased_eq(2) [OF set_equal_flags_erase] by (simp add: l2_def)
    ultimately show ?thesis using tuples_cong_set [OF so(3)] s(3) by simp
  qed
  define mi2 where "mi2 = mi1\<lparr>ordered_iterators := l2 @ drop n ?os\<rparr>"
  have lv: "live mi2 = l2" using ln by (simp add: live_def mi2_def n_def)
  have inv2: "mi_inv mi2" using lo lv fw1 I s(5) ma ln by (simp add: mi_inv_def mi2_def n_def)
  have e2: "emit_deletes mi2 = emit_deletes mi" "merge_messages mi2" "same_mode mi mi2" "num_remaining mi2 \<noteq> 0 \<Longrightarrow> mi_can_next mi2"
    using s(4) mm I by (simp_all add: same_mode_def mi2_def n_def)
  have un: "setup_ordered_iterators fuel malloc ops cfg mi = Option.bind (advance_one_loop fuel malloc ops cfg mi2)
    (\<lambda>(rc, retry, mi2). if \<not> SUCCESS rc then Some (rc, mi2) else if retry then merge_advance_helper fuel malloc ops cfg mi2 else Some (rc, mi2))"
    unfolding setup_ordered_iterators_def s(1) Let_def n_def [symmetric] fw1 l0_def [symmetric] using fw1
    by (simp add: l1_def [symmetric] l2_def [symmetric] mi2_def [symmetric]) (rule arg_cong [where f = "Option.bind _"]; auto simp: fun_eq_iff)
  have g2: "good_tuples (tuples (live mi2))" "card (tuples (live mi2)) \<le> fuel" using g f lv tl2 by simp_all
  have "step_result malloc (emit_deletes mi2) (tuples (live mi2)) mi2 (setup_ordered_iterators fuel malloc ops cfg mi)"
    unfolding un by (rule one_loop_result [OF inv2 m g2(1) e2(2) g2(2) e2(4)]) (assumption, rule merge_advance_spec [OF _ m])
  then show ?thesis using same_mode_params(2) [OF e2(3)] unfolding step_result_def e2(1) lv tl2 by blast
qed

end

text \<open>A client that reads the merged sequence: the current tuple and \<open>merge_next\<close> while \<open>can_next\<close>.\<close>

fun merge_drain ::
  "nat \<Rightarrow> nat \<Rightarrow> malloc_fn \<Rightarrow> 'i iterator_ops \<Rightarrow> data_config \<Rightarrow> 'i merge_iterator
     \<Rightarrow> (platform_status \<times> (key \<times> message_type \<times> bytes) list) option" where
  "merge_drain 0 fuel malloc ops cfg mi = None"
| "merge_drain (Suc n) fuel malloc ops cfg mi =
     (if \<not> mi_can_next mi then Some (STATUS_OK, [])
      else
        let x = (fst (merge_curr mi), msg_view (snd (merge_curr mi)))
        in do {
          (rc, mi1) \<leftarrow> merge_next fuel malloc ops cfg mi;
          if \<not> SUCCESS rc then Some (rc, [x])
          else do {
            (rc, xs) \<leftarrow> merge_drain n fuel malloc ops cfg mi1;
            Some (rc, x # xs)
          }
        })"

definition merge_read ::
  "nat \<Rightarrow> nat \<Rightarrow> malloc_fn \<Rightarrow> 'i iterator_ops \<Rightarrow> data_config \<Rightarrow> 'i list \<Rightarrow> merge_behavior
     \<Rightarrow> (platform_status \<times> (key \<times> message_type \<times> bytes) list) option" where
  "merge_read n fuel malloc ops cfg itors mode = do {
     (rc, mi) \<leftarrow> merge_iterator_create fuel malloc ops cfg itors mode True;
     (case mi of None \<Rightarrow> Some (rc, []) | Some mi \<Rightarrow> merge_drain n fuel malloc ops cfg mi)
   }"

context merge_inputs
begin

lemma pending_subset: "shows_next dels P mi \<Longrightarrow> mi_can_next mi \<Longrightarrow> finite P \<Longrightarrow> card (pending mi) < card P"
proof -
  assume s: "shows_next dels P mi" "mi_can_next mi" and fin: "finite P"
  then have p: "pending mi = later (mi_curr_key mi) P" "kdom (mi_curr_key mi)" and "\<exists>m. emits dels P (mi_curr_key mi) m" by (auto simp: shows_next_def)
  then obtain x where x: "x \<in> P" "fst x = mi_curr_key mi" by (force simp: emits_def newest_def)
  then have "later (mi_curr_key mi) P \<subseteq> P - {x}" using cmp_refl [OF p(2)] by (auto simp: later_def)
  then have "card (pending mi) \<le> card (P - {x})" using fin p(1) by (simp add: card_mono)
  then show ?thesis using x(1) fin card_Diff1_less [of P x] by simp
qed

definition ends_with :: "malloc_fn \<Rightarrow> bool \<Rightarrow> (key \<times> int \<times> message) set \<Rightarrow> (platform_status \<times> (key \<times> message_type \<times> bytes) list) option \<Rightarrow> bool" where
  "ends_with malloc dels P res \<longleftrightarrow> (\<exists>rc xs. res = Some (rc, xs) \<and> (no_memory malloc rc \<or> rc = STATUS_OK \<and>
     sorted_wrt (\<lambda>a b. klt (fst a) (fst b)) xs \<and> (\<forall>k v. (k, v) \<in> set xs \<longleftrightarrow> (\<exists>m. emits dels P k m \<and> v = msg_view m))))"

lemma merge_drain_spec:
  assumes "mi_inv mi" "malloc_ok malloc" "good_tuples P" "merge_messages mi" "finite P" "card P < n" "card P \<le> fuel" "shows_next (emit_deletes mi) P mi"
    "\<forall>x\<in>P. kdom (fst x)"
  shows "ends_with malloc (emit_deletes mi) P (merge_drain n fuel malloc ops cfg mi)"
  using assms
proof (induction n arbitrary: mi P)
  case (Suc n)
  let ?d = "emit_deletes mi" and ?k = "mi_curr_key mi"
  note sn = Suc.prems(8)
  show ?case
  proof (cases "mi_can_next mi")
    case False
    then show ?thesis using sn by (simp add: ends_with_def shows_next_def)
  next
    case True
    let ?P = "pending mi"
    have s: "num_remaining mi \<noteq> 0" "kdom ?k" "?P = later ?k P" using sn True by (simp_all add: shows_next_def)
    obtain m where m: "emits ?d P ?k m" "msg_view (mi_curr_data mi) = msg_view m" using sn True by (auto simp: shows_next_def)
    have le: "\<And>k m. emits ?d P k m \<Longrightarrow> k = ?k \<or> klt ?k k" using sn True unfolding shows_next_def by metis
    have fw: "mi_forwards mi" using Suc.prems(1) by (simp add: mi_inv_def)
    have P: "good_tuples ?P" "\<forall>x\<in>?P. kdom (fst x)" "finite ?P" using Suc.prems(3,5,9) s(3) by (simp_all add: good_tuples_def later_def)
    have c: "card ?P < card P" by (rule pending_subset [OF sn True Suc.prems(5)])
    have ct: "card (tuples (live mi)) \<le> fuel"
    proof -
      have "tuples (live mi) \<subseteq> insert (tup (hd (live mi))) ?P" by (auto simp: pending_def)
      then have "card (tuples (live mi)) \<le> Suc (card ?P)" using P(3) card_mono [of "insert (tup (hd (live mi))) ?P" "tuples (live mi)"] card_insert_le_m1 [of "Suc (card ?P)" ?P "tup (hd (live mi))"] by simp
      then show ?thesis using c Suc.prems(7) by simp
    qed
    obtain rc mi1 where r: "merge_next fuel malloc ops cfg mi = Some (rc, mi1)"
      "no_memory malloc rc \<or> rc = STATUS_OK \<and> mi_inv mi1 \<and> same_mode mi mi1 \<and> shows_next ?d ?P mi1"
      using merge_advance_spec [OF Suc.prems(1,2) P(1) Suc.prems(4) ct True s(1)] fw unfolding step_result_def merge_next_def by simp metis
    show ?thesis
    proof (cases "no_memory malloc rc")
      case nm: True
      then have "rc \<noteq> STATUS_OK" by (simp add: no_memory_def)
      then have "merge_drain (Suc n) fuel malloc ops cfg mi = Some (rc, [(?k, msg_view (mi_curr_data mi))])"
        using True r(1) by (simp add: merge_curr_def SUCCESS_def)
      then show ?thesis unfolding ends_with_def using nm by blast
    next
      case False
      then have q: "rc = STATUS_OK" "mi_inv mi1" "same_mode mi mi1" "shows_next ?d ?P mi1" using r(2) by auto
      have e1: "emit_deletes mi1 = ?d" "merge_messages mi1" using q(3) Suc.prems(4) by (simp_all add: same_mode_def)
      have "ends_with malloc ?d ?P (merge_drain n fuel malloc ops cfg mi1)"
      proof -
        have "card ?P < n" "card ?P \<le> fuel" "shows_next (emit_deletes mi1) ?P mi1" using q(4) e1(1) c Suc.prems(6,7) by simp_all
        from Suc.IH [OF q(2) Suc.prems(2) P(1) e1(2) P(3) this P(2)] show ?thesis unfolding e1(1) .
      qed
      then obtain rc' xs where d: "merge_drain n fuel malloc ops cfg mi1 = Some (rc', xs)"
        "no_memory malloc rc' \<or> rc' = STATUS_OK \<and> sorted_wrt (\<lambda>a b. klt (fst a) (fst b)) xs
          \<and> (\<forall>k v. (k, v) \<in> set xs \<longleftrightarrow> (\<exists>m. emits ?d ?P k m \<and> v = msg_view m))" unfolding ends_with_def by blast
      let ?x = "(?k, msg_view m)"
      have un: "merge_drain (Suc n) fuel malloc ops cfg mi = Some (rc', ?x # xs)" using True r(1) q(1) d(1) m(2) by (simp add: merge_curr_def)
      show ?thesis
      proof (cases "no_memory malloc rc'")
        case False
        then have x: "rc' = STATUS_OK" "sorted_wrt (\<lambda>a b. klt (fst a) (fst b)) xs"
          "\<And>k v. (k, v) \<in> set xs \<longleftrightarrow> (\<exists>m. emits ?d ?P k m \<and> v = msg_view m)" using d(2) by auto
        have em: "emits ?d ?P k m' \<longleftrightarrow> emits ?d P k m' \<and> klt ?k k" for k m' using emits_later s(3) by simp
        have irr: "\<not> klt ?k ?k" using cmp_refl [OF s(2)] by simp
        have "klt ?k (fst y)" if "y \<in> set xs" for y 
        proof -
          have "(fst y, snd y) \<in> set xs" using that by simp
          then show ?thesis unfolding x(3) em by blast
        qed
        moreover have "(k, v) \<in> set (?x # xs) \<longleftrightarrow> (\<exists>m. emits ?d P k m \<and> v = msg_view m)" for k v
        proof (cases "k = ?k")
          case True
          have "emits ?d P ?k m' \<Longrightarrow> m' = m" for m' using m(1) newest_unique by (auto simp: emits_def)
          then have a: "(\<exists>m. emits ?d P k m \<and> v = msg_view m) \<longleftrightarrow> v = msg_view m" using m(1) True by blast
          have "(k, v) \<notin> set xs" unfolding x(3) em using irr True by blast
          then show ?thesis unfolding a using True by simp
        next
          case False
          then have "(\<exists>m. emits ?d P k m \<and> v = msg_view m) \<longleftrightarrow> (\<exists>m. emits ?d ?P k m \<and> v = msg_view m)" unfolding em using le by blast
          then show ?thesis using False x(3) [of k v] by simp
        qed
        ultimately show ?thesis using un x(1,2) unfolding ends_with_def by (intro exI [of _ rc'] exI [of _ "?x # xs"] conjI) simp_all
      next
        case nm: True
        show ?thesis unfolding ends_with_def un using nm by blast
      qed
    qed
  qed
qed simp

end

text \<open>The newest message of a key in inputs whose later ones are newer: the first hit in the reversed list.\<close>

definition newest_message :: "(key \<times> message) list list \<Rightarrow> key \<rightharpoonup> message" where
  "newest_message views = map_of (concat (rev views))"

lemma newest_message_Nil [simp]: "newest_message [] = Map.empty"
  by (simp add: newest_message_def)

lemma newest_message_snoc: "newest_message (vs @ [v]) k = (case map_of v k of None \<Rightarrow> newest_message vs k | Some m \<Rightarrow> Some m)"
  by (simp add: newest_message_def map_add_def split: option.split)

text \<open>What the merge of the inputs holds: deletes are kept or dropped.\<close>

definition merged :: "bool \<Rightarrow> (key \<times> message) list list \<Rightarrow> key \<rightharpoonup> message_type \<times> bytes" where
  "merged dels views k = (case newest_message views k of None \<Rightarrow> None
     | Some m \<Rightarrow> if dels \<or> msg_type m \<noteq> MESSAGE_TYPE_DELETE then Some (msg_view m) else None)"

definition numbered :: "(key \<times> message) list list \<Rightarrow> (key \<times> int \<times> message) set" where
  "numbered vs = {(k, int i, m) | k i m. i < length vs \<and> (k, m) \<in> set (vs ! i)}"

lemma numbered_iff: "(k, s, m) \<in> numbered vs \<longleftrightarrow> (\<exists>i<length vs. s = int i \<and> (k, m) \<in> set (vs ! i))"
  by (auto simp: numbered_def)

lemma numbered_snoc: "(k, s, m) \<in> numbered (vs @ [v]) \<longleftrightarrow> (k, s, m) \<in> numbered vs \<or> s = int (length vs) \<and> (k, m) \<in> set v"
  unfolding numbered_iff by (simp add: Ex_less_Suc nth_append disj_commute conj_commute cong: conj_cong)

lemma map_of_determined: "distinct (map fst xs) \<Longrightarrow> \<forall>k v. (k, v) \<in> set xs \<longleftrightarrow> f k = Some v \<Longrightarrow> map_of xs = f"
  by (rule map_le_antisym) (auto simp: map_le_def dom_def)

context merge_inputs
begin

lemma newest_numbered:
  assumes "\<forall>v\<in>set vs. distinct (map fst v)"
  shows "newest (numbered vs) k m \<longleftrightarrow> newest_message vs k = Some m"
  using assms
proof (induction vs rule: rev_induct)
  case Nil
  then show ?case by (simp add: newest_def numbered_def)
next
  case (snoc v vs)
  let ?n = "int (length vs)"
  have old: "(k, s, m) \<in> numbered vs \<Longrightarrow> s < ?n" for s m by (auto simp: numbered_def)
  have dv: "distinct (map fst v)" using snoc.prems by simp
  have new: "(k, s, m) \<in> numbered (vs @ [v]) \<longleftrightarrow> (k, s, m) \<in> numbered vs \<or> s = ?n \<and> (k, m) \<in> set v" for s m
    by (rule numbered_snoc)
  show ?case
  proof (cases "map_of v k")
    case None
    then have "(k, m) \<notin> set v" for m by (force simp: map_of_eq_None_iff)
    then have "newest (numbered (vs @ [v])) k m = newest (numbered vs) k m" unfolding newest_def new by blast
    then show ?thesis using snoc None by (simp add: newest_message_snoc)
  next
    case (Some m0)
    then have i: "(k, m') \<in> set v \<longleftrightarrow> m' = m0" for m' using map_of_eq_Some_iff [OF dv, of k m'] by auto
    have "newest (numbered (vs @ [v])) k m \<longleftrightarrow> m = m0"
    proof
      assume "newest (numbered (vs @ [v])) k m"
      then obtain s where s: "(k, s, m) \<in> numbered (vs @ [v])" "\<forall>s' m'. (k, s', m') \<in> numbered (vs @ [v]) \<longrightarrow> (s', m') = (s, m) \<or> s' < s"
        unfolding newest_def by blast
      have "(k, ?n, m0) \<in> numbered (vs @ [v])" using new i by blast
      then have "(?n, m0) = (s, m) \<or> ?n < s" using s(2) by blast
      moreover have "s \<le> ?n" using s(1) old new by force
      ultimately show "m = m0" by auto
    next
      assume "m = m0"
      then show "newest (numbered (vs @ [v])) k m" unfolding newest_def new using i old by (intro exI [of _ ?n]) auto
    qed
    then show ?thesis using Some by (auto simp: newest_message_snoc)
  qed
qed

definition input_ok :: "'i \<Rightarrow> bool" where
  "input_ok i \<longleftrightarrow> ok i \<and> sorted_wrt (\<lambda>a b. klt (fst a) (fst b)) (view i) \<and> (\<forall>x\<in>set (view i). kdom (fst x) \<and> good_message (snd x))"

lemma sorted_distinct: "sorted_wrt (\<lambda>a b. klt (fst a) (fst b)) l \<Longrightarrow> \<forall>x\<in>set l. kdom (fst x) \<Longrightarrow> distinct (map fst l)"
proof (induction l)
  case (Cons x l)
  then have "klt (fst x) (fst y)" if "y \<in> set l" for y using that by simp
  then show ?case using Cons cmp_refl [of "fst x"] by fastforce
qed simp

text \<open>
  Merging in forward direction. With a heap that can fail the only other result is \<open>STATUS_NO_MEMORY\<close>; \<open>n\<close> and \<open>fuel\<close> need only be
  larger than the number of tuples.
\<close>

lemma card_numbered: "finite (numbered vs)" "card (numbered vs) \<le> sum_list (map length vs)"
proof -
  have a: "numbered vs = (\<Union>i\<in>{..<length vs}. (\<lambda>(k, m). (k, int i, m)) ` set (vs ! i))" by (force simp: numbered_def)
  then show "finite (numbered vs)" by simp
  have "card (numbered vs) \<le> (\<Sum>i<length vs. card ((\<lambda>(k, m). (k, int i, m)) ` set (vs ! i)))" unfolding a by (rule card_UN_le) simp
  also have "\<dots> \<le> (\<Sum>i<length vs. length (vs ! i))"
    by (rule sum_mono) (meson card_image_le card_length finite_set order_trans)
  also have "\<dots> = sum_list (map length vs)" by (simp add: sum_list_sum_nth atLeast0LessThan)
  finally show "card (numbered vs) \<le> sum_list (map length vs)" .
qed

lemma emits_merged:
  assumes "\<forall>v\<in>set vs. distinct (map fst v)"
  shows "(\<exists>m. emits dels (numbered vs) k m \<and> v = msg_view m) \<longleftrightarrow> merged dels vs k = Some v"
  unfolding emits_def newest_numbered [OF assms] merged_def by (cases "newest_message vs k") auto

theorem merge_read_spec:
  assumes m: "malloc_ok malloc" and i: "\<forall>i\<in>set itors. input_ok i" and n: "length itors < MAX_MERGE_ARITY" and mode: "mode \<noteq> MERGE_RAW"
    and f: "sum_list (map (length \<circ> view) itors) < n" "sum_list (map (length \<circ> view) itors) \<le> fuel"
  obtains rc xs where "merge_read n fuel malloc ops cfg itors mode = Some (rc, xs)"
    "rc = STATUS_NO_MEMORY \<and> (\<exists>sz. malloc sz = None) \<or> rc = STATUS_OK \<and> sorted_wrt (\<lambda>a b. klt (fst a) (fst b)) xs
       \<and> map_of xs = merged (mode \<noteq> MERGE_FULL) (map view itors)"
proof -
  let ?vs = "map view itors" and ?d = "mode \<noteq> MERGE_FULL"
  let ?os = "map (\<lambda>i. \<lparr>oi_itor = itors ! i, oi_seq = int i, oi_key = NULL_KEY, oi_data = NULL_MESSAGE, next_key_equal = False\<rparr>) [0..<length itors]"
  define mi where "mi = \<lparr>num_trees = length itors, merge_messages = (mode \<noteq> MERGE_RAW), finalize_updates = (mode = MERGE_FULL),
                  emit_deletes = (mode \<noteq> MERGE_FULL), mi_can_prev = False, mi_can_next = False, num_remaining = 0,
                  mi_curr_key = NULL_KEY, mi_curr_data = NULL_MESSAGE, data_in_buffer = False, mi_forwards = True,
                  ordered_iterators = ?os, discarded_deletes = 0, merge_buffer = merge_accumulator_init\<rparr>"
  have cr: "merge_iterator_create fuel malloc ops cfg itors mode True
      = map_option (\<lambda>(rc, mi1). if SUCCESS rc then (rc, Some mi1) else (rc, None)) (setup_ordered_iterators fuel malloc ops cfg mi)"
    using n by (simp add: merge_iterator_create_def mi_def)
  have T: "tuples (ordered_iterators mi) = numbered ?vs" unfolding mi_def tuples_def numbered_def by (force simp: image_iff)
  have fin: "finite (numbered ?vs)" and cd: "card (numbered ?vs) \<le> fuel" "card (numbered ?vs) < n"
    using card_numbered [of ?vs] f by simp_all
  have it: "\<forall>i<length itors. input_ok (itors ! i)" using i by simp
  have kd: "\<forall>x\<in>numbered ?vs. kdom (fst x)" and gd: "good_tuples (numbered ?vs)"
    using it unfolding good_tuples_def by (fastforce simp: numbered_def input_ok_def)+
  have "split_inv 0 (mi\<lparr>mi_can_prev := False, mi_can_next := False, num_remaining := num_trees mi\<rparr>)"
    using it by (auto simp: split_inv_def mi_def item_ok_def input_ok_def comp_def distinct_map inj_on_def)
  then have "step_result malloc (emit_deletes mi) (numbered ?vs) mi (setup_ordered_iterators fuel malloc ops cfg mi)"
    using setup_result [of mi malloc fuel] m gd cd mode ma_inv_init unfolding T by (simp add: mi_def)
  then obtain rc mi' where s: "setup_ordered_iterators fuel malloc ops cfg mi = Some (rc, mi')"
    "no_memory malloc rc \<or> rc = STATUS_OK \<and> mi_inv mi' \<and> same_mode mi mi' \<and> shows_next ?d (numbered ?vs) mi'"
    unfolding step_result_def by (auto simp: mi_def)
  show thesis
  proof (cases "no_memory malloc rc")
    case True
    then have "merge_read n fuel malloc ops cfg itors mode = Some (rc, [])" using s(1) cr by (simp add: merge_read_def no_memory_def)
    then show thesis using that True by (simp add: no_memory_def)
  next
    case False
    then have q: "rc = STATUS_OK" "mi_inv mi'" "emit_deletes mi' = ?d" "merge_messages mi'" "shows_next ?d (numbered ?vs) mi'"
      using s(2) mode by (auto simp: same_mode_def mi_def)
    have r: "merge_read n fuel malloc ops cfg itors mode = merge_drain n fuel malloc ops cfg mi'" using s(1) cr q(1) by (simp add: merge_read_def)
    have "ends_with malloc ?d (numbered ?vs) (merge_drain n fuel malloc ops cfg mi')"
      using merge_drain_spec [OF q(2) m gd q(4) fin cd(2,1) _ kd] q(3,5) by simp
    then obtain rc' xs where x: "merge_drain n fuel malloc ops cfg mi' = Some (rc', xs)" "no_memory malloc rc' \<or> rc' = STATUS_OK \<and>
      sorted_wrt (\<lambda>a b. klt (fst a) (fst b)) xs \<and> (\<forall>k v. (k, v) \<in> set xs \<longleftrightarrow> (\<exists>m. emits ?d (numbered ?vs) k m \<and> v = msg_view m))"
      unfolding ends_with_def by blast
    have dv: "\<forall>v\<in>set ?vs. distinct (map fst v)" 
    proof
      fix v
      assume "v \<in> set ?vs"
      then obtain x where "x \<in> set itors" "v = view x" by auto
      then show "distinct (map fst v)" using i sorted_distinct [of v] by (simp add: input_ok_def)
    qed
    show thesis
    proof (cases "no_memory malloc rc'")
      case True
      then show thesis using that [OF r [unfolded x(1)]] by (simp add: no_memory_def)
    next
      case False
      then have y: "rc' = STATUS_OK" "sorted_wrt (\<lambda>a b. klt (fst a) (fst b)) xs"
        "\<forall>k v. (k, v) \<in> set xs \<longleftrightarrow> (\<exists>m. emits ?d (numbered ?vs) k m \<and> v = msg_view m)" using x(2) by blast+
      have kx: "kdom (fst x)" if "x \<in> set xs" for x
      proof -
        have "(fst x, snd x) \<in> set xs" using that by simp
        then show ?thesis using y(3) emits_dom [OF _ kd] by blast
      qed
      have "map_of xs = merged ?d ?vs"
        by (rule map_of_determined [OF sorted_distinct [OF y(2)]]) (use kx y(3) emits_merged [OF dv] in simp_all)
      then show thesis using that [OF r [unfolded x(1)]] y(1,2) by blast
    qed
  qed
qed

end

section \<open>Changing direction\<close>

text \<open>Iterators over a list, to run the merge on small inputs: the position ranges from \<open>-1\<close> to the length.\<close>

definition list_iterator_ops :: "((key \<times> message) list \<times> int) iterator_ops" where
  "list_iterator_ops = \<lparr>it_curr = (\<lambda>(xs, p). xs ! nat p), it_can_prev = (\<lambda>(xs, p). p \<ge> 0), it_can_next = (\<lambda>(xs, p). p < int (length xs)),
     it_next = (\<lambda>(xs, p). (STATUS_OK, (xs, p + 1))), it_prev = (\<lambda>(xs, p). (STATUS_OK, (xs, p - 1)))\<rparr>"

definition put_tuple :: "byte \<Rightarrow> byte \<Rightarrow> key \<times> message" where
  "put_tuple k v = (key_create [k], message_create MESSAGE_TYPE_INSERT (Slice [v]))"

text \<open>The tuples seen at the start and after \<open>merge_next\<close> (\<open>True\<close>) and \<open>merge_prev\<close> (\<open>False\<close>) calls.\<close>

fun merge_moves ::
  "nat \<Rightarrow> malloc_fn \<Rightarrow> 'i iterator_ops \<Rightarrow> data_config \<Rightarrow> bool list \<Rightarrow> 'i merge_iterator \<Rightarrow> (bytes \<times> bytes) list option" where
  "merge_moves fuel malloc ops cfg [] mi = Some [(key_data (mi_curr_key mi), message_data (mi_curr_data mi))]"
| "merge_moves fuel malloc ops cfg (d # ds) mi = do {
     (rc, mi') \<leftarrow> (if d then merge_next fuel malloc ops cfg mi else merge_prev fuel malloc ops cfg mi);
     xs \<leftarrow> (if SUCCESS rc then merge_moves fuel malloc ops cfg ds mi' else None);
     Some ((key_data (mi_curr_key mi), message_data (mi_curr_data mi)) # xs)
   }"

definition merge_session ::
  "nat \<Rightarrow> malloc_fn \<Rightarrow> data_config \<Rightarrow> (key \<times> message) list list \<Rightarrow> bool list \<Rightarrow> (bytes \<times> bytes) list option" where
  "merge_session fuel malloc cfg xss ds = do {
     (rc, mi) \<leftarrow> merge_iterator_create fuel malloc list_iterator_ops cfg (map (\<lambda>xs. (xs, 0)) xss) MERGE_FULL True;
     mi \<leftarrow> mi;
     merge_moves fuel malloc list_iterator_ops cfg ds mi
   }"

definition zero_heap :: malloc_fn where
  "zero_heap n = Some (replicate n 0)"

definition lex_config :: data_config where
  "lex_config = default_data_config_init (\<lambda>_ _. 0) 16"

text \<open>Stepping back after a step forward onto a key that two inputs have shows that key again instead of the one before it.\<close>


text \<open>
  A stale \<open>next_key_equal\<close> flag of the last live iterator survives a change of direction: the tuple shown after the step back has the key of an
  exhausted input and the message of another key.
\<close>

theorem merge_prev_stale_flag:
  "merge_session 8 zero_heap lex_config [[put_tuple 5 50], [put_tuple 1 10, put_tuple 5 51], [put_tuple 3 32]] [True, False]
     = Some [([1], [10]), ([3], [32]), ([5], [10])]"
  by code_simp

end
