(* ===== verification/BTree_Iterator.thy ===== *)
theory BTree_Iterator
  imports BTree_Lookup Merge
begin

text \<open>
  The iterators of \<open>btree.c\<close> (\<open>btree_iterator_*\<close>): they walk the leaves of a B-tree, or its nodes at a given height, between two keys. The
  state is the iterator with the pages it reads (a \<open>lookup_state\<close>) and the clock counters that the iterators of a compaction share. The
  pages are those one thread sees, so claims succeed at once; prefetching has no effect on pages and is left out. \<open>None\<close> is a read of a
  page or entry that is not there.
\<close>

section \<open>Definitions\<close>

datatype comparison = less_than | less_than_or_equal | greater_than | greater_than_or_equal

record btree_iterator =
  bi_height :: nat
  bi_page_type :: page_type
  bi_min_key :: key
  bi_max_key :: key
  bi_root_addr :: uint64
  bi_curr :: uint64
  bi_idx :: int
  curr_min_idx :: int
  end_addr :: uint64
  end_idx :: int
  end_generation :: uint64
  bi_is_warm :: bool
  last_clock :: uint32
  tracks_clock :: bool

record clock_accum =
  shared_clock_sum :: uint64
  shared_clock_count :: uint64
  shared_clock_max :: uint32

record btree_scan =
  bs_itor :: btree_iterator
  bs_state :: lookup_state
  bs_accum :: clock_accum

text \<open>What the functions read of a page: its header fields and number of entries.\<close>

fun page_next_addr :: "btree_page \<Rightarrow> uint64" where
  "page_next_addr (Leaf_page hdr) = next_addr hdr"
| "page_next_addr (Index_page hdr) = next_addr hdr"

fun page_prev_addr :: "btree_page \<Rightarrow> uint64" where
  "page_prev_addr (Leaf_page hdr) = prev_addr hdr"
| "page_prev_addr (Index_page hdr) = prev_addr hdr"

fun page_generation :: "btree_page \<Rightarrow> uint64" where
  "page_generation (Leaf_page hdr) = generation hdr"
| "page_generation (Index_page hdr) = generation hdr"

fun page_num_entries :: "btree_page \<Rightarrow> nat" where
  "page_num_entries (Leaf_page hdr) = btree_num_entries hdr"
| "page_num_entries (Index_page hdr) = btree_num_entries hdr"

definition curr_page :: "btree_scan \<Rightarrow> btree_page option" where
  "curr_page s = ls_mem (bs_state s) (bi_curr (bs_itor s))"

definition btree_iterator_can_prev :: "btree_iterator \<Rightarrow> bool" where
  "btree_iterator_can_prev itor \<longleftrightarrow>
     bi_idx itor \<ge> curr_min_idx itor \<and> (curr_min_idx itor \<noteq> end_idx itor \<or> bi_curr itor \<noteq> end_addr itor)"

definition btree_iterator_can_next :: "btree_iterator \<Rightarrow> bool" where
  "btree_iterator_can_next itor \<longleftrightarrow>
     bi_curr itor \<noteq> end_addr itor \<or> bi_idx itor < end_idx itor \<and> curr_min_idx itor \<noteq> end_idx itor"

text \<open>The bytes of the pivot data, least significant byte first.\<close>

definition le_bytes :: "nat \<Rightarrow> 'w::len word \<Rightarrow> bytes" where
  "le_bytes n w = map (\<lambda>i. ucast (drop_bit (8 * i) w)) [0..<n]"

definition pivot_data_bytes :: "index_entry \<Rightarrow> bytes" where
  "pivot_data_bytes e = le_bytes 8 (ie_child_addr e) @ le_bytes 4 (num_kvs (ie_stats e)) @ le_bytes 4 (key_bytes (ie_stats e))
     @ le_bytes 4 (message_bytes (ie_stats e))"

definition btree_iterator_curr :: "btree_scan \<Rightarrow> (key \<times> message) option" where
  "btree_iterator_curr s =
     (if bi_idx (bs_itor s) < 0 then None
      else (case curr_page s of
        Some (Leaf_page hdr) \<Rightarrow>
          map_option (\<lambda>e. (leaf_entry_key e, leaf_entry_message e)) (btree_get_leaf_entry hdr (nat (bi_idx (bs_itor s))))
      | Some (Index_page hdr) \<Rightarrow>
          map_option (\<lambda>e. (index_entry_key e, message_create MESSAGE_TYPE_PIVOT_DATA (Slice (pivot_data_bytes e))))
            (btree_get_index_entry hdr (nat (bi_idx (bs_itor s))))
      | None \<Rightarrow> None))"

fun position :: "comparison \<Rightarrow> int \<Rightarrow> bool \<Rightarrow> int" where
  "position less_than tmp found = (if found then tmp - 1 else tmp)"
| "position less_than_or_equal tmp found = tmp"
| "position greater_than_or_equal tmp found = (if \<not> found then tmp + 1 else tmp)"
| "position greater_than tmp found = tmp + 1"

definition find_key_in_node ::
  "btree_config \<Rightarrow> btree_iterator \<Rightarrow> btree_page \<Rightarrow> key \<Rightarrow> comparison \<Rightarrow> (int \<times> bool \<times> btree_iterator) option" where
  "find_key_in_node cfg itor page target position_rule =
     (if bi_height itor = 0
      then (case page of
              Leaf_page hdr \<Rightarrow> map_option (\<lambda>(tmp, found). (position position_rule tmp found, found, itor)) (btree_find_tuple cfg hdr target)
            | Index_page _ \<Rightarrow> None)
      else if bi_height itor > page_height page then Some (0, False, itor\<lparr>bi_height := 2 ^ 32 - 1\<rparr>)
      else (case page of
              Index_page hdr \<Rightarrow>
                map_option (\<lambda>(tmp, found). (position position_rule tmp found, found, itor)) (btree_find_pivot cfg hdr (bi_min_key itor))
            | Leaf_page _ \<Rightarrow> None))"

definition btree_iterator_find_end :: "btree_config \<Rightarrow> lookup_env \<Rightarrow> btree_scan \<Rightarrow> btree_scan option" where
  "btree_iterator_find_end cfg env s = do {
     let itor = bs_itor s;
     (addr, _, st) \<leftarrow> btree_lookup_node cfg env (bi_root_addr itor) (bi_max_key itor) (bi_height itor) (bi_page_type itor)
                        ((bs_state s)\<lparr>ls_stats := None\<rparr>);
     page \<leftarrow> ls_mem st addr;
     let itor1 = itor\<lparr>end_addr := addr, end_generation := page_generation page\<rparr>;
     (i, itor2) \<leftarrow> (if key_is_positive_infinity (bi_max_key itor1) then Some (int (page_num_entries page), itor1)
                     else map_option (\<lambda>(i, _, itor'). (i, itor')) (find_key_in_node cfg itor1 page (bi_max_key itor1) greater_than_or_equal));
     Some (s\<lparr>bs_itor := itor2\<lparr>end_idx := i\<rparr>, bs_state := st\<rparr>)
   }"

text \<open>\<open>btree_node_get\<close> of another node of the level.\<close>

definition scan_get :: "lookup_env \<Rightarrow> uint64 \<Rightarrow> btree_scan \<Rightarrow> btree_scan" where
  "scan_get env addr s =
     s\<lparr>bs_itor := (bs_itor s)\<lparr>bi_curr := addr\<rparr>, bs_state := lookup_node_get env (bi_height (bs_itor s)) addr (bi_is_warm (bs_itor s)) (bs_state s)\<rparr>"

text \<open>The loop that finds the end again while the end node has changed.\<close>

fun recheck_end :: "nat \<Rightarrow> btree_config \<Rightarrow> lookup_env \<Rightarrow> btree_scan \<Rightarrow> btree_scan option" where
  "recheck_end 0 cfg env s = None"
| "recheck_end (Suc fuel) cfg env s = do {
     page \<leftarrow> curr_page s;
     if bi_curr (bs_itor s) = end_addr (bs_itor s) \<and> page_generation page \<noteq> end_generation (bs_itor s)
     then do {
       s1 \<leftarrow> btree_iterator_find_end cfg env s;
       recheck_end fuel cfg env (scan_get env (bi_curr (bs_itor s1)) s1)
     }
     else Some s
   }"

definition accum_add :: "uint32 \<Rightarrow> clock_accum \<Rightarrow> clock_accum" where
  "accum_add c a = a\<lparr>shared_clock_sum := shared_clock_sum a + ucast c,
     shared_clock_max := (if c > shared_clock_max a then c else shared_clock_max a)\<rparr>"

definition btree_iterator_next_leaf ::
  "btree_config \<Rightarrow> lookup_env \<Rightarrow> (uint64 \<Rightarrow> uint32) \<Rightarrow> btree_scan \<Rightarrow> btree_scan option" where
  "btree_iterator_next_leaf cfg env page_clock s = do {
     page \<leftarrow> curr_page s;
     let tracks = tracks_clock (bs_itor s);
     let s1 = (if tracks then s\<lparr>bs_accum := (bs_accum s)\<lparr>shared_clock_sum := shared_clock_sum (bs_accum s) - ucast (last_clock (bs_itor s))\<rparr>\<rparr> else s);
     let s2 = scan_get env (page_next_addr page) s1;
     let s3 = s2\<lparr>bs_itor := (bs_itor s2)\<lparr>bi_idx := 0, curr_min_idx := -1\<rparr>\<rparr>;
     let c = page_clock (bi_curr (bs_itor s3));
     let s4 = (if tracks then s3\<lparr>bs_itor := (bs_itor s3)\<lparr>last_clock := c\<rparr>, bs_accum := accum_add c (bs_accum s3)\<rparr> else s3);
     recheck_end 2 cfg env s4
   }"

text \<open>The walk to the node whose successor is the old one, over at most \<open>fuel\<close> nodes.\<close>

fun walk_to :: "nat \<Rightarrow> lookup_env \<Rightarrow> uint64 \<Rightarrow> btree_scan \<Rightarrow> btree_scan option" where
  "walk_to 0 env curr_addr s = None"
| "walk_to (Suc fuel) env curr_addr s = do {
     page \<leftarrow> curr_page s;
     if page_next_addr page \<noteq> curr_addr then walk_to fuel env curr_addr (scan_get env (page_next_addr page) s) else Some s
   }"

definition first_key_of :: "btree_iterator \<Rightarrow> btree_page \<Rightarrow> nat \<Rightarrow> key option" where
  "first_key_of itor page k =
     (case page of Leaf_page hdr \<Rightarrow> if bi_height itor = 0 then btree_get_tuple_key hdr k else None
      | Index_page hdr \<Rightarrow> if bi_height itor = 0 then None else btree_get_pivot hdr k)"

definition btree_iterator_prev_leaf :: "nat \<Rightarrow> btree_config \<Rightarrow> lookup_env \<Rightarrow> btree_scan \<Rightarrow> btree_scan option" where
  "btree_iterator_prev_leaf fuel cfg env s = do {
     page0 \<leftarrow> curr_page s;
     s1 \<leftarrow> walk_to fuel env (bi_curr (bs_itor s)) (scan_get env (page_prev_addr page0) s);
     page \<leftarrow> curr_page s1;
     let itor = bs_itor s1;
     first_key \<leftarrow> first_key_of itor page 0;
     m \<leftarrow> (if btree_key_compare cfg (bi_min_key itor) first_key < 0 then Some (-1)
           else map_option (\<lambda>(i, found). if \<not> found then i + 1 else i)
                  (case page of Leaf_page hdr \<Rightarrow> btree_find_tuple cfg hdr (bi_min_key itor)
                   | Index_page hdr \<Rightarrow> btree_find_pivot cfg hdr (bi_min_key itor)));
     let m' = (if page_prev_addr page = 0 \<and> m = -1 then 0 else m);
     Some (s1\<lparr>bs_itor := itor\<lparr>bi_idx := int (page_num_entries page) - 1, curr_min_idx := m'\<rparr>\<rparr>)
   }"

definition btree_iterator_next ::
  "btree_config \<Rightarrow> lookup_env \<Rightarrow> (uint64 \<Rightarrow> uint32) \<Rightarrow> btree_scan \<Rightarrow> btree_scan option" where
  "btree_iterator_next cfg env page_clock s = do {
     page \<leftarrow> curr_page s;
     let s1 = s\<lparr>bs_itor := (bs_itor s)\<lparr>bi_idx := bi_idx (bs_itor s) + 1\<rparr>\<rparr>;
     if bi_idx (bs_itor s1) = int (page_num_entries page) \<and> btree_iterator_can_next (bs_itor s1)
     then btree_iterator_next_leaf cfg env page_clock s1
     else Some s1
   }"

definition btree_iterator_prev :: "nat \<Rightarrow> btree_config \<Rightarrow> lookup_env \<Rightarrow> btree_scan \<Rightarrow> btree_scan option" where
  "btree_iterator_prev fuel cfg env s =
     (let s1 = s\<lparr>bs_itor := (bs_itor s)\<lparr>bi_idx := bi_idx (bs_itor s) - 1\<rparr>\<rparr>
      in if curr_min_idx (bs_itor s1) = -1 \<and> bi_idx (bs_itor s1) = -1
         then btree_iterator_prev_leaf fuel cfg env s1 else Some s1)"

definition find_btree_node_and_get_idx_bounds ::
  "nat \<Rightarrow> btree_config \<Rightarrow> lookup_env \<Rightarrow> (uint64 \<Rightarrow> uint32) \<Rightarrow> btree_scan \<Rightarrow> key \<Rightarrow> comparison \<Rightarrow> btree_scan option" where
  "find_btree_node_and_get_idx_bounds fuel cfg env page_clock s target position_rule = do {
     let itor = bs_itor s;
     (addr, is_warm, st) \<leftarrow> btree_lookup_node cfg env (bi_root_addr itor) target (bi_height itor) (bi_page_type itor)
                              ((bs_state s)\<lparr>ls_stats := None\<rparr>);
     s1 \<leftarrow> btree_iterator_find_end cfg env (s\<lparr>bs_itor := itor\<lparr>bi_curr := addr, bi_is_warm := is_warm\<rparr>, bs_state := st\<rparr>);
     page \<leftarrow> curr_page s1;
     (tmp, found, itor2) \<leftarrow> find_key_in_node cfg (bs_itor s1) page (bi_min_key (bs_itor s1)) greater_than_or_equal;
     let m = (if \<not> found \<and> tmp = 0 then tmp - 1 else tmp);
     let m' = (if m = -1 \<and> page_prev_addr page = 0 then 0 else m);
     (i, _, itor3) \<leftarrow> find_key_in_node cfg (itor2\<lparr>curr_min_idx := m'\<rparr>) page target position_rule;
     let s2 = s1\<lparr>bs_itor := itor3\<lparr>bi_idx := i\<rparr>\<rparr>;
     s3 \<leftarrow> (if bi_curr (bs_itor s2) \<noteq> end_addr (bs_itor s2) \<and> bi_idx (bs_itor s2) = int (page_num_entries page)
             then map_option (\<lambda>s. s\<lparr>bs_itor := (bs_itor s)\<lparr>curr_min_idx := 0\<rparr>\<rparr>) (btree_iterator_next_leaf cfg env page_clock s2)
             else Some s2);
     if curr_min_idx (bs_itor s3) = -1 \<and> bi_idx (bs_itor s3) = -1 then btree_iterator_prev_leaf fuel cfg env s3 else Some s3
   }"

text \<open>The last key of the current node is read at the end index, which is an index into the end node; \<open>None\<close> when there is no such entry.\<close>

definition btree_iterator_seek ::
  "nat \<Rightarrow> btree_config \<Rightarrow> lookup_env \<Rightarrow> (uint64 \<Rightarrow> uint32) \<Rightarrow> btree_scan \<Rightarrow> key \<Rightarrow> comparison \<Rightarrow> (platform_status \<times> btree_scan) option" where
  "btree_iterator_seek fuel cfg env page_clock s seek_key seek_type =
     (let itor = bs_itor s
      in if btree_key_compare cfg seek_key (bi_min_key itor) < 0 \<or> btree_key_compare cfg seek_key (bi_max_key itor) > 0
         then Some (STATUS_BAD_PARAM, s)
         else do {
           page \<leftarrow> curr_page s;
           first_key \<leftarrow> first_key_of itor page 0;
           last_key \<leftarrow> (if end_idx itor < 1 then None else first_key_of itor page (nat (end_idx itor - 1)));
           if btree_key_compare cfg seek_key first_key \<ge> 0 \<and> btree_key_compare cfg seek_key last_key \<le> 0
           then do {
             (i, _, itor1) \<leftarrow> find_key_in_node cfg itor page seek_key seek_type;
             if i < 0 then None else Some (STATUS_OK, s\<lparr>bs_itor := itor1\<lparr>bi_idx := i\<rparr>\<rparr>)
           }
           else map_option (Pair STATUS_OK) (find_btree_node_and_get_idx_bounds fuel cfg env page_clock s seek_key seek_type)
         })"

definition btree_iterator_init ::
  "nat \<Rightarrow> btree_config \<Rightarrow> lookup_env \<Rightarrow> (uint64 \<Rightarrow> uint32) \<Rightarrow> lookup_state \<Rightarrow> clock_accum \<Rightarrow> uint64 \<Rightarrow> page_type
     \<Rightarrow> key \<Rightarrow> key \<Rightarrow> key \<Rightarrow> comparison \<Rightarrow> nat \<Rightarrow> btree_scan option" where
  "btree_iterator_init fuel cfg env page_clock st acc root_addr ty min_key max_key start_key start_type hgt =
     (if root_addr = 0 then None
      else
        let max1 = (if btree_key_compare cfg min_key max_key > 0 then min_key else max_key);
            start1 = (if btree_key_compare cfg start_key min_key < 0 then min_key else start_key);
            start2 = (if btree_key_compare cfg start1 max1 > 0 then max1 else start1);
            itor = \<lparr>bi_height = hgt, bi_page_type = ty, bi_min_key = min_key, bi_max_key = max1, bi_root_addr = root_addr, bi_curr = 0, bi_idx = 0,
                    curr_min_idx = 0, end_addr = 0, end_idx = 0, end_generation = 0, bi_is_warm = False, last_clock = 0, tracks_clock = False\<rparr>
        in find_btree_node_and_get_idx_bounds fuel cfg env page_clock \<lparr>bs_itor = itor, bs_state = st, bs_accum = acc\<rparr> start2 start_type)"

definition btree_iterator_setup_clock_accum :: "(uint64 \<Rightarrow> uint32) \<Rightarrow> btree_scan \<Rightarrow> btree_scan" where
  "btree_iterator_setup_clock_accum page_clock s =
     (let s1 = s\<lparr>bs_itor := (bs_itor s)\<lparr>tracks_clock := True\<rparr>\<rparr>;
          c = page_clock (bi_curr (bs_itor s))
      in if bi_curr (bs_itor s) \<noteq> 0
         then s1\<lparr>bs_itor := (bs_itor s1)\<lparr>last_clock := c\<rparr>,
                 bs_accum := (accum_add c (bs_accum s1))\<lparr>shared_clock_count := shared_clock_count (bs_accum s1) + 1\<rparr>\<rparr>
         else s1)"

definition btree_iterator_ops ::
  "nat \<Rightarrow> btree_config \<Rightarrow> lookup_env \<Rightarrow> (uint64 \<Rightarrow> uint32) \<Rightarrow> btree_scan iterator_ops" where
  "btree_iterator_ops fuel cfg env page_clock =
     \<lparr>it_curr = (\<lambda>s. case btree_iterator_curr s of None \<Rightarrow> (NULL_KEY, NULL_MESSAGE) | Some x \<Rightarrow> x),
      it_can_prev = (\<lambda>s. btree_iterator_can_prev (bs_itor s)),
      it_can_next = (\<lambda>s. btree_iterator_can_next (bs_itor s)),
      it_next = (\<lambda>s. (STATUS_OK, case btree_iterator_next cfg env page_clock s of None \<Rightarrow> s | Some s' \<Rightarrow> s')),
      it_prev = (\<lambda>s. (STATUS_OK, case btree_iterator_prev fuel cfg env s of None \<Rightarrow> s | Some s' \<Rightarrow> s'))\<rparr>"

section \<open>Walking the leaves\<close>

text \<open>The tuples of a leaf and of the leaves from one address to another.\<close>

definition entry_tuple :: "leaf_entry \<Rightarrow> key \<times> message" where
  "entry_tuple e = (leaf_entry_key e, leaf_entry_message e)"

definition leaf_tuples :: "btree_memory \<Rightarrow> uint64 \<Rightarrow> (key \<times> message) list" where
  "leaf_tuples mem a = (case mem a of Some (Leaf_page hdr) \<Rightarrow> map entry_tuple (node_entries hdr) | _ \<Rightarrow> [])"

definition leaf_next :: "btree_memory \<Rightarrow> uint64 \<Rightarrow> uint64" where
  "leaf_next mem a = (case mem a of Some p \<Rightarrow> page_next_addr p | None \<Rightarrow> 0)"

fun chain_tuples :: "btree_memory \<Rightarrow> nat \<Rightarrow> uint64 \<Rightarrow> uint64 \<Rightarrow> nat \<Rightarrow> (key \<times> message) list" where
  "chain_tuples mem 0 a e i = []"
| "chain_tuples mem (Suc n) a e i =
     (if a = e then take i (leaf_tuples mem a) else leaf_tuples mem a @ chain_tuples mem n (leaf_next mem a) e i)"

fun chain_ok :: "btree_config \<Rightarrow> btree_memory \<Rightarrow> nat \<Rightarrow> uint64 \<Rightarrow> uint64 \<Rightarrow> bool" where
  "chain_ok cfg mem 0 a e = False"
| "chain_ok cfg mem (Suc n) a e = (\<exists>hdr. mem a = Some (Leaf_page hdr) \<and> leaf_layout cfg hdr
     \<and> (a = e \<or> 0 < btree_num_entries hdr \<and> chain_ok cfg mem n (next_addr hdr) e))"

lemma chain_mono: "chain_ok cfg mem n a e \<Longrightarrow> n \<le> m \<Longrightarrow> chain_ok cfg mem m a e \<and> chain_tuples mem m a e i = chain_tuples mem n a e i"
proof (induction n arbitrary: a m)
  case (Suc n)
  obtain m' where m: "m = Suc m'" using Suc.prems(2) by (cases m) auto
  obtain hdr where h: "mem a = Some (Leaf_page hdr)" "leaf_layout cfg hdr" "a = e \<or> 0 < btree_num_entries hdr \<and> chain_ok cfg mem n (next_addr hdr) e"
    using Suc.prems(1) by auto
  have "leaf_next mem a = next_addr hdr" using h(1) by (simp add: leaf_next_def)
  then show ?case using h m Suc.IH [of "next_addr hdr" m'] Suc.prems(2) by auto
qed simp

definition itor_ok :: "btree_config \<Rightarrow> nat \<Rightarrow> btree_scan \<Rightarrow> bool" where
  "itor_ok cfg n s \<longleftrightarrow> (let itor = bs_itor s; mem = ls_mem (bs_state s) in
     bi_height itor = 0 \<and> chain_ok cfg mem n (bi_curr itor) (end_addr itor) \<and> 0 \<le> bi_idx itor \<and> curr_min_idx itor \<le> bi_idx itor
     \<and> 0 \<le> end_idx itor
     \<and> (\<forall>hdr. mem (end_addr itor) = Some (Leaf_page hdr) \<longrightarrow> generation hdr = end_generation itor \<and> end_idx itor \<le> int (btree_num_entries hdr))
     \<and> (bi_curr itor \<noteq> end_addr itor \<longrightarrow> (\<forall>hdr. mem (bi_curr itor) = Some (Leaf_page hdr) \<longrightarrow> bi_idx itor < int (btree_num_entries hdr))))"

definition scan_view :: "nat \<Rightarrow> btree_scan \<Rightarrow> (key \<times> message) list" where
  "scan_view n s = (let itor = bs_itor s in
     drop (nat (bi_idx itor)) (chain_tuples (ls_mem (bs_state s)) n (bi_curr itor) (end_addr itor) (nat (end_idx itor))))"

lemma leaf_tuples_length: "mem a = Some (Leaf_page hdr) \<Longrightarrow> length (leaf_tuples mem a) = btree_num_entries hdr"
  by (simp add: leaf_tuples_def btree_num_entries_def node_entries_def)

lemma leaf_tuples_nth:
  assumes "mem a = Some (Leaf_page hdr)" "leaf_layout cfg hdr" "k < btree_num_entries hdr"
  shows "map_option (\<lambda>e. (leaf_entry_key e, leaf_entry_message e)) (btree_get_leaf_entry hdr k) = Some (leaf_tuples mem a ! k)"
  using get_tuple_ok(1) [OF assms(2,3)] assms by (simp add: leaf_tuples_def entry_tuple_def btree_num_entries_def node_entries_def)

lemma scan_parts:
  assumes "itor_ok cfg n s"
  obtains n' hdr where "n = Suc n'" "ls_mem (bs_state s) (bi_curr (bs_itor s)) = Some (Leaf_page hdr)" "leaf_layout cfg hdr"
    "bi_curr (bs_itor s) = end_addr (bs_itor s) \<or> 0 < btree_num_entries hdr \<and> chain_ok cfg (ls_mem (bs_state s)) n' (next_addr hdr) (end_addr (bs_itor s))"
  using assms unfolding itor_ok_def Let_def by (cases n) auto

text \<open>The view of an iterator in its end leaf and in another leaf.\<close>

lemma scan_view_end:
  "itor_ok cfg n s \<Longrightarrow> bi_curr (bs_itor s) = end_addr (bs_itor s)
    \<Longrightarrow> scan_view n s = drop (nat (bi_idx (bs_itor s))) (take (nat (end_idx (bs_itor s))) (leaf_tuples (ls_mem (bs_state s)) (bi_curr (bs_itor s))))"
  by (cases n) (simp_all add: scan_view_def itor_ok_def Let_def)

lemma scan_view_other:
  assumes "itor_ok cfg n s" "bi_curr (bs_itor s) \<noteq> end_addr (bs_itor s)"
    "ls_mem (bs_state s) (bi_curr (bs_itor s)) = Some (Leaf_page hdr)"
  shows "scan_view n s = drop (nat (bi_idx (bs_itor s))) (leaf_tuples (ls_mem (bs_state s)) (bi_curr (bs_itor s)))
      @ chain_tuples (ls_mem (bs_state s)) (n - 1) (next_addr hdr) (end_addr (bs_itor s)) (nat (end_idx (bs_itor s)))"
    "nat (bi_idx (bs_itor s)) < btree_num_entries hdr"
proof -
  let ?i = "bs_itor s" and ?mem = "ls_mem (bs_state s)"
  have "bi_idx ?i < int (btree_num_entries hdr)" "0 \<le> bi_idx ?i" using assms unfolding itor_ok_def Let_def by blast+
  then show l: "nat (bi_idx ?i) < btree_num_entries hdr" by linarith
  obtain n' where "n = Suc n'" using scan_parts [OF assms(1)] by metis
  then show "scan_view n s = drop (nat (bi_idx ?i)) (leaf_tuples ?mem (bi_curr ?i)) @ chain_tuples ?mem (n - 1) (next_addr hdr) (end_addr ?i) (nat (end_idx ?i))"
    using assms(2,3) l leaf_tuples_length [of ?mem "bi_curr ?i", OF assms(3)] by (simp add: scan_view_def Let_def leaf_next_def)
qed

lemma scan_can_curr:
  assumes "itor_ok cfg n s"
  shows "btree_iterator_can_next (bs_itor s) \<and> btree_iterator_can_prev (bs_itor s) \<longleftrightarrow> scan_view n s \<noteq> []"
proof -
  let ?i = "bs_itor s" and ?mem = "ls_mem (bs_state s)"
  obtain n' hdr where h: "n = Suc n'" "?mem (bi_curr ?i) = Some (Leaf_page hdr)" using scan_parts [OF assms] by metis
  have o: "0 \<le> bi_idx ?i" "curr_min_idx ?i \<le> bi_idx ?i" using assms by (simp_all add: itor_ok_def Let_def)
  show ?thesis
  proof (cases "bi_curr ?i = end_addr ?i")
    case True
    have "end_idx ?i \<le> int (btree_num_entries hdr)" "0 \<le> end_idx ?i" using assms h(2) True by (simp_all add: itor_ok_def Let_def)
    then have "scan_view n s \<noteq> [] \<longleftrightarrow> bi_idx ?i < end_idx ?i"
      unfolding scan_view_end [OF assms True] using leaf_tuples_length [of ?mem "bi_curr ?i", OF h(2)] o(1) by auto
    then show ?thesis using True o by (auto simp: btree_iterator_can_next_def btree_iterator_can_prev_def)
  next
    case False
    have "scan_view n s \<noteq> []" using scan_view_other [OF assms False h(2)] leaf_tuples_length [of ?mem "bi_curr ?i", OF h(2)] by simp
    then show ?thesis using False o by (simp add: btree_iterator_can_next_def btree_iterator_can_prev_def)
  qed
qed

lemma scan_curr:
  assumes "itor_ok cfg n s" "scan_view n s = x # xs"
  shows "btree_iterator_curr s = Some x"
proof -
  let ?i = "bs_itor s" and ?mem = "ls_mem (bs_state s)"
  obtain n' hdr where h: "n = Suc n'" "?mem (bi_curr ?i) = Some (Leaf_page hdr)" "leaf_layout cfg hdr" using scan_parts [OF assms(1)] by metis
  have o: "0 \<le> bi_idx ?i" using assms(1) by (simp add: itor_ok_def Let_def)
  have "nat (bi_idx ?i) < btree_num_entries hdr \<and> leaf_tuples ?mem (bi_curr ?i) ! nat (bi_idx ?i) = x"
  proof (cases "bi_curr ?i = end_addr ?i")
    case True
    have e: "drop (nat (bi_idx ?i)) (take (nat (end_idx ?i)) (leaf_tuples ?mem (bi_curr ?i))) = x # xs" using scan_view_end [OF assms(1) True] assms(2) by simp
    then have "nat (bi_idx ?i) < length (take (nat (end_idx ?i)) (leaf_tuples ?mem (bi_curr ?i)))" by (metis drop_all list.distinct(1) not_less)
    then show ?thesis using e leaf_tuples_length [of ?mem "bi_curr ?i", OF h(2)] by (auto simp: Cons_nth_drop_Suc [symmetric])
  next
    case False
    note v = scan_view_other [OF assms(1) False h(2)]
    then show ?thesis using assms(2) leaf_tuples_length [of ?mem "bi_curr ?i", OF h(2)] by (auto simp: Cons_nth_drop_Suc [symmetric])
  qed
  then show ?thesis using leaf_tuples_nth [of ?mem "bi_curr ?i" hdr cfg "nat (bi_idx ?i)"] h o by (simp add: btree_iterator_curr_def curr_page_def)
qed

lemma scan_get_simps [simp]:
  "bi_curr (bs_itor (scan_get env a s)) = a" "ls_mem (bs_state (scan_get env a s)) = ls_mem (bs_state s)"
  "bs_itor (scan_get env a s) = (bs_itor s)\<lparr>bi_curr := a\<rparr>" "bs_accum (scan_get env a s) = bs_accum s"
  by (simp_all add: scan_get_def lookup_node_get_def)

text \<open>While the end leaf has not changed, moving to the next leaf keeps the end.\<close>

lemma recheck_end_same:
  assumes "curr_page s = Some page" "bi_curr (bs_itor s) = end_addr (bs_itor s) \<Longrightarrow> page_generation page = end_generation (bs_itor s)"
  shows "recheck_end 2 cfg env s = Some s"
  using assms by (auto simp: numeral_2_eq_2)

lemma next_leaf_spec:
  assumes page: "curr_page s = Some (Leaf_page hdr)" and nx: "ls_mem (bs_state s) (next_addr hdr) = Some (Leaf_page hdr')"
    and g: "next_addr hdr = end_addr (bs_itor s) \<Longrightarrow> generation hdr' = end_generation (bs_itor s)"
  obtains s' where "btree_iterator_next_leaf cfg env page_clock s = Some s'" "ls_mem (bs_state s') = ls_mem (bs_state s)"
    "bi_curr (bs_itor s') = next_addr hdr" "bi_idx (bs_itor s') = 0" "curr_min_idx (bs_itor s') = -1" "end_addr (bs_itor s') = end_addr (bs_itor s)"
    "end_idx (bs_itor s') = end_idx (bs_itor s)" "end_generation (bs_itor s') = end_generation (bs_itor s)" "bi_height (bs_itor s') = bi_height (bs_itor s)"
proof -
  define s1 where "s1 = (if tracks_clock (bs_itor s)
    then s\<lparr>bs_accum := (bs_accum s)\<lparr>shared_clock_sum := shared_clock_sum (bs_accum s) - ucast (last_clock (bs_itor s))\<rparr>\<rparr> else s)"
  have s1: "bs_itor s1 = bs_itor s" "bs_state s1 = bs_state s" by (simp_all add: s1_def)
  define s2 where "s2 = scan_get env (next_addr hdr) s1"
  define s3 where "s3 = s2\<lparr>bs_itor := (bs_itor s2)\<lparr>bi_idx := 0, curr_min_idx := -1\<rparr>\<rparr>"
  define c where "c = page_clock (bi_curr (bs_itor s3))"
  define s4 where "s4 = (if tracks_clock (bs_itor s) then s3\<lparr>bs_itor := (bs_itor s3)\<lparr>last_clock := c\<rparr>, bs_accum := accum_add c (bs_accum s3)\<rparr> else s3)"
  have s4: "ls_mem (bs_state s4) = ls_mem (bs_state s)" "bi_curr (bs_itor s4) = next_addr hdr" "bi_idx (bs_itor s4) = 0" "curr_min_idx (bs_itor s4) = -1"
    "end_addr (bs_itor s4) = end_addr (bs_itor s)" "end_idx (bs_itor s4) = end_idx (bs_itor s)" "end_generation (bs_itor s4) = end_generation (bs_itor s)"
    "bi_height (bs_itor s4) = bi_height (bs_itor s)"
    by (simp_all add: s4_def s3_def s2_def s1)
  have p: "curr_page s4 = Some (Leaf_page hdr')" using nx s4(1,2) by (simp add: curr_page_def)
  have "recheck_end 2 cfg env s4 = Some s4" by (rule recheck_end_same [OF p]) (use g s4 in simp)
  moreover have "btree_iterator_next_leaf cfg env page_clock s = recheck_end 2 cfg env s4"
    unfolding btree_iterator_next_leaf_def page Let_def s1_def [symmetric] option.simps bind.bind_lunit page_next_addr.simps
      s2_def [symmetric] s3_def [symmetric] c_def [symmetric] s4_def [symmetric] by simp
  ultimately show thesis using that [of s4] s4 by simp
qed

lemma scan_next:
  assumes ok: "itor_ok cfg n s" and v: "scan_view n s = x # xs"
  obtains s' where "btree_iterator_next cfg env page_clock s = Some s'" "itor_ok cfg n s'" "scan_view n s' = xs"
    "ls_mem (bs_state s') = ls_mem (bs_state s)"
proof -
  let ?i = "bs_itor s" and ?mem = "ls_mem (bs_state s)"
  obtain n' hdr where h: "n = Suc n'" "?mem (bi_curr ?i) = Some (Leaf_page hdr)" "leaf_layout cfg hdr"
    "bi_curr ?i = end_addr ?i \<or> 0 < btree_num_entries hdr \<and> chain_ok cfg ?mem n' (next_addr hdr) (end_addr ?i)"
    using scan_parts [OF ok] by metis
  have page: "curr_page s = Some (Leaf_page hdr)" using h(2) by (simp add: curr_page_def)
  have o: "0 \<le> bi_idx ?i" "curr_min_idx ?i \<le> bi_idx ?i" "0 \<le> end_idx ?i" "bi_height ?i = 0" "chain_ok cfg ?mem n (bi_curr ?i) (end_addr ?i)"
    "\<And>hdr. ?mem (end_addr ?i) = Some (Leaf_page hdr) \<Longrightarrow> generation hdr = end_generation ?i \<and> end_idx ?i \<le> int (btree_num_entries hdr)"
    using ok unfolding itor_ok_def Let_def by blast+
  define s1 where "s1 = s\<lparr>bs_itor := ?i\<lparr>bi_idx := bi_idx ?i + 1\<rparr>\<rparr>"
  have s1: "ls_mem (bs_state s1) = ?mem" "curr_page s1 = Some (Leaf_page hdr)" "bs_itor s1 = ?i\<lparr>bi_idx := bi_idx ?i + 1\<rparr>"
    using page by (simp_all add: s1_def curr_page_def)
  have un: "btree_iterator_next cfg env page_clock s = (if bi_idx ?i + 1 = int (btree_num_entries hdr) \<and> btree_iterator_can_next (bs_itor s1)
      then btree_iterator_next_leaf cfg env page_clock s1 else Some s1)"
    unfolding btree_iterator_next_def page Let_def bind.bind_lunit s1_def [symmetric] by (simp add: s1(3) cong: conj_cong)
  have nt: "nat (bi_idx ?i + 1) = Suc (nat (bi_idx ?i))" using o(1) by simp
  have len: "length (leaf_tuples ?mem (bi_curr ?i)) = btree_num_entries hdr" by (rule leaf_tuples_length [of ?mem, OF h(2)])
  show thesis
  proof (cases "bi_curr ?i = end_addr ?i")
    case True
    have e: "end_idx ?i \<le> int (btree_num_entries hdr)" using o(6) h(2) True by simp
    then have "\<not> (bi_idx ?i + 1 = int (btree_num_entries hdr) \<and> btree_iterator_can_next (bs_itor s1))"
      using True by (auto simp: btree_iterator_can_next_def s1(3))
    then have r: "btree_iterator_next cfg env page_clock s = Some s1" unfolding un by (rule if_not_P)
    have ok1: "itor_ok cfg n s1" using o True unfolding itor_ok_def Let_def s1(1,3) by simp
    have "scan_view n s1 = xs"
      using scan_view_end [OF ok True] scan_view_end [OF ok1] True v s1 nt by (simp add: drop_Suc) (metis drop_Suc list.sel(3) tl_drop)
    then show thesis using that [OF r ok1] s1(1) by simp
  next
    case False
    note w = scan_view_other [OF ok False h(2)]
    have ch: "chain_ok cfg ?mem n' (next_addr hdr) (end_addr ?i)" using h(4) False by blast
    have xs: "xs = drop (Suc (nat (bi_idx ?i))) (leaf_tuples ?mem (bi_curr ?i)) @ chain_tuples ?mem n' (next_addr hdr) (end_addr ?i) (nat (end_idx ?i))"
      using v w(1) w(2) h(1) len by (simp add: Cons_nth_drop_Suc [symmetric])
    have cn: "btree_iterator_can_next (bs_itor s1)" using False by (simp add: btree_iterator_can_next_def s1(3))
    show thesis
    proof (cases "bi_idx ?i + 1 = int (btree_num_entries hdr)")
      case last: True
      obtain hdr' where h': "?mem (next_addr hdr) = Some (Leaf_page hdr')" "next_addr hdr \<noteq> end_addr ?i \<Longrightarrow> 0 < btree_num_entries hdr'"
        using ch by (cases n') auto
      obtain s' where s': "btree_iterator_next_leaf cfg env page_clock s1 = Some s'" "ls_mem (bs_state s') = ls_mem (bs_state s1)"
        "bi_curr (bs_itor s') = next_addr hdr" "bi_idx (bs_itor s') = 0" "curr_min_idx (bs_itor s') = -1" "end_addr (bs_itor s') = end_addr (bs_itor s1)"
        "end_idx (bs_itor s') = end_idx (bs_itor s1)" "end_generation (bs_itor s') = end_generation (bs_itor s1)" "bi_height (bs_itor s') = bi_height (bs_itor s1)"
        by (rule next_leaf_spec [OF s1(2), of hdr' cfg env page_clock]) (use h'(1) s1 o(6) in auto)
      have r: "btree_iterator_next cfg env page_clock s = Some s'" unfolding un using last cn s'(1) by simp
      note mono = chain_mono [OF ch, of n "nat (end_idx ?i)"]
      have ok': "itor_ok cfg n s'" using s' s1 o(3,4,6) mono h(1) h' unfolding itor_ok_def Let_def by auto
      have dr: "drop (Suc (nat (bi_idx ?i))) (leaf_tuples ?mem (bi_curr ?i)) = []" using last o(1) len by simp
      have "scan_view n s' = chain_tuples ?mem n (next_addr hdr) (end_addr ?i) (nat (end_idx ?i))"
        using s'(2-4,6,7) s1(1,3) by (simp add: scan_view_def Let_def)
      then have "scan_view n s' = xs" unfolding xs dr using mono h(1) by (simp del: chain_tuples.simps)
      then show thesis using that [OF r ok'] s'(2) s1(1) by simp
    next
      case more: False
      have r: "btree_iterator_next cfg env page_clock s = Some s1" unfolding un using more by simp
      have lt: "bi_idx ?i + 1 < int (btree_num_entries hdr)" using w(2) more o(1) by linarith
      have ok1: "itor_ok cfg n s1" using o lt h(2) unfolding itor_ok_def Let_def s1(1,3) by auto
      have "scan_view n s1 = xs"
        using scan_view_other(1) [OF ok1 _ _, of hdr] False h(1,2) s1 nt xs by simp
      then show thesis using that [OF r ok1] s1(1) by simp
    qed
  qed
qed

text \<open>The B-tree iterator is one of the iterators the merge relies on.\<close>

interpretation btree_itor: forward_iterator "btree_iterator_ops fuel cfg env page_clock" "itor_ok cfg n" "scan_view n"
  for fuel cfg env page_clock n
proof
  show "itor_ok cfg n s \<Longrightarrow> iterator_can_curr (btree_iterator_ops fuel cfg env page_clock) s \<longleftrightarrow> scan_view n s \<noteq> []" for s
    using scan_can_curr [of cfg n s] by (simp add: iterator_can_curr_def btree_iterator_ops_def)
  show "itor_ok cfg n s \<Longrightarrow> scan_view n s = x # xs \<Longrightarrow> it_curr (btree_iterator_ops fuel cfg env page_clock) s = x" for s x xs
    using scan_curr [of cfg n s x xs] by (simp add: btree_iterator_ops_def)
  show "itor_ok cfg n s \<Longrightarrow> scan_view n s = x # xs
    \<Longrightarrow> \<exists>s'. it_next (btree_iterator_ops fuel cfg env page_clock) s = (STATUS_OK, s') \<and> itor_ok cfg n s' \<and> scan_view n s' = xs" for s x xs
    by (rule scan_next [of cfg n s x xs env page_clock]) (auto simp: btree_iterator_ops_def)
qed

section \<open>The leaves of a tree in key order\<close>

text \<open>The leaves below a node from left to right, each with the bounds the pivots put on its keys.\<close>

fun leaf_list :: "btree_memory \<Rightarrow> nat \<Rightarrow> uint64 \<Rightarrow> key option \<Rightarrow> key option \<Rightarrow> (uint64 \<times> key option \<times> key option) list" where
  "leaf_list mem 0 addr lo hi = [(addr, lo, hi)]"
| "leaf_list mem (Suc h) addr lo hi =
     (case mem addr of
        Some (Index_page hdr) \<Rightarrow>
          concat (map (\<lambda>i. leaf_list mem h (pivot_children hdr ! i) (child_lo (pivot_keys hdr) lo i) (child_hi (pivot_keys hdr) hi i))
            [0..<btree_num_entries hdr])
      | _ \<Rightarrow> [])"

definition bound_le :: "btree_config \<Rightarrow> key option \<Rightarrow> key option \<Rightarrow> bool" where
  "bound_le cfg a b \<longleftrightarrow> (\<exists>x y. a = Some x \<and> b = Some y \<and> btree_key_compare cfg x y \<le> 0)"

text \<open>Bounds inside other bounds.\<close>

definition inner_lo :: "btree_config \<Rightarrow> key option \<Rightarrow> key option \<Rightarrow> bool" where
  "inner_lo cfg lo l \<longleftrightarrow> lo = None \<or> bound_le cfg lo l"

definition inner_hi :: "btree_config \<Rightarrow> key option \<Rightarrow> key option \<Rightarrow> bool" where
  "inner_hi cfg hi u \<longleftrightarrow> hi = None \<or> bound_le cfg u hi"

lemma sorted_concat:
  "\<forall>xs\<in>set xss. sorted_wrt R xs \<Longrightarrow> sorted_wrt (\<lambda>xs ys. \<forall>x\<in>set xs. \<forall>y\<in>set ys. R x y) xss \<Longrightarrow> sorted_wrt R (concat xss)"
  by (induction xss) (auto simp: sorted_wrt_append)

context user_key_order
begin

lemma bound_le_trans:
  assumes "bound_le bcfg a b" "bound_le bcfg b c" "bounds_dom udom a b" "bounds_dom udom b c" "bc_data_cfg bcfg = cfg"
  shows "bound_le bcfg a c"
proof -
  note tc = key_total [folded assms(5), folded btree_key_compare_eq]
  obtain x y z where "a = Some x" "b = Some y" "c = Some z" "btree_key_compare bcfg x y \<le> 0" "btree_key_compare bcfg y z \<le> 0"
    using assms(1,2) by (auto simp: bound_le_def)
  then show ?thesis using total_compare.cmp_le_trans [OF tc, of x y z] assms(3,4) by (auto simp: bound_le_def bounds_dom_def)
qed

end

definition leaf_before :: "btree_config \<Rightarrow> uint64 \<times> key option \<times> key option \<Rightarrow> uint64 \<times> key option \<times> key option \<Rightarrow> bool" where
  "leaf_before cfg a b \<longleftrightarrow> bound_le cfg (snd (snd a)) (fst (snd b))"

lemma child_bounds_inner:
  assumes o: "user_key_order (bc_data_cfg cfg) udom" and d: "\<forall>k\<in>set ps. key_dom udom k" and b: "bounds_dom udom lo hi"
    and w: "\<forall>i<length ps. 0 < i \<longrightarrow> within cfg lo hi (ps ! i)" and i: "i < length ps"
  shows "inner_lo cfg lo (child_lo ps lo i)" "inner_hi cfg hi (child_hi ps hi i)"
proof -
  note tc = user_key_order.key_total [OF o, folded btree_key_compare_eq]
  have self: "x = None \<or> bound_le cfg x x" if "bounds_dom udom x x" for x
    using that total_compare.cmp_refl [OF tc] by (cases x) (auto simp: bound_le_def bounds_dom_def)
  show "inner_lo cfg lo (child_lo ps lo i)"
    using self [of lo] b w i by (cases lo) (auto simp: inner_lo_def child_lo_def bounds_dom_def bound_le_def within_def)
  show "inner_hi cfg hi (child_hi ps hi i)"
    using self [of hi] b w i by (cases hi) (auto simp: inner_hi_def child_hi_def bounds_dom_def bound_le_def within_def intro: less_imp_le)
qed

lemma inner_trans:
  assumes o: "user_key_order (bc_data_cfg cfg) udom" and d: "bounds_dom udom a b" "bounds_dom udom b c"
  shows "inner_lo cfg a b \<Longrightarrow> inner_lo cfg b c \<Longrightarrow> inner_lo cfg a c" "inner_hi cfg a b \<Longrightarrow> inner_hi cfg b c \<Longrightarrow> inner_hi cfg a c"
proof -
  have nn: "bound_le cfg x y \<Longrightarrow> x \<noteq> None \<and> y \<noteq> None" for x y by (auto simp: bound_le_def)
  have d': "bounds_dom udom b a" "bounds_dom udom c b" using d by (auto simp: bounds_dom_def)
  note t = user_key_order.bound_le_trans [OF o _ _ d refl] user_key_order.bound_le_trans [OF o _ _ d'(2,1) refl]
  show "inner_lo cfg a b \<Longrightarrow> inner_lo cfg b c \<Longrightarrow> inner_lo cfg a c" using t(1) nn unfolding inner_lo_def by blast
  show "inner_hi cfg a b \<Longrightarrow> inner_hi cfg b c \<Longrightarrow> inner_hi cfg a c" using t(2) nn unfolding inner_hi_def by blast
qed

lemma leaf_list_ordered:
  assumes o: "user_key_order (bc_data_cfg cfg) udom"
  shows "tree_ok cfg udom mem h addr lo hi \<Longrightarrow> bounds_dom udom lo hi \<Longrightarrow>
    sorted_wrt (leaf_before cfg) (leaf_list mem h addr lo hi)
    \<and> (\<forall>(a, l, u)\<in>set (leaf_list mem h addr lo hi). bounds_dom udom l u \<and> inner_lo cfg lo l \<and> inner_hi cfg hi u \<and> tree_ok cfg udom mem 0 a l u)"
proof (induction h arbitrary: addr lo hi)
  case 0
  note tc = user_key_order.key_total [OF o, folded btree_key_compare_eq]
  have "inner_lo cfg lo lo" "inner_hi cfg hi hi" using 0 total_compare.cmp_refl [OF tc]
    by (cases lo; cases hi; auto simp: inner_lo_def inner_hi_def bound_le_def bounds_dom_def)+
  then show ?case using 0 by simp
next
  case (Suc h)
  obtain hdr where hd: "mem addr = Some (Index_page hdr)" "increasing (key_dom udom) (btree_key_compare cfg) (pivot_keys hdr)"
    "\<forall>i<length (pivot_keys hdr). 0 < i \<longrightarrow> within cfg lo hi (pivot_keys hdr ! i)"
    "\<And>i. i < length (pivot_keys hdr) \<Longrightarrow> tree_ok cfg udom mem h (pivot_children hdr ! i) (child_lo (pivot_keys hdr) lo i) (child_hi (pivot_keys hdr) hi i)"
    using Suc.prems(1) by auto
  let ?ps = "pivot_keys hdr"
  let ?L = "\<lambda>i. leaf_list mem h (pivot_children hdr ! i) (child_lo ?ps lo i) (child_hi ?ps hi i)"
  have d: "\<forall>k\<in>set ?ps. key_dom udom k" using hd(2) by (simp add: increasing_def)
  have bd: "i < length ?ps \<Longrightarrow> bounds_dom udom (child_lo ?ps lo i) (child_hi ?ps hi i)" for i by (rule child_bounds_dom [OF Suc.prems(2) d])
  note IH = Suc.IH [OF hd(4) bd]
  have n: "length ?ps = btree_num_entries hdr" by simp
  have el: "bounds_dom udom l u \<and> inner_lo cfg lo l \<and> inner_hi cfg hi u \<and> tree_ok cfg udom mem 0 a l u"
    if "i < length ?ps" "(a, l, u) \<in> set (?L i)" for i a l u
  proof -
    have a: "bounds_dom udom l u" "inner_lo cfg (child_lo ?ps lo i) l" "inner_hi cfg (child_hi ?ps hi i) u" "tree_ok cfg udom mem 0 a l u"
      using IH [OF that(1) that(1)] that(2) by blast+
    note c = child_bounds_inner [OF o d Suc.prems(2) hd(3) that(1)]
    show ?thesis using a inner_trans [OF o, of lo "child_lo ?ps lo i" l] inner_trans [OF o, of hi "child_hi ?ps hi i" u] c bd [OF that(1)] Suc.prems(2)
      by (auto simp: bounds_dom_def)
  qed
  have cross: "leaf_before cfg x y" if "i < j" "j < length ?ps" "x \<in> set (?L i)" "y \<in> set (?L j)" for i j x y
  proof -
    obtain a l u a' l' u' where xy: "x = (a, l, u)" "y = (a', l', u')" by (cases x, cases y) auto
    have i: "i < length ?ps" using that by simp
    have hi: "child_hi ?ps hi i = Some (?ps ! Suc i)" and lo: "child_lo ?ps lo j = Some (?ps ! j)" using that by (simp_all add: child_hi_def child_lo_def)
    have x: "bounds_dom udom l u" "inner_hi cfg (Some (?ps ! Suc i)) u" using IH [OF i i] that(3) xy(1) hi by auto
    have y: "bounds_dom udom l' u'" "inner_lo cfg (Some (?ps ! j)) l'" using IH [OF that(2) that(2)] that(4) xy(2) lo by auto
    have ij: "bound_le cfg (Some (?ps ! Suc i)) (Some (?ps ! j))"
    proof (cases "Suc i = j")
      case True
      then show ?thesis using total_compare.cmp_refl [OF user_key_order.key_total [OF o, folded btree_key_compare_eq], of "?ps ! j"] d that(2)
        by (simp add: bound_le_def)
    next
      case False
      then show ?thesis using hd(2) that(1,2) by (auto simp: bound_le_def increasing_def sorted_wrt_iff_nth_less intro: less_imp_le)
    qed
    have dd: "key_dom udom (?ps ! Suc i)" "key_dom udom (?ps ! j)" using d that by auto
    have "bound_le cfg u (Some (?ps ! j))"
      using user_key_order.bound_le_trans [OF o _ ij, of u] x dd by (auto simp: inner_hi_def bounds_dom_def)
    then have "bound_le cfg u l'"
      using user_key_order.bound_le_trans [OF o, of cfg u "Some (?ps ! j)" l'] x y dd by (auto simp: inner_lo_def bounds_dom_def)
    then show ?thesis by (simp add: leaf_before_def xy)
  qed
  have "sorted_wrt (leaf_before cfg) (concat (map ?L [0..<btree_num_entries hdr]))"
    using IH cross n by (intro sorted_concat) (auto simp: sorted_wrt_iff_nth_less)
  then show ?case using el hd(1) n by auto
qed

text \<open>A lookup ends in a leaf whose bounds hold the key.\<close>

lemma same_mem_leaf_list:
  assumes "same_mem cfg mem mem'"
  shows "tree_ok cfg udom mem h addr lo hi \<Longrightarrow> leaf_list mem' h addr lo hi = leaf_list mem h addr lo hi"
proof (induction h arbitrary: addr lo hi)
  case (Suc h)
  then obtain hdr where h: "mem addr = Some (Index_page hdr)" "index_layout cfg hdr"
    "\<And>i. i < btree_num_entries hdr \<Longrightarrow> tree_ok cfg udom mem h (pivot_children hdr ! i) (child_lo (pivot_keys hdr) lo i) (child_hi (pivot_keys hdr) hi i)"
    by auto
  obtain hdr' where h': "mem' addr = Some (Index_page hdr')" "hdr' = hdr \<or> same_node cfg hdr hdr'"
    using same_mem_index [OF assms h(1)] by blast
  have eq: "pivot_keys hdr' = pivot_keys hdr" "pivot_children hdr' = pivot_children hdr" "btree_num_entries hdr' = btree_num_entries hdr"
    using h'(2) h(2) same_node_pivots by blast+
  show ?case using h(1) h'(1) eq Suc.IH [OF h(3)] by (auto intro!: arg_cong [where f = concat] map_cong)
qed simp

lemma lookup_loop_leaf:
  assumes o: "user_key_order (bc_data_cfg cfg) udom" and t: "key_dom udom target"
  shows "\<lbrakk>tree_ok cfg udom (ls_mem st) h addr lo hi; bounds_dom udom lo hi; within cfg lo hi target\<rbrakk>
    \<Longrightarrow> \<exists>a w' st' l u. lookup_loop cfg env target 0 ty h addr w st = Some (a, w', st') \<and> same_mem cfg (ls_mem st) (ls_mem st')
      \<and> (a, l, u) \<in> set (leaf_list (ls_mem st) h addr lo hi) \<and> within cfg l u target"
proof (induction h arbitrary: addr w st lo hi)
  case 0
  then show ?case by auto
next
  case (Suc h)
  obtain addr' w' st' lo' hi' hdr i where s: "lookup_step cfg env target 0 ty (Suc h) addr w st = Some (addr', w', st')"
    "same_mem cfg (ls_mem st) (ls_mem st')" "tree_ok cfg udom (ls_mem st') h addr' lo' hi'" "bounds_dom udom lo' hi'" "within cfg lo' hi' target"
    and i: "ls_mem st addr = Some (Index_page hdr)" "i < btree_num_entries hdr" "addr' = pivot_children hdr ! i"
      "lo' = child_lo (pivot_keys hdr) lo i" "hi' = child_hi (pivot_keys hdr) hi i"
    using lookup_step_ok [OF o Suc.prems(1,2) t Suc.prems(3), of env ty w] by blast
  obtain a w'' st'' l u where r: "lookup_loop cfg env target 0 ty h addr' w' st' = Some (a, w'', st'')" "same_mem cfg (ls_mem st') (ls_mem st'')"
    "(a, l, u) \<in> set (leaf_list (ls_mem st') h addr' lo' hi')" "within cfg l u target"
    using Suc.IH [OF s(3-5)] by blast
  have "tree_ok cfg udom (ls_mem st) h addr' lo' hi'" using Suc.prems(1) i by auto
  then have "(a, l, u) \<in> set (leaf_list (ls_mem st) h addr' lo' hi')" using same_mem_leaf_list [OF s(2)] r(3) by simp
  then have "(a, l, u) \<in> set (leaf_list (ls_mem st) (Suc h) addr lo hi)" using i by auto
  then show ?case using s(1) r(1,4) same_mem_trans [OF s(2) r(2)] by (auto simp del: leaf_list.simps)
qed

lemma lookup_node_leaf:
  assumes o: "user_key_order (bc_data_cfg cfg) udom" and t: "key_dom udom target" and tree: "tree_ok cfg udom (ls_mem st) h root None None"
  obtains a w st' l u where "btree_lookup_node cfg env root target 0 ty st = Some (a, w, st')" "same_mem cfg (ls_mem st) (ls_mem st')"
    "(a, l, u) \<in> set (leaf_list (ls_mem st) h root None None)" "within cfg l u target"
proof -
  obtain page where page: "ls_mem st root = Some page" "page_height page = h" using tree by (cases h) auto
  let ?st = "lookup_node_get env (h + 1) root True (st\<lparr>ls_stats := map_option (\<lambda>_. \<lparr>num_kvs = 0, key_bytes = 0, message_bytes = 0\<rparr>) (ls_stats st)\<rparr>)"
  have m: "ls_mem ?st = ls_mem st" by (simp add: lookup_node_get_def)
  have "bounds_dom udom None None" "within cfg None None target" by (simp_all add: bounds_dom_def within_def)
  from lookup_loop_leaf [OF o t, of ?st h root None None env ty True, unfolded m, OF tree this]
  show ?thesis using that by (auto simp: btree_lookup_node_def page)
qed

text \<open>The place of a key among the tuples of a leaf.\<close>

lemma leaf_tuples_keys: "mem a = Some (Leaf_page hdr) \<Longrightarrow> map fst (leaf_tuples mem a) = leaf_keys hdr"
  by (simp add: leaf_tuples_def leaf_keys_def leaf_contents_def entry_tuple_def tuple_view_def)

lemma find_ge:
  assumes o: "user_key_order (bc_data_cfg cfg) udom" and l: "leaf_layout cfg hdr" and s: "leaf_sorted cfg udom hdr" and t: "key_dom udom target"
  obtains tmp found i where "btree_find_tuple cfg hdr target = Some (tmp, found)" "position greater_than_or_equal tmp found = int i"
    "i \<le> btree_num_entries hdr" "\<forall>x\<in>set (take i (leaf_keys hdr)). btree_key_compare cfg x target < 0"
    "\<forall>x\<in>set (drop i (leaf_keys hdr)). \<not> btree_key_compare cfg x target < 0" "found \<Longrightarrow> i < btree_num_entries hdr \<and> tmp = int i"
proof (cases rule: find_tuple_cases [OF o l s t])
  note tc = user_key_order.key_total [OF o, folded btree_key_compare_eq]
  have inc: "sorted_wrt (\<lambda>a b. btree_key_compare cfg a b < 0) (leaf_keys hdr)" "\<forall>k\<in>set (leaf_keys hdr). key_dom udom k"
    using s by (simp_all add: leaf_sorted_def increasing_def)
  case (1 i)
  have "\<forall>x\<in>set (take i (leaf_keys hdr)). btree_key_compare cfg x target < 0"
    using inc(1) 1(2,3) by (auto simp: in_set_conv_nth sorted_wrt_iff_nth_less)
  moreover have "\<not> btree_key_compare cfg x target < 0" if "x \<in> set (drop i (leaf_keys hdr))" for x
  proof -
    obtain j where j: "j < btree_num_entries hdr" "i \<le> j" "x = leaf_keys hdr ! j"
    proof -
      obtain m where "m < length (drop i (leaf_keys hdr))" "x = drop i (leaf_keys hdr) ! m" using \<open>x \<in> set (drop i (leaf_keys hdr))\<close> by (auto simp: in_set_conv_nth)
      then show ?thesis using 1(2) by (intro that [of "i + m"]) simp_all
    qed
    have xd: "key_dom udom x" using inc(2) j by simp
    show ?thesis
    proof (cases "i = j")
      case True
      then show ?thesis using 1(3) j total_compare.cmp_refl [OF tc t] by simp
    next
      case False
      then have "btree_key_compare cfg target x < 0" using inc(1) 1(3) j by (auto simp: sorted_wrt_iff_nth_less)
      then show ?thesis using total_compare.cmp_sym [OF tc t xd] by simp
    qed
  qed
  ultimately show ?thesis using that [of "int i" True i] 1 by simp
next
  note tc = user_key_order.key_total [OF o, folded btree_key_compare_eq]
  have dom: "\<forall>k\<in>set (leaf_keys hdr). key_dom udom k" using s by (simp add: leaf_sorted_def increasing_def)
  case (2 i)
  have "\<not> btree_key_compare cfg x target < 0" if "x \<in> set (drop (nat (i + 1)) (leaf_keys hdr))" for x
  proof -
    have "btree_key_compare cfg target x < 0" "key_dom udom x" using 2(6) that dom in_set_dropD [OF that] by blast+
    then show ?thesis using total_compare.cmp_sym [OF tc t, of x] by simp
  qed
  then show ?thesis using that [of i False "nat (i + 1)"] 2 by simp
qed

lemma filter_split:
  assumes "i \<le> length xs" "\<forall>x\<in>set (take i xs). P x" "\<forall>x\<in>set (drop i xs). \<not> P x"
  shows "filter P xs = take i xs" "filter (\<lambda>x. \<not> P x) xs = drop i xs"
proof -
  have "filter P (take i xs @ drop i xs) = take i xs" unfolding filter_append using assms(2,3) by (simp add: filter_id_conv filter_empty_conv)
  then show "filter P xs = take i xs" by simp
  have "filter (\<lambda>x. \<not> P x) (take i xs @ drop i xs) = drop i xs" unfolding filter_append using assms(2,3) by (simp add: filter_id_conv filter_empty_conv)
  then show "filter (\<lambda>x. \<not> P x) xs = drop i xs" by simp
qed

text \<open>
  The links between the leaves agree with the tree: the next address of a leaf is the next leaf, and only a tree of one leaf may have an empty
  leaf.
\<close>

definition tree_leaves :: "btree_memory \<Rightarrow> nat \<Rightarrow> uint64 \<Rightarrow> uint64 list" where
  "tree_leaves mem h root = map fst (leaf_list mem h root None None)"

definition tree_tuples :: "btree_memory \<Rightarrow> nat \<Rightarrow> uint64 \<Rightarrow> (key \<times> message) list" where
  "tree_tuples mem h root = concat (map (leaf_tuples mem) (tree_leaves mem h root))"

definition leaves_linked :: "btree_memory \<Rightarrow> nat \<Rightarrow> uint64 \<Rightarrow> bool" where
  "leaves_linked mem h root \<longleftrightarrow> (let ls = tree_leaves mem h root in distinct ls
     \<and> (\<forall>i. Suc i < length ls \<longrightarrow> leaf_next mem (ls ! i) = ls ! Suc i) \<and> (\<forall>a\<in>set ls. 1 < length ls \<longrightarrow> leaf_tuples mem a \<noteq> []))"

definition range_tuples :: "btree_config \<Rightarrow> key \<Rightarrow> key \<Rightarrow> (key \<times> message) list \<Rightarrow> (key \<times> message) list" where
  "range_tuples cfg lo hi = filter (\<lambda>(k, m). \<not> btree_key_compare cfg k lo < 0 \<and> btree_key_compare cfg k hi < 0)"

lemma chain_between:
  assumes d: "distinct ls" and nx: "\<forall>i. Suc i < length ls \<longrightarrow> leaf_next mem (ls ! i) = ls ! Suc i"
    and lf: "\<forall>a\<in>set ls. \<exists>hdr. mem a = Some (Leaf_page hdr) \<and> leaf_layout cfg hdr" and ne: "\<forall>a\<in>set ls. 1 < length ls \<longrightarrow> leaf_tuples mem a \<noteq> []"
  shows "q = p + m \<Longrightarrow> q < length ls \<Longrightarrow> chain_ok cfg mem (Suc m) (ls ! p) (ls ! q)
    \<and> chain_tuples mem (Suc m) (ls ! p) (ls ! q) i = concat (map (\<lambda>j. leaf_tuples mem (ls ! j)) [p..<q]) @ take i (leaf_tuples mem (ls ! q))"
proof (induction m arbitrary: p)
  case 0
  then show ?case using lf by simp
next
  case (Suc m)
  have pl: "Suc p < length ls" "p < q" using Suc.prems by simp_all
  obtain hdr where h: "mem (ls ! p) = Some (Leaf_page hdr)" "leaf_layout cfg hdr" using lf pl by (meson Suc_lessD nth_mem)
  have n1: "leaf_next mem (ls ! p) = ls ! Suc p" using nx pl by blast
  then have n: "leaf_next mem (ls ! p) = ls ! Suc p" "next_addr hdr = ls ! Suc p" using h(1) by (simp_all add: leaf_next_def)
  have "leaf_tuples mem (ls ! p) \<noteq> []" using ne pl by simp
  then have "0 < btree_num_entries hdr" using leaf_tuples_length [of mem "ls ! p", OF h(1)] by (metis length_greater_0_conv)
  moreover have "ls ! p \<noteq> ls ! q" using d pl Suc.prems(2) by (simp add: nth_eq_iff_index_eq)
  moreover note IH = Suc.IH [of "Suc p"]
  ultimately show ?case using h n IH Suc.prems upt_conv_Cons [OF pl(2)] by simp
qed

lemma leaf_at:
  assumes o: "user_key_order (bc_data_cfg cfg) udom" and tree: "tree_ok cfg udom mem h root None None"
    and p: "p < length (leaf_list mem h root None None)"
  obtains a l u hdr where "leaf_list mem h root None None ! p = (a, l, u)" "tree_leaves mem h root ! p = a" "mem a = Some (Leaf_page hdr)"
    "leaf_layout cfg hdr" "leaf_sorted cfg udom hdr" "bounds_dom udom l u" "\<forall>k\<in>set (leaf_keys hdr). within cfg l u k \<and> key_dom udom k"
proof -
  obtain a l u where e: "leaf_list mem h root None None ! p = (a, l, u)" by (metis prod_cases3)
  have "bounds_dom udom None None" by (simp add: bounds_dom_def)
  from leaf_list_ordered [OF o tree this] nth_mem [OF p] have t: "bounds_dom udom l u" "tree_ok cfg udom mem 0 a l u" unfolding e by blast+
  obtain hdr where "mem a = Some (Leaf_page hdr)" "leaf_layout cfg hdr" "leaf_sorted cfg udom hdr" "\<forall>k\<in>set (leaf_keys hdr). within cfg l u k"
    using t(2) by auto
  moreover have "\<forall>k\<in>set (leaf_keys hdr). key_dom udom k" using calculation(3) by (simp add: leaf_sorted_def increasing_def)
  moreover have "tree_leaves mem h root ! p = a" using e p by (simp add: tree_leaves_def)
  ultimately show thesis using that e t(1) by blast
qed

text \<open>The keys of the leaves before and after the leaf of a key, and the leaves of two keys.\<close>

lemma leaves_before_after:
  assumes o: "user_key_order (bc_data_cfg cfg) udom" and tree: "tree_ok cfg udom mem h root None None" and t: "key_dom udom t"
    and p: "p < length (leaf_list mem h root None None)" "leaf_list mem h root None None ! p = (a, l, u)" "within cfg l u t"
    and r: "r < length (leaf_list mem h root None None)" and x: "x \<in> set (leaf_tuples mem (tree_leaves mem h root ! r))"
  shows "r < p \<Longrightarrow> btree_key_compare cfg (fst x) t < 0" "p < r \<Longrightarrow> \<not> btree_key_compare cfg (fst x) t < 0"
proof -
  note tc = user_key_order.key_total [OF o, folded btree_key_compare_eq]
  let ?L = "leaf_list mem h root None None"
  have "bounds_dom udom None None" by (simp add: bounds_dom_def)
  then have s: "sorted_wrt (leaf_before cfg) ?L" using leaf_list_ordered [OF o tree] by blast
  obtain b l' u' hdr where b: "?L ! r = (b, l', u')" "tree_leaves mem h root ! r = b" "mem b = Some (Leaf_page hdr)" "bounds_dom udom l' u'"
    "\<forall>k\<in>set (leaf_keys hdr). within cfg l' u' k \<and> key_dom udom k"
    by (rule leaf_at [OF o tree r]) blast
  have bd: "bounds_dom udom l u" using leaf_at [OF o tree p(1)] p(2) by (metis prod.inject)
  have "fst x \<in> set (leaf_keys hdr)" using x b(2,3) leaf_tuples_keys [of mem b hdr] by (metis imageI set_map)
  then have k: "within cfg l' u' (fst x)" "key_dom udom (fst x)" using b(5) by blast+
  show "btree_key_compare cfg (fst x) t < 0" if "r < p"
  proof -
    have "leaf_before cfg (?L ! r) (?L ! p)" using s that p(1) by (simp add: sorted_wrt_iff_nth_less)
    then obtain u1 l1 where ul: "u' = Some u1" "l = Some l1" "btree_key_compare cfg u1 l1 \<le> 0" using b(1) p(2) by (auto simp: leaf_before_def bound_le_def)
    have "btree_key_compare cfg (fst x) u1 < 0" "btree_key_compare cfg l1 t \<le> 0" using k(1) p(3) ul by (simp_all add: within_def)
    moreover have "key_dom udom u1" "key_dom udom l1" using b(4) bd ul by (simp_all add: bounds_dom_def)
    ultimately show ?thesis using total_compare.cmp_less_le_trans [OF tc k(2)] total_compare.cmp_le_trans [OF tc] ul(3) t by blast
  qed
  show "\<not> btree_key_compare cfg (fst x) t < 0" if "p < r"
  proof -
    have "leaf_before cfg (?L ! p) (?L ! r)" using s that r by (simp add: sorted_wrt_iff_nth_less)
    then obtain u1 l1 where ul: "u = Some u1" "l' = Some l1" "btree_key_compare cfg u1 l1 \<le> 0" using b(1) p(2) by (auto simp: leaf_before_def bound_le_def)
    have "btree_key_compare cfg t u1 < 0" "btree_key_compare cfg l1 (fst x) \<le> 0" using k(1) p(3) ul by (simp_all add: within_def)
    moreover have "key_dom udom u1" "key_dom udom l1" using b(4) bd ul by (simp_all add: bounds_dom_def)
    ultimately have "btree_key_compare cfg t (fst x) < 0"
      using total_compare.cmp_less_le_trans [OF tc t] total_compare.cmp_le_trans [OF tc] ul(3) k(2) by blast
    then show ?thesis using total_compare.cmp_sym [OF tc t k(2)] by simp
  qed
qed

lemma leaves_monotone:
  assumes o: "user_key_order (bc_data_cfg cfg) udom" and tree: "tree_ok cfg udom mem h root None None" and t: "key_dom udom t" "key_dom udom t'"
    and le: "btree_key_compare cfg t t' \<le> 0"
    and p: "p < length (leaf_list mem h root None None)" "leaf_list mem h root None None ! p = (a, l, u)" "within cfg l u t"
    and q: "q < length (leaf_list mem h root None None)" "leaf_list mem h root None None ! q = (a', l', u')" "within cfg l' u' t'"
  shows "p \<le> q"
proof (rule ccontr)
  note tc = user_key_order.key_total [OF o, folded btree_key_compare_eq]
  let ?L = "leaf_list mem h root None None"
  assume "\<not> p \<le> q"
  then have qp: "q < p" by simp
  have "bounds_dom udom None None" by (simp add: bounds_dom_def)
  then have s: "sorted_wrt (leaf_before cfg) ?L" using leaf_list_ordered [OF o tree] by blast
  then have "leaf_before cfg (?L ! q) (?L ! p)" using qp p(1) by (simp add: sorted_wrt_iff_nth_less)
  then obtain u1 l1 where ul: "u' = Some u1" "l = Some l1" "btree_key_compare cfg u1 l1 \<le> 0" using q(2) p(2) by (auto simp: leaf_before_def bound_le_def)
  have c: "btree_key_compare cfg t' u1 < 0" "btree_key_compare cfg l1 t \<le> 0" using p(3) q(3) ul by (simp_all add: within_def)
  have "bounds_dom udom l u" "bounds_dom udom l' u'" using leaf_at [OF o tree p(1)] leaf_at [OF o tree q(1)] p(2) q(2) by (metis prod.inject)+
  then have d: "key_dom udom u1" "key_dom udom l1" using ul by (simp_all add: bounds_dom_def)
  have "btree_key_compare cfg t' t < 0"
    using total_compare.cmp_less_le_trans [OF tc t(2) d(1) t(1) c(1)] total_compare.cmp_le_trans [OF tc d(1,2) t(1) ul(3) c(2)] by blast
  then show False using total_compare.cmp_sym [OF tc t(2,1)] le by simp
qed

lemma filter_drop: "\<forall>x\<in>set (take i xs). \<not> A x \<Longrightarrow> \<forall>x\<in>set (drop i xs). A x \<Longrightarrow> filter A xs = drop i xs"
proof -
  assume a: "\<forall>x\<in>set (take i xs). \<not> A x" "\<forall>x\<in>set (drop i xs). A x"
  have "filter A (take i xs @ drop i xs) = drop i xs" unfolding filter_append using a by (simp add: filter_id_conv filter_empty_conv)
  then show ?thesis by simp
qed

lemma filter_take: "\<forall>x\<in>set (take j xs). B x \<Longrightarrow> \<forall>x\<in>set (drop j xs). \<not> B x \<Longrightarrow> filter B xs = take j xs"
proof -
  assume a: "\<forall>x\<in>set (take j xs). B x" "\<forall>x\<in>set (drop j xs). \<not> B x"
  have "filter B (take j xs @ drop j xs) = take j xs" unfolding filter_append using a by (simp add: filter_id_conv filter_empty_conv)
  then show ?thesis by simp
qed

lemma filter_ranges:
  fixes T :: "nat \<Rightarrow> 'a list"
  assumes pq: "p \<le> q" "q < N"
    and A: "\<And>r x. r < p \<Longrightarrow> x \<in> set (T r) \<Longrightarrow> \<not> A x" "\<And>r x. p < r \<Longrightarrow> r < N \<Longrightarrow> x \<in> set (T r) \<Longrightarrow> A x"
    and B: "\<And>r x. r < q \<Longrightarrow> x \<in> set (T r) \<Longrightarrow> B x" "\<And>r x. q < r \<Longrightarrow> r < N \<Longrightarrow> x \<in> set (T r) \<Longrightarrow> \<not> B x"
    and i: "\<forall>x\<in>set (take i (T p)). \<not> A x" "\<forall>x\<in>set (drop i (T p)). A x"
    and j: "\<forall>x\<in>set (take j (T q)). B x" "\<forall>x\<in>set (drop j (T q)). \<not> B x"
  shows "filter (\<lambda>x. A x \<and> B x) (concat (map T [0..<N])) =
    (if p = q then drop i (take j (T q)) else drop i (T p) @ concat (map T [Suc p..<q]) @ take j (T q))"
proof -
  let ?f = "\<lambda>r. filter (\<lambda>x. A x \<and> B x) (T r)"
  have u: "[0..<N] = [0..<p] @ [p..<Suc q] @ [Suc q..<N]" using pq by (metis le_SucI le_add_diff_inverse Suc_leI upt_add_eq_append zero_le append.assoc)
  have e1: "concat (map ?f [0..<p]) = []" using A(1) by (auto simp: filter_empty_conv)
  have e2: "concat (map ?f [Suc q..<N]) = []" using B(2) by (auto simp: filter_empty_conv Suc_le_eq)
  have full: "filter (\<lambda>x. A x \<and> B x) (concat (map T [0..<N])) = concat (map ?f [p..<Suc q])"
    unfolding u map_append concat_append filter_append filter_concat map_map comp_def e1 e2 by simp
  have ab: "filter (\<lambda>x. A x \<and> B x) xs = filter A (filter B xs)" for xs by (simp add: conj_commute)
  show ?thesis
  proof (cases "p = q")
    case True
    have "filter A (take j (T q)) = drop i (take j (T q))"
    proof (rule filter_drop)
      show "\<forall>x\<in>set (take i (take j (T q))). \<not> A x" using i(1) True by (metis in_set_takeD take_take min.commute)
      show "\<forall>x\<in>set (drop i (take j (T q))). A x" using i(2) True by (metis in_set_takeD drop_take)
    qed
    then have "?f q = drop i (take j (T q))" unfolding ab filter_take [OF j] .
    then show ?thesis using True unfolding full by simp
  next
    case False
    then have lt: "p < q" using pq by simp
    have fp: "?f p = drop i (T p)"
    proof -
      have "filter B (T p) = T p" using B(1) [OF lt] by (simp add: filter_id_conv)
      then show ?thesis unfolding ab using filter_drop [OF i] by simp
    qed
    have fq: "?f q = take j (T q)"
    proof -
      have "filter A (take j (T q)) = take j (T q)" using A(2) [OF lt pq(2)] by (auto simp: filter_id_conv dest: in_set_takeD)
      then show ?thesis unfolding ab filter_take [OF j] .
    qed
    have mid: "map ?f [Suc p..<q] = map T [Suc p..<q]" using A(2) B(1) pq by (auto simp: filter_id_conv Suc_le_eq)
    have "[p..<Suc q] = p # [Suc p..<q] @ [q]" using lt by (simp add: upt_conv_Cons)
    then have "map ?f [p..<Suc q] = ?f p # map T [Suc p..<q] @ [?f q]" using mid by simp
    then show ?thesis unfolding full fp fq using False by simp
  qed
qed

lemma leaf_key_below_infinity:
  assumes "leaf_layout cfg hdr" "k \<in> set (leaf_keys hdr)" "key_is_positive_infinity t"
  shows "btree_key_compare cfg k t < 0"
proof -
  obtain e where e: "e \<in> set (node_entries hdr)" "k = leaf_entry_key e" using assms(2) by (auto simp: leaf_keys_def leaf_contents_def tuple_view_def)
  have "kind k = USER_KEY" unfolding e(2) by (simp add: leaf_entry_key_def ondisk_tuple_key_def key_create_def)
  then show ?thesis using assms(3) by (simp add: btree_key_compare_eq data_key_compare_def key_is_positive_infinity_def key_is_user_key_def)
qed

text \<open>Finding the end of the range.\<close>

lemma find_end_spec:
  assumes o: "user_key_order (bc_data_cfg cfg) udom" and tree: "tree_ok cfg udom (ls_mem (bs_state s)) h (bi_root_addr (bs_itor s)) None None"
    and t: "key_dom udom (bi_max_key (bs_itor s))" and h0: "bi_height (bs_itor s) = 0"
  defines "mem \<equiv> ls_mem (bs_state s)" and "root \<equiv> bi_root_addr (bs_itor s)" and "mx \<equiv> bi_max_key (bs_itor s)"
  obtains st e q l u hdr j where "btree_iterator_find_end cfg env s = Some (s\<lparr>bs_itor := (bs_itor s)\<lparr>end_addr := e, end_generation := generation hdr, end_idx := int j\<rparr>, bs_state := st\<rparr>)"
    "same_mem cfg mem (ls_mem st)" "q < length (leaf_list mem h root None None)" "leaf_list mem h root None None ! q = (e, l, u)" "within cfg l u mx"
    "mem e = Some (Leaf_page hdr)" "j \<le> btree_num_entries hdr"
    "\<forall>x\<in>set (take j (leaf_tuples mem e)). btree_key_compare cfg (fst x) mx < 0" "\<forall>x\<in>set (drop j (leaf_tuples mem e)). \<not> btree_key_compare cfg (fst x) mx < 0"
proof -
  let ?st = "(bs_state s)\<lparr>ls_stats := None\<rparr>"
  have m: "ls_mem ?st = mem" by (simp add: mem_def)
  obtain e w st l u where lk: "btree_lookup_node cfg env root mx 0 (bi_page_type (bs_itor s)) ?st = Some (e, w, st)" "same_mem cfg mem (ls_mem st)"
    "(e, l, u) \<in> set (leaf_list mem h root None None)" "within cfg l u mx"
    by (rule lookup_node_leaf [OF o t, of ?st h root env "bi_page_type (bs_itor s)"]) (use tree m in \<open>auto simp: mem_def root_def mx_def\<close>)
  obtain q where q: "q < length (leaf_list mem h root None None)" "leaf_list mem h root None None ! q = (e, l, u)" using lk(3) by (auto simp: in_set_conv_nth)
  have tr: "tree_ok cfg udom mem h root None None" using tree by (simp add: mem_def root_def)
  obtain hdr where hdr: "mem e = Some (Leaf_page hdr)" "leaf_layout cfg hdr" "leaf_sorted cfg udom hdr"
    by (rule leaf_at [OF o tr q(1)]) (use q(2) in auto)
  have pg: "ls_mem st e = Some (Leaf_page hdr)" by (rule same_mem_leaf [OF lk(2) hdr(1)])
  have keys: "map fst (leaf_tuples mem e) = leaf_keys hdr" "length (leaf_tuples mem e) = btree_num_entries hdr"
    using leaf_tuples_keys [of mem e hdr] leaf_tuples_length [of mem e hdr] hdr(1) by simp_all
  have tk: "(\<forall>x\<in>set (take j (leaf_tuples mem e)). P (fst x)) \<longleftrightarrow> (\<forall>k\<in>set (take j (leaf_keys hdr)). P k)"
    "(\<forall>x\<in>set (drop j (leaf_tuples mem e)). P (fst x)) \<longleftrightarrow> (\<forall>k\<in>set (drop j (leaf_keys hdr)). P k)" for j P
    unfolding keys(1) [symmetric] take_map drop_map by simp_all
  let ?r = "\<lambda>j. s\<lparr>bs_itor := (bs_itor s)\<lparr>end_addr := e, end_generation := generation hdr, end_idx := int j\<rparr>, bs_state := st\<rparr>"
  show thesis
  proof (cases "key_is_positive_infinity mx")
    case True
    have r: "btree_iterator_find_end cfg env s = Some (?r (btree_num_entries hdr))"
      using lk(1) pg h0 True by (simp add: btree_iterator_find_end_def root_def mx_def)
    show thesis
    proof (rule that [OF r lk(2) q lk(4) hdr(1)])
      have "btree_key_compare cfg (fst x) mx < 0" if "x \<in> set (leaf_tuples mem e)" for x
        by (rule leaf_key_below_infinity [OF hdr(2) _ True]) (use that keys(1) [symmetric] in simp)
      then show "\<forall>x\<in>set (take (btree_num_entries hdr) (leaf_tuples mem e)). btree_key_compare cfg (fst x) mx < 0" using in_set_takeD by metis
    qed (simp_all add: keys(2))
  next
    case False
    obtain tmp found j where f: "btree_find_tuple cfg hdr mx = Some (tmp, found)" "position greater_than_or_equal tmp found = int j"
      "j \<le> btree_num_entries hdr" "\<forall>x\<in>set (take j (leaf_keys hdr)). btree_key_compare cfg x mx < 0"
      "\<forall>x\<in>set (drop j (leaf_keys hdr)). \<not> btree_key_compare cfg x mx < 0"
      by (rule find_ge [OF o hdr(2,3), of mx]) (use t mx_def in auto)
    have r: "btree_iterator_find_end cfg env s = Some (?r j)"
      using lk(1) pg h0 False f(1,2) by (simp add: btree_iterator_find_end_def root_def mx_def find_key_in_node_def del: position.simps)
    show thesis
    proof (rule that [OF r lk(2) q lk(4) hdr(1) f(3)])
      show "\<forall>x\<in>set (take j (leaf_tuples mem e)). btree_key_compare cfg (fst x) mx < 0"
        by (rule tk(1) [where P = "\<lambda>k. btree_key_compare cfg k mx < 0", THEN iffD2, OF f(4)])
      show "\<forall>x\<in>set (drop j (leaf_tuples mem e)). \<not> btree_key_compare cfg (fst x) mx < 0"
        by (rule tk(2) [where P = "\<lambda>k. \<not> btree_key_compare cfg k mx < 0", THEN iffD2, OF f(5)])
    qed
  qed
qed

lemma same_mem_tuples:
  assumes "same_mem cfg mem mem'" "mem a = Some (Leaf_page hdr)"
  shows "leaf_tuples mem' a = leaf_tuples mem a" "leaf_next mem' a = leaf_next mem a"
  using same_mem_leaf [OF assms] assms(2) by (simp_all add: leaf_tuples_def leaf_next_def)

lemma same_mem_linked:
  assumes o: "user_key_order (bc_data_cfg cfg) udom" and m: "same_mem cfg mem mem'" and tree: "tree_ok cfg udom mem h root None None"
  shows "tree_leaves mem' h root = tree_leaves mem h root" "tree_tuples mem' h root = tree_tuples mem h root"
    "leaves_linked mem h root \<Longrightarrow> leaves_linked mem' h root"
proof -
  show l: "tree_leaves mem' h root = tree_leaves mem h root" using same_mem_leaf_list [OF m tree] by (simp add: tree_leaves_def)
  have t: "leaf_tuples mem' a = leaf_tuples mem a" "leaf_next mem' a = leaf_next mem a" if al: "a \<in> set (tree_leaves mem h root)" for a
  proof -
    obtain p where "p < length (leaf_list mem h root None None)" "tree_leaves mem h root ! p = a" using al by (auto simp: in_set_conv_nth tree_leaves_def)
    then obtain hdr where "mem a = Some (Leaf_page hdr)" using leaf_at [OF o tree] by metis
    then show "leaf_tuples mem' a = leaf_tuples mem a" "leaf_next mem' a = leaf_next mem a" using same_mem_tuples [OF m] by blast+
  qed
  then show "tree_tuples mem' h root = tree_tuples mem h root" using l by (simp add: tree_tuples_def cong: map_cong)
  show "leaves_linked mem h root \<Longrightarrow> leaves_linked mem' h root" unfolding leaves_linked_def l Let_def using t by (auto simp: t(2))
qed

lemma scan_at:
  assumes o: "user_key_order (bc_data_cfg cfg) udom" and tree: "tree_ok cfg udom (ls_mem (bs_state s)) h root None None"
    and link: "leaves_linked (ls_mem (bs_state s)) h root" and rq: "r \<le> q" "q < length (tree_leaves (ls_mem (bs_state s)) h root)"
    and s: "bi_curr (bs_itor s) = tree_leaves (ls_mem (bs_state s)) h root ! r" "end_addr (bs_itor s) = tree_leaves (ls_mem (bs_state s)) h root ! q"
      "bi_idx (bs_itor s) = int i" "curr_min_idx (bs_itor s) \<le> int i" "end_idx (bs_itor s) = int j" "bi_height (bs_itor s) = 0"
    and e: "ls_mem (bs_state s) (end_addr (bs_itor s)) = Some (Leaf_page hdr)" "generation hdr = end_generation (bs_itor s)" "j \<le> btree_num_entries hdr"
    and i: "r < q \<Longrightarrow> i < length (leaf_tuples (ls_mem (bs_state s)) (bi_curr (bs_itor s)))"
  defines "T \<equiv> \<lambda>k. leaf_tuples (ls_mem (bs_state s)) (tree_leaves (ls_mem (bs_state s)) h root ! k)"
  shows "itor_ok cfg (length (tree_leaves (ls_mem (bs_state s)) h root)) s"
    "scan_view (length (tree_leaves (ls_mem (bs_state s)) h root)) s = drop i (concat (map T [r..<q]) @ take j (T q))"
proof -
  let ?mem = "ls_mem (bs_state s)" and ?i = "bs_itor s"
  let ?ls = "tree_leaves ?mem h root"
  have lk: "distinct ?ls" "\<forall>i. Suc i < length ?ls \<longrightarrow> leaf_next ?mem (?ls ! i) = ?ls ! Suc i" "\<forall>a\<in>set ?ls. 1 < length ?ls \<longrightarrow> leaf_tuples ?mem a \<noteq> []"
    using link by (simp_all add: leaves_linked_def Let_def)
  have lf: "\<forall>a\<in>set ?ls. \<exists>hdr. ?mem a = Some (Leaf_page hdr) \<and> leaf_layout cfg hdr"
  proof
    fix a
    assume "a \<in> set ?ls"
    then obtain p where "p < length (leaf_list ?mem h root None None)" "?ls ! p = a" by (auto simp: in_set_conv_nth tree_leaves_def)
    then show "\<exists>hdr. ?mem a = Some (Leaf_page hdr) \<and> leaf_layout cfg hdr" using leaf_at [OF o tree] by metis
  qed
  have qm: "q = r + (q - r)" using rq by simp
  note c = chain_between [OF lk(1,2) lf lk(3) qm rq(2), of j]
  have le: "Suc (q - r) \<le> length ?ls" using rq by simp
  note mono = chain_mono [OF conjunct1 [OF c] le, of j]
  have ch: "chain_ok cfg ?mem (length ?ls) (bi_curr ?i) (end_addr ?i)" using mono s by simp
  have "bi_idx ?i < int (btree_num_entries hdr')" if "bi_curr ?i \<noteq> end_addr ?i" "?mem (bi_curr ?i) = Some (Leaf_page hdr')" for hdr'
  proof -
    have "r < q" using that(1) s rq by (cases "r = q") auto
    then show ?thesis using i leaf_tuples_length [of ?mem "bi_curr ?i", OF that(2)] s(3) by simp
  qed
  then show "itor_ok cfg (length ?ls) s" unfolding itor_ok_def Let_def using ch s e by auto
  show "scan_view (length ?ls) s = drop i (concat (map T [r..<q]) @ take j (T q))"
    unfolding scan_view_def Let_def using mono c s by (simp add: T_def)
qed

text \<open>The tuples of a range, by the leaves of its ends.\<close>

lemma range_split:
  assumes o: "user_key_order (bc_data_cfg cfg) udom" and tree: "tree_ok cfg udom mem h root None None" and t: "key_dom udom mn" "key_dom udom mx"
    and le: "btree_key_compare cfg mn mx \<le> 0"
    and p: "p < length (leaf_list mem h root None None)" "leaf_list mem h root None None ! p = (a, l, u)" "within cfg l u mn"
    and q: "q < length (leaf_list mem h root None None)" "leaf_list mem h root None None ! q = (e, l', u')" "within cfg l' u' mx"
  defines "T \<equiv> \<lambda>r. leaf_tuples mem (tree_leaves mem h root ! r)"
  assumes ti: "\<forall>x\<in>set (take i (T p)). btree_key_compare cfg (fst x) mn < 0" "\<forall>x\<in>set (drop i (T p)). \<not> btree_key_compare cfg (fst x) mn < 0"
    and tj: "\<forall>x\<in>set (take j (T q)). btree_key_compare cfg (fst x) mx < 0" "\<forall>x\<in>set (drop j (T q)). \<not> btree_key_compare cfg (fst x) mx < 0"
  shows "p \<le> q" "range_tuples cfg mn mx (tree_tuples mem h root)
    = (if p = q then drop i (take j (T q)) else drop i (T p) @ concat (map T [Suc p..<q]) @ take j (T q))"
proof -
  let ?N = "length (tree_leaves mem h root)"
  have N: "?N = length (leaf_list mem h root None None)" by (simp add: tree_leaves_def)
  show pq: "p \<le> q" by (rule leaves_monotone [OF o tree t le p q])
  have tt: "tree_tuples mem h root = concat (map T [0..<?N])"
  proof -
    have "map (leaf_tuples mem) (tree_leaves mem h root) = map (leaf_tuples mem) (map ((!) (tree_leaves mem h root)) [0..<?N])" by (simp only: map_nth)
    also have "\<dots> = map T [0..<?N]" by (simp add: T_def)
    finally show ?thesis by (simp add: tree_tuples_def)
  qed
  have fl: "range_tuples cfg mn mx = filter (\<lambda>x. \<not> btree_key_compare cfg (fst x) mn < 0 \<and> btree_key_compare cfg (fst x) mx < 0)"
    unfolding range_tuples_def by (rule arg_cong [where f = filter]) auto
  show "range_tuples cfg mn mx (tree_tuples mem h root)
    = (if p = q then drop i (take j (T q)) else drop i (T p) @ concat (map T [Suc p..<q]) @ take j (T q))"
    unfolding fl tt
  proof (rule filter_ranges [OF pq])
    show "q < ?N" using q(1) N by simp
    show "\<not> \<not> btree_key_compare cfg (fst x) mn < 0" if "r < p" "x \<in> set (T r)" for r x
      using leaves_before_after(1) [OF o tree t(1) p, of r x] that p(1) by (simp add: T_def)
    show "\<not> btree_key_compare cfg (fst x) mn < 0" if "p < r" "r < ?N" "x \<in> set (T r)" for r x
      using leaves_before_after(2) [OF o tree t(1) p, of r x] that N by (simp add: T_def)
    show "btree_key_compare cfg (fst x) mx < 0" if "r < q" "x \<in> set (T r)" for r x
      using leaves_before_after(1) [OF o tree t(2) q, of r x] that q(1) by (simp add: T_def)
    show "\<not> btree_key_compare cfg (fst x) mx < 0" if "q < r" "r < ?N" "x \<in> set (T r)" for r x
      using leaves_before_after(2) [OF o tree t(2) q, of r x] that N by (simp add: T_def)
    show "\<forall>x\<in>set (take i (T p)). \<not> \<not> btree_key_compare cfg (fst x) mn < 0" using ti(1) by simp
  qed (fact ti(2) tj)+
qed

text \<open>
  The iterator after its creation: where it stands among the leaves. \<open>p\<close> is the leaf of the least key and \<open>q\<close> the leaf of the end; when the
  first leaf has no key of the range the iterator is at the next one.
\<close>

lemma find_bounds_spec:
  assumes o: "user_key_order (bc_data_cfg cfg) udom" and tree: "tree_ok cfg udom (ls_mem (bs_state s)) h (bi_root_addr (bs_itor s)) None None"
    and link: "leaves_linked (ls_mem (bs_state s)) h (bi_root_addr (bs_itor s))"
    and t: "key_dom udom (bi_min_key (bs_itor s))" "key_dom udom (bi_max_key (bs_itor s))" and h0: "bi_height (bs_itor s) = 0"
    and le: "btree_key_compare cfg (bi_min_key (bs_itor s)) (bi_max_key (bs_itor s)) \<le> 0"
  defines "mem \<equiv> ls_mem (bs_state s)" and "root \<equiv> bi_root_addr (bs_itor s)" and "mn \<equiv> bi_min_key (bs_itor s)" and "mx \<equiv> bi_max_key (bs_itor s)"
  defines "N \<equiv> length (tree_leaves mem h root)"
  shows "\<exists>s'. find_btree_node_and_get_idx_bounds fuel cfg env page_clock s mn greater_than_or_equal = Some s' \<and> itor_ok cfg N s'
    \<and> scan_view N s' = range_tuples cfg mn mx (tree_tuples mem h root) \<and> same_mem cfg mem (ls_mem (bs_state s'))"
proof -
  let ?L = "leaf_list mem h root None None"
  have tm: "key_dom udom mn" "key_dom udom mx" and lem: "btree_key_compare cfg mn mx \<le> 0" using t le by (simp_all add: mn_def mx_def)
  let ?st = "(bs_state s)\<lparr>ls_stats := None\<rparr>"
  have tr: "tree_ok cfg udom mem h root None None" using tree by (simp add: mem_def root_def)
  obtain a w st l u where lk: "btree_lookup_node cfg env root mn 0 (bi_page_type (bs_itor s)) ?st = Some (a, w, st)" "same_mem cfg mem (ls_mem st)"
    "(a, l, u) \<in> set ?L" "within cfg l u mn"
    by (rule lookup_node_leaf [OF o t(1), of ?st h root env "bi_page_type (bs_itor s)"]) (use tr in \<open>auto simp: mem_def root_def mn_def\<close>)
  obtain p where p: "p < length ?L" "?L ! p = (a, l, u)" using lk(3) by (auto simp: in_set_conv_nth)
  have trs: "tree_ok cfg udom (ls_mem st) h root None None" using same_mem_tree [OF lk(2) tr] by blast
  have Ls: "leaf_list (ls_mem st) h root None None = ?L" by (rule same_mem_leaf_list [OF lk(2) tr])
  define s0 where "s0 = s\<lparr>bs_itor := (bs_itor s)\<lparr>bi_curr := a, bi_is_warm := w\<rparr>, bs_state := st\<rparr>"
  have s0: "ls_mem (bs_state s0) = ls_mem st" "bi_root_addr (bs_itor s0) = root" "bi_max_key (bs_itor s0) = mx" "bi_height (bs_itor s0) = 0"
    "bi_min_key (bs_itor s0) = mn" "bi_curr (bs_itor s0) = a"
    by (simp_all add: s0_def root_def mx_def mn_def h0)
  obtain st2 e q l' u' hdr2 j where fe: "btree_iterator_find_end cfg env s0
        = Some (s0\<lparr>bs_itor := (bs_itor s0)\<lparr>end_addr := e, end_generation := generation hdr2, end_idx := int j\<rparr>, bs_state := st2\<rparr>)"
    "same_mem cfg (ls_mem st) (ls_mem st2)" "q < length ?L" "?L ! q = (e, l', u')" "within cfg l' u' mx"
    "ls_mem st e = Some (Leaf_page hdr2)" "j \<le> btree_num_entries hdr2"
    "\<forall>x\<in>set (take j (leaf_tuples (ls_mem st) e)). btree_key_compare cfg (fst x) mx < 0"
    "\<forall>x\<in>set (drop j (leaf_tuples (ls_mem st) e)). \<not> btree_key_compare cfg (fst x) mx < 0"
    by (rule find_end_spec [OF o, of s0 h env]) (use trs s0 t(2) Ls in \<open>auto simp: mx_def\<close>)
  have m2: "same_mem cfg mem (ls_mem st2)" by (rule same_mem_trans [OF lk(2) fe(2)])
  define s1 where "s1 = s0\<lparr>bs_itor := (bs_itor s0)\<lparr>end_addr := e, end_generation := generation hdr2, end_idx := int j\<rparr>, bs_state := st2\<rparr>"
  let ?M = "ls_mem st2"
  let ?ls = "tree_leaves ?M h root"
  note sl = same_mem_linked [OF o m2 tr]
  have tr2: "tree_ok cfg udom ?M h root None None" using same_mem_tree [OF m2 tr] by blast
  have L2: "leaf_list ?M h root None None = ?L" by (rule same_mem_leaf_list [OF m2 tr])
  have link2: "leaves_linked ?M h root" using sl(3) link by (simp add: mem_def root_def)
  have N: "length ?ls = N" "length ?L = N" "length (leaf_list ?M h root None None) = N" using sl(1) L2 by (simp_all add: N_def tree_leaves_def)
  have ea: "?M e = Some (Leaf_page hdr2)" by (rule same_mem_leaf [OF fe(2,6)])
  have te: "leaf_tuples ?M e = leaf_tuples (ls_mem st) e" by (rule same_mem_tuples(1) [OF fe(2,6)])
  have at: "?ls ! p = a" "?ls ! q = e" using p fe(3,4) L2 by (simp_all add: tree_leaves_def)
  obtain hdr where ha: "?M a = Some (Leaf_page hdr)" "leaf_layout cfg hdr" "leaf_sorted cfg udom hdr"
    by (rule leaf_at [OF o tr2, of p]) (use p L2 in auto)
  have ql: "q < length ?ls" using fe(3) N by simp
  let ?T = "\<lambda>r. leaf_tuples ?M (?ls ! r)"
  obtain tmp found i where fi: "btree_find_tuple cfg hdr mn = Some (tmp, found)" "position greater_than_or_equal tmp found = int i"
    "i \<le> btree_num_entries hdr" "\<forall>x\<in>set (take i (leaf_keys hdr)). btree_key_compare cfg x mn < 0"
    "\<forall>x\<in>set (drop i (leaf_keys hdr)). \<not> btree_key_compare cfg x mn < 0"
    using find_ge [OF o ha(2,3), of mn] t(1) unfolding mn_def by metis
  have ka: "map fst (leaf_tuples ?M a) = leaf_keys hdr" "length (leaf_tuples ?M a) = btree_num_entries hdr"
    using leaf_tuples_keys [of ?M a hdr] leaf_tuples_length [of ?M a hdr] ha(1) by simp_all
  have ti: "\<forall>x\<in>set (take i (?T p)). btree_key_compare cfg (fst x) mn < 0" "\<forall>x\<in>set (drop i (?T p)). \<not> btree_key_compare cfg (fst x) mn < 0"
    using fi(4,5) unfolding at(1) ka(1) [symmetric] take_map drop_map set_map by auto
  have tj: "\<forall>x\<in>set (take j (?T q)). btree_key_compare cfg (fst x) mx < 0" "\<forall>x\<in>set (drop j (?T q)). \<not> btree_key_compare cfg (fst x) mx < 0"
    using fe(8,9) unfolding at(2) te by blast+
  note rs = range_split [OF o tr2 tm lem, unfolded L2, OF p lk(4) fe(3-5) ti tj, unfolded sl(2)]
  define m' where "m' = (if (if \<not> found \<and> int i = 0 then int i - 1 else int i) = -1 \<and> prev_addr hdr = 0 then 0
    else (if \<not> found \<and> int i = 0 then int i - 1 else int i))"
  have m': "m' \<le> int i" by (auto simp: m'_def)
  define s2 where "s2 = s1\<lparr>bs_itor := (bs_itor s1)\<lparr>curr_min_idx := m', bi_idx := int i\<rparr>\<rparr>"
  have s2: "ls_mem (bs_state s2) = ?M" "bi_curr (bs_itor s2) = a" "end_addr (bs_itor s2) = e" "end_generation (bs_itor s2) = generation hdr2"
    "end_idx (bs_itor s2) = int j" "bi_idx (bs_itor s2) = int i" "curr_min_idx (bs_itor s2) = m'" "bi_height (bs_itor s2) = 0"
    using s0(4,6) by (simp_all add: s2_def s1_def)
  have cp: "curr_page s1 = Some (Leaf_page hdr)" "curr_page s2 = Some (Leaf_page hdr)" using ha(1) s0(6) by (simp_all add: curr_page_def s1_def s2_def)
  have fk: "find_key_in_node cfg it (Leaf_page hdr) mn greater_than_or_equal = Some (int i, found, it)" if "bi_height it = 0" for it
    using fi(1,2) that by (simp add: find_key_in_node_def del: position.simps)
  have i1: "bi_height (bs_itor s1) = 0" "bi_min_key (bs_itor s1) = mn" using s0(4,5) by (simp_all add: s1_def)
  have un: "find_btree_node_and_get_idx_bounds fuel cfg env page_clock s mn greater_than_or_equal =
    Option.bind (if a \<noteq> e \<and> i = btree_num_entries hdr
       then map_option (\<lambda>s. s\<lparr>bs_itor := (bs_itor s)\<lparr>curr_min_idx := 0\<rparr>\<rparr>) (btree_iterator_next_leaf cfg env page_clock s2) else Some s2)
      (\<lambda>s3. if curr_min_idx (bs_itor s3) = -1 \<and> bi_idx (bs_itor s3) = -1 then btree_iterator_prev_leaf fuel cfg env s3 else Some s3)"
  proof -
    have it: "bi_height ((bs_itor s1)\<lparr>curr_min_idx := m'\<rparr>) = 0" using i1(1) by simp
    show ?thesis
      unfolding find_btree_node_and_get_idx_bounds_def Let_def h0 lk(1) [unfolded root_def] bind.bind_lunit prod.case s0_def [symmetric]
        fe(1) [folded s1_def] cp(1) i1(2) fk [OF i1(1)] page_prev_addr.simps m'_def [symmetric] fk [OF it] s2_def [symmetric]
        s2(2,3,6) page_num_entries.simps of_nat_eq_iff by (rule refl)
  qed
  have pq: "p \<le> q" by (rule rs(1))
  have ae: "a = e \<longleftrightarrow> p = q"
    using link2 at ql pq unfolding leaves_linked_def Let_def by (metis le_less_trans nth_eq_iff_index_eq)
  have lp: "length (?T p) = btree_num_entries hdr" using ka(2) at(1) by simp
  show ?thesis
  proof (cases "a \<noteq> e \<and> i = btree_num_entries hdr")
    case False
    have r: "find_btree_node_and_get_idx_bounds fuel cfg env page_clock s mn greater_than_or_equal = Some s2"
      unfolding un using False s2(6) by auto
    have il: "p < q \<Longrightarrow> i < length (leaf_tuples ?M a)" using False fi(3) ae ka(2) by auto
    note sc = scan_at [OF o, of s2 h root p q i j hdr2, unfolded s2, OF tr2 link2 pq ql at [symmetric] refl m' refl refl ea refl _ il]
    have j: "j \<le> btree_num_entries hdr2" by (rule fe(7))
    have "scan_view N s2 = range_tuples cfg mn mx (tree_tuples mem h root)"
    proof -
      have v: "scan_view N s2 = drop i (concat (map ?T [p..<q]) @ take j (?T q))" using sc(2) [OF j] N(1) by simp
      show ?thesis unfolding rs(2) v using il lp at(1) pq by (auto simp: upt_conv_Cons)
    qed
    then show ?thesis using r sc(1) [OF j, unfolded N] m2 s2(1) by auto
  next
    case True
    then have lt: "p < q" using ae pq by auto
    then have pl: "Suc p < length ?ls" using ql by simp
    have nx: "next_addr hdr = ?ls ! Suc p" using link2 pl at(1) ha(1) unfolding leaves_linked_def Let_def leaf_next_def by force
    have ne: "leaf_tuples ?M (?ls ! Suc p) \<noteq> []" using link2 pl unfolding leaves_linked_def Let_def by simp
    obtain hdr3 where h3: "?M (next_addr hdr) = Some (Leaf_page hdr3)" unfolding nx
      by (rule leaf_at [OF o tr2, of "Suc p"]) (use pl N in auto)
    obtain s3 where n: "btree_iterator_next_leaf cfg env page_clock s2 = Some s3" "ls_mem (bs_state s3) = ls_mem (bs_state s2)"
      "bi_curr (bs_itor s3) = next_addr hdr" "bi_idx (bs_itor s3) = 0" "curr_min_idx (bs_itor s3) = -1" "end_addr (bs_itor s3) = end_addr (bs_itor s2)"
      "end_idx (bs_itor s3) = end_idx (bs_itor s2)" "end_generation (bs_itor s3) = end_generation (bs_itor s2)" "bi_height (bs_itor s3) = bi_height (bs_itor s2)"
      by (rule next_leaf_spec [OF cp(2), of hdr3 cfg env page_clock]) (use h3 s2 ea in auto)
    define s4 where "s4 = s3\<lparr>bs_itor := (bs_itor s3)\<lparr>curr_min_idx := 0\<rparr>\<rparr>"
    have s4: "ls_mem (bs_state s4) = ?M" "bi_curr (bs_itor s4) = ?ls ! Suc p" "end_addr (bs_itor s4) = e" "end_generation (bs_itor s4) = generation hdr2"
      "end_idx (bs_itor s4) = int j" "bi_idx (bs_itor s4) = int 0" "curr_min_idx (bs_itor s4) = int 0" "bi_height (bs_itor s4) = 0"
      using n s2 nx by (simp_all add: s4_def)
    have r: "find_btree_node_and_get_idx_bounds fuel cfg env page_clock s mn greater_than_or_equal = Some s4"
      unfolding un using True n(1) s4(6) by (simp add: s4_def [symmetric])
    have le2: "Suc p \<le> q" using lt by simp
    have il: "Suc p < q \<Longrightarrow> 0 < length (leaf_tuples ?M (?ls ! Suc p))" using ne by simp
    note sc = scan_at [OF o, of s4 h root "Suc p" q 0 j hdr2, unfolded s4, OF tr2 link2 le2 ql refl at(2) [symmetric] refl order_refl refl refl ea refl fe(7) il]
    have "scan_view N s4 = range_tuples cfg mn mx (tree_tuples mem h root)"
    proof -
      have v: "scan_view N s4 = concat (map ?T [Suc p..<q]) @ take j (?T q)" using sc(2) N(1) by simp
      show ?thesis unfolding rs(2) v using True lp lt by simp
    qed
    then show ?thesis using r sc(1) [unfolded N] m2 s4(1) by auto
  qed
qed

text \<open>A new iterator over the keys from \<open>min_key\<close> to \<open>max_key\<close> is at the first tuple of the range, and has the tuples of the range ahead.\<close>

lemma btree_iterator_init_range:
  assumes o: "user_key_order (bc_data_cfg cfg) udom" and tree: "tree_ok cfg udom (ls_mem st) h root None None"
    and link: "leaves_linked (ls_mem st) h root" and t: "key_dom udom min_key" "key_dom udom max_key" and r0: "root \<noteq> 0"
  shows "\<exists>s. btree_iterator_init fuel cfg env page_clock st acc root ty min_key max_key min_key greater_than_or_equal 0 = Some s
    \<and> itor_ok cfg (length (tree_leaves (ls_mem st) h root)) s
    \<and> scan_view (length (tree_leaves (ls_mem st) h root)) s = range_tuples cfg min_key max_key (tree_tuples (ls_mem st) h root)"
proof -
  note tc = user_key_order.key_total [OF o, folded btree_key_compare_eq]
  define mx where "mx = (if btree_key_compare cfg min_key max_key > 0 then min_key else max_key)"
  have mx: "key_dom udom mx" "btree_key_compare cfg min_key mx \<le> 0" using t total_compare.cmp_refl [OF tc t(1)] by (auto simp: mx_def)
  have st: "\<not> btree_key_compare cfg min_key min_key < 0" "\<not> btree_key_compare cfg min_key mx > 0" using mx total_compare.cmp_refl [OF tc t(1)] by auto
  have eq: "range_tuples cfg min_key mx xs = range_tuples cfg min_key max_key xs" if "\<forall>x\<in>set xs. key_dom udom (fst x)" for xs
  proof (cases "btree_key_compare cfg min_key max_key > 0")
    case True
    have "\<not> (\<not> btree_key_compare cfg (fst x) min_key < 0 \<and> btree_key_compare cfg (fst x) max_key < 0)" if "x \<in> set xs" for x
    proof
      assume c: "\<not> btree_key_compare cfg (fst x) min_key < 0 \<and> btree_key_compare cfg (fst x) max_key < 0"
      have xd: "key_dom udom (fst x)" using \<open>\<forall>x\<in>set xs. key_dom udom (fst x)\<close> that by blast
      have "btree_key_compare cfg max_key min_key < 0" using True total_compare.cmp_sym [OF tc t(2,1)] by simp
      then have "btree_key_compare cfg (fst x) min_key < 0" using total_compare.cmp_trans [OF tc xd t(2,1)] c by blast
      then show False using c by blast
    qed
    then have "range_tuples cfg min_key max_key xs = []" unfolding range_tuples_def by (fastforce simp: filter_empty_conv)
    moreover have "range_tuples cfg min_key mx xs = []" using True unfolding range_tuples_def mx_def by (auto simp: filter_empty_conv)
    ultimately show ?thesis by simp
  qed (simp add: mx_def)
  have dom: "\<forall>x\<in>set (tree_tuples (ls_mem st) h root). key_dom udom (fst x)"
  proof
    fix x
    assume "x \<in> set (tree_tuples (ls_mem st) h root)"
    then obtain b where b: "b \<in> set (tree_leaves (ls_mem st) h root)" "x \<in> set (leaf_tuples (ls_mem st) b)" by (auto simp: tree_tuples_def)
    then obtain p where p: "p < length (leaf_list (ls_mem st) h root None None)" "x \<in> set (leaf_tuples (ls_mem st) (tree_leaves (ls_mem st) h root ! p))"
    proof -
      obtain r where "r < length (tree_leaves (ls_mem st) h root)" "tree_leaves (ls_mem st) h root ! r = b" using b(1) by (metis in_set_conv_nth)
      then show ?thesis using b(2) by (intro that [of r]) (simp_all add: tree_leaves_def)
    qed
    obtain a hdr where "tree_leaves (ls_mem st) h root ! p = a" "ls_mem st a = Some (Leaf_page hdr)" "\<forall>k\<in>set (leaf_keys hdr). key_dom udom k"
      using leaf_at [OF o tree p(1)] by metis
    then show "key_dom udom (fst x)" using p(2) leaf_tuples_keys [of "ls_mem st" a hdr] by (metis imageI set_map)
  qed
  let ?itor = "\<lparr>bi_height = 0, bi_page_type = ty, bi_min_key = min_key, bi_max_key = mx, bi_root_addr = root, bi_curr = 0, bi_idx = 0,
                    curr_min_idx = 0, end_addr = 0, end_idx = 0, end_generation = 0, bi_is_warm = False, last_clock = 0, tracks_clock = False\<rparr>"
  let ?s = "\<lparr>bs_itor = ?itor, bs_state = st, bs_accum = acc\<rparr>"
  have "btree_iterator_init fuel cfg env page_clock st acc root ty min_key max_key min_key greater_than_or_equal 0
      = find_btree_node_and_get_idx_bounds fuel cfg env page_clock ?s min_key greater_than_or_equal"
    using r0 st by (simp add: btree_iterator_init_def mx_def [symmetric] Let_def)
  then show ?thesis using find_bounds_spec [OF o, of ?s h fuel env page_clock] tree link t(1) mx eq [OF dom] by simp blast
qed

section \<open>Scans over several trees\<close>

interpretation btree_merge: merge_inputs "btree_iterator_ops fuel bcfg env page_clock" "itor_ok bcfg n" "scan_view n" "key_dom slice_dom"
    "default_data_config_init hash max_size"
  for fuel bcfg env page_clock n hash max_size
  by (rule merge_inputs.intro [OF btree_itor.forward_iterator_axioms]) (rule dflt.key_total)

lemma scan_mono:
  assumes "itor_ok cfg n s" "n \<le> m"
  shows "itor_ok cfg m s" "scan_view m s = scan_view n s"
proof -
  have c: "chain_ok cfg (ls_mem (bs_state s)) n (bi_curr (bs_itor s)) (end_addr (bs_itor s))" using assms(1) by (simp add: itor_ok_def Let_def)
  note m = chain_mono [OF c assms(2)]
  show "itor_ok cfg m s" using assms(1) m unfolding itor_ok_def Let_def by blast
  show "scan_view m s = scan_view n s" using m by (simp add: scan_view_def Let_def)
qed

text \<open>A branch: the pages, the height and the address of the root of a tree.\<close>

type_synonym branch = "lookup_state \<times> nat \<times> uint64"

definition branch_tuples :: "branch \<Rightarrow> (key \<times> message) list" where
  "branch_tuples b = (case b of (st, h, root) \<Rightarrow> tree_tuples (ls_mem st) h root)"

definition branch_ok :: "btree_config \<Rightarrow> (slice \<Rightarrow> bool) \<Rightarrow> branch \<Rightarrow> bool" where
  "branch_ok cfg udom b \<longleftrightarrow> (case b of (st, h, root) \<Rightarrow> root \<noteq> 0 \<and> tree_ok cfg udom (ls_mem st) h root None None \<and> leaves_linked (ls_mem st) h root
     \<and> (\<forall>x\<in>set (tree_tuples (ls_mem st) h root). message_is_definitive (snd x)))"

fun open_scans ::
  "nat \<Rightarrow> btree_config \<Rightarrow> lookup_env \<Rightarrow> (uint64 \<Rightarrow> uint32) \<Rightarrow> clock_accum \<Rightarrow> page_type \<Rightarrow> key \<Rightarrow> key \<Rightarrow> branch list \<Rightarrow> btree_scan list option" where
  "open_scans fuel cfg env page_clock acc ty mn mx [] = Some []"
| "open_scans fuel cfg env page_clock acc ty mn mx ((st, h, root) # bs) = do {
     s \<leftarrow> btree_iterator_init fuel cfg env page_clock st acc root ty mn mx mn greater_than_or_equal 0;
     ss \<leftarrow> open_scans fuel cfg env page_clock acc ty mn mx bs;
     Some (s # ss)
   }"

lemma tree_tuples_sorted:
  assumes o: "user_key_order (bc_data_cfg cfg) udom" and tree: "tree_ok cfg udom mem h root None None"
  shows "sorted_wrt (\<lambda>a b. btree_key_compare cfg (fst a) (fst b) < 0) (tree_tuples mem h root)"
    "\<forall>x\<in>set (tree_tuples mem h root). key_dom udom (fst x) \<and> message_length (snd x) < 65536"
proof -
  let ?ls = "tree_leaves mem h root" and ?L = "leaf_list mem h root None None"
  have leaf: "\<exists>l u hdr. ?L ! p = (?ls ! p, l, u) \<and> mem (?ls ! p) = Some (Leaf_page hdr) \<and> leaf_layout cfg hdr \<and> leaf_sorted cfg udom hdr
      \<and> (\<forall>x\<in>set (leaf_tuples mem (?ls ! p)). within cfg l u (fst x) \<and> key_dom udom (fst x))" if "p < length ?ls" for p
  proof -
    have pl: "p < length ?L" using that by (simp add: tree_leaves_def)
    obtain a l u hdr where a: "?L ! p = (a, l, u)" "?ls ! p = a" "mem a = Some (Leaf_page hdr)" "leaf_layout cfg hdr" "leaf_sorted cfg udom hdr"
      "\<forall>k\<in>set (leaf_keys hdr). within cfg l u k \<and> key_dom udom k" by (rule leaf_at [OF o tree pl]) blast
    have "fst x \<in> set (leaf_keys hdr)" if "x \<in> set (leaf_tuples mem a)" for x using that leaf_tuples_keys [of mem a hdr] a(3) by (metis imageI set_map)
    then show ?thesis using a by blast
  qed
  show "sorted_wrt (\<lambda>a b. btree_key_compare cfg (fst a) (fst b) < 0) (tree_tuples mem h root)" unfolding tree_tuples_def
  proof (rule sorted_concat)
    show "\<forall>xs\<in>set (map (leaf_tuples mem) ?ls). sorted_wrt (\<lambda>a b. btree_key_compare cfg (fst a) (fst b) < 0) xs"
    proof
      fix xs
      assume "xs \<in> set (map (leaf_tuples mem) ?ls)"
      then obtain p where p: "p < length ?ls" "xs = leaf_tuples mem (?ls ! p)" by (auto simp: in_set_conv_nth [of _ ?ls])
      obtain hdr where "mem (?ls ! p) = Some (Leaf_page hdr)" "leaf_sorted cfg udom hdr" using leaf [OF p(1)] by blast
      then have "sorted_wrt (\<lambda>a b. btree_key_compare cfg a b < 0) (map fst xs)"
        using leaf_tuples_keys [of mem "?ls ! p" hdr] p(2) by (simp add: leaf_sorted_def increasing_def)
      then show "sorted_wrt (\<lambda>a b. btree_key_compare cfg (fst a) (fst b) < 0) xs" by (simp add: sorted_wrt_map)
    qed
    show "sorted_wrt (\<lambda>xs ys. \<forall>x\<in>set xs. \<forall>y\<in>set ys. btree_key_compare cfg (fst x) (fst y) < 0) (map (leaf_tuples mem) ?ls)"
      unfolding sorted_wrt_iff_nth_less
    proof (intro allI impI ballI)
      fix r p x y
      assume rp: "r < p" "p < length (map (leaf_tuples mem) ?ls)" and x: "x \<in> set (map (leaf_tuples mem) ?ls ! r)" and y: "y \<in> set (map (leaf_tuples mem) ?ls ! p)"
      have pl: "p < length ?ls" "r < length ?ls" using rp by simp_all
      obtain l u where l: "?L ! p = (?ls ! p, l, u)" "within cfg l u (fst y)" "key_dom udom (fst y)" using leaf [OF pl(1)] y pl by auto
      show "btree_key_compare cfg (fst x) (fst y) < 0"
        by (rule leaves_before_after(1) [OF o tree l(3) _ l(1,2) _ _ rp(1)]) (use pl x in \<open>simp_all add: tree_leaves_def\<close>)
    qed
  qed
  show "\<forall>x\<in>set (tree_tuples mem h root). key_dom udom (fst x) \<and> message_length (snd x) < 65536"
  proof
    fix x
    assume "x \<in> set (tree_tuples mem h root)"
    then obtain p where p: "p < length ?ls" "x \<in> set (leaf_tuples mem (?ls ! p))" unfolding tree_tuples_def by (auto simp: in_set_conv_nth [of _ ?ls])
    obtain hdr where h: "mem (?ls ! p) = Some (Leaf_page hdr)" "leaf_layout cfg hdr" "key_dom udom (fst x)" using leaf [OF p(1)] p(2) by blast
    obtain e where e: "e \<in> set (node_entries hdr)" "x = entry_tuple e" using p(2) h(1) by (auto simp: leaf_tuples_def)
    then obtain k where k: "k < length (offsets hdr)" "e = node_entries hdr ! k" by (auto simp: node_entries_def in_set_conv_nth)
    have "storable (leaf_entry_key e) (leaf_entry_message e)" using entry_storable(1) leaf.layout_get [OF h(2)] k by simp
    then show "key_dom udom (fst x) \<and> message_length (snd x) < 65536" using h(3) e(2) by (simp add: entry_tuple_def storable_def)
  qed
qed

lemma range_filter: "set (range_tuples cfg lo hi xs) \<subseteq> set xs" "sorted_wrt R xs \<Longrightarrow> sorted_wrt R (range_tuples cfg lo hi xs)"
  "length (range_tuples cfg lo hi xs) \<le> length xs"
  by (auto simp: range_tuples_def sorted_wrt_filter)

lemma open_scans_ok:
  assumes o: "user_key_order (bc_data_cfg cfg) udom" and t: "key_dom udom mn" "key_dom udom mx"
  shows "\<forall>b\<in>set bs. branch_ok cfg udom b \<Longrightarrow> \<exists>ss n. open_scans fuel cfg env page_clock acc ty mn mx bs = Some ss
    \<and> map (scan_view n) ss = map (range_tuples cfg mn mx \<circ> branch_tuples) bs \<and> (\<forall>s\<in>set ss. itor_ok cfg n s)"
proof (induction bs)
  case (Cons b bs)
  obtain st h root where b: "b = (st, h, root)" by (cases b) auto
  have bo: "root \<noteq> 0" "tree_ok cfg udom (ls_mem st) h root None None" "leaves_linked (ls_mem st) h root" using Cons.prems b by (auto simp: branch_ok_def)
  obtain s n1 where s: "btree_iterator_init fuel cfg env page_clock st acc root ty mn mx mn greater_than_or_equal 0 = Some s" "itor_ok cfg n1 s"
    "scan_view n1 s = range_tuples cfg mn mx (branch_tuples b)"
    using btree_iterator_init_range [OF o bo(2,3) t bo(1), of fuel env page_clock acc ty] b unfolding branch_tuples_def by auto
  obtain ss n2 where ss: "open_scans fuel cfg env page_clock acc ty mn mx bs = Some ss" "map (scan_view n2) ss = map (range_tuples cfg mn mx \<circ> branch_tuples) bs"
    "\<forall>s\<in>set ss. itor_ok cfg n2 s" using Cons.IH Cons.prems by (metis list.set_intros(2))
  let ?n = "max n1 n2"
  have a: "itor_ok cfg ?n s" "scan_view ?n s = scan_view n1 s" using scan_mono [OF s(2), of ?n] by simp_all
  have c: "\<forall>x\<in>set ss. itor_ok cfg ?n x \<and> scan_view ?n x = scan_view n2 x" using scan_mono [of cfg n2 _ ?n] ss(3) by simp
  then have "map (scan_view ?n) ss = map (scan_view n2) ss" by simp
  then show ?case using s ss a c b by (intro exI [of _ "s # ss"] exI [of _ ?n]) simp
qed simp

text \<open>
  Opening iterators on the same range of several trees and merging them: the tuples in key order, each key once, with the message of the
  newest tree.
\<close>

lemma merged_scan_spec:
  assumes o: "user_key_order (bc_data_cfg cfg) udom" and t: "key_dom udom mn" "key_dom udom mx" and m: "malloc_ok malloc"
    and bs: "\<forall>b\<in>set bs. branch_ok cfg udom b" "length bs < MAX_MERGE_ARITY" and mode: "mode \<noteq> MERGE_RAW"
    and f: "sum_list (map (length \<circ> branch_tuples) bs) < f" "sum_list (map (length \<circ> branch_tuples) bs) \<le> fuel"
  shows "\<exists>ss rc xs. open_scans k cfg env page_clock acc ty mn mx bs = Some ss
    \<and> merge_read f fuel malloc (btree_iterator_ops k cfg env page_clock) (bc_data_cfg cfg) ss mode = Some (rc, xs)
    \<and> (rc = STATUS_NO_MEMORY \<and> (\<exists>sz. malloc sz = None) \<or> rc = STATUS_OK \<and> sorted_wrt (\<lambda>a b. btree_key_compare cfg (fst a) (fst b) < 0) xs
         \<and> map_of xs = merged (mode \<noteq> MERGE_FULL) (map (range_tuples cfg mn mx \<circ> branch_tuples) bs))"
proof -
  obtain ss n where ss: "open_scans k cfg env page_clock acc ty mn mx bs = Some ss" "map (scan_view n) ss = map (range_tuples cfg mn mx \<circ> branch_tuples) bs"
    "\<forall>s\<in>set ss. itor_ok cfg n s" using open_scans_ok [OF o t bs(1)] by metis
  have mi: "merge_inputs (btree_iterator_ops k cfg env page_clock) (itor_ok cfg n) (scan_view n) (key_dom udom) (bc_data_cfg cfg)"
    by (rule merge_inputs.intro [OF btree_itor.forward_iterator_axioms user_key_order.key_total [OF o]])
  have len: "length ss = length bs" using arg_cong [OF ss(2), of length] by simp
  have inp: "merge_inputs.input_ok (itor_ok cfg n) (scan_view n) (key_dom udom) (bc_data_cfg cfg) s" if sin: "s \<in> set ss" for s
  proof -
    obtain i where i: "i < length bs" "s = ss ! i" using sin len by (metis in_set_conv_nth)
    have v: "scan_view n s = range_tuples cfg mn mx (branch_tuples (bs ! i))" using arg_cong [OF ss(2), of "\<lambda>l. l ! i"] i len by simp
    obtain st h root where b: "bs ! i = (st, h, root)" by (cases "bs ! i") auto
    have bo: "tree_ok cfg udom (ls_mem st) h root None None" "\<forall>x\<in>set (tree_tuples (ls_mem st) h root). message_is_definitive (snd x)"
      using bs(1) nth_mem [OF i(1)] b by (auto simp: branch_ok_def)
    have v': "scan_view n s = range_tuples cfg mn mx (tree_tuples (ls_mem st) h root)" using v b by (simp add: branch_tuples_def)
    note ts = tree_tuples_sorted [OF o bo(1)]
    have "sorted_wrt (\<lambda>a b. data_key_compare (bc_data_cfg cfg) (fst a) (fst b) < 0) (scan_view n s)"
      unfolding v' using range_filter(2) [OF ts(1)] by (simp add: btree_key_compare_eq)
    moreover have "key_dom udom (fst x) \<and> good_message (snd x)" if "x \<in> set (scan_view n s)" for x
    proof -
      have "x \<in> set (tree_tuples (ls_mem st) h root)" using that range_filter(1) unfolding v' by blast
      then have "key_dom udom (fst x)" "message_length (snd x) < 65536" "message_is_definitive (snd x)" using ts(2) bo(2) by blast+
      then show ?thesis by (simp add: good_message_def)
    qed
    ultimately show ?thesis unfolding merge_inputs.input_ok_def [OF mi] using ss(3) sin by blast
  qed
  have sm: "sum_list (map (length \<circ> scan_view n) ss) \<le> sum_list (map (length \<circ> branch_tuples) bs)"
  proof -
    have "map (length \<circ> scan_view n) ss = map length (map (scan_view n) ss)" by simp
    also have "\<dots> = map (\<lambda>b. length (range_tuples cfg mn mx (branch_tuples b))) bs" unfolding ss(2) by simp
    finally show ?thesis using range_filter(3) by (simp add: comp_def sum_list_mono)
  qed
  obtain rc xs where r: "merge_read f fuel malloc (btree_iterator_ops k cfg env page_clock) (bc_data_cfg cfg) ss mode = Some (rc, xs)"
    "rc = STATUS_NO_MEMORY \<and> (\<exists>sz. malloc sz = None) \<or> rc = STATUS_OK
      \<and> sorted_wrt (\<lambda>a b. data_key_compare (bc_data_cfg cfg) (fst a) (fst b) < 0) xs \<and> map_of xs = merged (mode \<noteq> MERGE_FULL) (map (scan_view n) ss)"
    by (rule merge_inputs.merge_read_spec [OF mi m _ _ mode, of ss f fuel]) (use inp len bs(2) sm f in auto)
  then show ?thesis using ss(1) unfolding ss(2) btree_key_compare_eq by blast
qed

text \<open>
  C29: \<open>btree_iterator_init\<close> on a range stands on the first tuple of the tree in that range, and can not be
  read when the range is empty.
\<close>

theorem btree_range_scan_starts:
  assumes "user_key_order (bc_data_cfg cfg) udom" "tree_ok cfg udom (ls_mem st) h root None None" "leaves_linked (ls_mem st) h root"
    and "key_dom udom min_key" "key_dom udom max_key" "root \<noteq> 0"
  shows "\<exists>s. btree_iterator_init fuel cfg env page_clock st acc root ty min_key max_key min_key greater_than_or_equal 0 = Some s
    \<and> (case range_tuples cfg min_key max_key (tree_tuples (ls_mem st) h root) of
         [] \<Rightarrow> \<not> (btree_iterator_can_next (bs_itor s) \<and> btree_iterator_can_prev (bs_itor s))
       | x # _ \<Rightarrow> btree_iterator_can_next (bs_itor s) \<and> btree_iterator_can_prev (bs_itor s) \<and> btree_iterator_curr s = Some x)"
proof -
  obtain s n where s: "btree_iterator_init fuel cfg env page_clock st acc root ty min_key max_key min_key greater_than_or_equal 0 = Some s"
    "itor_ok cfg n s" "scan_view n s = range_tuples cfg min_key max_key (tree_tuples (ls_mem st) h root)"
    using btree_iterator_init_range [OF assms] by metis
  show ?thesis using s(1) s(3) [symmetric] scan_can_curr [OF s(2)] scan_curr [OF s(2)] by (auto split: list.split)
qed

text \<open>
  C28: Opening a range scan on every branch and draining the merge iterator over them returns, in key order,
  exactly the newest message of every key of the range (without the deleted keys in MERGE_FULL mode), or
  reports that memory ran out. The branches are well-formed trees with linked leaves and definitive
  messages; the fuel bounds are the number of tuples.
\<close>

theorem btree_merged_scan_correct:
  assumes "user_key_order (bc_data_cfg cfg) udom" "key_dom udom mn" "key_dom udom mx" "malloc_ok malloc"
    and "\<forall>b\<in>set bs. branch_ok cfg udom b" "length bs < MAX_MERGE_ARITY" "mode \<noteq> MERGE_RAW"
    and "sum_list (map (length \<circ> branch_tuples) bs) < f" "sum_list (map (length \<circ> branch_tuples) bs) \<le> fuel"
  shows "\<exists>ss rc xs. open_scans k cfg env page_clock acc ty mn mx bs = Some ss
    \<and> merge_read f fuel malloc (btree_iterator_ops k cfg env page_clock) (bc_data_cfg cfg) ss mode = Some (rc, xs)
    \<and> (rc = STATUS_NO_MEMORY \<and> (\<exists>sz. malloc sz = None) \<or> rc = STATUS_OK \<and> sorted_wrt (\<lambda>a b. btree_key_compare cfg (fst a) (fst b) < 0) xs
         \<and> map_of xs = merged (mode \<noteq> MERGE_FULL) (map (range_tuples cfg mn mx \<circ> branch_tuples) bs))"
  by (rule merged_scan_spec [OF assms])

end
