(* ===== verification/Shard_Log.thy ===== *)
theory Shard_Log
  imports Mini_Allocator Merge BTree_Leaf
begin

text \<open>
  The sharded write-ahead log (\<open>shard_log.c\<close>, \<open>shard_log.h\<close>): every thread appends entries to a log page of its own, a full
  page is sealed with a checksum and a new one is taken from a mini allocator; recovery walks the extents of the log,
  collects the entries of the sealed pages and sorts them by generation.

  A page is its checksum and the rest (\<open>log_body\<close>), with the entries at their byte offsets. The pages are a function of their
  address; \<open>frame\<close> is the memory the cache hands out for a new page, with whatever it held before. The checksums are
  arguments (\<open>csum\<close> of a page, \<open>hash64\<close> of the magic index). A write by a thread is one step: the page it writes belongs to
  that thread.
\<close>

section \<open>Data\<close>

definition SHARD_UNMAPPED :: uint64 where "SHARD_UNMAPPED = - 1"
definition INVALID_GENERATION :: uint64 where "INVALID_GENERATION = - 1"
definition MAX_THREADS :: nat where "MAX_THREADS = 128"
definition sizeof_shard_log_hdr :: nat where "sizeof_shard_log_hdr = 34"
definition sizeof_log_entry_hdr :: nat where "sizeof_log_entry_hdr = 14"

record log_entry =
  le_generation :: uint64
  le_tuple :: ondisk_tuple

record log_body =
  lb_magic :: uint64
  lb_next_extent_addr :: nat
  lb_num_entries :: uint16
  lb_entries :: "nat \<Rightarrow> log_entry option"

record 'c log_page =
  lp_checksum :: 'c
  lp_body :: log_body

record shard_log_thread_data =
  td_addr :: uint64
  td_offset :: nat

record shard_log =
  sl_thread_data :: "shard_log_thread_data list"
  sl_mini :: mini_allocator
  sl_addr :: nat
  sl_meta_head :: nat
  sl_magic :: uint64

record ('a, 'c) log_world =
  lw_mini :: "'a mini_world"
  lw_pages :: "nat \<Rightarrow> 'c log_page"

section \<open>Operations\<close>

definition log_entry_key :: "log_entry \<Rightarrow> key" where
  "log_entry_key le = ondisk_tuple_key (le_tuple le)"

definition log_entry_message :: "log_entry \<Rightarrow> message" where
  "log_entry_message le = ondisk_tuple_message (le_tuple le)"

definition log_entry_required_capacity :: "key \<Rightarrow> message \<Rightarrow> nat" where
  "log_entry_required_capacity k msg = sizeof_log_entry_hdr + ondisk_tuple_required_data_capacity k msg"

definition sizeof_log_entry :: "log_entry \<Rightarrow> nat" where
  "sizeof_log_entry le = sizeof_log_entry_hdr + sizeof_ondisk_tuple_data (le_tuple le)"

definition unmapped_thread :: shard_log_thread_data where
  "unmapped_thread = \<lparr>td_addr = SHARD_UNMAPPED, td_offset = 0\<rparr>"

definition shard_log_init ::
  "(nat \<Rightarrow> uint64) \<Rightarrow> allocator_config \<Rightarrow> nat \<Rightarrow> ('a, 'c) log_world \<Rightarrow> (shard_log \<times> ('a, 'c) log_world) option" where
  "shard_log_init hash64 cfg magic_idx w = do {
     (rc, meta_head, al) \<leftarrow> rc_allocator_alloc cfg (w_al (lw_mini w)) PAGE_TYPE_LOG;
     if \<not> SUCCESS rc then None
     else do {
       (addr, mini, mw) \<leftarrow> mini_init cfg ((lw_mini w)\<lparr>w_al := al\<rparr>) meta_head 0 1 PAGE_TYPE_LOG;
       Some (\<lparr>sl_thread_data = replicate MAX_THREADS unmapped_thread, sl_mini = mini, sl_addr = addr, sl_meta_head = meta_head,
              sl_magic = hash64 magic_idx\<rparr>, w\<lparr>lw_mini := mw\<rparr>)
     }
   }"

definition shard_log_zap ::
  "allocator_config \<Rightarrow> shard_log \<Rightarrow> ('a, 'c) log_world \<Rightarrow> (shard_log \<times> ('a, 'c) log_world) option" where
  "shard_log_zap cfg log w = do {
     (_, mw) \<leftarrow> mini_dec_ref cfg (lw_mini w) (sl_meta_head log) PAGE_TYPE_LOG;
     Some (log\<lparr>sl_thread_data := replicate MAX_THREADS unmapped_thread\<rparr>, w\<lparr>lw_mini := mw\<rparr>)
   }"

text \<open>A new page for a thread: the address from the mini allocator, the memory from the cache.\<close>

definition get_new_page_for_thread ::
  "(nat \<Rightarrow> 'c log_page) \<Rightarrow> allocator_config \<Rightarrow> shard_log \<Rightarrow> nat \<Rightarrow> ('a, 'c) log_world \<Rightarrow> (shard_log \<times> ('a, 'c) log_world) option" where
  "get_new_page_for_thread frame cfg log tid w = do {
     (addr, next_extent, mini, mw) \<leftarrow> mini_alloc cfg (sl_mini log) (lw_mini w) 0;
     let body = (lp_body (frame addr))\<lparr>lb_magic := sl_magic log, lb_next_extent_addr := next_extent, lb_num_entries := 0\<rparr>;
     Some (log\<lparr>sl_mini := mini, sl_thread_data := (sl_thread_data log)[tid := \<lparr>td_addr = word_of_nat addr, td_offset = sizeof_shard_log_hdr\<rparr>]\<rparr>,
           w\<lparr>lw_mini := mw, lw_pages := (lw_pages w)(addr := (frame addr)\<lparr>lp_body := body\<rparr>)\<rparr>)
   }"

text \<open>Seals a full page: the terminal mark if there is room for one, then the checksum.\<close>

definition mark_terminal :: "allocator_config \<Rightarrow> nat \<Rightarrow> log_body \<Rightarrow> log_body" where
  "mark_terminal cfg off body =
     (if sizeof_log_entry_hdr \<le> io_page_size (io_cfg cfg) - off
      then body\<lparr>lb_entries := (lb_entries body)(off \<mapsto>
             (case lb_entries body off of Some le \<Rightarrow> le | None \<Rightarrow> \<lparr>le_generation = 0, le_tuple = blank_leaf_entry 0\<rparr>)
               \<lparr>le_generation := INVALID_GENERATION\<rparr>)\<rparr>
      else body)"

definition seal_page :: "(log_body \<Rightarrow> 'c) \<Rightarrow> allocator_config \<Rightarrow> nat \<Rightarrow> 'c log_page \<Rightarrow> 'c log_page" where
  "seal_page csum cfg off page = (let body = mark_terminal cfg off (lp_body page) in \<lparr>lp_checksum = csum body, lp_body = body\<rparr>)"

definition new_log_entry :: "key \<Rightarrow> message \<Rightarrow> uint64 \<Rightarrow> log_entry" where
  "new_log_entry k msg gen =
     \<lparr>le_generation = gen,
      le_tuple = copy_tuple_to_ondisk_tuple (blank_leaf_entry (ondisk_tuple_required_data_capacity k msg)) k msg\<rparr>"

definition append_entry :: "nat \<Rightarrow> log_entry \<Rightarrow> 'c log_page \<Rightarrow> 'c log_page" where
  "append_entry off le page =
     page\<lparr>lp_body := (lp_body page)\<lparr>lb_entries := (lb_entries (lp_body page))(off \<mapsto> le), lb_num_entries := lb_num_entries (lp_body page) + 1\<rparr>\<rparr>"

definition shard_log_write ::
  "(log_body \<Rightarrow> 'c) \<Rightarrow> (nat \<Rightarrow> 'c log_page) \<Rightarrow> allocator_config \<Rightarrow> shard_log \<Rightarrow> nat \<Rightarrow> key \<Rightarrow> message \<Rightarrow> uint64 \<Rightarrow> ('a, 'c) log_world
     \<Rightarrow> (shard_log \<times> ('a, 'c) log_world) option" where
  "shard_log_write csum frame cfg log tid k msg gen w = do {
     (log, w) \<leftarrow> (if td_addr (sl_thread_data log ! tid) = SHARD_UNMAPPED then get_new_page_for_thread frame cfg log tid w else Some (log, w));
     let td = sl_thread_data log ! tid;
     let new_entry_size = log_entry_required_capacity k msg;
     let free_space = io_page_size (io_cfg cfg) - td_offset td;
     (log, w) \<leftarrow>
       (if free_space < new_entry_size
        then get_new_page_for_thread frame cfg log tid
               (w\<lparr>lw_pages := (lw_pages w)(unat (td_addr td) := seal_page csum cfg (td_offset td) (lw_pages w (unat (td_addr td))))\<rparr>)
        else Some (log, w));
     let td = sl_thread_data log ! tid;
     Some (log\<lparr>sl_thread_data := (sl_thread_data log)[tid := td\<lparr>td_offset := td_offset td + new_entry_size\<rparr>]\<rparr>,
           w\<lparr>lw_pages := (lw_pages w)(unat (td_addr td) := append_entry (td_offset td) (new_log_entry k msg gen) (lw_pages w (unat (td_addr td))))\<rparr>)
   }"

definition shard_log_valid :: "(log_body \<Rightarrow> 'c) \<Rightarrow> uint64 \<Rightarrow> 'c log_page \<Rightarrow> bool" where
  "shard_log_valid csum magic page \<longleftrightarrow> lb_magic (lp_body page) = magic \<and> lp_checksum page = csum (lp_body page)"

text \<open>The difference of the generations, cut off to an \<open>int\<close>.\<close>

definition shard_log_compare :: "log_entry \<Rightarrow> log_entry \<Rightarrow> int" where
  "shard_log_compare le1 le2 = sint (ucast (le_generation le1 - le_generation le2) :: 32 word)"

section \<open>Recovery\<close>

record shard_log_iterator =
  si_entries :: "log_entry list"
  si_num_entries :: nat
  si_pos :: nat

text \<open>The entries of a page up to the terminal one; reading memory that holds no entry is \<open>None\<close>.\<close>

function page_log_entries :: "allocator_config \<Rightarrow> log_body \<Rightarrow> nat \<Rightarrow> log_entry list option" where
  "page_log_entries cfg body off =
     (if io_page_size (io_cfg cfg) < off then None
      else if io_page_size (io_cfg cfg) - off < sizeof_log_entry_hdr then Some []
      else (case lb_entries body off of
              None \<Rightarrow> None
            | Some le \<Rightarrow>
                if le_generation le = INVALID_GENERATION then Some []
                else map_option ((#) le) (page_log_entries cfg body (off + sizeof_log_entry le))))"
  by pat_completeness auto
termination by (relation "measure (\<lambda>(cfg, body, off). io_page_size (io_cfg cfg) - off)")
  (auto simp: sizeof_log_entry_def sizeof_log_entry_hdr_def)

declare page_log_entries.simps [simp del]

text \<open>
  The loop both passes of \<open>shard_log_iterator_init\<close> make over the extents, with what a pass does at a valid page as an argument.
  \<open>Inl\<close> is the jump out of the loops at the first page that is not valid.
\<close>

fun log_extent_pass ::
  "(log_body \<Rightarrow> 'c) \<Rightarrow> uint64 \<Rightarrow> (nat \<Rightarrow> 'c log_page) \<Rightarrow> ('c log_page \<Rightarrow> 's \<Rightarrow> 's option) \<Rightarrow> nat list \<Rightarrow> nat \<Rightarrow> 's \<Rightarrow> ('s + nat \<times> 's) option" where
  "log_extent_pass csum magic pages f [] next s = Some (Inr (next, s))"
| "log_extent_pass csum magic pages f (a # as) next s =
     (if \<not> shard_log_valid csum magic (pages a) then Some (Inl s)
      else do {
        s1 \<leftarrow> f (pages a) s;
        log_extent_pass csum magic pages f as (lb_next_extent_addr (lp_body (pages a))) s1
      })"

definition extent_pages :: "allocator_config \<Rightarrow> nat \<Rightarrow> nat list" where
  "extent_pages cfg extent_addr =
     map (\<lambda>i. extent_addr + i * io_page_size (io_cfg cfg)) [0..<io_extent_size (io_cfg cfg) div io_page_size (io_cfg cfg)]"

fun log_pass ::
  "nat \<Rightarrow> (log_body \<Rightarrow> 'c) \<Rightarrow> allocator_config \<Rightarrow> uint64 \<Rightarrow> ('a, 'c) log_world \<Rightarrow> ('c log_page \<Rightarrow> 's \<Rightarrow> 's option) \<Rightarrow> nat \<Rightarrow> 's \<Rightarrow> 's option" where
  "log_pass 0 csum cfg magic w f extent_addr s = None"
| "log_pass (Suc fuel) csum cfg magic w f extent_addr s =
     (if extent_addr = 0 then Some s
      else do {
        ref \<leftarrow> rc_allocator_get_ref cfg (w_al (lw_mini w)) extent_addr;
        if ref = 0 then Some s
        else do {
          r \<leftarrow> log_extent_pass csum magic (lw_pages w) f (extent_pages cfg extent_addr) 0 s;
          (case r of Inl s1 \<Rightarrow> Some s1 | Inr (next, s1) \<Rightarrow> log_pass fuel csum cfg magic w f next s1)
        }
      })"

definition count_page :: "'c log_page \<Rightarrow> nat \<times> nat \<Rightarrow> (nat \<times> nat) option" where
  "count_page page s = (case s of (valid, n) \<Rightarrow> Some (valid + 1, n + unat (lb_num_entries (lp_body page))))"

definition collect_page :: "allocator_config \<Rightarrow> 'c log_page \<Rightarrow> log_entry list \<Rightarrow> log_entry list option" where
  "collect_page cfg page es = map_option (\<lambda>xs. es @ xs) (page_log_entries cfg (lp_body page) sizeof_shard_log_hdr)"

definition shard_log_iterator_init ::
  "nat \<Rightarrow> (log_body \<Rightarrow> 'c) \<Rightarrow> allocator_config \<Rightarrow> ('a, 'c) log_world \<Rightarrow> nat \<Rightarrow> uint64 \<Rightarrow> (platform_status \<times> shard_log_iterator) option" where
  "shard_log_iterator_init fuel csum cfg w addr magic = do {
     (num_valid_pages, num_entries) \<leftarrow> log_pass fuel csum cfg magic w count_page addr (0, 0);
     es \<leftarrow> log_pass fuel csum cfg magic w (collect_page cfg) addr [];
     if length es \<noteq> num_entries then None
     else Some (STATUS_OK, \<lparr>si_entries = platform_sort_slow shard_log_compare es, si_num_entries = num_entries, si_pos = 0\<rparr>)
   }"

definition shard_log_iterator_curr :: "shard_log_iterator \<Rightarrow> (key \<times> message) option" where
  "shard_log_iterator_curr itor =
     (if si_pos itor < length (si_entries itor)
      then Some (log_entry_key (si_entries itor ! si_pos itor), log_entry_message (si_entries itor ! si_pos itor)) else None)"

definition shard_log_iterator_can_prev :: "shard_log_iterator \<Rightarrow> bool" where
  "shard_log_iterator_can_prev itor \<longleftrightarrow> 0 \<le> si_pos itor"

definition shard_log_iterator_can_next :: "shard_log_iterator \<Rightarrow> bool" where
  "shard_log_iterator_can_next itor \<longleftrightarrow> si_pos itor < si_num_entries itor"

definition shard_log_iterator_next :: "shard_log_iterator \<Rightarrow> platform_status \<times> shard_log_iterator" where
  "shard_log_iterator_next itor = (STATUS_OK, itor\<lparr>si_pos := si_pos itor + 1\<rparr>)"

section \<open>Pages\<close>

text \<open>The entries \<open>es\<close> lie one after the other from \<open>off\<close> to \<open>e\<close>.\<close>

fun entries_at :: "(nat \<Rightarrow> log_entry option) \<Rightarrow> nat \<Rightarrow> log_entry list \<Rightarrow> nat \<Rightarrow> bool" where
  "entries_at m off [] e \<longleftrightarrow> e = off"
| "entries_at m off (x # xs) e \<longleftrightarrow> m off = Some x \<and> le_generation x \<noteq> INVALID_GENERATION \<and> entries_at m (off + sizeof_log_entry x) xs e"

lemma sizeof_log_entry_ge: "14 \<le> sizeof_log_entry x"
  by (simp add: sizeof_log_entry_def sizeof_log_entry_hdr_def)

lemma entries_at_le: "entries_at m off es e \<Longrightarrow> off + 14 * length es \<le> e"
proof (induction es arbitrary: off)
  case (Cons x es)
  then show ?case using sizeof_log_entry_ge [of x] by fastforce
qed simp

lemma entries_at_upd: "entries_at m off es e \<Longrightarrow> e \<le> o' \<Longrightarrow> entries_at (m(o' := v)) off es e"
proof (induction es arbitrary: off)
  case (Cons x es)
  then have "off + 14 \<le> e" using entries_at_le [of m off "x # es" e] by simp
  then show ?case using Cons by simp
qed simp

lemma entries_at_append: "entries_at m off (es @ [x]) e' \<longleftrightarrow> (\<exists>e. entries_at m off es e \<and> m e = Some x \<and> le_generation x \<noteq> INVALID_GENERATION \<and> e' = e + sizeof_log_entry x)"
  by (induction es arbitrary: off) auto

definition terminal_at :: "allocator_config \<Rightarrow> log_body \<Rightarrow> nat \<Rightarrow> bool" where
  "terminal_at cfg body e \<longleftrightarrow> io_page_size (io_cfg cfg) - e < sizeof_log_entry_hdr \<or> (\<exists>le. lb_entries body e = Some le \<and> le_generation le = INVALID_GENERATION)"

lemma page_log_entries_read:
  assumes "entries_at (lb_entries body) off es e" "e \<le> io_page_size (io_cfg cfg)" "terminal_at cfg body e"
  shows "page_log_entries cfg body off = Some es"
  using assms(1)
proof (induction es arbitrary: off)
  case Nil
  then show ?case using assms(2,3) by (auto simp: page_log_entries.simps [of cfg body off] terminal_at_def)
next
  case (Cons x es)
  have "off + 14 \<le> e" using entries_at_le [OF Cons.prems] by simp
  then show ?case using Cons assms(2) by (simp add: page_log_entries.simps [of cfg body off] sizeof_log_entry_hdr_def)
qed

text \<open>A page of the log that holds \<open>es\<close> up to offset \<open>e\<close>.\<close>

definition log_page_ok ::
  "(log_body \<Rightarrow> 'c) \<Rightarrow> allocator_config \<Rightarrow> uint64 \<Rightarrow> nat \<Rightarrow> bool \<Rightarrow> log_entry list \<Rightarrow> nat \<Rightarrow> 'c log_page \<Rightarrow> bool" where
  "log_page_ok csum cfg magic next sealed es e page \<longleftrightarrow> lb_magic (lp_body page) = magic \<and> lb_next_extent_addr (lp_body page) = next
     \<and> lb_num_entries (lp_body page) = word_of_nat (length es) \<and> length es < 65536 \<and> entries_at (lb_entries (lp_body page)) sizeof_shard_log_hdr es e \<and> e \<le> io_page_size (io_cfg cfg)
     \<and> (sealed \<longrightarrow> lp_checksum page = csum (lp_body page) \<and> terminal_at cfg (lp_body page) e)"

definition log_cfg_ok :: "allocator_config \<Rightarrow> bool" where
  "log_cfg_ok cfg \<longleftrightarrow> mini_cfg_ok cfg \<and> sizeof_shard_log_hdr \<le> io_page_size (io_cfg cfg) \<and> io_page_size (io_cfg cfg) \<le> 2 ^ 19"

lemma append_entry_ok:
  assumes "log_page_ok csum cfg magic next False es e page" "log_cfg_ok cfg" "e + sizeof_log_entry le \<le> io_page_size (io_cfg cfg)"
    "le_generation le \<noteq> INVALID_GENERATION"
  shows "log_page_ok csum cfg magic next False (es @ [le]) (e + sizeof_log_entry le) (append_entry e le page)"
proof -
  let ?m = "lb_entries (lp_body page)"
  have a: "entries_at ?m sizeof_shard_log_hdr es e" using assms(1) by (simp add: log_page_ok_def)
  then have "34 + 14 * length es \<le> 2 ^ 19" using entries_at_le [OF a] assms by (simp add: log_page_ok_def log_cfg_ok_def sizeof_shard_log_hdr_def)
  then have "length es + 1 < 65536" by simp
  moreover have "entries_at (?m(e \<mapsto> le)) sizeof_shard_log_hdr (es @ [le]) (e + sizeof_log_entry le)"
    unfolding entries_at_append using entries_at_upd [OF a order_refl, of "Some le"] assms(4) by (intro exI [of _ e]) simp
  ultimately show ?thesis using assms by (simp add: log_page_ok_def append_entry_def)
qed

lemma seal_page_ok:
  assumes "log_page_ok csum cfg magic next False es e page"
  shows "log_page_ok csum cfg magic next True es e (seal_page csum cfg e page)"
  using assms entries_at_upd [of "lb_entries (lp_body page)" sizeof_shard_log_hdr es e e]
  by (auto simp: log_page_ok_def seal_page_def mark_terminal_def terminal_at_def Let_def)

text \<open>What a new entry shows.\<close>

definition log_view :: "log_entry \<Rightarrow> uint64 \<times> key \<times> message_type \<times> bytes" where
  "log_view le = (le_generation le, log_entry_key le, msg_view (log_entry_message le))"

lemma new_log_entry:
  assumes "storable k msg"
  shows "log_view (new_log_entry k msg gen) = (gen, k, msg_view msg)" "sizeof_log_entry (new_log_entry k msg gen) = log_entry_required_capacity k msg"
    "le_generation (new_log_entry k msg gen) = gen"
proof -
  let ?n = "ondisk_tuple_required_data_capacity k msg"
  have "leaf_entry_required_capacity k msg \<le> 6 + length (odt_key_and_message (blank_leaf_entry ?n))"
    by (simp add: leaf_entry_required_capacity_def blank_leaf_entry_def ondisk_tuple_required_data_capacity_def)
  note f = fill_leaf_entry [OF assms this]
  show "log_view (new_log_entry k msg gen) = (gen, k, msg_view msg)"
    using f by (simp add: log_view_def new_log_entry_def log_entry_key_def log_entry_message_def tuple_view_def leaf_entry_key_def leaf_entry_message_def
        btree_fill_leaf_entry_def)
  show "sizeof_log_entry (new_log_entry k msg gen) = log_entry_required_capacity k msg"
    using f by (simp add: sizeof_log_entry_def new_log_entry_def btree_fill_leaf_entry_def sizeof_leaf_entry_def leaf_entry_required_capacity_def
        log_entry_required_capacity_def ondisk_tuple_required_data_capacity_def)
  show "le_generation (new_log_entry k msg gen) = gen" by (simp add: new_log_entry_def)
qed

section \<open>The pages of the log\<close>

text \<open>The two ways a batch hands out a page.\<close>

lemma mini_alloc_next:
  assumes "mini_alloc cfg mini w b = Some (addr, next, mini', w')"
  shows "if mini_next_addr mini ! b mod io_extent_size (io_cfg cfg) = 0 then addr = mini_next_extent mini ! b
    else addr = mini_next_addr mini ! b \<and> mini_next_extent mini' = mini_next_extent mini"
  using assms unfolding mini_alloc_def
  by (auto simp: Let_def bind_eq_Some_conv mini_lock_batch_get_next_addr_def mini_unlock_batch_set_next_addr_def split: if_splits)

definition log_ppe :: "allocator_config \<Rightarrow> nat" where
  "log_ppe cfg = io_extent_size (io_cfg cfg) div io_page_size (io_cfg cfg)"

definition log_page_addr :: "allocator_config \<Rightarrow> nat list \<Rightarrow> nat \<Rightarrow> nat" where
  "log_page_addr cfg D i = D ! (i div log_ppe cfg) + i mod log_ppe cfg * io_page_size (io_cfg cfg)"

lemma log_ppe:
  assumes "mini_cfg_ok cfg"
  shows "0 < log_ppe cfg" "log_ppe cfg * io_page_size (io_cfg cfg) = io_extent_size (io_cfg cfg)"
  using cfg_sizes [OF assms] by (auto simp: log_ppe_def div_greater_zero_iff)

lemma page_in_extent:
  assumes "mini_cfg_ok cfg" "io_extent_size (io_cfg cfg) dvd a" "j < log_ppe cfg"
  shows "extent_of cfg (a + j * io_page_size (io_cfg cfg)) = extent_of cfg a" "(a + j * io_page_size (io_cfg cfg)) mod io_extent_size (io_cfg cfg) = j * io_page_size (io_cfg cfg)"
proof -
  have "j * io_page_size (io_cfg cfg) < log_ppe cfg * io_page_size (io_cfg cfg)" using assms(3) cfg_sizes(2) [OF assms(1)] by simp
  then have "j * io_page_size (io_cfg cfg) < io_extent_size (io_cfg cfg)" using log_ppe(2) [OF assms(1)] by simp
  then show "extent_of cfg (a + j * io_page_size (io_cfg cfg)) = extent_of cfg a" "(a + j * io_page_size (io_cfg cfg)) mod io_extent_size (io_cfg cfg) = j * io_page_size (io_cfg cfg)"
    using assms(2) by (auto elim!: dvdE)
qed

lemma log_page_addr_inj:
  assumes "mini_cfg_ok cfg" "\<forall>a\<in>set D. io_extent_size (io_cfg cfg) dvd a" "distinct (map (extent_of cfg) D)"
    and "i div log_ppe cfg < length D" "j div log_ppe cfg < length D" "log_page_addr cfg D i = log_page_addr cfg D j"
  shows "i = j"
proof -
  let ?p = "log_ppe cfg"
  have p: "0 < ?p" by (rule log_ppe(1) [OF assms(1)])
  have d: "io_extent_size (io_cfg cfg) dvd D ! (i div ?p)" "io_extent_size (io_cfg cfg) dvd D ! (j div ?p)" using assms by simp_all
  note pi = page_in_extent [OF assms(1) d(1) mod_less_divisor [OF p, of i]] and pj = page_in_extent [OF assms(1) d(2) mod_less_divisor [OF p, of j]]
  have "extent_of cfg (D ! (i div ?p)) = extent_of cfg (D ! (j div ?p))" "i mod ?p * io_page_size (io_cfg cfg) = j mod ?p * io_page_size (io_cfg cfg)"
    using pi pj assms(6) unfolding log_page_addr_def by metis+
  then have "i div ?p = j div ?p" "i mod ?p = j mod ?p"
    using assms(3-5) cfg_sizes(2) [OF assms(1)] by (auto simp: distinct_conv_nth)
  then show ?thesis by (metis div_mult_mod_eq)
qed

text \<open>The extents of the log: those with pages \<open>D\<close>, and the one reserved next.\<close>

definition log_extents_ok :: "allocator_config \<Rightarrow> 'a mini_world \<Rightarrow> nat list \<Rightarrow> bool" where
  "log_extents_ok cfg mw E \<longleftrightarrow> (\<forall>a\<in>set E. io_extent_size (io_cfg cfg) dvd a \<and> extent_of cfg a \<noteq> 0 \<and> 0 < extent_refs cfg (w_al mw) (extent_of cfg a))
     \<and> distinct (map (extent_of cfg) E)"

lemma mini_extents:
  assumes "mini_ok cfg mini mw chain r" "num_batches mini = 1"
  shows "log_extents_ok cfg mw (data_extents (w_mem mw) chain @ [mini_next_extent mini ! 0])"
proof -
  have l: "1 \<le> length (mini_next_extent mini)" using assms by (simp add: mini_ok_def)
  then have t: "take (num_batches mini) (mini_next_extent mini) = [mini_next_extent mini ! 0]" using assms(2) by (cases "mini_next_extent mini") auto
  have st: "store_ok cfg mw chain [mini_next_extent mini ! 0] r" using assms(1) unfolding mini_ok_def t by simp
  let ?E = "data_extents (w_mem mw) chain @ [mini_next_extent mini ! 0]"
  have o: "owned_ok (extent_refs cfg (w_al mw)) (meta_extents cfg chain @ map (extent_of cfg) ?E) (extent_of cfg (hd chain)) r"
    and d: "\<forall>a\<in>set ?E. io_extent_size (io_cfg cfg) dvd a" using st unfolding store_ok_def owned_def by blast+
  have a: "0 \<notin> set (meta_extents cfg chain @ map (extent_of cfg) ?E)" "distinct (meta_extents cfg chain @ map (extent_of cfg) ?E)"
    "\<forall>e\<in>set (meta_extents cfg chain @ map (extent_of cfg) ?E). 0 < extent_refs cfg (w_al mw) e" using o unfolding owned_ok_def by auto
  show ?thesis unfolding log_extents_ok_def using a d by (auto simp: image_iff)
qed

text \<open>
  The log in terms of its pages \<open>ps\<close>, in the order they were taken: the thread, whether the page is sealed, its entries.
  The threads in \<open>X\<close> have no page at the moment.
\<close>

definition log_inv ::
  "(log_body \<Rightarrow> 'c) \<Rightarrow> allocator_config \<Rightarrow> shard_log \<Rightarrow> ('a, 'c) log_world \<Rightarrow> nat set \<Rightarrow> nat list \<Rightarrow> (nat \<times> bool \<times> log_entry list) list \<Rightarrow> bool" where
  "log_inv csum cfg log w X D ps \<longleftrightarrow>
     (\<exists>chain. mini_ok cfg (sl_mini log) (lw_mini w) chain 1 \<and> data_extents (w_mem (lw_mini w)) chain = D) \<and> num_batches (sl_mini log) = 1
     \<and> log_cfg_ok cfg
     \<and> length D = (if length ps mod log_ppe cfg = 0 then length ps div log_ppe cfg else length ps div log_ppe cfg + 1)
     \<and> (if length ps mod log_ppe cfg = 0 then mini_next_addr (sl_mini log) ! 0 mod io_extent_size (io_cfg cfg) = 0
        else mini_next_addr (sl_mini log) ! 0 = log_page_addr cfg D (length ps))
     \<and> (D @ [mini_next_extent (sl_mini log) ! 0]) ! 0 = sl_addr log
     \<and> length (sl_thread_data log) = MAX_THREADS
     \<and> (\<forall>i<length ps. case ps ! i of (t, s, es) \<Rightarrow>
          \<exists>e. log_page_ok csum cfg (sl_magic log) ((D @ [mini_next_extent (sl_mini log) ! 0]) ! Suc (i div log_ppe cfg)) s es e (lw_pages w (log_page_addr cfg D i))
            \<and> (\<not> s \<longrightarrow> t < MAX_THREADS \<and> t \<notin> X \<and> sl_thread_data log ! t = \<lparr>td_addr = word_of_nat (log_page_addr cfg D i), td_offset = e\<rparr>))
     \<and> (\<forall>t<MAX_THREADS. t \<in> X \<or> td_addr (sl_thread_data log ! t) = SHARD_UNMAPPED
          \<or> (\<exists>i<length ps. \<exists>es. ps ! i = (t, False, es) \<and> td_addr (sl_thread_data log ! t) = word_of_nat (log_page_addr cfg D i)))"

lemma page_index:
  assumes "0 < p" "i < n" "d = (if n mod p = 0 then n div p else n div p + 1)"
  shows "i div p < (d :: nat)"
proof (cases "n mod p = 0")
  case True
  then have "i div p < n div p" using assms by (metis add.right_neutral div_mult_mod_eq less_mult_imp_div_less mult.commute)
  then show ?thesis using assms(3) True by simp
next
  case False
  have "i div p \<le> n div p" using assms(2) by (simp add: div_le_mono)
  then show ?thesis using assms(3) False by simp
qed

lemma log_inv_extents:
  assumes "log_inv csum cfg log w X D ps"
  shows "log_extents_ok cfg (lw_mini w) (D @ [mini_next_extent (sl_mini log) ! 0])" "mini_cfg_ok cfg"
    "length D = (if length ps mod log_ppe cfg = 0 then length ps div log_ppe cfg else length ps div log_ppe cfg + 1)"
    "i < length ps \<Longrightarrow> i div log_ppe cfg < length D"
proof -
  show "log_extents_ok cfg (lw_mini w) (D @ [mini_next_extent (sl_mini log) ! 0])" "mini_cfg_ok cfg"
    using assms mini_extents unfolding log_inv_def log_cfg_ok_def by blast+
  then have p: "0 < log_ppe cfg" by (simp add: log_ppe(1))
  show d: "length D = (if length ps mod log_ppe cfg = 0 then length ps div log_ppe cfg else length ps div log_ppe cfg + 1)" using assms by (simp add: log_inv_def)
  show "i < length ps \<Longrightarrow> i div log_ppe cfg < length D" using page_index [OF p _ d] .
qed

lemma log_addr_inj:
  assumes "log_inv csum cfg log w X D ps" "i < length ps" "j < length ps" "log_page_addr cfg D i = log_page_addr cfg D j"
  shows "i = j"
proof -
  have "\<forall>a\<in>set D. io_extent_size (io_cfg cfg) dvd a" "distinct (map (extent_of cfg) D)" using log_inv_extents(1) [OF assms(1)] by (simp_all add: log_extents_ok_def)
  then show ?thesis using log_page_addr_inj [OF log_inv_extents(2) [OF assms(1)] _ _ log_inv_extents(4) [OF assms(1,2)] log_inv_extents(4) [OF assms(1,3)] assms(4)] by blast
qed

text \<open>No page of the log has the address that stands for "no page".\<close>

lemma log_addr_mapped:
  assumes "log_inv csum cfg log w X D ps" "i < length ps"
  shows "unat (word_of_nat (log_page_addr cfg D i) :: uint64) = log_page_addr cfg D i" "word_of_nat (log_page_addr cfg D i) \<noteq> SHARD_UNMAPPED"
proof -
  note c = log_inv_extents(2) [OF assms(1)]
  let ?a = "D ! (i div log_ppe cfg)" and ?e = "io_extent_size (io_cfg cfg)" and ?s = "io_page_size (io_cfg cfg)"
  have "?a \<in> set D" using log_inv_extents(4) [OF assms] by simp
  then have a: "?e dvd ?a" "0 < extent_refs cfg (w_al (lw_mini w)) (extent_of cfg ?a)" using log_inv_extents(1) [OF assms(1)] by (simp_all add: log_extents_ok_def)
  then have "extent_of cfg ?a < extent_capacity cfg" by (simp add: extent_refs_def split: if_splits)
  moreover have "extent_of cfg (log_page_addr cfg D i) = extent_of cfg ?a"
    unfolding log_page_addr_def by (rule page_in_extent(1) [OF c a(1) mod_less_divisor [OF log_ppe(1) [OF c]]])
  ultimately have "log_page_addr cfg D i < extent_capacity cfg * ?e" using cfg_sizes(1) [OF c] by (metis div_less_iff_less_mult)
  moreover have "?e * extent_capacity cfg < 2 ^ 64" using c by (simp add: mini_cfg_ok_def)
  ultimately have l: "log_page_addr cfg D i < 2 ^ 64 - 1" by (simp add: mult.commute)
  then show u: "unat (word_of_nat (log_page_addr cfg D i) :: uint64) = log_page_addr cfg D i" by (simp add: unsigned_of_nat take_bit_nat_eq_self)
  show "word_of_nat (log_page_addr cfg D i) \<noteq> SHARD_UNMAPPED"
  proof
    assume "word_of_nat (log_page_addr cfg D i) = SHARD_UNMAPPED"
    then have "unat (word_of_nat (log_page_addr cfg D i) :: uint64) = unat (- 1 :: uint64)" by (simp add: SHARD_UNMAPPED_def)
    then show False using l unfolding u by simp
  qed
qed

lemma log_word_inj:
  assumes "log_inv csum cfg log w X D ps" "i < length ps" "j < length ps"
    "word_of_nat (log_page_addr cfg D i) = (word_of_nat (log_page_addr cfg D j) :: uint64)"
  shows "i = j"
  using log_addr_inj [OF assms(1-3)] log_addr_mapped(1) [OF assms(1,2)] log_addr_mapped(1) [OF assms(1,3)] assms(4) by metis

lemma log_inv_page:
  assumes "log_inv csum cfg log w X D ps" "i < length ps" "ps ! i = (t, s, es)"
  obtains e where "log_page_ok csum cfg (sl_magic log) ((D @ [mini_next_extent (sl_mini log) ! 0]) ! Suc (i div log_ppe cfg)) s es e (lw_pages w (log_page_addr cfg D i))"
    "\<not> s \<longrightarrow> t < MAX_THREADS \<and> t \<notin> X \<and> sl_thread_data log ! t = \<lparr>td_addr = word_of_nat (log_page_addr cfg D i), td_offset = e\<rparr>"
proof -
  have "\<forall>i<length ps. case ps ! i of (t, s, es) \<Rightarrow>
          \<exists>e. log_page_ok csum cfg (sl_magic log) ((D @ [mini_next_extent (sl_mini log) ! 0]) ! Suc (i div log_ppe cfg)) s es e (lw_pages w (log_page_addr cfg D i))
            \<and> (\<not> s \<longrightarrow> t < MAX_THREADS \<and> t \<notin> X \<and> sl_thread_data log ! t = \<lparr>td_addr = word_of_nat (log_page_addr cfg D i), td_offset = e\<rparr>)"
    using assms(1) unfolding log_inv_def by (elim conjE)
  from this [rule_format, OF assms(2)] show thesis unfolding assms(3) prod.case using that by blast
qed

lemma log_inv_thread:
  assumes "log_inv csum cfg log w X D ps" "t < MAX_THREADS"
  shows "t \<in> X \<or> td_addr (sl_thread_data log ! t) = SHARD_UNMAPPED
    \<or> (\<exists>i<length ps. \<exists>es. ps ! i = (t, False, es) \<and> td_addr (sl_thread_data log ! t) = word_of_nat (log_page_addr cfg D i))"
proof -
  have "\<forall>t<MAX_THREADS. t \<in> X \<or> td_addr (sl_thread_data log ! t) = SHARD_UNMAPPED
          \<or> (\<exists>i<length ps. \<exists>es. ps ! i = (t, False, es) \<and> td_addr (sl_thread_data log ! t) = word_of_nat (log_page_addr cfg D i))"
    using assms(1) unfolding log_inv_def by (elim conjE)
  then show ?thesis using assms(2) by blast
qed

lemma log_inv_basic:
  assumes "log_inv csum cfg log w X D ps"
  shows "length (sl_thread_data log) = MAX_THREADS" "log_cfg_ok cfg" "(D @ [mini_next_extent (sl_mini log) ! 0]) ! 0 = sl_addr log"
  using assms by (simp_all only: log_inv_def)

lemma new_page_addr:
  assumes inv: "log_inv csum cfg log w X D ps" and al: "mini_alloc cfg (sl_mini log) (lw_mini w) 0 = Some (addr, nx, mini', mw')"
  obtains chain' D' ne' where "mini_ok cfg mini' mw' chain' 1" "data_extents (w_mem mw') chain' = D'" "num_batches mini' = 1" "mini_next_extent mini' ! 0 = ne'" "nx = ne'"
    "addr = log_page_addr cfg D' (length ps)" "length ps div log_ppe cfg + 1 = length D'" "mini_next_addr mini' ! 0 = addr + io_page_size (io_cfg cfg)"
    "(D' = D \<and> ne' = mini_next_extent (sl_mini log) ! 0) \<or> D' = D @ [mini_next_extent (sl_mini log) ! 0]" "(D' = D) = (length ps mod log_ppe cfg \<noteq> 0)"
proof -
  let ?m = "sl_mini log" and ?e = "io_extent_size (io_cfg cfg)" and ?n = "length ps" and ?p = "log_ppe cfg"
  obtain chain where c: "mini_ok cfg ?m (lw_mini w) chain 1" "data_extents (w_mem (lw_mini w)) chain = D" and nb: "num_batches ?m = 1"
    using inv unfolding log_inv_def by blast
  have cfg: "mini_cfg_ok cfg" by (rule log_inv_extents(2) [OF inv])
  have dn: "length D = (if ?n mod ?p = 0 then ?n div ?p else ?n div ?p + 1)" by (rule log_inv_extents(3) [OF inv])
  have na: "if ?n mod ?p = 0 then mini_next_addr ?m ! 0 mod ?e = 0 else mini_next_addr ?m ! 0 = log_page_addr cfg D ?n" using inv by (simp add: log_inv_def)
  have len: "1 \<le> length (mini_next_addr ?m)" using c(1) nb by (simp add: mini_ok_def)
  then have t: "take 1 (mini_next_addr ?m) = [mini_next_addr ?m ! 0]" by (cases "mini_next_addr ?m") auto
  obtain chain' where c': "mini_ok cfg mini' mw' chain' 1" "num_batches mini' = 1"
    "hands_out cfg D [mini_next_addr ?m ! 0] 0 addr (data_extents (w_mem mw') chain')"
    "take 1 (mini_next_addr mini') = [mini_next_addr ?m ! 0][0 := addr + io_page_size (io_cfg cfg)]" "nx = mini_next_extent mini' ! 0"
    using mini_alloc_ok [OF c(1) _ al] unfolding nb c(2) t by (metis less_one)
  have na': "mini_next_addr mini' ! 0 = addr + io_page_size (io_cfg cfg)" using c'(4) by (cases "mini_next_addr mini'") auto
  note nxt = mini_alloc_next [OF al]
  show thesis
  proof (cases "?n mod ?p = 0")
    case True
    then have b: "mini_next_addr ?m ! 0 mod ?e = 0" using na by simp
    then have a: "addr = mini_next_extent ?m ! 0" using nxt by simp
    have D': "data_extents (w_mem mw') chain' = D @ [addr]" using c'(3) b by (auto simp: hands_out_def)
    have pa: "addr = log_page_addr cfg (D @ [addr]) ?n" using True dn by (simp add: log_page_addr_def nth_append)
    show thesis by (rule that [OF c'(1) D' c'(2) refl c'(5) pa _ na']) (use a True dn in simp_all)
  next
    case False
    then have b: "mini_next_addr ?m ! 0 = log_page_addr cfg D ?n" using na by simp
    have "?n div ?p < length D" using dn False by simp
    then have d: "?e dvd D ! (?n div ?p)" using log_inv_extents(1) [OF inv] by (simp add: log_extents_ok_def)
    have "mini_next_addr ?m ! 0 mod ?e = ?n mod ?p * io_page_size (io_cfg cfg)"
      unfolding b log_page_addr_def by (rule page_in_extent(2) [OF cfg d mod_less_divisor [OF log_ppe(1) [OF cfg]]])
    then have "mini_next_addr ?m ! 0 mod ?e \<noteq> 0" using False cfg_sizes(2) [OF cfg] by simp
    then have a: "addr = mini_next_addr ?m ! 0" "mini_next_extent mini' = mini_next_extent ?m" "data_extents (w_mem mw') chain' = D"
      using nxt c'(3) by (auto simp: hands_out_def)
    show thesis by (rule that [OF c'(1) a(3) c'(2) refl c'(5) _ _ na']) (use a b dn False in simp_all)
  qed
qed

lemma next_addr_ok:
  assumes "mini_cfg_ok cfg" "\<forall>a\<in>set D. io_extent_size (io_cfg cfg) dvd a" "n div log_ppe cfg + 1 = length D"
  shows "length D = (if Suc n mod log_ppe cfg = 0 then Suc n div log_ppe cfg else Suc n div log_ppe cfg + 1)"
    "if Suc n mod log_ppe cfg = 0 then (log_page_addr cfg D n + io_page_size (io_cfg cfg)) mod io_extent_size (io_cfg cfg) = 0
     else log_page_addr cfg D n + io_page_size (io_cfg cfg) = log_page_addr cfg D (Suc n)"
proof -
  let ?p = "log_ppe cfg" and ?s = "io_page_size (io_cfg cfg)"
  show "length D = (if Suc n mod ?p = 0 then Suc n div ?p else Suc n div ?p + 1)" using assms(3) by (simp add: div_Suc)
  have d: "io_extent_size (io_cfg cfg) dvd D ! (n div ?p)" using assms(2,3) by simp
  show "if Suc n mod ?p = 0 then (log_page_addr cfg D n + ?s) mod io_extent_size (io_cfg cfg) = 0 else log_page_addr cfg D n + ?s = log_page_addr cfg D (Suc n)"
  proof (cases "Suc n mod ?p = 0")
    case True
    then have "Suc (n mod ?p) = ?p" by (simp add: mod_Suc split: if_splits)
    then have "n mod ?p * ?s + ?s = ?p * ?s" by (metis add.commute mult_Suc)
    then have "log_page_addr cfg D n + ?s = D ! (n div ?p) + io_extent_size (io_cfg cfg)" using log_ppe(2) [OF assms(1)] by (simp add: log_page_addr_def)
    then show ?thesis using True d by simp
  next
    case False
    then have "Suc n mod ?p = Suc (n mod ?p)" "Suc n div ?p = n div ?p" by (simp_all add: mod_Suc div_Suc split: if_splits)
    then show ?thesis using False by (simp add: log_page_addr_def)
  qed
qed

text \<open>Only pages of the log change, and the log keeps its pages.\<close>

definition log_addrs :: "allocator_config \<Rightarrow> nat list \<Rightarrow> 'p list \<Rightarrow> nat set" where
  "log_addrs cfg D ps = log_page_addr cfg D ` {..<length ps}"

definition pages_from :: "allocator_config \<Rightarrow> nat list \<Rightarrow> 'p list \<Rightarrow> ('a, 'c) log_world \<Rightarrow> nat list \<Rightarrow> 'p list \<Rightarrow> ('a, 'c) log_world \<Rightarrow> bool" where
  "pages_from cfg D ps w D' ps' w' \<longleftrightarrow> log_addrs cfg D ps \<subseteq> log_addrs cfg D' ps' \<and> (\<forall>a. a \<in> log_addrs cfg D' ps' \<or> lw_pages w' a = lw_pages w a)"

lemma pages_from_trans: "pages_from cfg D ps w D1 ps1 w1 \<Longrightarrow> pages_from cfg D1 ps1 w1 D2 ps2 w2 \<Longrightarrow> pages_from cfg D ps w D2 ps2 w2"
  unfolding pages_from_def by (metis subset_eq)

lemma pages_from_same: "length ps' = length ps \<Longrightarrow> (\<And>a. a \<in> log_addrs cfg D ps \<or> lw_pages w' a = lw_pages w a) \<Longrightarrow> pages_from cfg D ps w D ps' w'"
  by (simp add: pages_from_def log_addrs_def)

lemma new_page_ok:
  assumes inv: "log_inv csum cfg log w X D ps" and t: "t < MAX_THREADS" and X: "t \<in> X"
    and get: "get_new_page_for_thread frame cfg log t w = Some (log', w')"
  obtains D' where "log_inv csum cfg log' w' (X - {t}) D' (ps @ [(t, False, [])])" "sl_magic log' = sl_magic log" "sl_addr log' = sl_addr log"
    "sl_thread_data log' ! t = \<lparr>td_addr = word_of_nat (log_page_addr cfg D' (length ps)), td_offset = sizeof_shard_log_hdr\<rparr>"
    "pages_from cfg D ps w D' (ps @ [(t, False, [])]) w'"
proof -
  let ?n = "length ps" and ?p = "log_ppe cfg" and ?ne = "mini_next_extent (sl_mini log) ! 0" and ?ps = "ps @ [(t, False, [])]"
  obtain addr nx mini' mw' where al: "mini_alloc cfg (sl_mini log) (lw_mini w) 0 = Some (addr, nx, mini', mw')"
    and l': "log' = log\<lparr>sl_mini := mini', sl_thread_data := (sl_thread_data log)[t := \<lparr>td_addr = word_of_nat addr, td_offset = sizeof_shard_log_hdr\<rparr>]\<rparr>"
    and w': "w' = w\<lparr>lw_mini := mw', lw_pages := (lw_pages w)(addr := (frame addr)\<lparr>lp_body := (lp_body (frame addr))\<lparr>lb_magic := sl_magic log, lb_next_extent_addr := nx,
        lb_num_entries := 0\<rparr>\<rparr>)\<rparr>"
    using get unfolding get_new_page_for_thread_def by (auto simp: bind_eq_Some_conv Let_def)
  from new_page_addr [OF inv al] obtain chain' D' ne' where
    m: "mini_ok cfg mini' mw' chain' 1" "data_extents (w_mem mw') chain' = D'" "num_batches mini' = 1" "mini_next_extent mini' ! 0 = ne'" "nx = ne'"
    and a: "addr = log_page_addr cfg D' ?n" "?n div ?p + 1 = length D'" "mini_next_addr mini' ! 0 = addr + io_page_size (io_cfg cfg)"
    and D': "(D' = D \<and> ne' = ?ne) \<or> D' = D @ [?ne]" "(D' = D) = (?n mod ?p \<noteq> 0)" .
  have cfg: "mini_cfg_ok cfg" by (rule log_inv_extents(2) [OF inv])
  have ext: "log_extents_ok cfg mw' (D' @ [ne'])" using mini_extents [OF m(1,3)] m(2,4) by simp
  then have al': "\<forall>a\<in>set D'. io_extent_size (io_cfg cfg) dvd a" "distinct (map (extent_of cfg) D')" by (simp_all add: log_extents_ok_def)
  note nx = next_addr_ok [OF cfg al'(1) a(2)]
  have same: "log_page_addr cfg D' i = log_page_addr cfg D i" "(D' @ [ne']) ! Suc (i div ?p) = (D @ [?ne]) ! Suc (i div ?p)" "i div ?p < length D'" if "i < ?n" for i
    using log_inv_extents(4) [OF inv that] D'(1) by (elim disjE; simp add: log_page_addr_def nth_append)+
  have new: "log_page_addr cfg D' i \<noteq> addr" if "i < ?n" for i
  proof
    assume "log_page_addr cfg D' i = addr"
    then have "i = ?n" using log_page_addr_inj [OF cfg al' same(3) [OF that], of ?n] a(1,2) by simp
    then show False using that by simp
  qed
  have hd: "(D' @ [ne']) ! 0 = (D @ [?ne]) ! 0" using D'(1) by (cases D) (auto simp: nth_append)
  have ld: "length (sl_thread_data log) = MAX_THREADS" "log_cfg_ok cfg" "(D @ [?ne]) ! 0 = sl_addr log" by (rule log_inv_basic [OF inv])+
  have pages: "case ?ps ! i of (t', s, es) \<Rightarrow>
          \<exists>e. log_page_ok csum cfg (sl_magic log') ((D' @ [ne']) ! Suc (i div ?p)) s es e (lw_pages w' (log_page_addr cfg D' i))
            \<and> (\<not> s \<longrightarrow> t' < MAX_THREADS \<and> t' \<notin> X - {t} \<and> sl_thread_data log' ! t' = \<lparr>td_addr = word_of_nat (log_page_addr cfg D' i), td_offset = e\<rparr>)" if i: "i < length ?ps" for i
  proof (cases "i < ?n")
    case True
    obtain t' s es where p: "ps ! i = (t', s, es)" by (cases "ps ! i")
    obtain e where e: "log_page_ok csum cfg (sl_magic log) ((D @ [?ne]) ! Suc (i div ?p)) s es e (lw_pages w (log_page_addr cfg D i))"
      "\<not> s \<longrightarrow> t' < MAX_THREADS \<and> t' \<notin> X \<and> sl_thread_data log ! t' = \<lparr>td_addr = word_of_nat (log_page_addr cfg D i), td_offset = e\<rparr>"
      by (rule log_inv_page [OF inv True p])
    have "lw_pages w' (log_page_addr cfg D' i) = lw_pages w (log_page_addr cfg D i)" using new [OF True] same(1) [OF True] by (simp add: w')
    moreover have "t' \<noteq> t" if "\<not> s" using e(2) that X by blast
    moreover have "?ps ! i = (t', s, es)" "sl_magic log' = sl_magic log" using True p by (simp_all add: nth_append l')
    moreover have "sl_thread_data log' ! t' = sl_thread_data log ! t'" if "t' \<noteq> t" using that by (simp add: l')
    ultimately show ?thesis using e unfolding same(1,2) [OF True] by auto
  next
    case False
    then have i: "i = ?n" using i by simp
    have nxt: "(D' @ [ne']) ! Suc (i div ?p) = nx" using a(2) i m(5) by (simp add: nth_append)
    have "sizeof_shard_log_hdr \<le> io_page_size (io_cfg cfg)" using ld(2) by (simp add: log_cfg_ok_def)
    then have "log_page_ok csum cfg (sl_magic log') ((D' @ [ne']) ! Suc (i div ?p)) False [] sizeof_shard_log_hdr (lw_pages w' (log_page_addr cfg D' i))"
      unfolding nxt using a(1) i by (simp add: log_page_ok_def w' l')
    moreover have "sl_thread_data log' ! t = \<lparr>td_addr = word_of_nat (log_page_addr cfg D' i), td_offset = sizeof_shard_log_hdr\<rparr>" using t ld(1) a(1) i by (simp add: l')
    moreover have "?ps ! i = (t, False, [])" using i by simp
    ultimately show ?thesis using t by (simp only: prod.case) blast
  qed
  have threads: "t' \<in> X - {t} \<or> td_addr (sl_thread_data log' ! t') = SHARD_UNMAPPED
          \<or> (\<exists>i<length ?ps. \<exists>es. ?ps ! i = (t', False, es) \<and> td_addr (sl_thread_data log' ! t') = word_of_nat (log_page_addr cfg D' i))" if t': "t' < MAX_THREADS" for t'
  proof (cases "t' = t")
    case True
    then show ?thesis using t ld(1) a(1) by (intro disjI2 exI [of _ ?n] conjI) (simp_all add: l')
  next
    case False
    note log_inv_thread [OF inv t']
    then consider "t' \<in> X" | "td_addr (sl_thread_data log ! t') = SHARD_UNMAPPED"
      | i es where "i < ?n" "ps ! i = (t', False, es)" "td_addr (sl_thread_data log ! t') = word_of_nat (log_page_addr cfg D i)" by blast
    then show ?thesis
    proof cases
      case 3
      then have "i < length ?ps \<and> ?ps ! i = (t', False, es) \<and> td_addr (sl_thread_data log' ! t') = word_of_nat (log_page_addr cfg D' i)"
        using same(1) False by (simp add: nth_append l')
      then show ?thesis by blast
    qed (use False in \<open>simp_all add: l'\<close>)
  qed
  have ne: "mini_next_extent (sl_mini log') ! 0 = ne'" "sl_addr log' = sl_addr log" "lw_mini w' = mw'" "length (sl_thread_data log') = MAX_THREADS" "sl_mini log' = mini'"
    using m(4) ld(1) by (simp_all add: l' w')
  have len: "length ?ps = Suc ?n" by simp
  have fin: "log_inv csum cfg log' w' (X - {t}) D' ?ps"
    unfolding log_inv_def ne len
  proof (intro conjI)
    show "\<exists>chain. mini_ok cfg mini' mw' chain 1 \<and> data_extents (w_mem mw') chain = D'" using m by blast
    show "\<forall>i<Suc ?n. case ?ps ! i of (t', s, es) \<Rightarrow>
          \<exists>e. log_page_ok csum cfg (sl_magic log') ((D' @ [mini_next_extent mini' ! 0]) ! Suc (i div ?p)) s es e (lw_pages w' (log_page_addr cfg D' i))
            \<and> (\<not> s \<longrightarrow> t' < MAX_THREADS \<and> t' \<notin> X - {t} \<and> sl_thread_data log' ! t' = \<lparr>td_addr = word_of_nat (log_page_addr cfg D' i), td_offset = e\<rparr>)"
      using pages unfolding len m(4) by blast
    show "\<forall>t'<MAX_THREADS. t' \<in> X - {t} \<or> td_addr (sl_thread_data log' ! t') = SHARD_UNMAPPED
          \<or> (\<exists>i<Suc ?n. \<exists>es. ?ps ! i = (t', False, es) \<and> td_addr (sl_thread_data log' ! t') = word_of_nat (log_page_addr cfg D' i))" using threads unfolding len by blast
    show "(D' @ [mini_next_extent mini' ! 0]) ! 0 = sl_addr log" using hd ld(3) unfolding m(4) by simp
    show "if Suc ?n mod ?p = 0 then mini_next_addr mini' ! 0 mod io_extent_size (io_cfg cfg) = 0 else mini_next_addr mini' ! 0 = log_page_addr cfg D' (Suc ?n)"
      using nx(2) unfolding a(3) a(1) .
  qed (rule m(3) ld(2) nx(1) refl)+
  have "log_addrs cfg D' ?ps = insert addr (log_addrs cfg D ps)"
    unfolding log_addrs_def len lessThan_Suc image_insert a(1) [symmetric] using same(1) by (auto intro!: image_cong)
  then have pf: "pages_from cfg D ps w D' ?ps w'" unfolding pages_from_def by (auto simp: w')
  show thesis by (rule that [OF fin _ _ _ pf]) (use t ld(1) a(1) in \<open>simp_all add: l'\<close>)
qed

lemma log_inv_intro:
  assumes "mini_ok cfg (sl_mini log) (lw_mini w) chain 1" "data_extents (w_mem (lw_mini w)) chain = D" "num_batches (sl_mini log) = 1"
    "log_cfg_ok cfg" "length D = (if length ps mod log_ppe cfg = 0 then length ps div log_ppe cfg else length ps div log_ppe cfg + 1)"
    "if length ps mod log_ppe cfg = 0 then mini_next_addr (sl_mini log) ! 0 mod io_extent_size (io_cfg cfg) = 0
     else mini_next_addr (sl_mini log) ! 0 = log_page_addr cfg D (length ps)"
    "(D @ [mini_next_extent (sl_mini log) ! 0]) ! 0 = sl_addr log" "length (sl_thread_data log) = MAX_THREADS"
    "\<And>i t s es. i < length ps \<Longrightarrow> ps ! i = (t, s, es) \<Longrightarrow>
       \<exists>e. log_page_ok csum cfg (sl_magic log) ((D @ [mini_next_extent (sl_mini log) ! 0]) ! Suc (i div log_ppe cfg)) s es e (lw_pages w (log_page_addr cfg D i))
         \<and> (\<not> s \<longrightarrow> t < MAX_THREADS \<and> t \<notin> X \<and> sl_thread_data log ! t = \<lparr>td_addr = word_of_nat (log_page_addr cfg D i), td_offset = e\<rparr>)"
    "\<And>t. t < MAX_THREADS \<Longrightarrow> t \<in> X \<or> td_addr (sl_thread_data log ! t) = SHARD_UNMAPPED
       \<or> (\<exists>i<length ps. \<exists>es. ps ! i = (t, False, es) \<and> td_addr (sl_thread_data log ! t) = word_of_nat (log_page_addr cfg D i))"
  shows "log_inv csum cfg log w X D ps"
  unfolding log_inv_def
proof (intro conjI)
  show "\<exists>chain. mini_ok cfg (sl_mini log) (lw_mini w) chain 1 \<and> data_extents (w_mem (lw_mini w)) chain = D" using assms(1,2) by blast
  show "\<forall>i<length ps. case ps ! i of (t, s, es) \<Rightarrow>
          \<exists>e. log_page_ok csum cfg (sl_magic log) ((D @ [mini_next_extent (sl_mini log) ! 0]) ! Suc (i div log_ppe cfg)) s es e (lw_pages w (log_page_addr cfg D i))
            \<and> (\<not> s \<longrightarrow> t < MAX_THREADS \<and> t \<notin> X \<and> sl_thread_data log ! t = \<lparr>td_addr = word_of_nat (log_page_addr cfg D i), td_offset = e\<rparr>)"
  proof (intro allI impI)
    fix i assume "i < length ps"
    then show "case ps ! i of (t, s, es) \<Rightarrow>
          \<exists>e. log_page_ok csum cfg (sl_magic log) ((D @ [mini_next_extent (sl_mini log) ! 0]) ! Suc (i div log_ppe cfg)) s es e (lw_pages w (log_page_addr cfg D i))
            \<and> (\<not> s \<longrightarrow> t < MAX_THREADS \<and> t \<notin> X \<and> sl_thread_data log ! t = \<lparr>td_addr = word_of_nat (log_page_addr cfg D i), td_offset = e\<rparr>)"
      by (cases "ps ! i") (simp only: prod.case assms(9))
  qed
  show "\<forall>t<MAX_THREADS. t \<in> X \<or> td_addr (sl_thread_data log ! t) = SHARD_UNMAPPED
          \<or> (\<exists>i<length ps. \<exists>es. ps ! i = (t, False, es) \<and> td_addr (sl_thread_data log ! t) = word_of_nat (log_page_addr cfg D i))" using assms(10) by blast
qed (rule assms)+

lemma log_inv_next:
  assumes "log_inv csum cfg log w X D ps"
  shows "if length ps mod log_ppe cfg = 0 then mini_next_addr (sl_mini log) ! 0 mod io_extent_size (io_cfg cfg) = 0
     else mini_next_addr (sl_mini log) ! 0 = log_page_addr cfg D (length ps)"
  using assms unfolding log_inv_def by (elim conjE)

lemma log_inv_mini:
  assumes "log_inv csum cfg log w X D ps"
  obtains chain where "mini_ok cfg (sl_mini log) (lw_mini w) chain 1" "data_extents (w_mem (lw_mini w)) chain = D" "num_batches (sl_mini log) = 1"
proof -
  have "\<exists>chain. mini_ok cfg (sl_mini log) (lw_mini w) chain 1 \<and> data_extents (w_mem (lw_mini w)) chain = D" "num_batches (sl_mini log) = 1"
    using assms by (simp_all only: log_inv_def)
  then show thesis using that by blast
qed

text \<open>A thread changes its page, and seals it or not.\<close>

lemma log_inv_update:
  assumes inv: "log_inv csum cfg log w X D ps" and i: "i < length ps" "ps ! i = (t, False, es)"
    and pg: "log_page_ok csum cfg (sl_magic log) ((D @ [mini_next_extent (sl_mini log) ! 0]) ! Suc (i div log_ppe cfg)) s' es' e' pg'"
  shows "log_inv csum cfg (log\<lparr>sl_thread_data := (sl_thread_data log)[t := \<lparr>td_addr = word_of_nat (log_page_addr cfg D i), td_offset = e'\<rparr>]\<rparr>)
    (w\<lparr>lw_pages := (lw_pages w)(log_page_addr cfg D i := pg')\<rparr>) (if s' then insert t X else X) D (ps[i := (t, s', es')])"
proof -
  let ?log = "log\<lparr>sl_thread_data := (sl_thread_data log)[t := \<lparr>td_addr = word_of_nat (log_page_addr cfg D i), td_offset = e'\<rparr>]\<rparr>"
  let ?w = "w\<lparr>lw_pages := (lw_pages w)(log_page_addr cfg D i := pg')\<rparr>" and ?X = "if s' then insert t X else X" and ?ps = "ps[i := (t, s', es')]"
  obtain e where e: "t < MAX_THREADS" "t \<notin> X" "sl_thread_data log ! t = \<lparr>td_addr = word_of_nat (log_page_addr cfg D i), td_offset = e\<rparr>"
    using log_inv_page [OF inv i] by metis
  note b = log_inv_basic [OF inv]
  obtain chain where c: "mini_ok cfg (sl_mini log) (lw_mini w) chain 1" "data_extents (w_mem (lw_mini w)) chain = D" "num_batches (sl_mini log) = 1"
    by (rule log_inv_mini [OF inv])
  note na = log_inv_next [OF inv]
  have s: "sl_mini ?log = sl_mini log" "sl_addr ?log = sl_addr log" "sl_magic ?log = sl_magic log" "lw_mini ?w = lw_mini w" "length ?ps = length ps" by simp_all
  show ?thesis
  proof (rule log_inv_intro, unfold s)
    show "length (sl_thread_data ?log) = MAX_THREADS" using b(1) by simp
    fix j t2 s2 es2 assume j: "j < length ps" "?ps ! j = (t2, s2, es2)"
    show "\<exists>e. log_page_ok csum cfg (sl_magic log) ((D @ [mini_next_extent (sl_mini log) ! 0]) ! Suc (j div log_ppe cfg)) s2 es2 e (lw_pages ?w (log_page_addr cfg D j))
         \<and> (\<not> s2 \<longrightarrow> t2 < MAX_THREADS \<and> t2 \<notin> ?X \<and> sl_thread_data ?log ! t2 = \<lparr>td_addr = word_of_nat (log_page_addr cfg D j), td_offset = e\<rparr>)"
    proof (cases "j = i")
      case True
      then show ?thesis using pg j e b(1) i(1) by (intro exI [of _ e']) simp
    next
      case False
      then have p: "ps ! j = (t2, s2, es2)" using j(2) by simp
      obtain e2 where e2: "log_page_ok csum cfg (sl_magic log) ((D @ [mini_next_extent (sl_mini log) ! 0]) ! Suc (j div log_ppe cfg)) s2 es2 e2 (lw_pages w (log_page_addr cfg D j))"
        "\<not> s2 \<longrightarrow> t2 < MAX_THREADS \<and> t2 \<notin> X \<and> sl_thread_data log ! t2 = \<lparr>td_addr = word_of_nat (log_page_addr cfg D j), td_offset = e2\<rparr>" by (rule log_inv_page [OF inv j(1) p])
      have na: "log_page_addr cfg D j \<noteq> log_page_addr cfg D i" using log_addr_inj [OF inv j(1) i(1)] False by blast
      have nw: "word_of_nat (log_page_addr cfg D j) \<noteq> (word_of_nat (log_page_addr cfg D i) :: uint64)" using log_word_inj [OF inv j(1) i(1)] False by blast
      then have "t2 \<noteq> t" if "\<not> s2" using e2(2) e(3) that nw by auto
      then show ?thesis using e2 na by (intro exI [of _ e2]) (cases s2; simp)
    qed
  next
    fix t2 assume t2: "t2 < MAX_THREADS"
    show "t2 \<in> ?X \<or> td_addr (sl_thread_data ?log ! t2) = SHARD_UNMAPPED
       \<or> (\<exists>j<length ps. \<exists>es. ?ps ! j = (t2, False, es) \<and> td_addr (sl_thread_data ?log ! t2) = word_of_nat (log_page_addr cfg D j))"
    proof (cases "t2 = t")
      case True
      then show ?thesis using i(1) b(1) e(1) by (cases s') (simp_all, metis nth_list_update_eq)
    next
      case False
      have "td_addr (sl_thread_data ?log ! t2) = td_addr (sl_thread_data log ! t2)" "t2 \<in> X \<Longrightarrow> t2 \<in> ?X" using False by simp_all
      moreover have "?ps ! j = ps ! j" if "ps ! j = (t2, False, es2)" for j es2 using that i(2) False by (cases "j = i") simp_all
      ultimately show ?thesis using log_inv_thread [OF inv t2] by metis
    qed
  qed (rule c b na log_inv_extents(3) [OF inv])+
qed

text \<open>How a write changes the pages.\<close>

definition log_grows :: "(nat \<times> bool \<times> log_entry list) list \<Rightarrow> nat \<Rightarrow> log_entry \<Rightarrow> (nat \<times> bool \<times> log_entry list) list \<Rightarrow> bool" where
  "log_grows ps t le ps' \<longleftrightarrow>
     (\<forall>i<length ps. \<forall>es. ps ! i \<noteq> (t, False, es)) \<and> ps' = ps @ [(t, False, [le])]
     \<or> (\<exists>i<length ps. \<exists>es. ps ! i = (t, False, es) \<and> (ps' = ps[i := (t, False, es @ [le])] \<or> ps' = ps[i := (t, True, es)] @ [(t, False, [le])]))"

lemma log_inv_no_open:
  assumes inv: "log_inv csum cfg log w {} D ps" and "td_addr (sl_thread_data log ! t) = SHARD_UNMAPPED"
  shows "\<forall>i<length ps. \<forall>es. ps ! i \<noteq> (t, False, es)"
proof (intro allI impI notI)
  fix i es assume i: "i < length ps" "ps ! i = (t, False, es)"
  then obtain e where "sl_thread_data log ! t = \<lparr>td_addr = word_of_nat (log_page_addr cfg D i), td_offset = e\<rparr>" using log_inv_page [OF inv i] by metis
  then show False using log_addr_mapped [OF inv i(1)] assms(2) by simp
qed

lemma log_inv_exempt:
  assumes inv: "log_inv csum cfg log w {} D ps" and no: "\<forall>i<length ps. \<forall>es. ps ! i \<noteq> (t, False, es)"
  shows "log_inv csum cfg log w {t} D ps"
proof -
  obtain chain where c: "mini_ok cfg (sl_mini log) (lw_mini w) chain 1" "data_extents (w_mem (lw_mini w)) chain = D" "num_batches (sl_mini log) = 1"
    by (rule log_inv_mini [OF inv])
  note na = log_inv_next [OF inv]
  show ?thesis
  proof (rule log_inv_intro)
    fix j t2 s2 es2 assume j: "j < length ps" "ps ! j = (t2, s2, es2)"
    have "t2 \<noteq> t" if "\<not> s2" using no j that by (cases s2) auto
    moreover obtain e where "log_page_ok csum cfg (sl_magic log) ((D @ [mini_next_extent (sl_mini log) ! 0]) ! Suc (j div log_ppe cfg)) s2 es2 e (lw_pages w (log_page_addr cfg D j))"
      "\<not> s2 \<longrightarrow> t2 < MAX_THREADS \<and> t2 \<notin> {} \<and> sl_thread_data log ! t2 = \<lparr>td_addr = word_of_nat (log_page_addr cfg D j), td_offset = e\<rparr>" by (rule log_inv_page [OF inv j])
    ultimately show "\<exists>e. log_page_ok csum cfg (sl_magic log) ((D @ [mini_next_extent (sl_mini log) ! 0]) ! Suc (j div log_ppe cfg)) s2 es2 e (lw_pages w (log_page_addr cfg D j))
         \<and> (\<not> s2 \<longrightarrow> t2 < MAX_THREADS \<and> t2 \<notin> {t} \<and> sl_thread_data log ! t2 = \<lparr>td_addr = word_of_nat (log_page_addr cfg D j), td_offset = e\<rparr>)"
      by (intro exI [of _ e]) (cases s2; simp)
  next
    fix t2 assume t2: "t2 < MAX_THREADS"
    show "t2 \<in> {t} \<or> td_addr (sl_thread_data log ! t2) = SHARD_UNMAPPED
       \<or> (\<exists>j<length ps. \<exists>es. ps ! j = (t2, False, es) \<and> td_addr (sl_thread_data log ! t2) = word_of_nat (log_page_addr cfg D j))"
      using log_inv_thread [OF inv t2] unfolding empty_iff by (elim disjE) (simp, rule disjI2, rule disjI1, assumption, intro disjI2, assumption)
  qed (fact c na log_inv_basic [OF inv] log_inv_extents(3) [OF inv])+
qed

text \<open>The last part of a write: the entry goes to the page of the thread, which has room.\<close>

lemma write_entry:
  assumes inv: "log_inv csum cfg log w {} D ps" and i: "i < length ps" "ps ! i = (t, False, es)"
    and td: "sl_thread_data log ! t = \<lparr>td_addr = word_of_nat (log_page_addr cfg D i), td_offset = e\<rparr>"
    and room: "e + sizeof_log_entry le \<le> io_page_size (io_cfg cfg)" and le: "le_generation le \<noteq> INVALID_GENERATION"
  shows "log_inv csum cfg (log\<lparr>sl_thread_data := (sl_thread_data log)[t := \<lparr>td_addr = word_of_nat (log_page_addr cfg D i), td_offset = e + sizeof_log_entry le\<rparr>]\<rparr>)
    (w\<lparr>lw_pages := (lw_pages w)(log_page_addr cfg D i := append_entry e le (lw_pages w (log_page_addr cfg D i)))\<rparr>) {} D (ps[i := (t, False, es @ [le])])"
proof -
  obtain e2 where "log_page_ok csum cfg (sl_magic log) ((D @ [mini_next_extent (sl_mini log) ! 0]) ! Suc (i div log_ppe cfg)) False es e2 (lw_pages w (log_page_addr cfg D i))"
    "sl_thread_data log ! t = \<lparr>td_addr = word_of_nat (log_page_addr cfg D i), td_offset = e2\<rparr>" using log_inv_page [OF inv i] by metis
  then have "log_page_ok csum cfg (sl_magic log) ((D @ [mini_next_extent (sl_mini log) ! 0]) ! Suc (i div log_ppe cfg)) False es e (lw_pages w (log_page_addr cfg D i))"
    using td by simp
  from log_inv_update [OF inv i append_entry_ok [OF this log_inv_basic(2) [OF inv] room le]] show ?thesis by simp
qed

lemma shard_log_write_ok:
  fixes w :: "('a, 'c) log_world"
  assumes inv: "log_inv csum cfg log w {} D ps" and t: "t < MAX_THREADS" and s: "storable k msg" and g: "gen \<noteq> INVALID_GENERATION"
    and fits: "sizeof_shard_log_hdr + log_entry_required_capacity k msg \<le> io_page_size (io_cfg cfg)"
    and wr: "shard_log_write csum frame cfg log t k msg gen w = Some (log', w')"
  shows "\<exists>D' ps'. log_inv csum cfg log' w' {} D' ps' \<and> log_grows ps t (new_log_entry k msg gen) ps' \<and> sl_magic log' = sl_magic log \<and> sl_addr log' = sl_addr log
    \<and> pages_from cfg D ps w D' ps' w'"
proof -
  let ?le = "new_log_entry k msg gen" and ?sz = "log_entry_required_capacity k msg"
  have le: "sizeof_log_entry ?le = ?sz" "le_generation ?le \<noteq> INVALID_GENERATION" using new_log_entry [OF s, of gen] g by simp_all
  define fin where "fin log w = (log\<lparr>sl_thread_data := (sl_thread_data log)[t := (sl_thread_data log ! t)\<lparr>td_offset := td_offset (sl_thread_data log ! t) + ?sz\<rparr>]\<rparr>,
           w\<lparr>lw_pages := (lw_pages w)(unat (td_addr (sl_thread_data log ! t)) := append_entry (td_offset (sl_thread_data log ! t)) ?le (lw_pages w (unat (td_addr (sl_thread_data log ! t)))))\<rparr>)"
    for log :: shard_log and w :: "('a, 'c) log_world"
  have new: "\<exists>D' ps'. log_inv csum cfg log' w' {} D' ps' \<and> ps' = qs @ [(t, False, [?le])] \<and> sl_magic log' = sl_magic log0 \<and> sl_addr log' = sl_addr log0
      \<and> pages_from cfg D0 qs w0 D' ps' w'"
    if q: "log_inv csum cfg log0 w0 {t} D0 qs" "get_new_page_for_thread frame cfg log0 t w0 = Some (log1, w1)" "(log', w') = fin log1 w1" for log0 w0 D0 qs log1 w1
  proof -
    obtain D1 where D1: "log_inv csum cfg log1 w1 {} D1 (qs @ [(t, False, [])])" "sl_magic log1 = sl_magic log0" "sl_addr log1 = sl_addr log0"
      "sl_thread_data log1 ! t = \<lparr>td_addr = word_of_nat (log_page_addr cfg D1 (length qs)), td_offset = sizeof_shard_log_hdr\<rparr>"
      "pages_from cfg D0 qs w0 D1 (qs @ [(t, False, [])]) w1"
      by (rule new_page_ok [OF q(1) t _ q(2)]) auto
    have u: "unat (word_of_nat (log_page_addr cfg D1 (length qs)) :: uint64) = log_page_addr cfg D1 (length qs)" by (rule log_addr_mapped(1) [OF D1(1)]) simp
    have "log_inv csum cfg log' w' {} D1 ((qs @ [(t, False, [])])[length qs := (t, False, [] @ [?le])])"
      using write_entry [OF D1(1) _ _ D1(4), of "[]" ?le] q(3) fits le D1(4) u unfolding fin_def by simp
    moreover have "pages_from cfg D1 (qs @ [(t, False, [])]) w1 D1 (qs @ [(t, False, [?le])]) w'"
    proof (rule pages_from_same)
      show "a \<in> log_addrs cfg D1 (qs @ [(t, False, [])]) \<or> lw_pages w' a = lw_pages w1 a" for a
        using q(3) D1(4) u by (auto simp: fin_def log_addrs_def)
    qed simp
    ultimately show ?thesis using D1(2,3) q(3) pages_from_trans [OF D1(5)] by (auto simp: fin_def)
  qed
  show ?thesis
  proof (cases "td_addr (sl_thread_data log ! t) = SHARD_UNMAPPED")
    case True
    then have "Option.bind (get_new_page_for_thread frame cfg log t w) (\<lambda>(log, w).
       (if io_page_size (io_cfg cfg) - td_offset (sl_thread_data log ! t) < ?sz
        then get_new_page_for_thread frame cfg log t (w\<lparr>lw_pages := (lw_pages w)(unat (td_addr (sl_thread_data log ! t)) :=
          seal_page csum cfg (td_offset (sl_thread_data log ! t)) (lw_pages w (unat (td_addr (sl_thread_data log ! t)))))\<rparr>)
        else Some (log, w)) \<bind> (\<lambda>(log, w). Some (fin log w))) = Some (log', w')"
      using wr unfolding shard_log_write_def by (simp add: Let_def fin_def)
    then obtain log1 w1 where g1: "get_new_page_for_thread frame cfg log t w = Some (log1, w1)" and
      r: "(if io_page_size (io_cfg cfg) - td_offset (sl_thread_data log1 ! t) < ?sz
        then get_new_page_for_thread frame cfg log1 t (w1\<lparr>lw_pages := (lw_pages w1)(unat (td_addr (sl_thread_data log1 ! t)) :=
          seal_page csum cfg (td_offset (sl_thread_data log1 ! t)) (lw_pages w1 (unat (td_addr (sl_thread_data log1 ! t)))))\<rparr>)
        else Some (log1, w1)) \<bind> (\<lambda>(log, w). Some (fin log w)) = Some (log', w')"
      by (auto simp: bind_eq_Some_conv)
    have no: "\<forall>i<length ps. \<forall>es. ps ! i \<noteq> (t, False, es)" by (rule log_inv_no_open [OF inv True])
    have ex: "log_inv csum cfg log w {t} D ps" by (rule log_inv_exempt [OF inv no])
    have "td_offset (sl_thread_data log1 ! t) = sizeof_shard_log_hdr" by (rule new_page_ok [OF ex t _ g1]) auto
    moreover have "\<not> io_page_size (io_cfg cfg) - sizeof_shard_log_hdr < ?sz" using fits by linarith
    ultimately have "(log', w') = fin log1 w1" using r by simp
    from new [OF ex g1 this] show ?thesis using no unfolding log_grows_def by blast
  next
    case False
    then obtain i es where i: "i < length ps" "ps ! i = (t, False, es)" using log_inv_thread [OF inv t] by blast
    obtain e where e: "log_page_ok csum cfg (sl_magic log) ((D @ [mini_next_extent (sl_mini log) ! 0]) ! Suc (i div log_ppe cfg)) False es e (lw_pages w (log_page_addr cfg D i))"
      "sl_thread_data log ! t = \<lparr>td_addr = word_of_nat (log_page_addr cfg D i), td_offset = e\<rparr>" using log_inv_page [OF inv i] by metis
    let ?a = "log_page_addr cfg D i"
    have u: "unat (word_of_nat ?a :: uint64) = ?a" by (rule log_addr_mapped(1) [OF inv i(1)])
    let ?w = "w\<lparr>lw_pages := (lw_pages w)(?a := seal_page csum cfg e (lw_pages w ?a))\<rparr>"
    have r: "(if io_page_size (io_cfg cfg) - e < ?sz then get_new_page_for_thread frame cfg log t ?w else Some (log, w)) \<bind> (\<lambda>(log, w). Some (fin log w)) = Some (log', w')"
      using wr False unfolding shard_log_write_def by (simp add: Let_def fin_def e(2) u cong: if_cong)
    show ?thesis
    proof (cases "io_page_size (io_cfg cfg) - e < ?sz")
      case True
      then obtain log1 w1 where g1: "get_new_page_for_thread frame cfg log t ?w = Some (log1, w1)" "(log', w') = fin log1 w1"
        using r by (auto simp: bind_eq_Some_conv)
      have "(sl_thread_data log)[t := \<lparr>td_addr = word_of_nat ?a, td_offset = e\<rparr>] = sl_thread_data log" by (simp flip: e(2))
      then have "log_inv csum cfg log ?w {t} D (ps[i := (t, True, es)])" using log_inv_update [OF inv i seal_page_ok [OF e(1)]] by simp
      from new [OF this g1] obtain D' where n: "log_inv csum cfg log' w' {} D' (ps[i := (t, True, es)] @ [(t, False, [?le])])" "sl_magic log' = sl_magic log" "sl_addr log' = sl_addr log"
        "pages_from cfg D (ps[i := (t, True, es)]) ?w D' (ps[i := (t, True, es)] @ [(t, False, [?le])]) w'" by blast
      have "pages_from cfg D ps w D (ps[i := (t, True, es)]) ?w"
        by (rule pages_from_same) (use i(1) in \<open>auto simp: log_addrs_def\<close>)
      from pages_from_trans [OF this n(4)] show ?thesis using n i unfolding log_grows_def by blast
    next
      case False
      then have f: "(log', w') = fin log w" using r by simp
      have "e \<le> io_page_size (io_cfg cfg)" using e(1) by (simp add: log_page_ok_def)
      then have "e + sizeof_log_entry ?le \<le> io_page_size (io_cfg cfg)" using False le(1) by simp
      from write_entry [OF inv i e(2) this le(2)] have "log_inv csum cfg log' w' {} D (ps[i := (t, False, es @ [?le])])"
        using f by (simp add: fin_def e(2) le(1) u)
      moreover have "pages_from cfg D ps w D (ps[i := (t, False, es @ [?le])]) w'"
        by (rule pages_from_same) (use i(1) f e(2) u in \<open>auto simp: log_addrs_def fin_def\<close>)
      moreover have "sl_magic log' = sl_magic log" "sl_addr log' = sl_addr log" using f by (simp_all add: fin_def)
      ultimately show ?thesis using i unfolding log_grows_def by blast
    qed
  qed
qed

section \<open>Histories\<close>

text \<open>What a thread wrote, in the order of its pages; only the last page of a thread is open.\<close>

definition log_of :: "nat \<Rightarrow> (nat \<times> bool \<times> log_entry list) list \<Rightarrow> log_entry list" where
  "log_of t ps = concat (map (snd \<circ> snd) (filter (\<lambda>p. fst p = t) ps))"

definition open_last :: "(nat \<times> bool \<times> log_entry list) list \<Rightarrow> bool" where
  "open_last ps \<longleftrightarrow> (\<forall>i j t es. i < j \<longrightarrow> j < length ps \<longrightarrow> ps ! i = (t, False, es) \<longrightarrow> fst (ps ! j) \<noteq> t)"

lemma log_of_append [simp]: "log_of t (ps @ qs) = log_of t ps @ log_of t qs" "log_of t [(t', s, es)] = (if t' = t then es else [])" "log_of t [] = []"
  by (simp_all add: log_of_def)

lemma log_of_after_open: assumes "open_last ps" "i < length ps" "ps ! i = (t, False, es)" shows "log_of t (drop (Suc i) ps) = []"
  proof -
    have "fst p \<noteq> t" if p: "p \<in> set (drop (Suc i) ps)" for p
    proof -
      obtain k where k: "k < length (drop (Suc i) ps)" "drop (Suc i) ps ! k = p" using p unfolding in_set_conv_nth by blast
      have e: "drop (Suc i) ps ! k = ps ! (Suc i + k)" using assms(2) by simp
      have l: "Suc i + k < length ps" using k(1) by simp
      have "fst (ps ! (Suc i + k)) \<noteq> t" using assms(1) unfolding open_last_def using l assms(3) by (metis add_Suc less_add_Suc1)
      then show ?thesis unfolding k(2) [symmetric] e .
    qed
    then have "filter (\<lambda>p. fst p = t) (drop (Suc i) ps) = []" by (simp add: filter_empty_conv)
    then show ?thesis by (simp add: log_of_def)
  qed
lemma log_of_split: assumes "i < length ps" "ps ! i = (t, False, es)" shows "log_of t' ps = log_of t' (take i ps) @ log_of t' [(t, False, es)] @ log_of t' (drop (Suc i) ps)"
proof -
  have "log_of t' (take i ps @ ps ! i # drop (Suc i) ps) = log_of t' ps" by (rule arg_cong [OF id_take_nth_drop [OF assms(1), symmetric]])
  then show ?thesis unfolding assms(2) by (metis append_Cons append_Nil log_of_append(1))
qed
lemma log_of_update: assumes "i < length ps" shows "log_of t' (ps[i := (t, s, es')]) = log_of t' (take i ps) @ log_of t' [(t, s, es')] @ log_of t' (drop (Suc i) ps)"
  unfolding upd_conv_take_nth_drop [OF assms] by (metis append_Cons append_Nil log_of_append(1))

lemma log_of_open:
  assumes "open_last ps" "i < length ps" "ps ! i = (t, False, es)"
  shows "log_of t' (ps[i := (t, s, es')]) = (if t' = t then log_of t (take i ps) @ es' else log_of t' ps)" "log_of t ps = log_of t (take i ps) @ es"
  using log_of_split [OF assms(2,3)] log_of_update [OF assms(2)] log_of_after_open [OF assms] by simp_all

lemma log_grows_history:
  assumes g: "log_grows ps t le ps'" and o: "open_last ps"
  shows "open_last ps'" "log_of t' ps' = log_of t' ps @ (if t' = t then [le] else [])"
proof -
  from g consider (new) "\<forall>i<length ps. \<forall>es. ps ! i \<noteq> (t, False, es)" "ps' = ps @ [(t, False, [le])]"
    | (app) i es where "i < length ps" "ps ! i = (t, False, es)" "ps' = ps[i := (t, False, es @ [le])]"
    | (seal) i es where "i < length ps" "ps ! i = (t, False, es)" "ps' = ps[i := (t, True, es)] @ [(t, False, [le])]"
    unfolding log_grows_def by blast
  note cs = this
  show "open_last ps'"
    using cs
  proof cases
    case new
    then show ?thesis using o by (auto simp: open_last_def nth_append)
  next
    case app
    have f: "fst (ps' ! j) = fst (ps ! j)" for j using app by (cases "j = i") simp_all
    show ?thesis unfolding open_last_def
    proof (intro allI impI)
      fix a b t2 es2 assume h: "a < b" "b < length ps'" "ps' ! a = (t2, False, es2)"
      then obtain es3 where "ps ! a = (t2, False, es3)" using app by (cases "a = i") auto
      then show "fst (ps' ! b) \<noteq> t2" using o h app(3) f unfolding open_last_def by (metis length_list_update)
    qed
  next
    case seal
    have one: "j = i" if "j < length ps" "ps ! j = (t, False, es2)" for j es2
      using o seal(1,2) that unfolding open_last_def by (metis fst_conv linorder_neqE_nat)
    show ?thesis unfolding open_last_def
    proof (intro allI impI)
      fix a b t2 es2 assume h: "a < b" "b < length ps'" "ps' ! a = (t2, False, es2)"
      have a: "a < length ps" "a \<noteq> i" "ps ! a = (t2, False, es2)" using h seal by (auto simp: nth_append nth_list_update split: if_splits)
      show "fst (ps' ! b) \<noteq> t2"
      proof (cases "b < length ps")
        case True
        then have "fst (ps' ! b) = fst (ps ! b)" using seal by (auto simp: nth_append nth_list_update)
        then show ?thesis using o h(1) True a unfolding open_last_def by metis
      next
        case False
        then have "fst (ps' ! b) = t" using h(2) seal(3) by (simp add: nth_append)
        then show ?thesis using one a by auto
      qed
    qed
  qed
  show "log_of t' ps' = log_of t' ps @ (if t' = t then [le] else [])"
    using cs
  proof cases
    case app
    then show ?thesis using log_of_open [OF o app(1,2)] by auto
  next
    case seal
    then show ?thesis using log_of_open [OF o seal(1,2)] by auto
  qed auto
qed

fun shard_log_writes ::
  "(log_body \<Rightarrow> 'c) \<Rightarrow> (nat \<Rightarrow> 'c log_page) \<Rightarrow> allocator_config \<Rightarrow> (nat \<times> key \<times> message \<times> uint64) list \<Rightarrow> shard_log \<Rightarrow> ('a, 'c) log_world
     \<Rightarrow> (shard_log \<times> ('a, 'c) log_world) option" where
  "shard_log_writes csum frame cfg [] log w = Some (log, w)"
| "shard_log_writes csum frame cfg ((t, k, msg, gen) # ws) log w = do {
     (log1, w1) \<leftarrow> shard_log_write csum frame cfg log t k msg gen w;
     shard_log_writes csum frame cfg ws log1 w1
   }"

definition write_ok :: "allocator_config \<Rightarrow> nat \<times> key \<times> message \<times> uint64 \<Rightarrow> bool" where
  "write_ok cfg x \<longleftrightarrow> (case x of (t, k, msg, gen) \<Rightarrow> t < MAX_THREADS \<and> storable k msg \<and> gen \<noteq> INVALID_GENERATION
     \<and> sizeof_shard_log_hdr + log_entry_required_capacity k msg \<le> io_page_size (io_cfg cfg))"

definition written :: "nat \<Rightarrow> (nat \<times> key \<times> message \<times> uint64) list \<Rightarrow> (uint64 \<times> key \<times> message_type \<times> bytes) list" where
  "written t ws = map (\<lambda>(t, k, msg, gen). (gen, k, msg_view msg)) (filter (\<lambda>x. fst x = t) ws)"

lemma shard_log_writes_ok:
  assumes "log_inv csum cfg log w {} D ps" "open_last ps" "\<forall>x\<in>set ws. write_ok cfg x" "shard_log_writes csum frame cfg ws log w = Some (log', w')"
  shows "\<exists>D' ps'. log_inv csum cfg log' w' {} D' ps' \<and> open_last ps' \<and> (\<forall>t. map log_view (log_of t ps') = map log_view (log_of t ps) @ written t ws)
    \<and> sl_magic log' = sl_magic log \<and> sl_addr log' = sl_addr log \<and> pages_from cfg D ps w D' ps' w' \<and> length ps' \<le> length ps + length ws"
  using assms
proof (induction ws arbitrary: log w D ps)
  case Nil
  then have "log_inv csum cfg log' w' {} D ps" "log' = log" "w' = w" by simp_all
  then show ?case using Nil.prems(2) pages_from_same [of ps ps cfg D w w] by (intro exI [of _ D] exI [of _ ps]) (simp add: written_def)
next
  case (Cons x ws)
  obtain t k msg gen where x: "x = (t, k, msg, gen)" by (cases x)
  then have wo: "t < MAX_THREADS" "storable k msg" "gen \<noteq> INVALID_GENERATION" "sizeof_shard_log_hdr + log_entry_required_capacity k msg \<le> io_page_size (io_cfg cfg)"
    using Cons.prems(3) by (simp_all add: write_ok_def)
  obtain log1 w1 where w1: "shard_log_write csum frame cfg log t k msg gen w = Some (log1, w1)" "shard_log_writes csum frame cfg ws log1 w1 = Some (log', w')"
    using Cons.prems(4) x by (auto simp: bind_eq_Some_conv)
  obtain D1 ps1 where s: "log_inv csum cfg log1 w1 {} D1 ps1" "log_grows ps t (new_log_entry k msg gen) ps1" "sl_magic log1 = sl_magic log" "sl_addr log1 = sl_addr log"
    "pages_from cfg D ps w D1 ps1 w1" using shard_log_write_ok [OF Cons.prems(1) wo w1(1)] by blast
  note h = log_grows_history [OF s(2) Cons.prems(2)]
  have ws: "\<forall>x\<in>set ws. write_ok cfg x" using Cons.prems(3) by simp
  obtain D' ps' where r: "log_inv csum cfg log' w' {} D' ps'" "open_last ps'" "\<forall>t. map log_view (log_of t ps') = map log_view (log_of t ps1) @ written t ws"
    "sl_magic log' = sl_magic log1" "sl_addr log' = sl_addr log1" "pages_from cfg D1 ps1 w1 D' ps' w'" "length ps' \<le> length ps1 + length ws"
    using Cons.IH [OF s(1) h(1) ws w1(2)] by blast
  have "map log_view (log_of t' ps') = map log_view (log_of t' ps) @ written t' (x # ws)" for t'
    using r(3) h(2) [of t'] new_log_entry(1) [OF wo(2)] by (simp add: written_def x)
  moreover have "length ps1 \<le> Suc (length ps)" using s(2) by (auto simp: log_grows_def)
  then have "length ps' \<le> length ps + length (x # ws)" using r(7) by simp
  ultimately show ?case using r(1,2,4,5) s(3,4) pages_from_trans [OF s(5) r(6)] by metis
qed

section \<open>A new log\<close>

lemma mini_init_next_addr:
  assumes "mini_init cfg w head 0 n type = Some (a0, mini, w')"
  shows "mini_next_addr mini = replicate MINI_MAX_BATCHES 0"
proof -
  have k: "mini_next_addr m1 = mini_next_addr m" if "mini_init_batches cfg bs m v = Some (m1, v1)" for bs m v m1 v1
    using that
  proof (induction bs arbitrary: m v)
    case (Cons b bs)
    then obtain addr m2 v2 where u: "must_get_new_extent cfg m v = Some (addr, m2, v2)" "mini_init_batches cfg bs (m2\<lparr>mini_next_extent := (mini_next_extent m2)[b := addr]\<rparr>) v2 = Some (m1, v1)"
      by (auto simp: bind_eq_Some_conv)
    have "mini_next_addr m2 = mini_next_addr m" using u(1) by (auto simp: must_get_new_extent_def mini_allocator_get_new_extent_def bind_eq_Some_conv split: if_splits)
    then show ?case using Cons.IH [OF u(2)] by simp
  qed simp
  show ?thesis using assms unfolding mini_init_def
    by (auto simp: Let_def bind_eq_Some_conv split: if_splits dest!: k)
qed

lemma shard_log_init_ok:
  assumes "log_cfg_ok cfg" "al_inv cfg (w_al (lw_mini w))" "0 < extent_refs cfg (w_al (lw_mini w)) 0" "shard_log_init hash64 cfg midx w = Some (log, w')"
  shows "log_inv csum cfg log w' {} [] []" "lw_pages w' = lw_pages w" "sl_magic log = hash64 midx"
proof -
  have cfg: "mini_cfg_ok cfg" using assms(1) by (simp add: log_cfg_ok_def)
  obtain rc head al where a: "rc_allocator_alloc cfg (w_al (lw_mini w)) PAGE_TYPE_LOG = Some (rc, head, al)" "SUCCESS rc"
    using assms(4) by (auto simp: shard_log_init_def bind_eq_Some_conv split: if_splits)
  then obtain addr mini mw where i: "mini_init cfg ((lw_mini w)\<lparr>w_al := al\<rparr>) head 0 1 PAGE_TYPE_LOG = Some (addr, mini, mw)"
    and l: "log = \<lparr>sl_thread_data = replicate MAX_THREADS unmapped_thread, sl_mini = mini, sl_addr = addr, sl_meta_head = head, sl_magic = hash64 midx\<rparr>"
    and w': "w' = w\<lparr>lw_mini := mw\<rparr>"
    using assms(4) by (auto simp: shard_log_init_def bind_eq_Some_conv)
  let ?R = "extent_refs cfg (w_al (lw_mini w))" and ?e = "extent_of cfg head"
  have al: "al_inv cfg al" "io_extent_size (io_cfg cfg) dvd head" "?R ?e = 0" "extent_refs cfg al = ?R(?e := 2)"
    using rc.alloc_law [OF assms(2), of PAGE_TYPE_LOG] a by auto
  have e: "?e \<noteq> 0" using al(3) assms(3) by (intro notI) simp
  have pre: "al_inv cfg (w_al ((lw_mini w)\<lparr>w_al := al\<rparr>))" "0 < extent_refs cfg (w_al ((lw_mini w)\<lparr>w_al := al\<rparr>)) 0"
    "extent_refs cfg (w_al ((lw_mini w)\<lparr>w_al := al\<rparr>)) ?e = 2" "io_page_size (io_cfg cfg) dvd head"
    using al e assms(3) cfg_sizes(5) [OF cfg] dvd_trans by auto
  have m: "mini_ok cfg mini mw [head] 1" "data_extents (w_mem mw) [head] = []" "num_batches mini = 1" "addr = mini_next_extent mini ! 0"
    using mini_init_ok [OF cfg pre(1,2,4) e pre(3) _ i] by auto
  have na: "mini_next_addr mini ! 0 = 0" using mini_init_next_addr [OF i] by (simp add: MINI_MAX_BATCHES_def)
  show "lw_pages w' = lw_pages w" "sl_magic log = hash64 midx" by (simp_all add: l w')
  show "log_inv csum cfg log w' {} [] []"
    by (rule log_inv_intro [where chain = "[head]"]) (use m na assms(1) in \<open>simp_all add: l w' unmapped_thread_def\<close>)
qed

section \<open>Recovery\<close>

fun fold_pages :: "('p \<Rightarrow> 's \<Rightarrow> 's option) \<Rightarrow> 'p list \<Rightarrow> 's \<Rightarrow> 's option" where
  "fold_pages f [] s = Some s"
| "fold_pages f (p # ps) s = Option.bind (f p s) (fold_pages f ps)"

lemma fold_pages_append: "fold_pages f (ps @ qs) s = Option.bind (fold_pages f ps s) (fold_pages f qs)"
  by (induction ps arbitrary: s) (simp_all add: Option.bind_assoc cong: Option.bind_cong)

lemma extent_pass_valid:
  assumes "\<forall>a\<in>set as. shard_log_valid csum magic (pages a)"
  shows "log_extent_pass csum magic pages f (as @ bs) next s =
    Option.bind (fold_pages f (map pages as) s) (log_extent_pass csum magic pages f bs (if as = [] then next else lb_next_extent_addr (lp_body (pages (last as)))))"
  using assms
proof (induction as arbitrary: "next" s)
  case (Cons a as)
  have "log_extent_pass csum magic pages f (as @ bs) (lb_next_extent_addr (lp_body (pages a))) s1 = Option.bind (fold_pages f (map pages as) s1)
      (log_extent_pass csum magic pages f bs (lb_next_extent_addr (lp_body (pages (last (a # as))))))" for s1
    using Cons.IH [of "lb_next_extent_addr (lp_body (pages a))" s1] Cons.prems by (cases "as = []") simp_all
  then show ?case using Cons.prems by (simp add: Option.bind_assoc cong: Option.bind_cong)
qed simp

lemma extent_pages_addrs:
  assumes "mini_cfg_ok cfg"
  shows "extent_pages cfg (E ! q) = map (log_page_addr cfg E) [q * log_ppe cfg..<q * log_ppe cfg + log_ppe cfg]"
proof (rule nth_equalityI)
  note p = log_ppe [OF assms]
  show "length (extent_pages cfg (E ! q)) = length (map (log_page_addr cfg E) [q * log_ppe cfg..<q * log_ppe cfg + log_ppe cfg])"
    by (simp add: extent_pages_def log_ppe_def)
  fix i assume "i < length (extent_pages cfg (E ! q))"
  then have i: "i < log_ppe cfg" by (simp add: extent_pages_def log_ppe_def)
  then show "extent_pages cfg (E ! q) ! i = map (log_page_addr cfg E) [q * log_ppe cfg..<q * log_ppe cfg + log_ppe cfg] ! i"
    using p by (simp add: extent_pages_def log_page_addr_def log_ppe_def)
qed

text \<open>The walk over the extents \<open>E\<close> visits the pages up to the first one that is not valid.\<close>

lemma log_pass_prefix:
  assumes cfg: "mini_cfg_ok cfg" and E: "\<forall>a\<in>set E. a \<noteq> 0 \<and> (\<exists>r. rc_allocator_get_ref cfg (w_al (lw_mini w)) a = Some r \<and> r \<noteq> 0)"
    and k: "k < length E * log_ppe cfg" "\<not> shard_log_valid csum magic (lw_pages w (log_page_addr cfg E k))"
    and valid: "\<forall>i<k. shard_log_valid csum magic (lw_pages w (log_page_addr cfg E i))"
    and nxt: "\<forall>i<k. Suc (i div log_ppe cfg) < length E \<longrightarrow> lb_next_extent_addr (lp_body (lw_pages w (log_page_addr cfg E i))) = E ! Suc (i div log_ppe cfg)"
  shows "q * log_ppe cfg \<le> k \<Longrightarrow> k div log_ppe cfg - q < fuel \<Longrightarrow>
    log_pass fuel csum cfg magic w f (E ! q) s = fold_pages f (map (\<lambda>i. lw_pages w (log_page_addr cfg E i)) [q * log_ppe cfg..<k]) s"
proof (induction fuel arbitrary: q s)
  case (Suc fuel)
  let ?p = "log_ppe cfg" and ?A = "log_page_addr cfg E" and ?v = "\<lambda>i. lw_pages w (log_page_addr cfg E i)"
  have p: "0 < ?p" by (rule log_ppe(1) [OF cfg])
  have q: "q < length E" using Suc.prems(1) k(1) by (metis le_less_trans mult_less_cancel2)
  then obtain r where r: "E ! q \<noteq> 0" "rc_allocator_get_ref cfg (w_al (lw_mini w)) (E ! q) = Some r" "r \<noteq> 0" using E nth_mem by blast
  have go: "log_pass (Suc fuel) csum cfg magic w f (E ! q) s = Option.bind (log_extent_pass csum magic (lw_pages w) f (map ?A [q * ?p..<q * ?p + ?p]) 0 s)
      (\<lambda>r. case r of Inl s1 \<Rightarrow> Some s1 | Inr (next, s1) \<Rightarrow> log_pass fuel csum cfg magic w f next s1)"
    using r by (simp add: extent_pages_addrs [OF cfg] split: sum.splits)
  show ?case
  proof (cases "k < q * ?p + ?p")
    case True
    then have u: "[q * ?p..<q * ?p + ?p] = [q * ?p..<k] @ k # [Suc k..<q * ?p + ?p]"
      using Suc.prems(1) by (metis le_Suc_ex less_imp_le_nat upt_add_eq_append upt_conv_Cons)
    have v: "\<forall>a\<in>set (map ?A [q * ?p..<k]). shard_log_valid csum magic (lw_pages w a)" using valid by simp
    show ?thesis unfolding go u map_append extent_pass_valid [OF v] using k(2)
      by (simp add: Option.bind_assoc comp_def cong: Option.bind_cong)
  next
    case False
    have v: "\<forall>a\<in>set (map ?A [q * ?p..<q * ?p + ?p]). shard_log_valid csum magic (lw_pages w a)" using valid False by simp
    have l: "last (map ?A [q * ?p..<q * ?p + ?p]) = ?A (q * ?p + ?p - 1)" using p by (simp add: last_map)
    have d: "(q * ?p + ?p - 1) div ?p = q"
    proof -
      have "q * ?p + ?p - 1 = q * ?p + (?p - 1)" using p by simp
      moreover have "(q * ?p + (?p - 1)) div ?p = q + (?p - 1) div ?p" by (rule div_mult_self3) (use p in simp)
      moreover have "(?p - 1) div ?p = 0" using p by simp
      ultimately show ?thesis by simp
    qed
    have s: "Suc q * ?p \<le> k" using False by simp
    then have "Suc q * ?p < length E * ?p" using k(1) by simp
    then have "Suc q < length E" by (metis mult_less_cancel2)
    then have n: "lb_next_extent_addr (lp_body (lw_pages w (?A (q * ?p + ?p - 1)))) = E ! Suc q" using nxt d False p by auto
    have "Suc q \<le> k div ?p" using s p by (metis div_le_mono nonzero_mult_div_cancel_right not_gr_zero)
    then have f: "k div ?p - Suc q < fuel" using Suc.prems(2) by simp
    have u: "[q * ?p..<k] = [q * ?p..<q * ?p + ?p] @ [Suc q * ?p..<k]" using False by (metis add.commute le_add1 linorder_not_less mult_Suc upt_add_eq_append le_Suc_ex)
    have "log_extent_pass csum magic (lw_pages w) f (map ?A [q * ?p..<q * ?p + ?p] @ []) 0 s = Option.bind (fold_pages f (map ?v [q * ?p..<q * ?p + ?p]) s) (\<lambda>s1. Some (Inr (E ! Suc q, s1)))"
      unfolding extent_pass_valid [OF v] using p l n by (simp add: comp_def cong: Option.bind_cong)
    then have "log_pass (Suc fuel) csum cfg magic w f (E ! q) s = Option.bind (fold_pages f (map ?v [q * ?p..<q * ?p + ?p]) s) (log_pass fuel csum cfg magic w f (E ! Suc q))"
      unfolding go by (simp add: Option.bind_assoc)
    also have "\<dots> = fold_pages f (map ?v [q * ?p..<k]) s" unfolding u map_append fold_pages_append using Suc.IH [OF s f] by (simp cong: Option.bind_cong)
    finally show ?thesis .
  qed
qed simp

subsection \<open>Sorting\<close>

lemma sint_diff32:
  fixes a b :: uint64
  assumes "\<bar>uint a - uint b\<bar> < 2 ^ 31"
  shows "sint (ucast (a - b) :: 32 word) = uint a - uint b"
proof -
  have "sint (ucast (a - b) :: 32 word) = signed_take_bit 31 (take_bit 32 (uint (a - b)))" by (simp add: sint_uint unsigned_ucast_eq)
  also have "uint (a - b) = take_bit 64 (uint a - uint b)" by (simp add: uint_word_ariths take_bit_eq_mod)
  also have "signed_take_bit 31 (take_bit 32 (take_bit 64 (uint a - uint b))) = signed_take_bit 31 (uint a - uint b)" by (simp add: signed_take_bit_take_bit)
  also have "\<dots> = uint a - uint b" using assms by (intro signed_take_bit_int_eq_self) simp_all
  finally show ?thesis .
qed

definition close_generations :: "log_entry list \<Rightarrow> bool" where
  "close_generations es \<longleftrightarrow> (\<forall>x\<in>set es. \<forall>y\<in>set es. \<bar>uint (le_generation x) - uint (le_generation y)\<bar> < 2 ^ 31)"

lemma sort_insert_mset: "mset (sort_insert c x ys) = add_mset x (mset ys)"
  by (induction ys) auto

lemma sort_mset: "mset (platform_sort_slow c xs) = mset xs"
  by (induction xs) (simp_all add: sort_insert_mset)

lemma sort_insert_log:
  assumes "close_generations (x # ys)" "sorted_wrt (\<lambda>a b. le_generation a \<le> le_generation b) ys"
  shows "sorted_wrt (\<lambda>a b. le_generation a \<le> le_generation b) (sort_insert shard_log_compare x ys)"
  using assms
proof (induction ys)
  case (Cons y ys)
  have c: "shard_log_compare x y = uint (le_generation x) - uint (le_generation y)"
    unfolding shard_log_compare_def by (rule sint_diff32) (use Cons.prems(1) in \<open>simp add: close_generations_def\<close>)
  have "close_generations (x # ys)" using Cons.prems(1) by (simp add: close_generations_def)
  then have "sorted_wrt (\<lambda>a b. le_generation a \<le> le_generation b) (sort_insert shard_log_compare x ys)" using Cons by simp
  moreover have "shard_log_compare x y \<le> 0 \<longleftrightarrow> le_generation x \<le> le_generation y" unfolding c by (simp add: word_le_def)
  ultimately show ?case using Cons.prems(2) by (auto intro: order_trans less_imp_le)
qed simp

lemma sort_log:
  assumes "close_generations es"
  shows "sorted_wrt (\<lambda>a b. le_generation a \<le> le_generation b) (platform_sort_slow shard_log_compare es)"
  using assms
proof (induction es)
  case (Cons x es)
  have "set (platform_sort_slow shard_log_compare es) = set es" by simp
  then have "close_generations (x # platform_sort_slow shard_log_compare es)" using Cons.prems unfolding close_generations_def by simp
  moreover have "close_generations es" using Cons.prems by (simp add: close_generations_def)
  ultimately show ?case using Cons.IH sort_insert_log by simp
qed simp

subsection \<open>What recovery finds\<close>

definition log_entries :: "(nat \<times> bool \<times> log_entry list) list \<Rightarrow> log_entry list" where
  "log_entries ps = concat (map (snd \<circ> snd) ps)"

definition sealed_prefix :: "(nat \<times> bool \<times> log_entry list) list \<Rightarrow> (nat \<times> bool \<times> log_entry list) list" where
  "sealed_prefix ps = takeWhile (\<lambda>p. fst (snd p)) ps"

lemma log_entries_snoc: "log_entries (ps @ [(t, s, es)]) = log_entries ps @ es"
  by (simp add: log_entries_def)

lemma sealed_pages:
  assumes inv: "log_inv csum cfg log w X D ps" and i: "i < length (sealed_prefix ps)"
  obtains t es e where "ps ! i = (t, True, es)" "i < length ps" "shard_log_valid csum (sl_magic log) (lw_pages w (log_page_addr cfg D i))"
    "page_log_entries cfg (lp_body (lw_pages w (log_page_addr cfg D i))) sizeof_shard_log_hdr = Some es"
    "unat (lb_num_entries (lp_body (lw_pages w (log_page_addr cfg D i)))) = length es"
    "lb_next_extent_addr (lp_body (lw_pages w (log_page_addr cfg D i))) = (D @ [mini_next_extent (sl_mini log) ! 0]) ! Suc (i div log_ppe cfg)"
proof -
  have l: "length (sealed_prefix ps) \<le> length ps" by (simp add: sealed_prefix_def length_takeWhile_le)
  then have i': "i < length ps" using i by simp
  obtain t s es where p: "ps ! i = (t, s, es)" by (cases "ps ! i")
  have "sealed_prefix ps ! i = ps ! i" using i by (simp add: sealed_prefix_def takeWhile_nth)
  moreover have "fst (snd (sealed_prefix ps ! i))" using nth_mem [OF i] unfolding sealed_prefix_def by (metis set_takeWhileD)
  ultimately have s: "s" using p by simp
  obtain e where e: "log_page_ok csum cfg (sl_magic log) ((D @ [mini_next_extent (sl_mini log) ! 0]) ! Suc (i div log_ppe cfg)) s es e (lw_pages w (log_page_addr cfg D i))"
    by (rule log_inv_page [OF inv i' p])
  show thesis by (rule that [of t es]) (use e s p i' page_log_entries_read in \<open>auto simp: log_page_ok_def shard_log_valid_def unsigned_of_nat take_bit_nat_eq_self\<close>)
qed

lemma fold_sealed:
  assumes inv: "log_inv csum cfg log w X D ps" and k: "k \<le> length (sealed_prefix ps)"
  shows "fold_pages (collect_page cfg) (map (\<lambda>i. lw_pages w (log_page_addr cfg D i)) [0..<k]) [] = Some (log_entries (take k ps))
    \<and> fold_pages count_page (map (\<lambda>i. lw_pages w (log_page_addr cfg D i)) [0..<k]) (0, 0) = Some (k, length (log_entries (take k ps)))"
  using k
proof (induction k)
  case (Suc k)
  obtain t es e where p: "ps ! k = (t, True, es)" "k < length ps"
    "page_log_entries cfg (lp_body (lw_pages w (log_page_addr cfg D k))) sizeof_shard_log_hdr = Some es"
    "unat (lb_num_entries (lp_body (lw_pages w (log_page_addr cfg D k)))) = length es"
    by (rule sealed_pages [OF inv, of k]) (use Suc.prems in auto)
  have t: "log_entries (take (Suc k) ps) = log_entries (take k ps) @ es" using p(1,2) by (simp add: take_Suc_conv_app_nth log_entries_snoc)
  show ?case using Suc.IH Suc.prems p(3,4) by (simp add: fold_pages_append t collect_page_def count_page_def)
qed (simp add: log_entries_def)

lemma log_extent_refs:
  assumes "log_extents_ok cfg mw E" "al_inv cfg (w_al mw)" "0 < extent_refs cfg (w_al mw) 0" "a \<in> set E"
  shows "a \<noteq> 0 \<and> (\<exists>r. rc_allocator_get_ref cfg (w_al mw) a = Some r \<and> r \<noteq> 0)"
proof -
  have a: "extent_of cfg a \<noteq> 0" "0 < extent_refs cfg (w_al mw) (extent_of cfg a)" using assms(1,4) by (auto simp: log_extents_ok_def)
  then have "extent_of cfg a < extent_capacity cfg" "0 < unat (ref_count (w_al mw) ! extent_of cfg a)" by (auto simp: extent_refs_def split: if_splits)
  moreover have "extent_capacity cfg \<le> length (ref_count (w_al mw))" using assms(2) by (simp add: al_inv_def)
  moreover have "a \<noteq> 0" using a(1) by (intro notI) simp
  ultimately show ?thesis by (auto simp: rc_allocator_get_ref_def rc_allocator_extent_number_def)
qed

lemma recovery_walk:
  assumes inv: "log_inv csum cfg log w {} D ps"
    and fresh: "\<And>a. a \<notin> log_addrs cfg D ps \<Longrightarrow> \<not> shard_log_valid csum (sl_magic log) (lw_pages w a)"
    and opn: "\<forall>td\<in>set (sl_thread_data log). td_addr td \<noteq> SHARD_UNMAPPED \<longrightarrow> \<not> shard_log_valid csum (sl_magic log) (lw_pages w (unat (td_addr td)))"
    and fuel: "length ps < fuel"
  shows "log_pass fuel csum cfg (sl_magic log) w f (sl_addr log) s
    = fold_pages f (map (\<lambda>i. lw_pages w (log_page_addr cfg D i)) [0..<length (sealed_prefix ps)]) s"
proof -
  let ?ne = "mini_next_extent (sl_mini log) ! 0" and ?k = "length (sealed_prefix ps)" and ?p = "log_ppe cfg" and ?n = "length ps"
  let ?E = "D @ [?ne]"
  note ext = log_inv_extents [OF inv]
  have p: "0 < ?p" by (rule log_ppe(1) [OF ext(2)])
  have kn: "?k \<le> ?n" by (simp add: sealed_prefix_def length_takeWhile_le)
  have same: "log_page_addr cfg ?E i = log_page_addr cfg D i" if "i < ?n" for i
    using ext(4) [OF that] by (simp add: log_page_addr_def nth_append)
  obtain chain where c: "mini_ok cfg (sl_mini log) (lw_mini w) chain 1" by (rule log_inv_mini [OF inv])
  then have al: "al_inv cfg (w_al (lw_mini w))" "0 < extent_refs cfg (w_al (lw_mini w)) 0" by (simp_all add: mini_ok_def store_ok_def owned_ok_def)
  have nE: "?n div ?p < length ?E" using ext(3) by (simp split: if_splits)
  have v: "shard_log_valid csum (sl_magic log) (lw_pages w (log_page_addr cfg D i))
    \<and> lb_next_extent_addr (lp_body (lw_pages w (log_page_addr cfg D i))) = ?E ! Suc (i div ?p)" if "i < ?k" for i
    by (rule sealed_pages [OF inv that]) simp
  have inval: "\<not> shard_log_valid csum (sl_magic log) (lw_pages w (log_page_addr cfg ?E ?k))"
  proof (cases "?k < ?n")
    case True
    obtain t s es where q: "ps ! ?k = (t, s, es)" by (cases "ps ! ?k")
    have "\<not> s" using nth_length_takeWhile [of "\<lambda>p. fst (snd p)" ps] True q by (simp add: sealed_prefix_def)
    then obtain e where "t < MAX_THREADS" "sl_thread_data log ! t = \<lparr>td_addr = word_of_nat (log_page_addr cfg D ?k), td_offset = e\<rparr>"
      using log_inv_page [OF inv True q] by metis
    moreover have "sl_thread_data log ! t \<in> set (sl_thread_data log)" using calculation(1) log_inv_basic(1) [OF inv] by simp
    ultimately show ?thesis using opn log_addr_mapped [OF inv True] same [OF True] by fastforce
  next
    case False
    then have k: "?k = ?n" using kn by simp
    have dE: "\<forall>a\<in>set ?E. io_extent_size (io_cfg cfg) dvd a" "distinct (map (extent_of cfg) ?E)" using ext(1) unfolding log_extents_ok_def by auto
    have "log_page_addr cfg ?E ?n \<noteq> log_page_addr cfg D i" if i: "i < ?n" for i
    proof
      assume "log_page_addr cfg ?E ?n = log_page_addr cfg D i"
      then have "?n = i" using log_page_addr_inj [OF ext(2) dE nE, of i] same [OF i] ext(4) [OF i] by simp
      then show False using i by simp
    qed
    then show ?thesis unfolding k by (intro fresh) (auto simp: log_addrs_def)
  qed
  have kE: "?k < length ?E * ?p" using nE kn p by (metis div_less_iff_less_mult le_less_trans)
  have "log_pass fuel csum cfg (sl_magic log) w f (?E ! 0) s = fold_pages f (map (\<lambda>i. lw_pages w (log_page_addr cfg ?E i)) [0 * ?p..<?k]) s"
  proof (rule log_pass_prefix [OF ext(2) _ kE inval])
    show "\<forall>a\<in>set ?E. a \<noteq> 0 \<and> (\<exists>r. rc_allocator_get_ref cfg (w_al (lw_mini w)) a = Some r \<and> r \<noteq> 0)" using log_extent_refs [OF ext(1) al] by blast
    show "\<forall>i<?k. shard_log_valid csum (sl_magic log) (lw_pages w (log_page_addr cfg ?E i))" using v same kn by simp
    show "\<forall>i<?k. Suc (i div ?p) < length ?E \<longrightarrow> lb_next_extent_addr (lp_body (lw_pages w (log_page_addr cfg ?E i))) = ?E ! Suc (i div ?p)" using v same kn by simp
    have "?k div ?p \<le> ?k" by (rule div_le_dividend)
    then show "?k div ?p - 0 < fuel" using kn fuel by linarith
  qed simp
  also have "\<dots> = fold_pages f (map (\<lambda>i. lw_pages w (log_page_addr cfg D i)) [0..<?k]) s"
    using same kn by (intro arg_cong [where f = "\<lambda>l. fold_pages f l s"]) simp
  finally show ?thesis using log_inv_basic(3) [OF inv] by simp
qed


end
