(* ===== verification/PackedArray.thy ===== *)
theory PackedArray
  imports Prelude "HOL-Library.Monad_Syntax"
begin

text \<open>
  Arrays of items of 1 to 32 bits in a buffer of 32-bit cells (\<open>PackedArray.c\<close>, \<open>PackedArray.h\<close>).

  The packing loops are unrolled by the preprocessor into 32 cases, one for each item number modulo 32; \<open>pack_case\<close> and
  \<open>unpack_case\<close> are the text of one case, and the loops run through the cases in the order of the items. A read or write
  outside the buffer or a failed assertion is \<open>None\<close>. Offsets and counts are naturals; the code has \<open>uint32\<close>, and computes bit positions in 64 bits. The facts are about the bits of the buffer, \<open>pbit a n\<close>: item \<open>i\<close> is the bits from
  \<open>i * bits\<close> on, the writes change no other bits, and what was packed is read back by \<open>PackedArray_unpack\<close> and \<open>PackedArray_get\<close>.
\<close>

section \<open>Definitions\<close>

definition cell :: "uint32 list \<Rightarrow> nat \<Rightarrow> uint32 option" where
  "cell a i = (if i < length a then Some (a ! i) else None)"

definition store_cell :: "uint32 list \<Rightarrow> nat \<Rightarrow> uint32 \<Rightarrow> uint32 list option" where
  "store_cell a i v = (if i < length a then Some (a[i := v]) else None)"

definition IMPL_START_BIT :: "nat \<Rightarrow> nat \<Rightarrow> nat" where
  "IMPL_START_BIT bits case_i = case_i * bits mod 32"

definition IMPL_BITS_AVAILABLE :: "nat \<Rightarrow> nat \<Rightarrow> nat" where
  "IMPL_BITS_AVAILABLE bits case_i = 32 - case_i * bits mod 32"

definition IMPL_MASK :: "nat \<Rightarrow> uint32" where
  "IMPL_MASK bits = ucast (push_bit bits 1 - 1 :: uint64)"

text \<open>One case of the packing loop: the cell to write next, the buffer, and the bits collected for that cell.\<close>

definition pack_case :: "nat \<Rightarrow> nat \<Rightarrow> uint32 \<Rightarrow> nat \<times> uint32 list \<times> uint32 \<Rightarrow> (nat \<times> uint32 list \<times> uint32) option" where
  "pack_case bits case_i x s =
     (case s of (out, a, packed) \<Rightarrow>
        if bits \<le> IMPL_BITS_AVAILABLE bits case_i then
          let packed = packed OR push_bit (IMPL_START_BIT bits case_i) x
          in if bits = IMPL_BITS_AVAILABLE bits case_i then map_option (\<lambda>a. (out + 1, a, 0)) (store_cell a out packed)
             else Some (out, a, packed)
        else
          let packed = packed OR push_bit (IMPL_START_BIT bits case_i) x
          in map_option (\<lambda>a. (out + 1, a, drop_bit (IMPL_BITS_AVAILABLE bits case_i) x)) (store_cell a out packed))"

fun pack_cases :: "nat \<Rightarrow> nat \<Rightarrow> uint32 list \<Rightarrow> nat \<times> uint32 list \<times> uint32 \<Rightarrow> (nat \<times> uint32 list \<times> uint32) option" where
  "pack_cases bits case_i [] s = Some s"
| "pack_cases bits case_i (x # xs) s = Option.bind (pack_case bits case_i x s) (pack_cases bits (Suc case_i mod 32) xs)"

text \<open>
  \<open>__PackedArray_pack_<bits>\<close>. The first loop runs whole rounds of the cases up to case 31, the second one the rest, so the items go through
  the cases in order; the code computes from the rounds how many items are left for the second loop. With nothing to pack the code
  reads past the input and its assertion fails.
\<close>

definition pack_bits :: "uint32 list \<Rightarrow> nat \<Rightarrow> uint32 list \<Rightarrow> nat \<Rightarrow> uint32 list option" where
  "pack_bits a offset xs bits = (if xs = [] then None else do {
     let out = offset * bits div 32;
     let startBit = offset * bits mod 32;
     first \<leftarrow> cell a out;
     let packed = first AND ucast (push_bit startBit 1 - 1 :: uint64);
     let offset = offset mod 32;
     (out, a, packed) \<leftarrow> pack_cases bits offset xs (out, a, packed);
     let (count, startBit) = (if 32 - offset \<le> length xs then (length xs - (32 * ((length xs + offset) div 32) - offset), 0) else (length xs, startBit));
     if (count * bits + startBit) mod 32 = 0 then Some a
     else do {
       last \<leftarrow> cell a out;
       store_cell a out (packed OR (last AND NOT (ucast (push_bit ((count * bits + startBit - 1) mod 32 + 1) 1 :: uint64) - 1)))
     }
   })"

text \<open>The dispatch on the width: other widths than 1 to 32 are no case of the \<open>switch\<close>, and nothing is done.\<close>

definition PackedArray_pack :: "uint32 list \<Rightarrow> nat \<Rightarrow> uint32 list \<Rightarrow> nat \<Rightarrow> uint32 list option" where
  "PackedArray_pack a offset xs bits = (if 1 \<le> bits \<and> bits \<le> 32 then pack_bits a offset xs bits else Some a)"

text \<open>One case of the unpacking loop; at the end of a cell the next one is read when more items follow.\<close>

fun unpack_cases :: "nat \<Rightarrow> uint32 list \<Rightarrow> nat \<Rightarrow> nat \<Rightarrow> nat \<Rightarrow> uint32 \<Rightarrow> uint32 list option" where
  "unpack_cases bits a case_i 0 pos packed = Some []"
| "unpack_cases bits a case_i (Suc n) pos packed =
     (let start = IMPL_START_BIT bits case_i; avail = IMPL_BITS_AVAILABLE bits case_i
      in if bits \<le> avail then do {
           next \<leftarrow> (if bits = avail \<and> n \<noteq> 0 then map_option (Pair (pos + 1)) (cell a (pos + 1)) else Some (pos, packed));
           rest \<leftarrow> unpack_cases bits a (Suc case_i mod 32) n (fst next) (snd next);
           Some ((drop_bit start packed AND IMPL_MASK bits) # rest)
         }
         else do {
           next \<leftarrow> cell a (pos + 1);
           rest \<leftarrow> unpack_cases bits a (Suc case_i mod 32) n (pos + 1) next;
           Some (((drop_bit start packed OR push_bit avail next) AND IMPL_MASK bits) # rest)
         })"

definition unpack_bits :: "uint32 list \<Rightarrow> nat \<Rightarrow> nat \<Rightarrow> nat \<Rightarrow> uint32 list option" where
  "unpack_bits a offset count bits = (if count = 0 then None else do {
     packed \<leftarrow> cell a (offset * bits div 32);
     unpack_cases bits a (offset mod 32) count (offset * bits div 32) packed
   })"

definition PackedArray_unpack :: "uint32 list \<Rightarrow> nat \<Rightarrow> uint32 list \<Rightarrow> nat \<Rightarrow> nat \<Rightarrow> uint32 list option" where
  "PackedArray_unpack a offset out count bits =
     (if 1 \<le> bits \<and> bits \<le> 32 then
        if count \<le> length out then map_option (\<lambda>xs. xs @ drop count out) (unpack_bits a offset count bits) else None
      else Some out)"

definition PackedArray_set :: "uint32 list \<Rightarrow> nat \<Rightarrow> uint32 \<Rightarrow> nat \<Rightarrow> uint32 list option" where
  "PackedArray_set a offset x bits =
     (let out = offset * bits div 32; startBit = offset * bits mod 32; bitsAvailable = 32 - startBit;
          mask = ucast (push_bit bits 1 :: uint64) - 1
      in if NOT mask AND x \<noteq> 0 then None
         else do {
           c0 \<leftarrow> cell a out;
           if bits \<le> bitsAvailable then store_cell a out ((c0 AND NOT (push_bit startBit mask)) OR push_bit startBit x)
           else do {
             a \<leftarrow> store_cell a out ((c0 AND NOT (push_bit startBit mask)) OR push_bit startBit x);
             c1 \<leftarrow> cell a (out + 1);
             store_cell a (out + 1) ((c1 AND NOT (drop_bit (32 - startBit) mask)) OR drop_bit bitsAvailable x)
           }
         })"

definition PackedArray_get :: "uint32 list \<Rightarrow> nat \<Rightarrow> nat \<Rightarrow> uint32 option" where
  "PackedArray_get a offset bits =
     (let pos = offset * bits div 32; startBit = offset * bits mod 32; bitsAvailable = 32 - startBit;
          mask = ucast (push_bit bits 1 :: uint64) - 1
      in if bits \<le> bitsAvailable then map_option (\<lambda>c. drop_bit startBit c AND mask) (cell a pos)
         else do {
           c0 \<leftarrow> cell a pos;
           c1 \<leftarrow> cell a (pos + 1);
           let low = drop_bit startBit c0;
           let high = push_bit (32 - startBit) c1;
           Some (low XOR ((low XOR high) AND push_bit bitsAvailable (drop_bit bitsAvailable mask)))
         })"

section \<open>Bits\<close>

definition pbit :: "uint32 list \<Rightarrow> nat \<Rightarrow> bool" where
  "pbit a n \<longleftrightarrow> bit (a ! (n div 32)) (n mod 32)"

lemma masks:
  assumes "n \<le> 32"
  shows "ucast (push_bit n 1 - 1 :: uint64) = (mask n :: uint32)" "ucast (push_bit n 1 :: uint64) - 1 = (mask n :: uint32)"
proof -
  have m: "push_bit n 1 - 1 = (mask n :: uint64)" by (simp add: mask_eq_exp_minus_1 push_bit_eq_mult)
  show "ucast (push_bit n 1 - 1 :: uint64) = (mask n :: uint32)" unfolding m
    by (rule bit_word_eqI) (use assms in \<open>auto simp: bit_simps\<close>)
  have "ucast (push_bit n 1 :: uint64) = (push_bit n 1 :: uint32)" by (rule bit_word_eqI) (auto simp: bit_simps)
  then show "ucast (push_bit n 1 :: uint64) - 1 = (mask n :: uint32)" by (simp add: mask_eq_exp_minus_1 push_bit_eq_mult)
qed

lemma masks_pow:
  assumes "n \<le> 32"
  shows "ucast (2 ^ n - 1 :: uint64) = (mask n :: uint32)" "ucast (2 ^ n :: uint64) - 1 = (mask n :: uint32)"
  using masks [OF assms] by (simp_all add: push_bit_eq_mult)

text \<open>Item \<open>i\<close> of the buffer.\<close>

definition pa_item :: "uint32 list \<Rightarrow> nat \<Rightarrow> nat \<Rightarrow> uint32" where
  "pa_item a bits i = horner_sum of_bool 2 (map (\<lambda>j. pbit a (i * bits + j)) [0..<bits])"

lemma bit_pa_item: "bit (pa_item a bits i) j \<longleftrightarrow> j < 32 \<and> j < bits \<and> pbit a (i * bits + j)"
  by (auto simp: pa_item_def bit_horner_sum_bit_word_iff)

lemma item_eqI: "(\<And>j. j < 32 \<Longrightarrow> bit w j \<longleftrightarrow> j < bits \<and> pbit a (i * bits + j)) \<Longrightarrow> w = pa_item a bits i"
  by (rule bit_word_eqI) (simp add: bit_pa_item)

lemma pbit_at: "s < 32 \<Longrightarrow> pbit a (32 * q + s) = bit (a ! q) s"
  by (simp add: pbit_def)

lemma get_item_at:
  assumes b: "0 < bits" "bits \<le> 32" and m: "i * bits = 32 * q + r" "r < 32" and len: "i * bits + bits \<le> 32 * length a"
  shows "PackedArray_get a i bits = Some (pa_item a bits i)"
proof -
  have d: "i * bits div 32 = q" "i * bits mod 32 = r" unfolding m(1) using m(2) by simp_all
  have l0: "q < length a" using len m b(1) by linarith
  show ?thesis
  proof (cases "bits \<le> 32 - r")
    case True
    have "drop_bit r (a ! q) AND mask bits = pa_item a bits i"
    proof (rule item_eqI)
      fix j :: nat assume j: "j < 32"
      have "pbit a (i * bits + j) = bit (a ! q) (r + j)" if "j < bits" unfolding m(1) add.assoc by (rule pbit_at) (use that True in simp)
      then show "bit (drop_bit r (a ! q) AND mask bits) j \<longleftrightarrow> j < bits \<and> pbit a (i * bits + j)" using j by (auto simp: bit_simps)
    qed
    then show ?thesis using True l0 by (simp add: PackedArray_get_def Let_def d cell_def masks_pow [OF b(2)])
  next
    case False
    then have l1: "q + 1 < length a" using len m by linarith
    let ?w = "drop_bit r (a ! q) XOR ((drop_bit r (a ! q) XOR push_bit (32 - r) (a ! (q + 1))) AND push_bit (32 - r) (drop_bit (32 - r) (mask bits)))"
    have "?w = pa_item a bits i"
    proof (rule item_eqI)
      fix j :: nat assume j: "j < 32"
      show "bit ?w j \<longleftrightarrow> j < bits \<and> pbit a (i * bits + j)"
      proof (cases "r + j < 32")
        case True
        have "pbit a (i * bits + j) = bit (a ! q) (r + j)" unfolding m(1) add.assoc by (rule pbit_at [OF True])
        then show ?thesis using False True by (auto simp: bit_simps)
      next
        case f2: False
        have e: "32 * q + r + j = 32 * (q + 1) + (r + j - 32)" using f2 by simp
        have "pbit a (i * bits + j) = bit (a ! (q + 1)) (r + j - 32)" unfolding m(1) e by (rule pbit_at) (use m(2) j f2 in simp)
        moreover have "j - (32 - r) = r + j - 32" using f2 m(2) by simp
        moreover have "\<not> bit (a ! q) (r + j)" using f2 by (auto dest: bit_imp_le_length)
        ultimately show ?thesis using False j f2 by (auto simp: bit_simps)
      qed
    qed
    then show ?thesis using False l0 l1 by (simp add: PackedArray_get_def Let_def d cell_def masks_pow [OF b(2)])
  qed
qed

lemma get_item:
  assumes "0 < bits" "bits \<le> 32" "i * bits + bits \<le> 32 * length a"
  shows "PackedArray_get a i bits = Some (pa_item a bits i)"
proof -
  have "i * bits = 32 * (i * bits div 32) + i * bits mod 32" by simp
  then show ?thesis by (rule get_item_at [OF assms(1,2) _ _ assms(3)]) simp
qed

section \<open>Packing\<close>

lemma pbit_update: "q < length a \<Longrightarrow> pbit (a[q := w]) n = (if n div 32 = q then bit w (n mod 32) else pbit a n)"
  by (simp add: pbit_def nth_list_update)

text \<open>
  The packing loop after bit \<open>32 * q + s\<close>: the cells before \<open>q\<close> hold the wanted bits \<open>V\<close>, the cells from \<open>q\<close> on are still those of
  \<open>a0\<close>, and the first \<open>s\<close> bits of cell \<open>q\<close> are collected.
\<close>

definition pack_inv :: "uint32 list \<Rightarrow> (nat \<Rightarrow> bool) \<Rightarrow> nat \<Rightarrow> nat \<Rightarrow> nat \<times> uint32 list \<times> uint32 \<Rightarrow> bool" where
  "pack_inv a0 V q s st \<longleftrightarrow> (case st of (out, a, packed) \<Rightarrow> out = q \<and> s < 32 \<and> length a = length a0
     \<and> (\<forall>n<32 * q. pbit a n = V n) \<and> (\<forall>n\<ge>32 * q. pbit a n = pbit a0 n)
     \<and> (\<forall>j<32. bit packed j \<longleftrightarrow> j < s \<and> V (32 * q + j)))"

lemma pack_inv_store:
  assumes "pack_inv a0 V q s (out, a, packed)" "q < length a0" "\<forall>j<32. bit w j \<longleftrightarrow> V (32 * q + j)"
  shows "length (a[q := w]) = length a0" "\<forall>n<32 * (q + 1). pbit (a[q := w]) n = V n" "\<forall>n\<ge>32 * (q + 1). pbit (a[q := w]) n = pbit a0 n"
proof -
  have q: "q < length a" using assms(1,2) by (simp add: pack_inv_def)
  show "length (a[q := w]) = length a0" using assms(1) by (simp add: pack_inv_def)
  show "\<forall>n<32 * (q + 1). pbit (a[q := w]) n = V n"
  proof (intro allI impI)
    fix n :: nat assume n: "n < 32 * (q + 1)"
    show "pbit (a[q := w]) n = V n"
    proof (cases "n div 32 = q")
      case True
      then have "n = 32 * q + n mod 32" by (metis mult_div_mod_eq)
      then show ?thesis using assms(3) True by (metis pbit_update [OF q] mod_less_divisor zero_less_numeral)
    next
      case False
      moreover have "n div 32 < q + 1" using n by (simp add: div_less_iff_less_mult mult.commute)
      ultimately have "n div 32 < q" by simp
      then have "n < 32 * q" by (simp add: div_less_iff_less_mult mult.commute)
      then show ?thesis using assms(1) False by (simp add: pack_inv_def pbit_update [OF q])
    qed
  qed
  show "\<forall>n\<ge>32 * (q + 1). pbit (a[q := w]) n = pbit a0 n"
  proof (intro allI impI)
    fix n :: nat assume h: "32 * (q + 1) \<le> n"
    have "q + 1 \<le> n div 32" using h by (simp add: less_eq_div_iff_mult_less_eq mult.commute)
    then have "32 * q \<le> n" "n div 32 \<noteq> q" using h by simp_all
    then show "pbit (a[q := w]) n = pbit a0 n" using assms(1) by (simp add: pack_inv_def pbit_update [OF q])
  qed
qed

lemma div32: "r < 32 \<Longrightarrow> (32 * k + r) div 32 = (k :: nat)" and mod32: "r < 32 \<Longrightarrow> (32 * k + r) mod 32 = (r :: nat)"
  by simp_all

lemma pack_case_ok:
  assumes inv: "pack_inv a0 V q s st" and b: "0 < bits" "bits \<le> 32" and ci: "case_i * bits mod 32 = s"
    and x: "\<And>j. bit x j \<Longrightarrow> j < bits" and V: "\<And>j. j < bits \<Longrightarrow> V (32 * q + s + j) = bit x j" and len: "32 * q + s + bits \<le> 32 * length a0"
  shows "\<exists>st'. pack_case bits case_i x st = Some st' \<and> pack_inv a0 V ((32 * q + s + bits) div 32) ((32 * q + s + bits) mod 32) st'"
proof -
  obtain out a packed where st: "st = (out, a, packed)" by (cases st)
  note i = inv [unfolded st]
  have s: "s < 32" "out = q" "length a = length a0" using i by (simp_all add: pack_inv_def)
  have q: "q < length a0" using len b by linarith
  let ?w = "packed OR push_bit s x"
  have w: "bit ?w j \<longleftrightarrow> j < s + bits \<and> V (32 * q + j)" if j: "j < 32" for j
  proof (cases "j < s")
    case True
    then show ?thesis using i j by (simp add: pack_inv_def bit_simps)
  next
    case False
    then have "\<not> bit packed j" using i j by (simp add: pack_inv_def)
    moreover have "V (32 * q + j) = bit x (j - s)" if "j < s + bits" using V [of "j - s"] False that by simp
    ultimately show ?thesis using False j x [of "j - s"] by (auto simp: bit_simps)
  qed
  have d: "IMPL_START_BIT bits case_i = s" "IMPL_BITS_AVAILABLE bits case_i = 32 - s" using ci by (simp_all add: IMPL_START_BIT_def IMPL_BITS_AVAILABLE_def)
  consider (more) "bits < 32 - s" | (full) "bits = 32 - s" | (split) "32 - s < bits" by linarith
  then show ?thesis
  proof cases
    case more
    then have "s + bits < 32" by simp
    then have "(32 * q + s + bits) div 32 = q" "(32 * q + s + bits) mod 32 = s + bits" unfolding add.assoc by simp_all
    moreover have "pack_inv a0 V q (s + bits) (out, a, ?w)" using i w more by (simp add: pack_inv_def)
    moreover have "pack_case bits case_i x st = Some (out, a, ?w)" unfolding pack_case_def st prod.case d using more by simp
    ultimately show ?thesis by simp
  next
    case full
    have e: "32 * q + s + bits = 32 * (q + 1)" using full s(1) by simp
    have wv: "\<forall>j<32. bit ?w j \<longleftrightarrow> V (32 * q + j)" using w full s(1) by simp
    have "pack_inv a0 V (q + 1) 0 (q + 1, a[q := ?w], 0)" using pack_inv_store [OF i q wv] by (simp add: pack_inv_def)
    moreover have "pack_case bits case_i x st = Some (q + 1, a[q := ?w], 0)" unfolding pack_case_def st prod.case d using full q s by (simp add: store_cell_def Let_def)
    ultimately show ?thesis unfolding e by simp
  next
    case split
    have e: "32 * q + s + bits = 32 * (q + 1) + (s + bits - 32)" using split s(1) by simp
    have l: "s + bits - 32 < 32" using s(1) b(2) by simp
    have wv: "\<forall>j<32. bit ?w j \<longleftrightarrow> V (32 * q + j)" 
    proof (intro allI impI)
      fix j :: nat assume "j < 32"
      then show "bit ?w j \<longleftrightarrow> V (32 * q + j)" using w [of j] split by auto
    qed
    have "bit (drop_bit (32 - s) x) j \<longleftrightarrow> j < s + bits - 32 \<and> V (32 * (q + 1) + j)" if j: "j < 32" for j
    proof -
      have e2: "32 * (q + 1) + j = 32 * q + s + (32 - s + j)" using s(1) by simp
      have "V (32 * (q + 1) + j) = bit x (32 - s + j)" if "32 - s + j < bits" unfolding e2 by (rule V [OF that])
      then show ?thesis using x [of "32 - s + j"] s(1) by (auto simp: bit_simps)
    qed
    then have "pack_inv a0 V (q + 1) (s + bits - 32) (q + 1, a[q := ?w], drop_bit (32 - s) x)"
      using pack_inv_store [OF i q wv] l by (simp add: pack_inv_def)
    moreover have "pack_case bits case_i x st = Some (q + 1, a[q := ?w], drop_bit (32 - s) x)"
      unfolding pack_case_def st prod.case d using split q s by (simp add: store_cell_def Let_def)
    moreover have "(32 * q + s + bits) div 32 = q + 1" "(32 * q + s + bits) mod 32 = s + bits - 32"
      unfolding e by (rule div32 [OF l], rule mod32 [OF l])
    ultimately show ?thesis by simp
  qed
qed

lemma pack_cases_ok:
  assumes "pack_inv a0 V (P div 32) (P mod 32) st" "0 < bits" "bits \<le> 32" "case_i * bits mod 32 = P mod 32"
    and "\<And>x j. x \<in> set xs \<Longrightarrow> bit x j \<Longrightarrow> j < bits" "\<And>i j. i < length xs \<Longrightarrow> j < bits \<Longrightarrow> V (P + i * bits + j) = bit (xs ! i) j"
    and "P + length xs * bits \<le> 32 * length a0"
  shows "\<exists>st'. pack_cases bits case_i xs st = Some st' \<and> pack_inv a0 V ((P + length xs * bits) div 32) ((P + length xs * bits) mod 32) st'"
  using assms
proof (induction xs arbitrary: st P case_i)
  case (Cons x xs)
  have e: "32 * (P div 32) + P mod 32 = P" by simp
  have "V (32 * (P div 32) + P mod 32 + j) = bit x j" if "j < bits" for j using Cons.prems(6) [of 0 j] that unfolding e by simp
  moreover have "32 * (P div 32) + P mod 32 + bits \<le> 32 * length a0" unfolding e using Cons.prems(7) by simp
  ultimately obtain st1 where st1: "pack_case bits case_i x st = Some st1" "pack_inv a0 V ((P + bits) div 32) ((P + bits) mod 32) st1"
    using pack_case_ok [OF Cons.prems(1-4), of x] Cons.prems(5) unfolding e by (metis list.set_intros(1))
  have "(Suc case_i mod 32) * bits mod 32 = (case_i * bits + bits) mod 32" by (simp add: mod_mult_left_eq add.commute)
  also have "\<dots> = (P + bits) mod 32" using Cons.prems(4) by (metis mod_add_left_eq)
  finally have ci: "(Suc case_i mod 32) * bits mod 32 = (P + bits) mod 32" .
  have "\<exists>st'. pack_cases bits (Suc case_i mod 32) xs st1 = Some st'
    \<and> pack_inv a0 V ((P + bits + length xs * bits) div 32) ((P + bits + length xs * bits) mod 32) st'"
  proof (rule Cons.IH [OF st1(2) Cons.prems(2,3) ci])
    show "V (P + bits + i * bits + j) = bit (xs ! i) j" if "i < length xs" "j < bits" for i j
      using Cons.prems(6) [of "Suc i" j] that by (simp add: add.assoc)
    show "j < bits" if "y \<in> set xs" "bit y j" for y j using Cons.prems(5) [of y j] that by simp
    show "P + bits + length xs * bits \<le> 32 * length a0" using Cons.prems(7) by simp
  qed
  then show ?case using st1(1) by (simp add: add.assoc)
qed simp

text \<open>The bits of the items \<open>xs\<close> from bit \<open>S\<close> on, and those of \<open>a0\<close> elsewhere.\<close>

definition want :: "uint32 list \<Rightarrow> nat \<Rightarrow> nat \<Rightarrow> uint32 list \<Rightarrow> nat \<Rightarrow> bool" where
  "want a0 bits S xs n = (if S \<le> n \<and> n < S + length xs * bits then bit (xs ! ((n - S) div bits)) ((n - S) mod bits) else pbit a0 n)"

lemma want_item: "i < length xs \<Longrightarrow> j < bits \<Longrightarrow> want a0 bits S xs (S + i * bits + j) = bit (xs ! i) j"
proof -
  assume h: "i < length xs" "j < bits"
  then have "i * bits + j < Suc i * bits" by simp
  also have "\<dots> \<le> length xs * bits" using h(1) by (intro mult_le_mono1) simp
  finally have "i * bits + j < length xs * bits" .
  moreover have "(i * bits + j) div bits = i" "(i * bits + j) mod bits = j" using h(2) by simp_all
  ultimately show ?thesis by (simp add: want_def add.assoc)
qed

lemma flush_parts:
  fixes bits :: nat
  assumes "o' < 32" "0 < n"
  shows "let (count, startBit) = (if 32 - o' \<le> n then (n - (32 * ((n + o') div 32) - o'), 0) else (n, o' * bits mod 32))
    in (count * bits + startBit) mod 32 = (o' + n) * bits mod 32"
proof (cases "32 - o' \<le> n")
  case True
  define d where "d = (n + o') div 32"
  have d: "n + o' = 32 * d + (n + o') mod 32" by (simp add: d_def)
  have "0 < d" using True assms(1) by (simp add: d_def div_greater_zero_iff)
  then have "n - (32 * d - o') = (n + o') mod 32" using d assms(1) by linarith
  moreover have "(n + o') mod 32 * bits mod 32 = (o' + n) * bits mod 32" by (simp add: mod_mult_left_eq add.commute)
  ultimately show ?thesis using True by (simp add: d_def [symmetric])
next
  case False
  have "(n * bits + o' * bits mod 32) mod 32 = (n * bits + o' * bits) mod 32" by (simp add: mod_add_right_eq)
  then show ?thesis using False by (simp add: distrib_right add.commute)
qed

lemma pack_start:
  assumes low: "\<And>n. n < 32 * q + s \<Longrightarrow> V n = pbit a n" and s: "s < 32"
  shows "pack_inv a V q s (q, a, a ! q AND mask s)"
  unfolding pack_inv_def prod.case
proof (intro conjI allI impI refl s)
  show "pbit a n = V n" if "n < 32 * q" for n using low [of n] that by simp
  show "bit (a ! q AND mask s) j \<longleftrightarrow> j < s \<and> V (32 * q + j)" if j: "j < 32" for j
    using low [of "32 * q + j"] pbit_at [OF j, of a q] j by (auto simp: bit_simps)
qed

lemma pack_done:
  assumes "pack_inv a V q 0 (out, a1, packed)" "\<And>n. 32 * q \<le> n \<Longrightarrow> V n = pbit a n"
  shows "pbit a1 n = V n"
  using assms by (cases "n < 32 * q") (simp_all add: pack_inv_def)

lemma pack_flush:
  assumes inv: "pack_inv a V q s (out, a1, packed)" and q: "q < length a" and high: "\<And>n. 32 * q + s \<le> n \<Longrightarrow> V n = pbit a n"
  shows "pbit (a1[q := packed OR (a1 ! q AND NOT (mask s))]) n = V n"
proof -
  let ?w = "packed OR (a1 ! q AND NOT (mask s))"
  have s: "s < 32" using inv by (simp add: pack_inv_def)
  have w: "bit ?w j = V (32 * q + j)" if j: "j < 32" for j
  proof (cases "j < s")
    case True
    then show ?thesis using inv j by (simp add: pack_inv_def bit_simps)
  next
    case f: False
    then have "V (32 * q + j) = pbit a1 (32 * q + j)" using high [of "32 * q + j"] inv by (simp add: pack_inv_def)
    also have "\<dots> = bit (a1 ! q) j" by (rule pbit_at [OF j])
    finally show ?thesis using inv j f by (simp add: pack_inv_def bit_simps)
  qed
  then have "\<forall>j<32. bit ?w j \<longleftrightarrow> V (32 * q + j)" by simp
  note ps = pack_inv_store [OF inv q this]
  show ?thesis
  proof (cases "n < 32 * (q + 1)")
    case f: False
    then have "32 * q + s \<le> n" using s by simp
    then show ?thesis using ps(3) high f by simp
  qed (use ps(2) in simp)
qed

lemma pack_last:
  assumes "(c :: nat) mod 32 = s" "s \<noteq> 0"
  shows "(c - 1) mod 32 + 1 = s"
proof -
  obtain d where d: "c = Suc d" using assms by (cases c) auto
  then show ?thesis using assms by (simp add: mod_Suc split: if_splits)
qed

lemma want_outside: "n < S \<or> S + length xs * bits \<le> n \<Longrightarrow> want a bits S xs n = pbit a n"
  by (auto simp: want_def)

lemma pack_finish:
  assumes "cell a (offset * bits div 32) = Some c0"
    and "pack_cases bits (offset mod 32) xs (offset * bits div 32, a, c0 AND mask (offset * bits mod 32)) = Some (out, a1, packed)"
    and "(offset * bits + length xs * bits) mod 32 = t" and "xs \<noteq> []"
  shows "pack_bits a offset xs bits = (if t = 0 then Some a1 else do { last \<leftarrow> cell a1 out; store_cell a1 out (packed OR (last AND NOT (mask t))) })"
proof -
  obtain count startBit where cs: "(if 32 - offset mod 32 \<le> length xs then (length xs - (32 * ((length xs + offset mod 32) div 32) - offset mod 32), 0)
      else (length xs, offset * bits mod 32)) = (count, startBit)" by (rule prod.exhaust)
  have "offset mod 32 * bits mod 32 = offset * bits mod 32" by (rule mod_mult_left_eq)
  have o32: "offset mod 32 < 32" by simp
  have "(count * bits + startBit) mod 32 = (offset mod 32 + length xs) * bits mod 32"
    using flush_parts [OF o32, of "length xs" bits] assms(4) unfolding \<open>offset mod 32 * bits mod 32 = _\<close> cs Let_def prod.case by simp
  also have "\<dots> = (offset + length xs) * bits mod 32" by (metis mod_add_left_eq mod_mult_left_eq)
  finally have m: "(count * bits + startBit) mod 32 = t" using assms(3) by (simp add: distrib_right)
  have s: "offset * bits mod 32 \<le> 32" by (simp add: less_imp_le)
  have pk: "pack_bits a offset xs bits =
     (if (count * bits + startBit) mod 32 = 0 then Some a1
      else do {
        last \<leftarrow> cell a1 out;
        store_cell a1 out (packed OR (last AND NOT (ucast (push_bit ((count * bits + startBit - 1) mod 32 + 1) 1 :: uint64) - 1)))
      })"
    unfolding pack_bits_def if_not_P [OF assms(4)] Let_def assms(1) option.simps bind.bind_lunit masks(1) [OF s] assms(2) prod.case cs by (rule refl)
  show ?thesis
  proof (cases "t = 0")
    case False
    have t: "t \<le> 32" using m by (metis less_imp_le mod_less_divisor zero_less_numeral)
    show ?thesis unfolding pk m pack_last [OF m False] masks(2) [OF t] by (rule refl)
  qed (simp add: pk m)
qed

lemma packed_items:
  assumes b: "0 < bits" "bits \<le> 32" and x: "\<forall>x\<in>set xs. take_bit bits x = x" and xs: "xs \<noteq> []" and len: "(offset + length xs) * bits \<le> 32 * length a"
  shows "\<exists>a'. pack_bits a offset xs bits = Some a' \<and> length a' = length a \<and> (\<forall>n. pbit a' n = want a bits (offset * bits) xs n)"
proof -
  define S where "S = offset * bits"
  define E where "E = S + length xs * bits"
  define q s r t where "q = S div 32" and "s = S mod 32" and "r = E div 32" and "t = E mod 32"
  have qs: "S = 32 * q + s" "s < 32" by (simp_all add: q_def s_def)
  have rt: "E = 32 * r + t" "t < 32" by (simp_all add: r_def t_def)
  have E: "E \<le> 32 * length a" "S < E" using len xs b(1) by (simp_all add: S_def E_def distrib_right)
  have q: "q < length a" using E qs by linarith
  have xb: "j < bits" if "y \<in> set xs" "bit y j" for y j using x that by (metis bit_take_bit_iff)
  let ?V = "want a bits S xs"
  have start: "pack_inv a ?V (S div 32) (S mod 32) (q, a, a ! q AND mask s)"
    unfolding q_def [symmetric] s_def [symmetric] by (rule pack_start [OF _ qs(2)]) (use qs in \<open>simp add: want_outside\<close>)
  have ci: "offset mod 32 * bits mod 32 = S mod 32" unfolding S_def by (rule mod_mult_left_eq)
  have "\<exists>st'. pack_cases bits (offset mod 32) xs (q, a, a ! q AND mask s) = Some st' \<and> pack_inv a ?V r t st'"
    unfolding r_def t_def E_def by (rule pack_cases_ok [OF start b ci xb want_item E(1) [unfolded E_def]])
  then obtain out a1 packed where st: "pack_cases bits (offset mod 32) xs (q, a, a ! q AND mask s) = Some (out, a1, packed)"
      "pack_inv a ?V r t (out, a1, packed)" by (metis prod_cases3)
  have o1: "out = r" "length a1 = length a" using st(2) by (simp_all add: pack_inv_def)
  have c0: "cell a (offset * bits div 32) = Some (a ! q)" using q by (simp add: cell_def q_def S_def)
  have pk: "pack_bits a offset xs bits = (if t = 0 then Some a1 else do { last \<leftarrow> cell a1 out; store_cell a1 out (packed OR (last AND NOT (mask t))) })"
    by (rule pack_finish [OF c0 _ _ xs]) (use st(1) in \<open>simp_all only: q_def s_def S_def t_def E_def\<close>)
  have high: "?V n = pbit a n" if "32 * r + t \<le> n" for n by (rule want_outside) (use that rt in \<open>simp add: E_def\<close>)
  show ?thesis
  proof (cases "t = 0")
    case True
    have "pbit a1 n = ?V n" for n by (rule pack_done [OF st(2) [unfolded True]]) (use high True in simp)
    then show ?thesis using pk True o1 by (simp add: S_def)
  next
    case False
    then have r: "r < length a" using E rt by linarith
    have "\<forall>n. pbit (a1[r := packed OR (a1 ! r AND NOT (mask t))]) n = ?V n" using pack_flush [OF st(2) r high] by blast
    moreover have "pack_bits a offset xs bits = Some (a1[r := packed OR (a1 ! r AND NOT (mask t))])"
      unfolding pk using False r o1 by (simp add: cell_def store_cell_def)
    ultimately show ?thesis using o1 by (simp add: S_def)
  qed
qed

text \<open>Items outside the range that was packed keep their value; those inside it are the packed ones.\<close>

lemma want_other: "i < offset \<or> offset + length xs \<le> i \<Longrightarrow> j < bits \<Longrightarrow> want a bits (offset * bits) xs (i * bits + j) = pbit a (i * bits + j)"
proof (rule want_outside)
  assume h: "i < offset \<or> offset + length xs \<le> i" "j < bits"
  show "i * bits + j < offset * bits \<or> offset * bits + length xs * bits \<le> i * bits + j"
  proof (cases "i < offset")
    case True
    then have "Suc i * bits \<le> offset * bits" by (intro mult_le_mono1) simp
    then show ?thesis using h(2) by simp
  next
    case False
    then have "(offset + length xs) * bits \<le> i * bits" using h(1) by (intro mult_le_mono1) simp
    then show ?thesis by (simp add: distrib_right)
  qed
qed

lemma packed_item:
  assumes a': "\<forall>n. pbit a' n = want a bits (offset * bits) xs n" and b: "bits \<le> 32" and x: "\<forall>x\<in>set xs. take_bit bits x = x"
  shows "pa_item a' bits i = (if offset \<le> i \<and> i < offset + length xs then xs ! (i - offset) else pa_item a bits i)"
proof (cases "offset \<le> i \<and> i < offset + length xs")
  case True
  then obtain k where k: "i = offset + k" "k < length xs" by (metis add_less_cancel_left le_Suc_ex)
  have "xs ! k = pa_item a' bits i"
  proof (rule item_eqI)
    fix j :: nat assume "j < 32"
    have "take_bit bits (xs ! k) = xs ! k" using x k(2) by simp
    then have "bit (xs ! k) j \<longleftrightarrow> j < bits \<and> bit (xs ! k) j" by (metis bit_take_bit_iff)
    moreover have "pbit a' (i * bits + j) = bit (xs ! k) j" if "j < bits" unfolding a' [rule_format] k(1) distrib_right by (rule want_item [OF k(2) that])
    ultimately show "bit (xs ! k) j \<longleftrightarrow> j < bits \<and> pbit a' (i * bits + j)" by metis
  qed
  then show ?thesis using k True by simp
next
  case False
  have "pa_item a bits i = pa_item a' bits i"
  proof (rule item_eqI)
    fix j :: nat assume j: "j < 32"
    have "pbit a' (i * bits + j) = pbit a (i * bits + j)" if "j < bits" unfolding a' [rule_format] by (rule want_other) (use False that in auto)
    then show "bit (pa_item a bits i) j \<longleftrightarrow> j < bits \<and> pbit a' (i * bits + j)" using j by (auto simp: bit_pa_item)
  qed
  then show ?thesis using False by auto
qed

text \<open>The loop of \<open>PackedArray_unpack\<close> yields the items; \<open>packed\<close> is the cell at \<open>pos\<close>.\<close>

lemma IMPL_MASK_eq: "bits \<le> 32 \<Longrightarrow> IMPL_MASK bits = mask bits"
  unfolding IMPL_MASK_def by (rule masks(1))

lemma unpack_split:
  assumes b: "bits \<le> 32" and m: "i * bits = 32 * q + r" "r < 32" and len: "q + 1 < length a" and lt: "32 - r < bits"
  shows "(drop_bit r (a ! q) OR push_bit (32 - r) (a ! (q + 1))) AND IMPL_MASK bits = pa_item a bits i"
proof (rule item_eqI)
  fix j :: nat assume j: "j < 32"
  show "bit ((drop_bit r (a ! q) OR push_bit (32 - r) (a ! (q + 1))) AND IMPL_MASK bits) j \<longleftrightarrow> j < bits \<and> pbit a (i * bits + j)"
  proof (cases "r + j < 32")
    case True
    have "pbit a (i * bits + j) = bit (a ! q) (r + j)" unfolding m(1) add.assoc by (rule pbit_at [OF True])
    then show ?thesis using True j by (auto simp: IMPL_MASK_eq [OF b] bit_simps)
  next
    case f2: False
    have e: "32 * q + r + j = 32 * (q + 1) + (r + j - 32)" using f2 by simp
    have "pbit a (i * bits + j) = bit (a ! (q + 1)) (r + j - 32)" unfolding m(1) e by (rule pbit_at) (use m(2) j f2 in simp)
    moreover have "j - (32 - r) = r + j - 32" using f2 m(2) by simp
    moreover have "\<not> bit (a ! q) (r + j)" using f2 by (auto dest: bit_imp_le_length)
    ultimately show ?thesis using j f2 by (auto simp: IMPL_MASK_eq [OF b] bit_simps)
  qed
qed

lemma unpack_one:
  assumes b: "bits \<le> 32" and m: "i * bits = 32 * q + r" and le: "bits \<le> 32 - r"
  shows "drop_bit r (a ! q) AND IMPL_MASK bits = pa_item a bits i"
proof (rule item_eqI)
  fix j :: nat assume j: "j < 32"
  have "pbit a (i * bits + j) = bit (a ! q) (r + j)" if "j < bits" unfolding m(1) add.assoc by (rule pbit_at) (use that le in simp)
  then show "bit (drop_bit r (a ! q) AND IMPL_MASK bits) j \<longleftrightarrow> j < bits \<and> pbit a (i * bits + j)" using j by (auto simp: IMPL_MASK_eq [OF b] bit_simps)
qed

lemma case_step: "case_i * bits mod 32 = i * bits mod 32 \<Longrightarrow> Suc case_i mod 32 * bits mod 32 = Suc i * bits mod (32 :: nat)"
proof -
  assume h: "case_i * bits mod 32 = i * bits mod 32"
  have "Suc case_i mod 32 * bits mod 32 = Suc case_i * bits mod 32" by (rule mod_mult_left_eq)
  also have "\<dots> = Suc i * bits mod 32" unfolding mult_Suc by (rule mod_add_cong [OF refl h])
  finally show ?thesis .
qed

lemma unpack_items:
  assumes "0 < bits" "bits \<le> 32" "case_i * bits mod 32 = i * bits mod 32" "(i + n) * bits \<le> 32 * length a" "pos = i * bits div 32" "0 < n \<Longrightarrow> packed = a ! pos"
  shows "unpack_cases bits a case_i n pos packed = Some (map (pa_item a bits) [i..<i + n])"
  using assms
proof (induction n arbitrary: case_i i pos packed)
  case 0
  show ?case by simp
next
  case (Suc n)
  define q r where "q = i * bits div 32" and "r = i * bits mod 32"
  have m: "i * bits = 32 * q + r" "r < 32" by (simp_all add: q_def r_def)
  have d: "IMPL_START_BIT bits case_i = r" "IMPL_BITS_AVAILABLE bits case_i = 32 - r" "pos = q" "packed = a ! q"
    using Suc.prems(3,5,6) by (simp_all only: IMPL_START_BIT_def IMPL_BITS_AVAILABLE_def r_def q_def)
  have ci: "Suc case_i mod 32 * bits mod 32 = Suc i * bits mod 32" by (rule case_step [OF Suc.prems(3)])
  have len: "(Suc i + n) * bits \<le> 32 * length a" "32 * q + r + bits + n * bits \<le> 32 * length a"
    using Suc.prems(4) unfolding m(1) [symmetric] by (simp_all add: distrib_right)
  note ih = Suc.IH [OF Suc.prems(1,2) ci len(1)]
  have nx: "Suc i * bits = 32 * q + (r + bits)" using m(1) by simp
  have "i < i + Suc n" by simp
  then have up: "map (pa_item a bits) [i..<i + Suc n] = pa_item a bits i # map (pa_item a bits) [Suc i..<Suc i + n]"
    by (metis upt_conv_Cons list.map(2) add_Suc_shift)
  have nz: "q + 1 < length a" if "32 - r \<le> bits" "32 - r < bits \<or> n \<noteq> 0"
  proof -
    have "0 < bits + n * bits - (32 - r)" using that Suc.prems(1) by (cases n) auto
    then show ?thesis using len(2) m(2) by linarith
  qed
  consider (more) "bits < 32 - r" | (full) "bits = 32 - r" | (split) "32 - r < bits" by linarith
  then show ?case
  proof cases
    case more
    have "Suc i * bits div 32 = q" unfolding nx by (rule div32) (use more in simp)
    then have "unpack_cases bits a (Suc case_i mod 32) n q (a ! q) = Some (map (pa_item a bits) [Suc i..<Suc i + n])" by (intro ih) simp_all
    then show ?thesis unfolding up unpack_cases.simps Let_def d using more unpack_one [OF Suc.prems(2) m(1), of a] by simp
  next
    case full
    have e: "32 * q + (r + bits) = 32 * (q + 1) + 0" using full m(2) by simp
    have dv: "Suc i * bits div 32 = q + 1" unfolding nx e by (rule div32) simp
    have one: "drop_bit r (a ! q) AND IMPL_MASK bits = pa_item a bits i" by (rule unpack_one [OF Suc.prems(2) m(1)]) (use full in simp)
    show ?thesis
    proof (cases n)
      case 0
      then show ?thesis unfolding up unpack_cases.simps Let_def d using full one by simp
    next
      case (Suc n')
      then have "unpack_cases bits a (Suc case_i mod 32) n (q + 1) (a ! (q + 1)) = Some (map (pa_item a bits) [Suc i..<Suc i + n])"
        using dv by (intro ih) simp_all
      moreover have "cell a (q + 1) = Some (a ! (q + 1))" using nz full Suc by (simp add: cell_def)
      ultimately show ?thesis unfolding up unpack_cases.simps(2) Let_def d using full one Suc by (simp del: upt_Suc unpack_cases.simps)
    qed
  next
    case split
    have e: "32 * q + (r + bits) = 32 * (q + 1) + (r + bits - 32)" using split m(2) by simp
    have dv: "Suc i * bits div 32 = q + 1" unfolding nx e by (rule div32) (use m(2) Suc.prems(2) in simp)
    have l: "q + 1 < length a" using nz split by simp
    have "unpack_cases bits a (Suc case_i mod 32) n (q + 1) (a ! (q + 1)) = Some (map (pa_item a bits) [Suc i..<Suc i + n])"
      using dv by (intro ih) simp_all
    then show ?thesis unfolding up unpack_cases.simps(2) Let_def d using split l unpack_split [OF Suc.prems(2) m l split]
      by (simp add: cell_def del: upt_Suc unpack_cases.simps)
  qed
qed

lemma unpack_all:
  assumes "0 < bits" "bits \<le> 32" "(offset + n) * bits \<le> 32 * length a" "0 < n"
  shows "unpack_bits a offset n bits = Some (map (pa_item a bits) [offset..<offset + n])"
proof -
  have "0 < n * bits" using assms by simp
  then have "offset * bits < 32 * length a" using assms(3) unfolding distrib_right by linarith
  then have "offset * bits div 32 < length a" by (simp add: div_less_iff_less_mult mult.commute)
  moreover have "offset mod 32 * bits mod 32 = offset * bits mod 32" by (rule mod_mult_left_eq)
  ultimately show ?thesis using unpack_items [OF assms(1,2) _ assms(3)] assms(4) by (simp add: unpack_bits_def cell_def)
qed


section \<open>Writing one item\<close>

lemma want_one: "want a bits S [x] n = (if S \<le> n \<and> n < S + bits then bit x (n - S) else pbit a n)"
  by (auto simp: want_def)

lemma set_one:
  assumes b: "s + bits \<le> 32" and q: "q < length a"
  shows "pbit (a[q := (a ! q AND NOT (push_bit s (mask bits))) OR push_bit s x]) n = want a bits (32 * q + s) [x] n \<or> take_bit bits x \<noteq> x"
proof -
  let ?w = "(a ! q AND NOT (push_bit s (mask bits))) OR push_bit s x"
  define d m where "d = n div 32" and "m = n mod 32"
  have n: "n = 32 * d + m" "m < 32" by (simp_all add: d_def m_def)
  have p: "pbit a n = bit (a ! d) m" by (simp add: pbit_def d_def m_def)
  show ?thesis
  proof (cases "d = q")
    case True
    have "bit x (m - s) \<longrightarrow> m - s < bits" if "take_bit bits x = x" using that by (metis bit_take_bit_iff)
    then show ?thesis using True n b p by (auto simp: pbit_update [OF q] want_one bit_simps simp flip: d_def m_def)
  next
    case False
    then have "n < 32 * q + s \<or> 32 * q + s + bits \<le> n" using n b by linarith
    then show ?thesis using False by (auto simp: pbit_update [OF q] want_one d_def)
  qed
qed

lemma set_two:
  assumes b: "bits \<le> 32" "s < 32" "32 < s + bits" and q: "q + 1 < length a" and x: "take_bit bits x = x"
  shows "pbit (a[q := (a ! q AND NOT (push_bit s (mask bits))) OR push_bit s x,
      q + 1 := (a ! (q + 1) AND NOT (drop_bit (32 - s) (mask bits))) OR drop_bit (32 - s) x]) n = want a bits (32 * q + s) [x] n"
proof -
  let ?w0 = "(a ! q AND NOT (push_bit s (mask bits))) OR push_bit s x" and ?w1 = "(a ! (q + 1) AND NOT (drop_bit (32 - s) (mask bits))) OR drop_bit (32 - s) x"
  define d m where "d = n div 32" and "m = n mod 32"
  have n: "n = 32 * d + m" "m < 32" by (simp_all add: d_def m_def)
  have p: "pbit a n = bit (a ! d) m" by (simp add: pbit_def d_def m_def)
  have q0: "q < length a" using q by simp
  have q1: "q + 1 < length (a[q := ?w0])" using q by simp
  have xb: "bit x j \<longrightarrow> j < bits" for j using x by (metis bit_take_bit_iff)
  have l: "pbit (a[q := ?w0, q + 1 := ?w1]) n = (if d = q + 1 then bit ?w1 m else if d = q then bit ?w0 m else bit (a ! d) m)"
    unfolding pbit_update [OF q1] pbit_update [OF q0] p d_def [symmetric] m_def [symmetric] by (rule refl)
  consider (lo) "d = q" | (hi) "d = q + 1" | (other) "d \<noteq> q" "d \<noteq> q + 1" by blast
  then show ?thesis
  proof cases
    case lo
    then show ?thesis unfolding l using n b p by (auto simp: want_one bit_simps)
  next
    case hi
    have "32 - s + m = n - (32 * q + s)" using n hi b by simp
    then show ?thesis unfolding l using n b p hi xb [of "32 - s + m"] by (auto simp: want_one bit_simps)
  next
    case other
    then have "n < 32 * q + s \<or> 32 * q + s + bits \<le> n" using n b by linarith
    then show ?thesis unfolding l using other p by (auto simp: want_one)
  qed
qed

lemma set_bits:
  assumes b: "0 < bits" "bits \<le> 32" and x: "take_bit bits x = x" and len: "(offset + 1) * bits \<le> 32 * length a"
  shows "\<exists>a'. PackedArray_set a offset x bits = Some a' \<and> length a' = length a \<and> (\<forall>n. pbit a' n = want a bits (offset * bits) [x] n)"
proof -
  define q s where "q = offset * bits div 32" and "s = offset * bits mod 32"
  have S: "offset * bits = 32 * q + s" "s < 32" by (simp_all add: q_def s_def)
  have len2: "32 * q + s + bits \<le> 32 * length a" using len unfolding S(1) [symmetric] by (simp add: distrib_right)
  have q: "q < length a" using len2 b(1) by linarith
  have xb: "bit x j \<longrightarrow> j < bits" for j using x by (metis bit_take_bit_iff)
  have guard: "NOT (mask bits) AND x = 0" by (rule bit_word_eqI) (use xb in \<open>auto simp: bit_simps\<close>)
  show ?thesis
  proof (cases "bits \<le> 32 - s")
    case True
    have "PackedArray_set a offset x bits = Some (a[q := (a ! q AND NOT (push_bit s (mask bits))) OR push_bit s x])"
      unfolding PackedArray_set_def Let_def masks(2) [OF b(2)] q_def [symmetric] s_def [symmetric] using True q guard by (simp add: cell_def store_cell_def)
    moreover have "pbit (a[q := (a ! q AND NOT (push_bit s (mask bits))) OR push_bit s x]) n = want a bits (offset * bits) [x] n" for n
      unfolding S(1) using set_one [of s bits q a x n] True S(2) q x by simp
    ultimately show ?thesis by simp
  next
    case False
    then have q1: "q + 1 < length a" using len2 S(2) by linarith
    have "PackedArray_set a offset x bits = Some (a[q := (a ! q AND NOT (push_bit s (mask bits))) OR push_bit s x,
      q + 1 := (a ! (q + 1) AND NOT (drop_bit (32 - s) (mask bits))) OR drop_bit (32 - s) x])"
      unfolding PackedArray_set_def Let_def masks(2) [OF b(2)] q_def [symmetric] s_def [symmetric] using False q q1 guard by (simp add: cell_def store_cell_def)
    moreover have "32 < s + bits" using False by simp
    ultimately show ?thesis unfolding S(1) using set_two [OF b(2) S(2) _ q1 x] by simp
  qed
qed

text \<open>
  C38: \<open>PackedArray_set\<close> changes exactly one item of the buffer, and its assertion fails exactly when the
  value does not fit into an item.
\<close>

theorem packed_array_set:
  assumes "0 < bits" "bits \<le> 32" "(offset + 1) * bits \<le> 32 * length a"
  shows "if take_bit bits x = x
    then \<exists>a'. PackedArray_set a offset x bits = Some a' \<and> length a' = length a
      \<and> (\<forall>i. (i + 1) * bits \<le> 32 * length a \<longrightarrow> PackedArray_get a' i bits = (if i = offset then Some x else PackedArray_get a i bits))
    else PackedArray_set a offset x bits = None"
proof (cases "take_bit bits x = x")
  case True
  obtain a' where a': "PackedArray_set a offset x bits = Some a'" "length a' = length a" "\<forall>n. pbit a' n = want a bits (offset * bits) [x] n"
    using set_bits [OF assms(1,2) True assms(3)] by blast
  have "PackedArray_get a' i bits = (if i = offset then Some x else PackedArray_get a i bits)" if "(i + 1) * bits \<le> 32 * length a" for i
    using get_item [OF assms(1,2), of i a'] get_item [OF assms(1,2), of i a] that a'(2) packed_item [OF a'(3) assms(2), of i] True by (auto simp: add.commute)
  then show ?thesis using True a'(1,2) by auto
next
  case False
  then obtain j where "bit x j" "\<not> j < bits" by (metis bit_eqI bit_take_bit_iff)
  then have "bit (NOT (mask bits) AND x) j" by (auto simp: bit_simps dest: bit_imp_le_length)
  then have "NOT (mask bits) AND x \<noteq> 0" by auto
  then show ?thesis unfolding PackedArray_set_def Let_def masks(2) [OF assms(2)] using False by simp
qed

end
