(* ===== verification/Witnesses.thy ===== *)
theory Witnesses
  imports TreePass_Coherence TreePass_Locks BTree_Iterator Mini_Allocator Shard_Log PackedArray
begin

text \<open>
  Concrete inputs at which the theorems of the development apply: numbers and buffers, keys and tuples, B-tree pages and
  trees, and page caches. Each theorem here instantiates one theorem of the library and discharges its hypotheses.
\<close>

section \<open>Strings, buffers, keys and messages\<close>

theorem try_string_to_int64_exact_witness:
  "try_string_to_int64 (cstr ''-0x10'') = Some (- 16) \<and>
   (\<exists>neg base ds. numeral_string (cstr ''-0x10'') neg base ds
       \<and> - 16 = (if neg then - int (digits_value base ds) else int (digits_value base ds)))"
proof -
  have e: "try_string_to_int64 (cstr ''-0x10'') = Some (- 16)"
    by (simp add: try_string_to_int64_def try_string_to_uint64_limit_def parse_number_def
          convert_loop.simps cstr_def c_isspace_def c_isascii_def digit_value_def c_isdigit_def
          c_isalpha_def c_isupper_def Let_def)
  have z: "0 \<notin> set (cstr ''-0x10'')" by (simp add: cstr_def)
  show ?thesis using e try_string_to_int64_exact [OF z, of "- 16"] by auto
qed



theorem ondisk_key_roundtrip_witness:
  "ondisk_key_to_key (copy_key_to_ondisk_key \<lparr>odk_length = 0, odk_flags = 0, odk_bytes = [0, 0, 0, 0]\<rparr> (key_create [7, 8, 9]))
     = key_create [7, 8, 9]"
  using ondisk_key_roundtrip [of "key_create [7, 8, 9]" "[7, 8, 9]" "\<lparr>odk_length = 0, odk_flags = 0, odk_bytes = [0, 0, 0, 0]\<rparr>"]
  by (simp add: key_create_def key_length_def)

theorem ondisk_tuple_roundtrip_witness:
  "let msg = message_create MESSAGE_TYPE_INSERT (Slice [1, 2]);
       odt' = copy_tuple_to_ondisk_tuple (blank_leaf_entry 8) (key_create [7, 8, 9]) msg
   in ondisk_tuple_key odt' = key_create [7, 8, 9] \<and> ondisk_tuple_message odt' = msg"
  using ondisk_tuple_roundtrip [of "[7, 8, 9]" "message_create MESSAGE_TYPE_INSERT (Slice [1, 2])" "blank_leaf_entry 8"]
  by (simp add: message_create_def message_length_def message_data_def slice_bytes_def blank_leaf_entry_def Let_def)

theorem key_buffer_copy_key_roundtrip_witness:
  "\<exists>rc kb. key_buffer_init_from_key (\<lambda>n. Some (replicate n 0)) (replicate 128 0) (key_create [1, 2, 3]) = Some (rc, kb)
     \<and> (rc = STATUS_OK \<and> key_buffer_key kb = key_create [1, 2, 3] \<or> rc = STATUS_NO_MEMORY)"
  using key_buffer_copy_key_roundtrip [of "\<lambda>n. Some (replicate n 0)" "replicate 128 0" "key_create [1, 2, 3]" "[1, 2, 3]"]
  by (simp add: malloc_ok_def DEFAULT_KEY_BUFFER_SIZE_def key_create_def)

definition delete_acc :: merge_accumulator where
  "delete_acc = \<lparr>ma_type = MESSAGE_TYPE_DELETE,
     ma_data = \<lparr>wb_buffer = Some [5, 6], wb_capacity = 2, wb_length = 2, wb_can_free = True\<rparr>\<rparr>"

definition deleting_config :: data_config where
  "deleting_config = \<lparr>max_key_size = 8, cfg_key_compare = (\<lambda>_ _. 0), cfg_key_hash = (\<lambda>_ _. 0),
     cfg_merge_tuples = Some (\<lambda>_ _ _. (1, delete_acc)), cfg_merge_tuples_final = None\<rparr>"

theorem data_merge_tuples_delete_payload_witness:
  "\<exists>ma'. data_merge_tuples (\<lambda>n. Some (replicate n 0)) deleting_config (key_create [1]) (message_create MESSAGE_TYPE_UPDATE (Slice [1]))
           (delete_acc\<lparr>ma_type := MESSAGE_TYPE_UPDATE\<rparr>) = Some (1, ma') \<and> ma_view ma' = (MESSAGE_TYPE_DELETE, [])"
proof -
  have "\<not> merge_accumulator_is_definitive (delete_acc\<lparr>ma_type := MESSAGE_TYPE_UPDATE\<rparr>)" "ma_inv delete_acc"
    by (simp_all add: merge_accumulator_is_definitive_def delete_acc_def ma_inv_def wb_inv_def
        message_is_definitive_def merge_accumulator_to_message_def message_class_def merge_accumulator_message_class_def)
  from data_merge_tuples_delete_payload [OF this(1) _ _ _ _ this(2), of "message_create MESSAGE_TYPE_UPDATE (Slice [1])" deleting_config
      "\<lambda>_ _ _. (1, delete_acc)" "key_create [1]" 1 "\<lambda>n. Some (replicate n 0)"]
  show ?thesis by (simp add: message_create_def deleting_config_def malloc_ok_def delete_acc_def)
qed

section \<open>B-tree pages\<close>

definition sample_cfg :: btree_config where
  "sample_cfg = \<lparr>bc_page_size = 4096, bc_data_cfg = default_data_config_init (\<lambda>_ _. 0) 24\<rparr>"

definition sample_tuple :: "byte \<Rightarrow> byte \<Rightarrow> leaf_entry" where
  "sample_tuple k v = \<lparr>odt_key_length = 1, odt_key_flags = 0, odt_message_length = 1, odt_flags = 1, odt_key_and_message = [k, v]\<rparr>"

definition sample_leaf :: "byte \<Rightarrow> byte \<Rightarrow> leaf_hdr" where
  "sample_leaf a b = (btree_init_hdr sample_cfg)\<lparr>next_entry := 4080, offsets := [4088, 4080],
     entries := [4088 \<mapsto> sample_tuple a 65, 4080 \<mapsto> sample_tuple b 66]\<rparr>"

definition sample_pivot :: "byte \<Rightarrow> uint64 \<Rightarrow> index_entry" where
  "sample_pivot k child = \<lparr>ie_child_addr = child, ie_stats = BTREE_PIVOT_STATS_UNKNOWN,
     ie_pivot = \<lparr>odk_length = 1, odk_flags = 0, odk_bytes = [k]\<rparr>\<rparr>"

definition sample_index :: index_hdr where
  "sample_index = (btree_init_hdr sample_cfg)\<lparr>height := 1, next_entry := 4048, offsets := [4072, 4048],
     entries := [4072 \<mapsto> sample_pivot 1 0x2085, 4048 \<mapsto> sample_pivot 5 0x3000]\<rparr>"

definition sample_memory :: btree_memory where
  "sample_memory = [0x1000 \<mapsto> Index_page sample_index, 0x2000 \<mapsto> Leaf_page (sample_leaf 1 3), 0x3000 \<mapsto> Leaf_page (sample_leaf 5 7)]"

definition sample_spec :: leaf_incorporate_spec where
  "sample_spec = \<lparr>tuple_key = key_create [2], idx = 1, old_entry_state = ENTRY_DID_NOT_EXIST,
     spec_msg = new_message (message_create MESSAGE_TYPE_INSERT (Slice [90]))\<rparr>"

lemma sample_tuple_facts [simp]:
  "sizeof_leaf_entry (sample_tuple k v) = 8" "leaf_ok (sample_tuple k v)" "leaf_entry_key (sample_tuple k v) = key_create [k]"
  "leaf_entry_message (sample_tuple k v) = message_create MESSAGE_TYPE_INSERT (Slice [v])"
  by (simp_all add: sample_tuple_def sizeof_leaf_entry_def leaf_ok_def sizeof_ondisk_tuple_data_def leaf_entry_key_def
      leaf_entry_message_def ondisk_tuple_key_def ondisk_tuple_message_def ondisk_tuple_message_class_def
      ONDISK_MESSAGE_TYPE_MASK_def message_type_of_def)

lemma sample_pivot_facts [simp]:
  "sizeof_index_entry (sample_pivot k c) = 24" "index_ok (sample_pivot k c)" "index_entry_key (sample_pivot k c) = key_create [k]"
  by (simp_all add: sample_pivot_def sizeof_index_entry_def sizeof_ondisk_key_data_def index_ok_def index_entry_key_def
      ondisk_key_to_key_def ONDISK_KEY_NEGATIVE_INFINITY_def ONDISK_KEY_POSITIVE_INFINITY_def)

lemma sample_leaf_layout: "leaf_layout sample_cfg (sample_leaf a b)"
  by (simp add: layout_ok_def region_ok_def sample_leaf_def table_end_def sample_cfg_def btree_init_hdr_def)

lemma sample_index_layout: "index_layout sample_cfg sample_index"
  by (simp add: layout_ok_def region_ok_def sample_index_def table_end_def sample_cfg_def btree_init_hdr_def)

lemma sample_order: "user_key_order (bc_data_cfg sample_cfg) slice_dom"
  by (simp add: sample_cfg_def dflt.user_key_order_axioms)

lemma sample_dom [simp]: "key_dom slice_dom (key_create [k])"
  by (simp add: key_dom_def slice_dom_def key_create_def)

lemma sample_compare [simp]:
  "btree_key_compare sample_cfg (key_create [a]) (key_create [b]) = (if a < b then - 1 else if b < a then 1 else 0)"
  by (simp add: btree_key_compare_def data_key_compare_def sample_cfg_def key_create_def key_is_user_key_def default_compare_Slice)
    (simp add: slice_lex_cmp_def Let_def slice_bytes_def)

lemma sample_leaf_keys [simp]: "leaf_keys (sample_leaf a b) = [key_create [a], key_create [b]]"
  by (simp add: leaf_keys_def leaf_contents_def node_entries_def sample_leaf_def tuple_view_def)

lemma sample_leaf_sorted: "a < b \<Longrightarrow> leaf_sorted sample_cfg slice_dom (sample_leaf a b)"
  by (simp add: leaf_sorted_def increasing_def)

lemma sample_insert: "storable (key_create [k]) (message_create MESSAGE_TYPE_INSERT (Slice [v]))"
    "message_is_definitive (message_create MESSAGE_TYPE_INSERT (Slice [v]))"
  by (simp_all add: storable_def key_create_def message_create_def message_length_def message_is_definitive_def message_class_def)

lemma sample_malloc: "malloc_ok (\<lambda>n. Some (replicate n 0))"
  by (simp add: malloc_ok_def)

lemma sample_spec_bounds: "spec_bounds sample_spec (btree_num_entries (sample_leaf a b))"
  using sample_insert by (simp add: spec_bounds_def sample_spec_def sample_leaf_def btree_num_entries_def spec_message_def)

lemma sample_spec_message: "spec_message sample_spec = message_create MESSAGE_TYPE_INSERT (Slice [90])"
  by (simp add: spec_message_def sample_spec_def)

lemma sample_spec_still: "old_entry_state sample_spec = ENTRY_DID_NOT_EXIST"
  by (simp add: sample_spec_def)

lemma sample_spec_key: "tuple_key sample_spec = key_create [2]"
  by (simp add: sample_spec_def)

lemma sample_cfg_page: "bc_page_size sample_cfg = 4096"
  by (simp add: sample_cfg_def)

lemma sample_leaf_num: "btree_num_entries (sample_leaf a b) = 2"
  by (simp add: sample_leaf_def btree_num_entries_def)

lemma sample_leaf_gen: "generation (sample_leaf a b) = 0"
  by (simp add: sample_leaf_def btree_init_hdr_def)

lemma sample_leaf_get: "entries (sample_leaf a b) (offsets (sample_leaf a b) ! 0) = Some (sample_tuple a 65)"
    "entries (sample_leaf a b) (offsets (sample_leaf a b) ! Suc 0) = Some (sample_tuple b 66)"
  by (simp_all add: sample_leaf_def)

lemma sample_inline: "inline_tuple sample_cfg (key_create [k]) (message_create MESSAGE_TYPE_INSERT (Slice [v]))"
  by (simp add: inline_tuple_def sample_cfg_def key_length_def key_create_def message_length_def message_create_def
      MAX_INLINE_KEY_SIZE_def MAX_INLINE_MESSAGE_SIZE_def)



theorem btree_defragment_and_incorporate_ok_witness:
  "\<exists>hdr'. btree_defragment_and_incorporate sample_cfg (sample_leaf 1 3) sample_spec = Some (hdr', 0)
     \<and> leaf_contents hdr' = incorporate sample_spec (leaf_contents (sample_leaf 1 3))"
proof -
  have "defragment_suffices sample_cfg (sample_leaf 1 3) sample_spec = Some True"
    by (simp add: defragment_suffices_def sample_spec_message sample_spec_still sample_leaf_num upt_rec btree_get_leaf_entry_def get_entry_def
        sample_spec_key leaf_entry_required_capacity_def key_length_def key_create_def message_length_def message_create_def
        sample_cfg_page BTREE_SPLIT_THRESHOLD_def sample_leaf_get)
  then show ?thesis
    using btree_defragment_and_incorporate_ok [OF sample_leaf_layout sample_spec_bounds, of 1 3]
    by (auto simp: sample_cfg_page sample_leaf_gen)
qed

theorem btree_split_index_correct_witness:
  "\<exists>left right. btree_choose_index_split sample_index = Some 1
    \<and> btree_split_index_build_right_node sample_cfg sample_index 1 (btree_init_hdr sample_cfg) = Some right \<and> btree_truncate_index sample_cfg sample_index 1 = Some left
    \<and> map plain_pivot (index_contents left @ index_contents right) = map plain_pivot (index_contents sample_index)"
proof -
  have "node_entries sample_index = [sample_pivot 1 0x2085, sample_pivot 5 0x3000]" "btree_num_entries sample_index = 2"
    by (simp_all add: node_entries_def sample_index_def btree_num_entries_def)
  then obtain t left right where "btree_choose_index_split sample_index = Some t" "0 < t" "t < 2"
    "btree_split_index_build_right_node sample_cfg sample_index t (btree_init_hdr sample_cfg) = Some right" "btree_truncate_index sample_cfg sample_index t = Some left"
    "map plain_pivot (index_contents left @ index_contents right) = map plain_pivot (index_contents sample_index)"
    using btree_split_index_correct [OF sample_index_layout, of "btree_init_hdr sample_cfg"] by auto
  moreover have "t = 1" using \<open>0 < t\<close> \<open>t < 2\<close> by simp
  ultimately show ?thesis by blast
qed

definition sample_env :: lookup_env where
  "sample_env = \<lparr>env_evict_interval = (\<lambda>_. 10), env_present = (\<lambda>_ _. True), env_now = (\<lambda>_. (100, 101)),
     env_get = (\<lambda>_ _ times addr. times addr)\<rparr>"

definition sample_state :: lookup_state where
  "sample_state = \<lparr>ls_mem = sample_memory, ls_times = (\<lambda>_. 50), ls_stats = None, ls_gets = []\<rparr>"

lemma sample_index_pivots: "pivot_keys sample_index = [key_create [1], key_create [5]]" "pivot_children sample_index = [0x2000, 0x3000]"
  "btree_num_entries sample_index = 2" "node_entries sample_index = [sample_pivot 1 0x2085, sample_pivot 5 0x3000]"
  by (simp_all add: pivot_keys_def pivot_children_def index_contents_def node_entries_def sample_index_def btree_num_entries_def pivot_view_def)
    (simp_all add: sample_pivot_def)

lemma sample_leaf_ok:
  assumes "a < b" "within sample_cfg lo hi (key_create [a])" "within sample_cfg lo hi (key_create [b])" "mem addr = Some (Leaf_page (sample_leaf a b))"
  shows "tree_ok sample_cfg slice_dom mem 0 addr lo hi"
proof -
  have "btree_height (sample_leaf a b) = 0" by (simp add: sample_leaf_def btree_init_hdr_def btree_height_def)
  then show ?thesis using assms sample_leaf_layout [of a b] sample_leaf_sorted [OF assms(1)] by simp
qed

lemma sample_tree_ok: "tree_ok sample_cfg slice_dom sample_memory 1 0x1000 None None"
proof -
  have m: "sample_memory 0x1000 = Some (Index_page sample_index)" "sample_memory 0x2000 = Some (Leaf_page (sample_leaf 1 3))"
    "sample_memory 0x3000 = Some (Leaf_page (sample_leaf 5 7))"
    by (simp_all add: sample_memory_def)
  have "tree_ok sample_cfg slice_dom sample_memory 0 0x2000 None (Some (key_create [5]))"
    by (rule sample_leaf_ok [of 1 3]) (simp_all add: within_def m)
  moreover have "tree_ok sample_cfg slice_dom sample_memory 0 0x3000 (Some (key_create [5])) None"
    by (rule sample_leaf_ok [of 5 7]) (simp_all add: within_def m)
  moreover have "unat (btree_height sample_index) = 1" by (simp add: sample_index_def btree_height_def)
  moreover have "increasing (key_dom slice_dom) (btree_key_compare sample_cfg) (pivot_keys sample_index)"
    by (simp add: sample_index_pivots increasing_def)
  moreover have two: "(\<forall>i<2. P i) \<longleftrightarrow> P 0 \<and> P (Suc 0)" for P by (auto simp: less_2_cases_iff)
  ultimately show ?thesis
    using sample_index_layout m(1)
    by (simp add: sample_index_pivots within_def child_lo_def child_hi_def two del: tree_ok.simps(1))
qed

lemma sample_target: "key_dom slice_dom (key_create [3])" "\<not> key_is_positive_infinity (key_create [3])"
  by simp (simp add: key_is_positive_infinity_def key_create_def)

lemma sample_state_facts: "ls_mem sample_state = sample_memory" "ls_gets sample_state = []"
  by (simp_all add: sample_state_def)

theorem btree_lookup_correct_witness:
  "\<exists>rc result' st'. btree_lookup (\<lambda>n. Some (replicate n 0)) sample_cfg sample_env 0x1000 PAGE_TYPE_BRANCH (key_create [3])
       merge_accumulator_init sample_state = Some (rc, result', st')
     \<and> (rc = STATUS_OK \<and> ma_view result' = (MESSAGE_TYPE_INSERT, [66]) \<or> rc = STATUS_NO_MEMORY)"
proof -
  have "map_of (tree_contents sample_memory 1 0x1000) (key_create [3]) = Some (MESSAGE_TYPE_INSERT, [66])"
    by (simp add: sample_memory_def sample_index_pivots leaf_contents_def node_entries_def sample_leaf_def tuple_view_def
        msg_view_def message_create_def message_data_def slice_bytes_def key_create_def)
  note c = this
  have t: "tree_ok sample_cfg slice_dom (ls_mem sample_state) 1 0x1000 None None" "ls_gets sample_state = []"
    using sample_tree_ok by (simp_all add: sample_state_facts)
  show ?thesis
    using btree_lookup_correct [OF sample_order sample_target t sample_malloc ma_inv_init, of sample_env PAGE_TYPE_BRANCH]
    unfolding sample_state_facts c option.case by blast
qed

theorem btree_lookup_stays_cold_witness:
  "\<exists>addr w st'. btree_lookup_node sample_cfg sample_env 0x1000 (key_create [3]) 0 PAGE_TYPE_BRANCH sample_state = Some (addr, w, st')
     \<and> cold_after_cold (map snd (ls_gets st'))"
proof -
  have t: "tree_ok sample_cfg slice_dom (ls_mem sample_state) 1 0x1000 None None" "ls_gets sample_state = []"
    using sample_tree_ok by (simp_all add: sample_state_facts)
  then obtain addr w st' where
    n: "btree_lookup_node sample_cfg sample_env 0x1000 (key_create [3]) 0 PAGE_TYPE_BRANCH sample_state = Some (addr, w, st')"
    using lookup_node_ok [OF sample_order sample_target t] by blast
  then show ?thesis using btree_lookup_stays_cold [OF sample_order sample_target t n] by blast
qed

theorem btree_classify_warm_iff_witness:
  "\<exists>time hdr'. btree_update_ac_and_classify_warm 10 100 101 50 sample_index 0 = Some (True, time, hdr')
     \<and> effective_ac (sample_pivot 1 0x2085) 50 10 \<noteq> 0 \<and> 50 \<le> 10 * effective_ac (sample_pivot 1 0x2085) 50 10"
proof -
  let ?e = "sample_pivot 1 0x2085"
  have e: "btree_get_index_entry sample_index 0 = Some ?e"
    by (simp add: btree_get_index_entry_def get_entry_def sample_index_def btree_num_entries_def)
  have m: "pivot_is_cache_resident ?e" "pivot_ac_load ?e = 5"
    by (simp_all add: meta_defs btree_pivot_meta_load_def sample_pivot_def)
  obtain hdr' where c: "btree_update_ac_and_classify_warm 10 100 101 50 sample_index 0 = Some (True, 50, hdr')"
    by (simp add: btree_update_ac_and_classify_warm_def e m clear_meta EI_NOT_READY_def Let_def)
  show ?thesis
    using c btree_classify_warm_iff [OF sample_index_layout _ _ _ c] by (simp add: sample_index_pivots EI_NOT_READY_def)
qed

section \<open>Page caches\<close>

text \<open>A cache of 64 pages with the clean page of address \<open>0x2000\<close> in entry 5, at clock 2, on a device with numbered pages.\<close>

definition cache_cfg :: treepass_config where
  "cache_cfg = \<lparr>page_capacity = 64, log_page_size = 12, extent_mask = 0xFFFFFFFFFFFE0000, pages_per_extent = 32,
     cfg_capacity = 0x40000, ei_initial_per_gb_ns = 1000, cfg_ewma = min\<rparr>"

definition cached_entry :: treepass_entry where
  "cached_entry = \<lparr>disk_addr = 0x2000, entry_time = 0, status = 0x82, etype = PAGE_TYPE_BRANCH, has_waiters = False\<rparr>"

definition free_entry :: treepass_entry where
  "free_entry = \<lparr>disk_addr = TP_UNMAPPED_ADDR, entry_time = 0, status = TP_FREE_STATUS, etype = PAGE_TYPE_INVALID, has_waiters = False\<rparr>"

definition sample_cache :: "uint64 treepass" where
  "sample_cache =
     \<lparr>tp_entry = (\<lambda>e. if e = 5 then cached_entry else free_entry), tp_data = (\<lambda>e. if e = 5 then 0x2001 else 0),
      tp_lookup = (\<lambda>n. if n = 2 then 5 else TP_UNMAPPED_ENTRY), tp_refcount = (\<lambda>_. 0), tp_pincount = (\<lambda>_. 0),
      evict_hand = 1, free_hand = (\<lambda>_. TP_UNMAPPED_ENTRY), batch_busy = (\<lambda>_. False), cleaner_gap = TP_CLEANER_GAP,
      evict_interval = 0, last_cycle_ts = 0, evict_batches = 0, last_ei_check_ts = 0, last_ei_check_cycle = 0,
      tp_disk = (\<lambda>a. a + 1), tp_io = []\<rparr>"

definition cache_env :: tp_env where
  "cache_env = \<lparr>te_now = 7, te_current_ts = 7, te_poll = (\<lambda>_. 0), te_elapsed = (\<lambda>_. False), te_fuel = 4\<rparr>"

lemma sample_cache_entry: "tp_entry sample_cache = (\<lambda>e. if e = 5 then cached_entry else free_entry)"
  by (simp add: sample_cache_def)

lemma sample_lookup: "treepass_lookup cache_cfg sample_cache 0x2000 = 5" "treepass_divide_by_page_size cache_cfg 0x2000 = 2"
  by (simp_all add: treepass_lookup_def treepass_divide_by_page_size_def cache_cfg_def sample_cache_def)

lemma sample_cache_inv: "tp_inv cache_cfg sample_cache"
proof -
  have c: "cfg_ok cache_cfg" by (simp add: cfg_ok_def cache_cfg_def TP_UNMAPPED_ENTRY_def)
  have m: "mapped sample_cache e \<longleftrightarrow> e = 5" for e
    by (simp add: mapped_def sample_cache_entry cached_entry_def free_entry_def TP_UNMAPPED_ADDR_def)
  have "entry_ok cache_cfg sample_cache e" for e
    using sample_lookup by (simp add: entry_ok_def m sample_cache_entry cached_entry_def free_entry_def tp_flags aligned_def cache_cfg_def)
      (simp add: sample_cache_def)
  moreover have "lookup_ok cache_cfg sample_cache n" for n
    using sample_lookup(2) by (simp add: lookup_ok_def m sample_cache_entry cached_entry_def) (simp add: sample_cache_def cache_cfg_def)
  ultimately show ?thesis using c by (simp add: tp_inv_def hand_ok_def) (simp add: sample_cache_def)
qed

lemma sample_get:
  "\<exists>cc'. treepass_get cache_cfg 0 cache_env 1 sample_cache 0x2000 True PAGE_TYPE_BRANCH True = Some (Some 5, cc')"
  by (simp add: treepass_get_internal_def sample_lookup treepass_get_in_cache_def treepass_get_read_def treepass_try_get_read_def
      treepass_test_flag_def treepass_get_status_def sample_cache_entry cached_entry_def tp_flags TP_UNMAPPED_ENTRY_def Let_def
      treepass_set_clock_accessed_def treepass_get_clock_def clock_of_def)




lemma cache_ready: "page_capacity cache_cfg = 64 * 1" "\<forall>e<page_capacity cache_cfg. \<not> has_waiters (tp_entry sample_cache e)"
  by (simp_all add: cache_cfg_def sample_cache_entry cached_entry_def free_entry_def)

lemma sample_idle: "unreferenced cache_cfg sample_cache e" "treepass_get_pin cache_cfg sample_cache e = 0"
  by (simp_all add: unreferenced_def treepass_get_ref_def treepass_get_pin_def) (simp_all add: sample_cache_def)


theorem evict_batch_ee_spec_witness:
  "\<exists>n cc'. treepass_evict_batch_ee cache_cfg 0 sample_cache 0 = Some (n, cc') \<and> tp_entry cc' 5 = cached_entry"
proof -
  have "status (tp_entry sample_cache 5) \<noteq> TP_EVICTABLE_STATUS" by (simp add: sample_cache_entry cached_entry_def tp_flags)
  then show ?thesis
    using evict_batch_ee_spec [OF cache_ready(1) _ cache_ready(2), of 0 0] by (auto simp: sample_cache_entry)
qed

theorem inherit_clock_spec_witness:
  "unat (treepass_get_clock (treepass_inherit_clock cache_cfg sample_cache 0x2000 0x2000 2) 5) = 1"
proof -
  have "5 \<noteq> TP_UNMAPPED_ENTRY" by (simp add: TP_UNMAPPED_ENTRY_def)
  have c: "treepass_get_clock sample_cache 5 = 2"
    by (simp add: treepass_get_clock_def treepass_get_status_def sample_cache_entry cached_entry_def clock_of_def tp_flags)
  have "inherited_clock cache_cfg sample_cache 0x2000 (unat (2 :: uint32)) = 1"
    using \<open>5 \<noteq> TP_UNMAPPED_ENTRY\<close> by (simp add: inherited_clock_def sample_lookup c max_def)
  then show ?thesis
    using inherit_clock_spec [OF sample_lookup(1) \<open>5 \<noteq> TP_UNMAPPED_ENTRY\<close>, of "0x2000" 2] by (simp add: Let_def)
qed

theorem reference_counters_disjoint_witness:
  "treepass_get_ref cache_cfg (treepass_inc_ref cache_cfg sample_cache 5 1) 5 1 = 1
   \<and> treepass_get_ref cache_cfg (treepass_inc_ref cache_cfg sample_cache 5 1) 6 1 = 0"
proof -
  have l: "5 < page_capacity cache_cfg" "6 < page_capacity cache_cfg" by (simp_all add: cache_cfg_def)
  have z: "treepass_get_ref cache_cfg sample_cache e t = 0" for e t by (simp add: treepass_get_ref_def sample_cache_def)
  show ?thesis
    using reference_counters_disjoint [OF cache_ready(1) l(1,1), of sample_cache 1 1]
      reference_counters_disjoint [OF cache_ready(1) l, of sample_cache 1 1] z by simp
qed


lemmas sample_locked = writer_locks [OF three_threads_start]


theorem lock_writer_alone_witness:
  "\<exists>s. lock_reachable False s \<and> l_pc s 1 = Writing \<and> (\<forall>u. u = 1 \<or> l_pc s u \<notin> {Reading, Claimed, Write_wait, Writing})"
proof -
  let ?s = "three_threads TP_LOCKED_EVICTABLE_STATUS ((\<lambda>_. 0)(1 := 1)) Idle Writing Idle"
  have 1: "l_pc ?s 1 = Writing" by simp
  show ?thesis using lock_writer_alone [OF sample_locked 1] sample_locked [of False] 1 by blast
qed

theorem clock_overflow_never_evicted_witness:
  "treepass_try_evict cache_cfg 0 (clock_fetch_add (clock_fetch_add
     (upd_entry sample_cache 5 (\<lambda>en. en\<lparr>status := 0x182\<rparr>)) 5) 5) 5 False
   = Some (False, clock_fetch_add (clock_fetch_add (upd_entry sample_cache 5 (\<lambda>en. en\<lparr>status := 0x182\<rparr>)) 5) 5)"
proof -
  have l: "treepass_get_ref_internal cache_cfg 5 < page_capacity cache_cfg" by code_simp
  have "clock_of 0x182 = 6" "drop_bit 9 (0x182 :: uint32) = 0" by (simp_all add: clock_of_def tp_flags)
  then show ?thesis
    using clock_overflow_never_evicted [OF l, of "upd_entry sample_cache 5 (\<lambda>en. en\<lparr>status := 0x182\<rparr>)" 0]
    by (simp add: upd_entry_def Let_def)
qed

section \<open>Allocators\<close>

definition disk_cfg :: allocator_config where
  "disk_cfg = \<lparr>io_cfg = \<lparr>io_page_size = 4096, io_extent_size = 131072\<rparr>, al_capacity = 1048576, al_page_capacity = 256, extent_capacity = 8,
     al_extent_mask = NOT (mask 17)\<rparr>"

definition disk_allocator :: "nat rc_allocator" where
  "disk_allocator = \<lparr>ref_count = 2 # 2 # replicate 1022 0, al_hand = 2, splinters = replicate 30 0,
     al_stats = zero_stats\<lparr>curr_allocated := 2\<rparr>, disk_meta_page = (replicate 30 0, 7), disk_ref_count = replicate 1024 0\<rparr>"

lemma disk_used: "used_extents disk_cfg disk_allocator = {0, 1}"
proof -
  have "ref_count disk_allocator ! e \<noteq> AL_FREE \<longleftrightarrow> e = 0 \<or> e = 1" if "e < 8" for e
    using that by (auto simp: disk_allocator_def AL_FREE_def nth_Cons')
  then have "(e < 8 \<and> ref_count disk_allocator ! e \<noteq> AL_FREE) = (e \<in> {0, 1})" for e by (cases "e < 8") auto
  then show ?thesis unfolding used_extents_def by (simp add: disk_cfg_def set_eq_iff)
qed

lemma disk_inv: "al_inv disk_cfg disk_allocator"
  unfolding al_inv_def disk_used by (simp add: disk_cfg_def disk_allocator_def RC_ALLOCATOR_MAX_ROOT_IDS_def)

theorem rc_allocator_alloc_returns_witness:
  "al_inv disk_cfg disk_allocator \<and> (\<exists>rc addr al'. rc_allocator_alloc disk_cfg disk_allocator PAGE_TYPE_BRANCH = Some (rc, addr, al'))"
  using disk_inv rc_allocator_alloc_returns [OF disk_inv] by blast

lemma disk_alloc:
  obtains al' where "rc_allocator_alloc disk_cfg disk_allocator PAGE_TYPE_BRANCH = Some (STATUS_OK, 262144, al')"
proof -
  have h: "2 < extent_capacity disk_cfg" "unat (al_hand disk_allocator) = 2" "2 < length (ref_count disk_allocator)" "ref_count disk_allocator ! 2 = 0"
    by (simp_all add: disk_cfg_def disk_allocator_def)
  show thesis using that alloc_at_hand [OF h, of PAGE_TYPE_BRANCH] by (simp add: disk_cfg_def)
qed

theorem rc_allocator_alloc_spec_witness:
  "\<exists>al'. rc_allocator_alloc disk_cfg disk_allocator PAGE_TYPE_BRANCH = Some (STATUS_OK, 262144, al') \<and> al_inv disk_cfg al'
     \<and> alloc_effect disk_cfg disk_allocator STATUS_OK 262144 al'"
  by (rule disk_alloc) (use rc_allocator_alloc_spec [OF disk_inv] in blast)


text \<open>A small device for the mini allocator: eight extents of two pages, the first taken and the second holding the meta page.\<close>

definition tiny_cfg :: allocator_config where
  "tiny_cfg = \<lparr>io_cfg = \<lparr>io_page_size = 64, io_extent_size = 128\<rparr>, al_capacity = 1024, al_page_capacity = 16, extent_capacity = 8,
     al_extent_mask = NOT (mask 7)\<rparr>"

definition tiny_world :: "nat mini_world" where
  "tiny_world = \<lparr>w_al = \<lparr>ref_count = [2, 2, 0, 0, 0, 0, 0, 0], al_hand = 2, splinters = replicate 30 0,
     al_stats = zero_stats\<lparr>curr_allocated := 2\<rparr>, disk_meta_page = (replicate 30 0, 7), disk_ref_count = []\<rparr>, w_mem = (\<lambda>_. None)\<rparr>"

lemma tiny_facts:
  "mini_cfg_ok tiny_cfg" "al_inv tiny_cfg (w_al tiny_world)" "0 < extent_refs tiny_cfg (w_al tiny_world) 0" "io_page_size (io_cfg tiny_cfg) dvd 128"
  "extent_of tiny_cfg 128 \<noteq> 0" "extent_refs tiny_cfg (w_al tiny_world) (extent_of tiny_cfg 128) = 2" "PAGE_TYPE_BRANCH \<noteq> PAGE_TYPE_INVALID"
proof -
  show "mini_cfg_ok tiny_cfg" unfolding mini_cfg_ok_def tiny_cfg_def by (intro conjI exI [of _ 7]) (simp_all add: offsetof_entry_buffer_def sizeof_meta_entry_def)
  have "used_extents tiny_cfg (w_al tiny_world) = {0, 1}"
    by (auto simp: used_extents_def tiny_cfg_def tiny_world_def AL_FREE_def nth_Cons' split: if_splits)
  then show "al_inv tiny_cfg (w_al tiny_world)" unfolding al_inv_def by (simp add: tiny_cfg_def tiny_world_def RC_ALLOCATOR_MAX_ROOT_IDS_def)
qed (simp_all add: tiny_cfg_def tiny_world_def extent_refs_def)

lemma tiny_runs:
  obtains a0 mini w1 addrs mini2 w2 where "mini_init tiny_cfg tiny_world 128 0 2 PAGE_TYPE_BRANCH = Some (a0, mini, w1)"
    "mini_alloc_seq tiny_cfg mini w1 [0, 1, 0, 0] = Some (addrs, mini2, w2)"
proof -
  have "Option.bind (mini_init tiny_cfg tiny_world 128 0 2 PAGE_TYPE_BRANCH) (\<lambda>(a0, mini, w1). mini_alloc_seq tiny_cfg mini w1 [0, 1, 0, 0]) \<noteq> None"
    by code_simp
  then show thesis using that by (auto simp: bind_eq_Some_conv)
qed

theorem mini_alloc_fresh_witness:
  "\<exists>mini (w1 :: nat mini_world) addr next mini' w2 chain'. mini_ok tiny_cfg mini w1 [128] 1 \<and> mini_alloc tiny_cfg mini w1 0 = Some (addr, next, mini', w2)
     \<and> addr \<notin> pages_out tiny_cfg (data_extents (w_mem w1) [128]) (take (num_batches mini) (mini_next_addr mini)) \<and> mini_ok tiny_cfg mini' w2 chain' 1"
proof -
  obtain a0 mini w1 addrs mini2 w2 where r: "mini_init tiny_cfg tiny_world 128 0 2 PAGE_TYPE_BRANCH = Some (a0, mini, w1)"
    "mini_alloc_seq tiny_cfg mini w1 [0, 1, 0, 0] = Some (addrs, mini2, w2)" by (rule tiny_runs)
  have m: "mini_ok tiny_cfg mini w1 [128] 1" "0 < num_batches mini" using mini_init_ok [OF tiny_facts r(1)] by simp_all
  obtain addr nx mini' w' where a: "mini_alloc tiny_cfg mini w1 0 = Some (addr, nx, mini', w')"
    using r(2) by (auto simp: bind_eq_Some_conv)
  obtain chain' where "mini_ok tiny_cfg mini' w' chain' 1" using mini_alloc_fresh [OF m a] by metis
  then show ?thesis using m(1) a mini_alloc_fresh [OF m a] by metis
qed


section \<open>Scans\<close>

definition leaf_state :: "byte \<Rightarrow> byte \<Rightarrow> lookup_state" where
  "leaf_state a b = sample_state\<lparr>ls_mem := [0x2000 \<mapsto> Leaf_page (sample_leaf a b)]\<rparr>"

definition no_accum :: clock_accum where
  "no_accum = \<lparr>shared_clock_sum = 0, shared_clock_count = 0, shared_clock_max = 0\<rparr>"

lemma leaf_state_facts:
  assumes "a < b"
  shows "tree_ok sample_cfg slice_dom (ls_mem (leaf_state a b)) 0 0x2000 None None" "leaves_linked (ls_mem (leaf_state a b)) 0 0x2000"
    "tree_tuples (ls_mem (leaf_state a b)) 0 0x2000 = [(key_create [a], message_create MESSAGE_TYPE_INSERT (Slice [65])),
       (key_create [b], message_create MESSAGE_TYPE_INSERT (Slice [66]))]"
proof -
  show "tree_ok sample_cfg slice_dom (ls_mem (leaf_state a b)) 0 0x2000 None None"
    by (rule sample_leaf_ok [OF assms]) (simp_all add: within_def leaf_state_def)
  show "leaves_linked (ls_mem (leaf_state a b)) 0 0x2000" by (simp add: leaves_linked_def tree_leaves_def)
  show "tree_tuples (ls_mem (leaf_state a b)) 0 0x2000 = [(key_create [a], message_create MESSAGE_TYPE_INSERT (Slice [65])),
       (key_create [b], message_create MESSAGE_TYPE_INSERT (Slice [66]))]"
    by (simp add: tree_tuples_def tree_leaves_def leaf_tuples_def entry_tuple_def leaf_state_def node_entries_def sample_leaf_def)
qed

theorem btree_range_scan_starts_witness:
  "\<exists>s. btree_iterator_init 0 sample_cfg sample_env (\<lambda>_. 0) (leaf_state 1 3) no_accum 0x2000 PAGE_TYPE_BRANCH (key_create [2]) (key_create [9])
       (key_create [2]) greater_than_or_equal 0 = Some s
     \<and> btree_iterator_curr s = Some (key_create [3], message_create MESSAGE_TYPE_INSERT (Slice [66]))"
proof -
  have lt: "(1 :: byte) < 3" by simp
  have r: "range_tuples sample_cfg (key_create [2]) (key_create [9]) (tree_tuples (ls_mem (leaf_state 1 3)) 0 0x2000)
      = [(key_create [3], message_create MESSAGE_TYPE_INSERT (Slice [66]))]"
    unfolding leaf_state_facts(3) [OF lt] range_tuples_def by simp
  have z: "(0x2000 :: uint64) \<noteq> 0" by simp
  show ?thesis using btree_range_scan_starts [OF sample_order leaf_state_facts(1,2) [OF lt] sample_dom [of 2] sample_dom [of 9] z, where env = sample_env and page_clock = "\<lambda>_. 0" and acc = no_accum and ty = PAGE_TYPE_BRANCH]
    unfolding r by auto
qed

theorem btree_merged_scan_correct_witness:
  "\<exists>ss rc xs. open_scans 0 sample_cfg sample_env (\<lambda>_. 0) no_accum PAGE_TYPE_BRANCH (key_create [2]) (key_create [9])
       [(leaf_state 3 5, 0, 0x2000), (leaf_state 1 3, 0, 0x2000)] = Some ss
     \<and> merge_read 5 4 (\<lambda>n. Some (replicate n 0)) (btree_iterator_ops 0 sample_cfg sample_env (\<lambda>_. 0)) (bc_data_cfg sample_cfg) ss MERGE_FULL = Some (rc, xs)
     \<and> rc = STATUS_OK \<and> map_of xs = merged False [[(key_create [3], message_create MESSAGE_TYPE_INSERT (Slice [65])),
          (key_create [5], message_create MESSAGE_TYPE_INSERT (Slice [66]))], [(key_create [3], message_create MESSAGE_TYPE_INSERT (Slice [66]))]]"
proof -
  let ?bs = "[(leaf_state 3 5, 0, 0x2000), (leaf_state 1 3, 0, 0x2000)]"
  have lt: "(1 :: byte) < 3" "(3 :: byte) < 5" by simp_all
  note t = leaf_state_facts(3) [OF lt(1)] leaf_state_facts(3) [OF lt(2)]
  have ok: "\<forall>b\<in>set ?bs. branch_ok sample_cfg slice_dom b"
    using leaf_state_facts(1,2) [OF lt(1)] leaf_state_facts(1,2) [OF lt(2)]
    by (simp add: branch_ok_def t message_is_definitive_def message_create_def del: tree_ok.simps)
  have len: "length ?bs < MAX_MERGE_ARITY" "sum_list (map (length \<circ> branch_tuples) ?bs) < 5" "sum_list (map (length \<circ> branch_tuples) ?bs) \<le> 4"
    by (simp_all add: MAX_MERGE_ARITY_def branch_tuples_def t)
  have r: "map (range_tuples sample_cfg (key_create [2]) (key_create [9]) \<circ> branch_tuples) ?bs
    = [[(key_create [3], message_create MESSAGE_TYPE_INSERT (Slice [65])), (key_create [5], message_create MESSAGE_TYPE_INSERT (Slice [66]))],
       [(key_create [3], message_create MESSAGE_TYPE_INSERT (Slice [66]))]]"
    by (simp add: branch_tuples_def t range_tuples_def)
  have mode: "MERGE_FULL \<noteq> MERGE_RAW" by simp
  show ?thesis
    using btree_merged_scan_correct [OF sample_order sample_dom [of 2] sample_dom [of 9] sample_malloc ok len(1) mode len(2,3), where k = 0 and env = sample_env and page_clock = "\<lambda>_. 0" and acc = no_accum and ty = PAGE_TYPE_BRANCH]
    unfolding r by (simp del: open_scans.simps) blast
qed

section \<open>Log\<close>

definition log_cfg :: allocator_config where
  "log_cfg = \<lparr>io_cfg = \<lparr>io_page_size = 64, io_extent_size = 128\<rparr>, al_capacity = 1024, al_page_capacity = 16, extent_capacity = 8,
     al_extent_mask = NOT (mask 7)\<rparr>"

definition blank_log_page :: "nat log_page" where
  "blank_log_page = \<lparr>lp_checksum = 0, lp_body = \<lparr>lb_magic = 0, lb_next_extent_addr = 0, lb_num_entries = 0, lb_entries = (\<lambda>_. None)\<rparr>\<rparr>"

definition log_start :: "(nat, nat) log_world" where
  "log_start = \<lparr>lw_mini = \<lparr>w_al = \<lparr>ref_count = [2, 0, 0, 0, 0, 0, 0, 0], al_hand = 1, splinters = replicate 30 0,
     al_stats = zero_stats\<lparr>curr_allocated := 1\<rparr>, disk_meta_page = (replicate 30 0, 7), disk_ref_count = []\<rparr>, w_mem = (\<lambda>_. None)\<rparr>,
     lw_pages = (\<lambda>_. blank_log_page)\<rparr>"

definition log_ws :: "(nat \<times> key \<times> message \<times> uint64) list" where
  "log_ws = [(0, key_create [1], message_create MESSAGE_TYPE_INSERT (Slice [65]), 5), (0, key_create [3], message_create MESSAGE_TYPE_INSERT (Slice [67]), 6)]"

definition log_csum :: "log_body \<Rightarrow> nat" where
  "log_csum b = unat (lb_num_entries b) + 1"

lemma log_start_ok: "log_cfg_ok log_cfg" "al_inv log_cfg (w_al (lw_mini log_start))" "0 < extent_refs log_cfg (w_al (lw_mini log_start)) 0"
proof -
  have "mini_cfg_ok log_cfg" unfolding mini_cfg_ok_def log_cfg_def by (intro conjI exI [of _ 7]) (simp_all add: offsetof_entry_buffer_def sizeof_meta_entry_def)
  then show "log_cfg_ok log_cfg" by (simp add: log_cfg_ok_def log_cfg_def sizeof_shard_log_hdr_def)
  have "used_extents log_cfg (w_al (lw_mini log_start)) = {0}"
    by (auto simp: used_extents_def log_cfg_def log_start_def AL_FREE_def nth_Cons' split: if_splits)
  then show "al_inv log_cfg (w_al (lw_mini log_start))" unfolding al_inv_def by (simp add: log_cfg_def log_start_def RC_ALLOCATOR_MAX_ROOT_IDS_def)
qed (simp add: log_cfg_def log_start_def extent_refs_def)

lemma log_runs_eval:
  "(case Option.bind (shard_log_init (\<lambda>_. 9) log_cfg 0 log_start) (\<lambda>(log, w). shard_log_writes log_csum (\<lambda>_. blank_log_page) log_cfg log_ws log w) of
      None \<Rightarrow> False
    | Some (log, w) \<Rightarrow> \<not> shard_log_valid log_csum 9 (lw_pages w (unat (td_addr (hd (sl_thread_data log)))))
        \<and> list_all (\<lambda>td. td_addr td = SHARD_UNMAPPED) (tl (sl_thread_data log)))"
  by code_simp

lemma log_runs:
  obtains log0 w1 log w where "shard_log_init (\<lambda>_. 9) log_cfg 0 log_start = Some (log0, w1)"
    "shard_log_writes log_csum (\<lambda>_. blank_log_page) log_cfg log_ws log0 w1 = Some (log, w)"
    "\<forall>td\<in>set (sl_thread_data log). td_addr td \<noteq> SHARD_UNMAPPED \<longrightarrow> \<not> shard_log_valid log_csum 9 (lw_pages w (unat (td_addr td)))"
proof -
  obtain log0 w1 where a: "shard_log_init (\<lambda>_. 9) log_cfg 0 log_start = Some (log0, w1)"
    using log_runs_eval by (cases "shard_log_init (\<lambda>_. 9) log_cfg 0 log_start") auto
  obtain log w where b: "shard_log_writes log_csum (\<lambda>_. blank_log_page) log_cfg log_ws log0 w1 = Some (log, w)"
    using log_runs_eval unfolding a by (cases "shard_log_writes log_csum (\<lambda>_. blank_log_page) log_cfg log_ws log0 w1") auto
  have "\<not> shard_log_valid log_csum 9 (lw_pages w (unat (td_addr (hd (sl_thread_data log)))))" "\<forall>td\<in>set (tl (sl_thread_data log)). td_addr td = SHARD_UNMAPPED"
    using log_runs_eval unfolding a by (simp_all add: b list_all_iff)
  then have "\<forall>td\<in>set (sl_thread_data log). td_addr td \<noteq> SHARD_UNMAPPED \<longrightarrow> \<not> shard_log_valid log_csum 9 (lw_pages w (unat (td_addr td)))"
    by (cases "sl_thread_data log") auto
  then show thesis by (rule that [OF a b])
qed



lemma packed_array_set_witness:
  "\<exists>a'. PackedArray_set [0xFFFFFFFF, 0, 0] 2 4097 13 = Some a' \<and> PackedArray_get a' 2 13 = Some 4097 \<and> PackedArray_get a' 0 13 = Some 8191
    \<and> PackedArray_set [0xFFFFFFFF, 0, 0] 2 8192 13 = None"
proof -
  have l: "(2 + 1) * 13 \<le> 32 * length [0xFFFFFFFF, 0, 0 :: uint32]" by simp
  have t: "take_bit 13 4097 = (4097 :: uint32)" "take_bit 13 8192 \<noteq> (8192 :: uint32)" by (simp_all add: take_bit_eq_mod)
  have g: "PackedArray_get [0xFFFFFFFF, 0, 0] 0 13 = Some 8191" by code_simp
  have n: "PackedArray_set [0xFFFFFFFF, 0, 0] 2 8192 13 = None" using packed_array_set [OF _ _ l, of 8192] t(2) by simp
  obtain a' where a': "PackedArray_set [0xFFFFFFFF, 0, 0] 2 4097 13 = Some a'"
    "\<forall>i. (i + 1) * 13 \<le> 32 * length [0xFFFFFFFF, 0, 0 :: uint32] \<longrightarrow> PackedArray_get a' i 13 = (if i = 2 then Some 4097 else PackedArray_get [0xFFFFFFFF, 0, 0] i 13)"
    using packed_array_set [OF _ _ l, of 4097] t(1) by auto
  have "PackedArray_get a' 2 13 = Some 4097" "PackedArray_get a' 0 13 = Some 8191" using a'(2) [rule_format, of 2] a'(2) [rule_format, of 0] g by simp_all
  then show ?thesis using a'(1) n by blast
qed

end
