(* ===== verification/Spec2Isabelle.thy ===== *)
theory Spec2Isabelle
  imports Prelude Util Data BTree_Node BTree_Leaf BTree_Index BTree_Lookup TreePass TreePass_Evict TreePass_Coherence TreePass_Locks RC_Allocator Mini_Allocator Merge BTree_Iterator Shard_Log PackedArray Witnesses
begin

text \<open>
  Verification of SplinterDB with the TreePass page cache (\<open>src/splinterdb\<close>).

  \<^bold>\<open>The program.\<close> SplinterDB is a key-value store. Tuples (a key and a message) are first inserted into
  memtables, which are dynamic B-trees; full memtables become branches, packed B-trees, that a trunk tree organises.
  All trees live on pages of a device, accessed through a page cache. TreePass is that cache together with a
  protocol between the B-tree lookup and the cache: every pivot of an internal node counts the accesses to its child,
  a lookup classifies the child as warm or cold from this count, the time since the node entered the cache and the
  cache's eviction interval, and a page read as cold is evicted early.

  \<^bold>\<open>The theories\<close>, in the order of their dependencies:
  \<^item> \<open>Prelude\<close>: machine integers, status codes, page types, shared lemmas and collections of rewrite rules.
  \<^item> \<open>Util\<close> (\<open>util.h\<close>, \<open>util.c\<close>): slices, growable buffers, the number parsers, the hex encoder. Lemmas: the buffer
    invariant and what every operation does to the contents, the exact language the parsers accept, memory safety of
    the encoder.
  \<^item> \<open>Data\<close> (\<open>data_internal.h\<close>, \<open>data_internal.c\<close>, \<open>default_data_config.c\<close>): keys with infinities, messages, on-disk
    encodings, merge accumulators. The locale \<open>user_key_order\<close> is the contract of an application's comparison; it
    extends to keys with infinities and is interpreted for the default configuration. Lemmas: round trips.
  \<^item> \<open>BTree_Node\<close> (\<open>btree.c\<close>, \<open>btree_private.h\<close>): pages with a header, an offset table and entries; get, set, insert, binary
    search, incorporation of a tuple, defragmentation, truncation, splits. The locale \<open>node_layout\<close> holds the laws of the
    page layout for any kind of entry.
  \<^item> \<open>BTree_Leaf\<close>, \<open>BTree_Index\<close>: \<open>node_layout\<close> interpreted for leaf and index entries; every operation keeps the layout and
    refines an operation on lists of tuples or pivots, or on maps.
  \<^item> \<open>BTree_Lookup\<close>: pivot access counts, warm/cold classification, the descent of a lookup over the pages of a tree. A
    lookup returns what the abstract map of the tree has.
  \<^item> \<open>TreePass\<close> (\<open>treepass.c\<close>, \<open>treepass.h\<close>): the page cache as a record: entries with status words, page data, the lookup
    table, striped reference counts, pins, hands and the eviction interval, the device and the issued writes; all operations
    of one thread, run to completion, in an arbitrary state of the other threads.
  \<^item> \<open>TreePass_Evict\<close>: status words and clocks at their width, what an eviction attempt, a pass and \<open>treepass_evict_all\<close> do.
  \<^item> \<open>TreePass_Coherence\<close>: the invariant \<open>tp_inv\<close> and the contents \<open>page_view\<close> of every page of the store; eviction, writeback,
    completed writes and gets keep both. The locale \<open>page_cache\<close> is what a reader relies on, interpreted for \<open>treepass_get\<close>.
  \<^item> \<open>TreePass_Locks\<close>: the lock functions under concurrency, as a step relation on one entry: claims are unique, a writer is alone,
    and two races the code has.
  \<^item> \<open>RC_Allocator\<close> (\<open>rc_allocator.c\<close>, \<open>allocator.h\<close>): the reference counts of the extents, the search for a free one, the super
    block table, mounting and unmounting. Lemmas: the invariant of the counters, what an allocation takes, that its search ends.
  \<^item> \<open>Mini_Allocator\<close> (\<open>mini_allocator.c\<close>): batches of pages out of whole extents, the meta pages that record them, release and
    destruction. Lemmas: pages handed out are fresh, and at the end of its life a mini allocator has given everything back.
  \<^item> \<open>Merge\<close> (\<open>merge.c\<close>): the merge iterator over any inputs, in both directions; a locale holds the contract of an input, and
    the merge refines a fold over the sorted tuples of all inputs.
  \<^item> \<open>BTree_Iterator\<close> (\<open>btree.c\<close>): range iterators over a tree, at any height, in both directions; the contract of \<open>Merge\<close> is
    interpreted for them, so that a range scan over several branches is correct from the pages to the merged tuples.
  \<^item> \<open>Shard_Log\<close> (\<open>shard_log.c\<close>): the log of many threads, each on pages of its own, and what recovery finds.
  \<^item> \<open>PackedArray\<close> (\<open>PackedArray.c\<close>): arrays of items of 1 to 32 bits, as facts about the bits of the buffer.
  \<^item> \<open>Witnesses\<close>: concrete inputs at which the theorems apply.

  \<^bold>\<open>Conventions.\<close> \<open>None\<close> stands for a failed assertion, a wait for another thread, or a read of memory that holds
  nothing. Allocation failure, times, and other threads are arguments. Where a loop depends on other threads it has fuel: the
  retries of \<open>treepass_get\<close> and the batches tried by \<open>treepass_get_free_page\<close>; the walks through an extent have its number of pages
  as fuel, after which they have left it; the loop that advances the hand has the number of batches, after which it has seen them
  all. The search for a free extent has twice the number of extents, which covers a wrap-around of the hand; the walks over meta
  pages have one more step than there are pages; the merge has the number of remaining tuples; a pass over the log has more
  steps than pages were written. The theorems show that these suffice. Statistics, logging and printing have no model.

  \<^bold>\<open>Not modelled.\<close> The trunk and the core engine: they compose the parts above, but their operations interleave with
  background tasks, and a model of one of them without the others would say little. The descent of a B-tree insertion with its
  locks and retries, and packing; the node operations they use are in \<open>BTree_Node\<close>. Memtable rotation, routing filters, the
  task system, the platform layer (threads, locks, asynchronous I/O), printing and statistics.
\<close>

end
